(* ===== verification/Prelude.thy ===== *)
theory Prelude
  imports Main "HOL-Library.Word" "HOL-Library.Char_ord" "HOL-Library.List_Lexorder"
    "HOL-Library.Multiset" "HOL-Library.Sublist" "HOL-Library.AList"
begin

text \<open>
  Shared vocabulary of the development: the parts of Go and of its standard library that
  the Barnacles sources use (byte strings and the \<open>strings\<close> package, 64-bit integers,
  \<open>time.Time\<close>, decimal formatting, association-list maps, \<open>error + value\<close>
  results), the generic lemmas on lists and sums that several components need, and the
  collections of simplification rules that the component theories fill.

  A Go \<open>string\<close> is a sequence of bytes and so is \<^typ>\<open>string\<close>. \<open>strings.TrimSpace\<close>,
  \<open>ToUpper\<close>, \<open>ToLower\<close> and \<open>EqualFold\<close> are given by their ASCII rules; bytes from
  0x80 up are left alone, so the model is exact on ASCII text and does not describe the
  Unicode case folding and Unicode spaces of the Go functions.
\<close>

section \<open>Rule collections\<close>

named_theorems go_str_defs "definitions of the string functions"
named_theorems go_time_defs "definitions of the time functions"
named_theorems abs_simps "how operations act on abstraction functions"

section \<open>Results\<close>

text \<open>A Go function returning \<open>(T, error)\<close> gives a value of \<open>'e + 'a\<close>: \<open>Inl\<close> is the error.\<close>

type_synonym ('e, 'a) result = "'e + 'a"

lemma sum_case_Inl_iff [simp]:
  "(case r of Inl e \<Rightarrow> Inl e | Inr a \<Rightarrow> f a) = Inr b \<longleftrightarrow> (\<exists>a. r = Inr a \<and> f a = Inr b)"
  by (cases r) auto

section \<open>Machine integers\<close>

text \<open>\<open>int64\<close> (and \<open>int\<close> on 64-bit targets) arithmetic wraps around.\<close>

definition int64 :: "int \<Rightarrow> int" where
  "int64 x = signed_take_bit 63 x"

lemma int64_id: "- (2 ^ 63) \<le> x \<Longrightarrow> x < 2 ^ 63 \<Longrightarrow> int64 x = x"
  unfolding int64_def by (rule signed_take_bit_int_eq_self)

lemma int64_range: "- (2 ^ 63) \<le> int64 x \<and> int64 x < 2 ^ 63"
  unfolding int64_def
  using signed_take_bit_int_greater_eq_minus_exp [of 63 x] signed_take_bit_int_less_exp [of 63 x]
  by blast

section \<open>Strings\<close>

abbreviation code :: "char \<Rightarrow> nat" where
  "code c \<equiv> of_char c"

definition is_space :: "char \<Rightarrow> bool" where
  "is_space c \<longleftrightarrow> (9 \<le> code c \<and> code c \<le> 13) \<or> code c = 32"

definition upper_char :: "char \<Rightarrow> char" where
  "upper_char c = (if 97 \<le> code c \<and> code c \<le> 122 then char_of (code c - 32) else c)"

definition lower_char :: "char \<Rightarrow> char" where
  "lower_char c = (if 65 \<le> code c \<and> code c \<le> 90 then char_of (code c + 32) else c)"

definition TrimSpace :: "string \<Rightarrow> string" where
  [go_str_defs]: "TrimSpace s = rev (dropWhile is_space (rev (dropWhile is_space s)))"

definition ToUpper :: "string \<Rightarrow> string" where
  [go_str_defs]: "ToUpper s = map upper_char s"

definition ToLower :: "string \<Rightarrow> string" where
  [go_str_defs]: "ToLower s = map lower_char s"

definition EqualFold :: "string \<Rightarrow> string \<Rightarrow> bool" where
  [go_str_defs]: "EqualFold s t \<longleftrightarrow> ToLower s = ToLower t"

definition HasPrefix :: "string \<Rightarrow> string \<Rightarrow> bool" where
  "HasPrefix s p \<longleftrightarrow> take (length p) s = p"

definition HasSuffix :: "string \<Rightarrow> string \<Rightarrow> bool" where
  "HasSuffix s p \<longleftrightarrow> length p \<le> length s \<and> drop (length s - length p) s = p"

definition TrimPrefix :: "string \<Rightarrow> string \<Rightarrow> string" where
  "TrimPrefix s p = (if HasPrefix s p then drop (length p) s else s)"

definition TrimSuffix :: "string \<Rightarrow> string \<Rightarrow> string" where
  "TrimSuffix s p = (if HasSuffix s p then take (length s - length p) s else s)"

text \<open>\<open>strings.TrimRight(s, cutset)\<close> drops trailing bytes that are in the cutset.\<close>

definition TrimRight :: "string \<Rightarrow> string \<Rightarrow> string" where
  "TrimRight s cutset = rev (dropWhile (\<lambda>c. c \<in> set cutset) (rev s))"

fun Contains :: "string \<Rightarrow> string \<Rightarrow> bool" where
  "Contains [] t \<longleftrightarrow> t = []"
| "Contains (c # s) t \<longleftrightarrow> HasPrefix (c # s) t \<or> Contains s t"

lemma of_char_upper_char:
  "code (upper_char c) = (if 97 \<le> code c \<and> code c \<le> 122 then code c - 32 else code c)"
  by (auto simp: upper_char_def)

lemma of_char_lower_char:
  "code (lower_char c) = (if 65 \<le> code c \<and> code c \<le> 90 then code c + 32 else code c)"
  by (simp add: lower_char_def)

lemma char_eq_code: "c = d \<longleftrightarrow> code c = code d"
  by (auto simp: of_char_eq_iff)

lemma upper_lower_char [simp]: "upper_char (lower_char c) = upper_char c"
  by (simp add: char_eq_code of_char_upper_char of_char_lower_char)

lemma lower_upper_char [simp]: "lower_char (upper_char c) = lower_char c"
  by (auto simp: char_eq_code of_char_upper_char of_char_lower_char)

lemma upper_upper_char [simp]: "upper_char (upper_char c) = upper_char c"
  by (auto simp: char_eq_code of_char_upper_char)

lemma is_space_upper_char [simp]: "is_space (upper_char c) = is_space c"
  by (auto simp: is_space_def of_char_upper_char)

lemma ToUpper_ToUpper [simp]: "ToUpper (ToUpper s) = ToUpper s"
  by (simp add: ToUpper_def)

lemma ToUpper_ToLower [simp]: "ToUpper (ToLower s) = ToUpper s"
  by (simp add: ToUpper_def ToLower_def)

lemma ToLower_ToUpper [simp]: "ToLower (ToUpper s) = ToLower s"
  by (simp add: ToUpper_def ToLower_def)

lemma ToUpper_Nil_iff [simp]: "ToUpper s = [] \<longleftrightarrow> s = []"
  by (simp add: ToUpper_def)

lemma ToUpper_TrimSpace: "ToUpper (TrimSpace s) = TrimSpace (ToUpper s)"
proof -
  have dw: "dropWhile is_space (map upper_char xs) = map upper_char (dropWhile is_space xs)" for xs
    by (simp add: dropWhile_map comp_def)
  show ?thesis
    by (simp add: ToUpper_def TrimSpace_def dw rev_map)
qed

lemma EqualFold_refl [simp]: "EqualFold s s"
  by (simp add: EqualFold_def)

lemma EqualFold_ToUpper: "EqualFold s t \<longleftrightarrow> ToUpper s = ToUpper t"
  unfolding EqualFold_def by (metis ToLower_ToUpper ToUpper_ToLower)

lemma EqualFold_ToUpper_right [simp]: "EqualFold s (ToUpper t) \<longleftrightarrow> EqualFold s t"
  by (simp add: EqualFold_ToUpper)

lemma HasSuffix_append [simp]: "HasSuffix (s @ p) p"
  by (simp add: HasSuffix_def)

lemma HasSuffix_iff: "HasSuffix s p \<longleftrightarrow> (\<exists>r. s = r @ p)"
proof
  assume "HasSuffix s p"
  then have "s = take (length s - length p) s @ p"
    unfolding HasSuffix_def by (metis append_take_drop_id)
  then show "\<exists>r. s = r @ p" by blast
qed (auto simp: HasSuffix_def)

lemma HasPrefix_iff: "HasPrefix s p \<longleftrightarrow> (\<exists>r. s = p @ r)"
  unfolding HasPrefix_def by (metis append_eq_conv_conj)

lemma TrimSuffix_append [simp]: "TrimSuffix (s @ p) p = s"
  by (simp add: TrimSuffix_def)

lemma HasPrefix_append [simp]: "HasPrefix (p @ r) p"
  by (simp add: HasPrefix_def)

lemma TrimPrefix_append [simp]: "TrimPrefix (p @ r) p = r"
  by (simp add: TrimPrefix_def)

lemma dropWhile_rev_dropWhile:
  "dropWhile P (rev (dropWhile P (rev (dropWhile P xs)))) = rev (dropWhile P (rev (dropWhile P xs)))"
proof (cases "dropWhile P xs")
  case Nil
  show ?thesis by (simp only: Nil rev.simps dropWhile.simps)
next
  case (Cons y ys)
  then have y: "\<not> P y"
    using hd_dropWhile [of P xs] by simp
  then have "dropWhile P (rev ys @ [y]) = dropWhile P (rev ys) @ [y]"
    by (simp add: dropWhile_append dropWhile_eq_Nil_conv)
  with Cons y show ?thesis by simp
qed

lemma TrimSpace_idem [simp]: "TrimSpace (TrimSpace s) = TrimSpace s"
  by (simp add: TrimSpace_def dropWhile_rev_dropWhile)

text \<open>\<open>strings.Split\<close> at a single byte, and \<open>strings.Join\<close>.\<close>

fun Split :: "char \<Rightarrow> string \<Rightarrow> string list" where
  "Split sep [] = [[]]"
| "Split sep (c # cs) = (if c = sep then [] # Split sep cs else (c # hd (Split sep cs)) # tl (Split sep cs))"

fun Join :: "string \<Rightarrow> string list \<Rightarrow> string" where
  "Join sep [] = []"
| "Join sep [x] = x"
| "Join sep (x # y # ys) = x @ sep @ Join sep (y # ys)"

lemma Split_ne [simp]: "Split sep s \<noteq> []"
  by (induction s) simp_all

text \<open>For evaluation, with one recursive call.\<close>

lemma Split_code [code]:
  "Split sep [] = [[]]"
  "Split sep (c # cs) = (case Split sep cs of [] \<Rightarrow> [[]] | x # xs \<Rightarrow> if c = sep then [] # x # xs else (c # x) # xs)"
  by (simp, cases "Split sep cs") simp_all

lemma Split_append:
  "Split sep (s @ t) = butlast (Split sep s) @ (last (Split sep s) @ hd (Split sep t)) # tl (Split sep t)"
proof (induction s)
  case (Cons c cs)
  then show ?case by (cases "Split sep cs") simp_all
qed simp

lemma Split_no_sep: "sep \<notin> set s \<Longrightarrow> Split sep s = [s]"
  by (induction s) auto

lemma Split_free: "list_all (\<lambda>l. sep \<notin> set l) (Split sep s)"
proof (induction s)
  case (Cons c cs)
  then show ?case by (cases "Split sep cs") (simp_all split: if_splits)
qed simp

lemma Join_Split: "Join [sep] (Split sep s) = s"
proof (induction s)
  case (Cons c cs)
  obtain x xs where "Split sep cs = x # xs" by (cases "Split sep cs") auto
  with Cons show ?case by (cases xs) auto
qed simp

section \<open>Decimal formatting\<close>

text \<open>\<open>strconv.Itoa\<close> on naturals, and the \<open>%020d\<close> and \<open>%04d\<close> verbs of \<open>fmt\<close>.\<close>

definition digit :: "nat \<Rightarrow> char" where
  "digit d = char_of (48 + d)"

fun dec :: "nat \<Rightarrow> string" where
  "dec n = (if n < 10 then [digit n] else dec (n div 10) @ [digit (n mod 10)])"

declare dec.simps [simp del]

definition Itoa :: "int \<Rightarrow> string" where
  "Itoa i = (if i < 0 then CHR ''-'' # dec (nat (- i)) else dec (nat i))"

definition zpad :: "nat \<Rightarrow> nat \<Rightarrow> string" where
  "zpad w n = replicate (w - length (dec n)) CHR ''0'' @ dec n"

text \<open>The sign counts towards the width.\<close>

definition sprintf_0d :: "nat \<Rightarrow> int \<Rightarrow> string" where
  "sprintf_0d w i = (if i < 0 then CHR ''-'' # zpad (w - 1) (nat (- i)) else zpad w (nat i))"

text \<open>Reading a decimal back, and \<open>strconv.ParseInt(s, 10, 64)\<close>.\<close>

definition read_dec :: "string \<Rightarrow> int option" where
  "read_dec s =
     (if s \<noteq> [] \<and> list_all (\<lambda>c. 48 \<le> code c \<and> code c \<le> 57) s
      then Some (foldl (\<lambda>a c. 10 * a + (of_char c - 48)) 0 s) else None)"

definition ParseInt :: "string \<Rightarrow> int option" where
  "ParseInt s =
     (let v = (case s of
                 [] \<Rightarrow> None
               | c # cs \<Rightarrow> if c = CHR ''-'' then map_option uminus (read_dec cs)
                            else if c = CHR ''+'' then read_dec cs else read_dec s)
      in case v of None \<Rightarrow> None | Some n \<Rightarrow> if - (2 ^ 63) \<le> n \<and> n < 2 ^ 63 then Some n else None)"

lemma dec_small: "n < 10 \<Longrightarrow> dec n = [digit n]"
  by (subst dec.simps) simp

lemma dec_big: "10 \<le> n \<Longrightarrow> dec n = dec (n div 10) @ [digit (n mod 10)]"
  by (subst dec.simps) simp

lemma length_dec_le: "n < 10 ^ w \<Longrightarrow> 0 < w \<Longrightarrow> length (dec n) \<le> w"
proof (induction n arbitrary: w rule: dec.induct)
  case (1 n)
  show ?case
  proof (cases "n < 10")
    case True
    with "1.prems" show ?thesis by (simp add: dec_small)
  next
    case False
    then obtain v where w: "w = Suc v" "0 < v"
      using "1.prems" by (cases w; cases "w - 1") auto
    then have "n div 10 < 10 ^ v"
      using "1.prems" by (simp add: less_mult_imp_div_less mult.commute)
    then have "length (dec (n div 10)) \<le> v"
      using "1.IH" [OF False] w by blast
    with False w show ?thesis by (simp add: dec_big)
  qed
qed

lemma zpad_Suc:
  assumes "n < 10 ^ Suc w" and "0 < w"
  shows "zpad (Suc w) n = zpad w (n div 10) @ [digit (n mod 10)]"
proof (cases "n < 10")
  case True
  have "digit 0 = CHR ''0''" by code_simp
  with True assms(2) show ?thesis
    by (cases w) (simp_all add: zpad_def dec_small replicate_append_same)
next
  case False
  then show ?thesis by (simp add: zpad_def dec_big)
qed

lemma length_zpad: "n < 10 ^ w \<Longrightarrow> 0 < w \<Longrightarrow> length (zpad w n) = w"
  using length_dec_le [of n w] by (simp add: zpad_def)

lemma code_digit: "d < 10 \<Longrightarrow> code (digit d) = 48 + d"
  by (simp add: digit_def)

lemma digit_less: "a < 10 \<Longrightarrow> b < 10 \<Longrightarrow> digit a < digit b \<longleftrightarrow> a < b"
  by (simp add: less_char_def code_digit)

lemma digit_inject: "a < 10 \<Longrightarrow> b < 10 \<Longrightarrow> digit a = digit b \<longleftrightarrow> a = b"
  by (auto simp: char_eq_code code_digit)

lemma less_append_same_length:
  fixes xs ys :: "'a::linorder list"
  assumes "length xs = length ys"
  shows "xs @ us < ys @ vs \<longleftrightarrow> xs < ys \<or> (xs = ys \<and> us < vs)"
  using assms by (induction xs ys rule: list_induct2) auto

lemma less_div_mod_10:
  "m < n \<longleftrightarrow> m div 10 < n div 10 \<or> (m div 10 = n div 10 \<and> m mod 10 < n mod 10)" for m n :: nat
proof -
  have m: "m = 10 * (m div 10) + m mod 10" and n: "n = 10 * (n div 10) + n mod 10"
    by simp_all
  have less: "m mod 10 < 10" "n mod 10 < 10" by simp_all
  have "10 * a + r < 10 * b + q \<longleftrightarrow> a < b \<or> (a = b \<and> r < q)" if "r < 10" "q < 10" for a r b q :: nat
    using that by linarith
  from this [OF less] show ?thesis using m n by metis
qed

text \<open>Zero-padded decimals of one width compare as the numbers do.\<close>

lemma zpad_less:
  assumes "m < 10 ^ w" and "n < 10 ^ w" and "0 < w"
  shows "zpad w m < zpad w n \<longleftrightarrow> m < n"
  using assms(3,1,2)
proof (induction w arbitrary: m n rule: nat_induct_non_zero)
  case 1
  then show ?case by (simp add: zpad_def dec_small digit_less)
next
  case (Suc w)
  have d: "m div 10 < 10 ^ w" "n div 10 < 10 ^ w"
    using Suc.prems by (simp_all add: less_mult_imp_div_less mult.commute)
  have eq: "zpad w (m div 10) = zpad w (n div 10) \<longleftrightarrow> m div 10 = n div 10"
    using Suc.IH [OF d] Suc.IH [OF d(2,1)] by (auto simp: nat_neq_iff)
  have len: "length (zpad w (m div 10)) = length (zpad w (n div 10))"
    using d Suc.hyps by (simp add: length_zpad)
  have "zpad (Suc w) m < zpad (Suc w) n \<longleftrightarrow>
      zpad w (m div 10) < zpad w (n div 10) \<or>
      (zpad w (m div 10) = zpad w (n div 10) \<and> digit (m mod 10) < digit (n mod 10))"
    unfolding zpad_Suc [OF Suc.prems(1) Suc.hyps] zpad_Suc [OF Suc.prems(2) Suc.hyps]
      less_append_same_length [OF len] by simp
  also have "\<dots> \<longleftrightarrow> m div 10 < n div 10 \<or> (m div 10 = n div 10 \<and> m mod 10 < n mod 10)"
    unfolding eq Suc.IH [OF d] by (simp add: digit_less)
  also have "\<dots> \<longleftrightarrow> m < n" by (rule less_div_mod_10 [symmetric])
  finally show ?case .
qed

text \<open>Reading back what was printed.\<close>

lemma read_dec_snoc:
  assumes "read_dec xs = Some v" and "d < 10"
  shows "read_dec (xs @ [digit d]) = Some (10 * v + int d)"
proof -
  have c: "code (digit d) = 48 + d" using assms(2) by (rule code_digit)
  have "(of_char (digit d) :: int) = int (code (digit d))" by (cases "digit d") simp
  then show ?thesis using assms c by (auto simp: read_dec_def split: if_splits)
qed

lemma read_dec_zpad: "0 < w \<Longrightarrow> n < 10 ^ w \<Longrightarrow> read_dec (zpad w n) = Some (int n)"
proof (induction w arbitrary: n rule: nat_induct_non_zero)
  case 1
  then have "zpad 1 n = [digit n]" by (simp add: zpad_def dec_small)
  moreover have c: "code (digit n) = 48 + n" using 1 code_digit by simp
  moreover have "(of_char (digit n) :: int) = int (code (digit n))" by (cases "digit n") simp
  ultimately show ?case using 1 by (simp add: read_dec_def)
next
  case (Suc w)
  have n: "n div 10 < 10 ^ w" using Suc.prems by auto
  have "int n = 10 * int (n div 10) + int (n mod 10)" by presburger
  with read_dec_snoc [OF Suc.IH [OF n], of "n mod 10"] show ?case
    by (simp add: zpad_Suc [OF Suc.prems Suc.hyps])
qed

lemma read_dec_dec: "read_dec (dec n) = Some (int n)"
proof (induction n rule: dec.induct)
  case (1 n)
  show ?case
  proof (cases "n < 10")
    case True
    then have "zpad 1 n = dec n" by (simp add: zpad_def dec_small)
    with read_dec_zpad [of 1 n] True show ?thesis by simp
  next
    case False
    have "int n = 10 * int (n div 10) + int (n mod 10)" by presburger
    with read_dec_snoc [OF 1 [OF False], of "n mod 10"] False show ?thesis by (simp add: dec_big)
  qed
qed

lemma read_dec_zeros:
  assumes "xs \<noteq> []"
  shows "read_dec (replicate k CHR ''0'' @ xs) = read_dec xs"
proof -
  have z: "code CHR ''0'' = 48" "(of_char CHR ''0'' :: int) = 48" by simp_all
  have "foldl (\<lambda>a c. 10 * a + (of_char c - 48)) (0::int) (replicate k CHR ''0'') = 0"
    by (induction k) (simp_all add: z)
  moreover have "list_all (\<lambda>c. 48 \<le> code c \<and> code c \<le> 57) (replicate k CHR ''0'')"
    by (simp add: list_all_iff z)
  ultimately show ?thesis using assms by (simp add: read_dec_def)
qed

lemma zpad_inj: "zpad w m = zpad w n \<Longrightarrow> m = n"
proof -
  have "dec k \<noteq> []" for k by (subst dec.simps) simp
  then have "read_dec (zpad w k) = Some (int k)" for k by (simp add: zpad_def read_dec_zeros read_dec_dec)
  then show "zpad w m = zpad w n \<Longrightarrow> m = n" by (metis of_nat_eq_iff option.inject)
qed

section \<open>Time\<close>

text \<open>
  A \<open>time.Time\<close> is an instant, here in nanoseconds since the Unix epoch, with the offset of
  its location in seconds east of UTC. \<open>Before\<close>, \<open>After\<close> and \<open>Sub\<close> compare instants
  only; \<open>Format\<close> reads the clock of the location. The zero value is midnight of
  January 1 of year 1, UTC.
\<close>

record gotime =
  instant :: int
  zone :: int

definition zero_time :: gotime where
  "zero_time = \<lparr>instant = - 62135596800000000000, zone = 0\<rparr>"

definition IsZero :: "gotime \<Rightarrow> bool" where
  "IsZero t \<longleftrightarrow> instant t = instant zero_time"

definition Before :: "gotime \<Rightarrow> gotime \<Rightarrow> bool" where
  [go_time_defs]: "Before t u \<longleftrightarrow> instant t < instant u"

definition After :: "gotime \<Rightarrow> gotime \<Rightarrow> bool" where
  [go_time_defs]: "After t u \<longleftrightarrow> instant u < instant t"

text \<open>\<open>UnixNano\<close> wraps where the instant does not fit in an \<open>int64\<close>; \<open>Sub\<close> saturates.\<close>

definition UnixNano :: "gotime \<Rightarrow> int" where
  "UnixNano t = int64 (instant t)"

definition time_Sub :: "gotime \<Rightarrow> gotime \<Rightarrow> int" where
  "time_Sub t u = max (- (2 ^ 63)) (min (2 ^ 63 - 1) (instant t - instant u))"

definition UTC :: "gotime \<Rightarrow> gotime" where
  [go_time_defs]: "UTC t = t\<lparr>zone := 0\<rparr>"

text \<open>\<open>time.Unix(0, n).UTC()\<close>\<close>

definition unix_utc :: "int \<Rightarrow> gotime" where
  [go_time_defs]: "unix_utc n = \<lparr>instant = n, zone = 0\<rparr>"

text \<open>Instants from 1678 to 2262, for which \<open>UnixNano\<close> is exact.\<close>

definition nano_range :: "gotime \<Rightarrow> bool" where
  "nano_range t \<longleftrightarrow> - (2 ^ 63) \<le> instant t \<and> instant t < 2 ^ 63"

lemma UnixNano_exact [simp]: "nano_range t \<Longrightarrow> UnixNano t = instant t"
  by (simp add: nano_range_def UnixNano_def int64_id)

lemma IsZero_zero_time [simp]: "IsZero zero_time"
  by (simp add: IsZero_def)

lemma nano_range_not_zero: "nano_range t \<Longrightarrow> \<not> IsZero t"
  by (auto simp: nano_range_def IsZero_def zero_time_def)

section \<open>Lists\<close>

text \<open>Removal of the first element that satisfies a predicate, and of an index range.\<close>

fun remove_first :: "('a \<Rightarrow> bool) \<Rightarrow> 'a list \<Rightarrow> 'a list" where
  "remove_first P [] = []"
| "remove_first P (x # xs) = (if P x then xs else x # remove_first P xs)"

fun update_first :: "('a \<Rightarrow> bool) \<Rightarrow> 'a \<Rightarrow> 'a list \<Rightarrow> 'a list" where
  "update_first P v [] = []"
| "update_first P v (x # xs) = (if P x then v # xs else x # update_first P v xs)"

definition lastn :: "nat \<Rightarrow> 'a list \<Rightarrow> 'a list" where
  "lastn n xs = drop (length xs - n) xs"

lemma length_lastn [simp]: "length (lastn n xs) = min n (length xs)"
  by (simp add: lastn_def)

lemma lastn_all [simp]: "length xs \<le> n \<Longrightarrow> lastn n xs = xs"
  by (simp add: lastn_def)

lemma lastn_snoc: "0 < n \<Longrightarrow> lastn n (xs @ [x]) = lastn (n - 1) xs @ [x]"
  by (cases n) (auto simp: lastn_def Suc_diff_le not_le)

lemma lastn_lastn: "lastn m (lastn n xs) = lastn (min m n) xs"
  by (cases "n \<le> length xs"; cases "m \<le> n") (simp_all add: lastn_def min_def)

lemma lastn_append_lastn: "lastn n (lastn n xs @ ys) = lastn n (xs @ ys)"
proof (cases "length xs \<le> n")
  case False
  then have "length (lastn n xs) = n" by simp
  with False show ?thesis by (simp add: lastn_def add.commute)
qed simp

lemma remove_first_subset: "set (remove_first P xs) \<subseteq> set xs"
  by (induction xs) auto

lemma distinct_map_remove_first: "distinct (map f xs) \<Longrightarrow> distinct (map f (remove_first P xs))"
  by (induction xs) (use remove_first_subset in fastforce)+

lemma sum_list_remove_first:
  fixes f :: "'a \<Rightarrow> 'b::ab_group_add"
  assumes "distinct (map g xs)" and "x \<in> set xs"
  shows "sum_list (map f (remove_first (\<lambda>y. g y = g x) xs)) = sum_list (map f xs) - f x"
  using assms by (induction xs) (auto simp: algebra_simps)

lemma distinct_map_filter_unique:
  "distinct (map f xs) \<Longrightarrow> x \<in> set xs \<Longrightarrow> f x = k \<Longrightarrow> filter (\<lambda>y. f y = k) xs = [x]"
proof (induction xs)
  case (Cons z zs)
  show ?case
  proof (cases "f z = k")
    case True
    then have "filter (\<lambda>y. f y = k) zs = []"
      using Cons.prems(1) by (auto simp: filter_empty_conv image_iff)
    moreover have "z = x" using True Cons.prems by (auto simp: image_iff)
    ultimately show ?thesis using True by simp
  qed (use Cons in auto)
qed simp

section \<open>Maps as association lists\<close>

text \<open>
  A Go map that the code ranges over is an association list with distinct keys, in the
  order of one iteration; a lookup is \<^const>\<open>map_of\<close>, a store \<^const>\<open>AList.update\<close>,
  \<open>delete\<close> is \<^const>\<open>AList.delete\<close>.
\<close>

type_synonym ('k, 'v) gomap = "('k \<times> 'v) list"

abbreviation wf_map :: "('k, 'v) gomap \<Rightarrow> bool" where
  "wf_map m \<equiv> distinct (map fst m)"

lemma update_new: "k \<notin> fst ` set m \<Longrightarrow> AList.update k v m = m @ [(k, v)]"
  by (induction m) auto

lemma wf_map_update [simp]: "wf_map m \<Longrightarrow> wf_map (AList.update k v m)"
  by (rule distinct_update)

lemma wf_map_delete [simp]: "wf_map m \<Longrightarrow> wf_map (AList.delete k m)"
  by (rule distinct_delete)

end
