(* ===== verification/LogEntry.thy ===== *)
theory LogEntry
  imports Prelude
begin

text \<open>
  The domain model of \<open>internal/logentry/logentry.go\<close>: the log entry, its constructor, the
  validation every ingested entry passes, the query and its normal form, the match predicate
  that all query paths share, and the wire envelopes. \<open>uuid.NewString()\<close> and
  \<open>time.Now().UTC()\<close> are arguments (\<open>uuid\<close>, \<open>now\<close>) of the functions that call them. A nil
  and an empty \<open>Fields\<close> map behave alike in the code and are both the empty list.
\<close>

section \<open>Data\<close>

datatype entry_error = ErrMissingHost | ErrMissingSource | ErrMissingMessage | ErrMessageTooLarge

definition MaxMessageBytes :: int where
  "MaxMessageBytes = 1024 * 1024"

definition DefaultQueryLimit :: int where
  "DefaultQueryLimit = 100"

definition MaxQueryLimit :: int where
  "MaxQueryLimit = 10000"

record log_entry =
  ID :: string
  Timestamp :: gotime
  Host :: string
  Source :: string
  Level :: string
  Message :: string
  Fields :: "(string, string) gomap"

record ingest_request =
  AgentID :: string
  Events :: "log_entry list"

record ingest_response =
  Status :: string
  Accepted :: int
  Duplicates :: int
  Errors :: "string list"

record log_query =
  q_Host :: string
  q_Source :: string
  q_Level :: string
  q_StartTime :: gotime
  q_EndTime :: gotime
  q_Search :: string
  q_Limit :: int

section \<open>Operations\<close>

definition New_entry ::
  "string \<Rightarrow> gotime \<Rightarrow> string \<Rightarrow> string \<Rightarrow> string \<Rightarrow> string \<Rightarrow> (string, string) gomap \<Rightarrow> log_entry" where
  "New_entry uuid now host source level message flds =
     (let normLevel = ToUpper (TrimSpace level)
      in \<lparr>ID = uuid, Timestamp = now, Host = TrimSpace host, Source = TrimSpace source,
          Level = (if normLevel = '''' then ''INFO'' else normLevel),
          Message = message, Fields = flds\<rparr>)"

text \<open>
  \<open>Validate\<close> has a pointer receiver: it completes the entry in place, also when it then
  returns an error, so the model returns the error (if any) and the entry as left behind.
\<close>

definition Validate :: "string \<Rightarrow> gotime \<Rightarrow> int \<Rightarrow> log_entry \<Rightarrow> entry_error option \<times> log_entry" where
  "Validate uuid now maxMsgBytes e0 =
     (let e = (if TrimSpace (ID e0) = '''' then e0\<lparr>ID := uuid\<rparr> else e0);
          e = (if IsZero (Timestamp e) then e\<lparr>Timestamp := now\<rparr> else e)
      in if TrimSpace (Host e) = '''' then (Some ErrMissingHost, e)
         else if TrimSpace (Source e) = '''' then (Some ErrMissingSource, e)
         else if Message e = '''' then (Some ErrMissingMessage, e)
         else
           let limit = (if maxMsgBytes \<le> 0 then MaxMessageBytes else maxMsgBytes)
           in if limit < int (length (Message e)) then (Some ErrMessageTooLarge, e)
              else (None, e\<lparr>Level := (if Level e = '''' then ''INFO''
                                        else ToUpper (TrimSpace (Level e)))\<rparr>))"

definition field_matches :: "string \<Rightarrow> string \<times> string \<Rightarrow> bool" where
  "field_matches lowerSearch kv \<longleftrightarrow>
     Contains (ToLower (fst kv)) lowerSearch \<or> Contains (ToLower (snd kv)) lowerSearch"

definition Matches :: "log_entry \<Rightarrow> log_query \<Rightarrow> bool" where
  "Matches e q \<longleftrightarrow>
     (if q_Host q \<noteq> '''' \<and> \<not> EqualFold (Host e) (q_Host q) then False
      else if q_Source q \<noteq> '''' \<and> \<not> EqualFold (Source e) (q_Source q) then False
      else if q_Level q \<noteq> '''' \<and> \<not> EqualFold (Level e) (q_Level q) then False
      else if \<not> IsZero (q_StartTime q) \<and> Before (Timestamp e) (q_StartTime q) then False
      else if \<not> IsZero (q_EndTime q) \<and> After (Timestamp e) (q_EndTime q) then False
      else if q_Search q \<noteq> '''' then
        (let lowerSearch = ToLower (q_Search q)
         in Contains (ToLower (Message e)) lowerSearch \<or>
            list_ex (field_matches lowerSearch) (Fields e))
      else True)"

definition Normalize :: "log_query \<Rightarrow> log_query" where
  "Normalize q =
     (let l = (if q_Limit q \<le> 0 then DefaultQueryLimit else q_Limit q);
          l = (if MaxQueryLimit < l then MaxQueryLimit else l)
      in q\<lparr>q_Limit := l, q_Host := TrimSpace (q_Host q), q_Source := TrimSpace (q_Source q),
           q_Level := ToUpper (TrimSpace (q_Level q)), q_Search := TrimSpace (q_Search q)\<rparr>)"

section \<open>Facts\<close>

text \<open>What \<open>Validate\<close> promises of an entry it accepts.\<close>

definition entry_ok :: "int \<Rightarrow> log_entry \<Rightarrow> bool" where
  "entry_ok maxMsgBytes e \<longleftrightarrow>
     TrimSpace (ID e) \<noteq> '''' \<and> \<not> IsZero (Timestamp e) \<and>
     TrimSpace (Host e) \<noteq> '''' \<and> TrimSpace (Source e) \<noteq> '''' \<and> Message e \<noteq> '''' \<and>
     int (length (Message e)) \<le> (if maxMsgBytes \<le> 0 then MaxMessageBytes else maxMsgBytes) \<and>
     ToUpper (TrimSpace (Level e)) = Level e"

lemma ToUpper_INFO [simp]:
  "ToUpper (TrimSpace ''INFO'') = ''INFO''" "TrimSpace (ToUpper ''INFO'') = ''INFO''"
  by code_simp+

lemma TrimSpace_Nil [simp]: "TrimSpace '''' = ''''"
  by (simp add: TrimSpace_def)

lemma Validate_accepts:
  assumes "Validate uuid now m e0 = (None, e)" and "TrimSpace uuid \<noteq> ''''" and "\<not> IsZero now"
  shows "entry_ok m e"
  using assms
  by (auto simp: Validate_def entry_ok_def Let_def ToUpper_TrimSpace split: if_splits)

lemma Validate_accepts_iff:
  "fst (Validate uuid now m e) = None \<longleftrightarrow>
     TrimSpace (Host e) \<noteq> '''' \<and> TrimSpace (Source e) \<noteq> '''' \<and> Message e \<noteq> '''' \<and>
     int (length (Message e)) \<le> (if m \<le> 0 then MaxMessageBytes else m)"
  by (auto simp: Validate_def Let_def)

lemma Validate_keeps:
  "Validate uuid now m e0 = (r, e) \<Longrightarrow>
     Host e = Host e0 \<and> Source e = Source e0 \<and> Message e = Message e0 \<and> Fields e = Fields e0"
  by (auto simp: Validate_def Let_def split: if_splits)

lemma Validate_keeps_ID:
  "Validate uuid now m e0 = (r, e) \<Longrightarrow> ID e = (if TrimSpace (ID e0) = '''' then uuid else ID e0)"
  by (auto simp: Validate_def Let_def split: if_splits)

lemma Validate_entry_ok:
  assumes "entry_ok m e"
  shows "fst (Validate uuid now m e) = None"
    and "Level e \<noteq> '''' \<Longrightarrow> Validate uuid now m e = (None, e)"
  using assms by (auto simp: Validate_def entry_ok_def Let_def)

lemma Normalize_Limit: "1 \<le> q_Limit (Normalize q) \<and> q_Limit (Normalize q) \<le> MaxQueryLimit"
  by (auto simp: Normalize_def Let_def MaxQueryLimit_def DefaultQueryLimit_def)

lemma Normalize_idem: "Normalize (Normalize q) = Normalize q"
  using Normalize_Limit [of q] by (auto simp: Normalize_def Let_def ToUpper_TrimSpace)

lemma Normalize_sel [simp]:
  "q_Host (Normalize q) = TrimSpace (q_Host q)"
  "q_Source (Normalize q) = TrimSpace (q_Source q)"
  "q_Level (Normalize q) = ToUpper (TrimSpace (q_Level q))"
  "q_StartTime (Normalize q) = q_StartTime q"
  "q_EndTime (Normalize q) = q_EndTime q"
  "q_Search (Normalize q) = TrimSpace (q_Search q)"
  by (simp_all add: Normalize_def Let_def)

lemma Matches_dest:
  assumes "Matches e q"
  shows Matches_Host: "q_Host q \<noteq> '''' \<Longrightarrow> EqualFold (Host e) (q_Host q)"
    and Matches_Source: "q_Source q \<noteq> '''' \<Longrightarrow> EqualFold (Source e) (q_Source q)"
    and Matches_Level: "q_Level q \<noteq> '''' \<Longrightarrow> EqualFold (Level e) (q_Level q)"
    and Matches_Start: "\<not> IsZero (q_StartTime q) \<Longrightarrow> instant (q_StartTime q) \<le> instant (Timestamp e)"
    and Matches_End: "\<not> IsZero (q_EndTime q) \<Longrightarrow> instant (Timestamp e) \<le> instant (q_EndTime q)"
  using assms by (auto simp: Matches_def Before_def After_def split: if_splits)

end
