(* ===== verification/LeaseQueue.thy ===== *)
theory LeaseQueue
  imports Prelude
begin

text \<open>
  The contract of the agent's durable buffer, stated apart from its implementation: a FIFO of
  batches in which the oldest batch can be leased, acknowledged or given back. A put may evict
  old batches (disk limit), never the leased one; a restart forgets the lease and keeps the
  batches, again up to eviction. The locale \<open>lease_queue\<close> is what an implementation has
  to provide, and what its clients may use: a simulation of this contract. The spool of
  \<open>internal/spool\<close> provides it (theory \<open>Spool\<close>); the agent relies on it.
\<close>

section \<open>The abstract queue\<close>

datatype 'b lq_obs = Put 'b nat | Lease 'b | Ack 'b | Restart nat | Tau

type_synonym 'b lq = "'b list \<times> bool"

definition held_count :: "bool \<Rightarrow> nat" where
  "held_count l = (if l then 1 else 0)"

definition evict :: "bool \<Rightarrow> nat \<Rightarrow> 'b list \<Rightarrow> 'b list" where
  "evict l k q = take (held_count l) q @ drop (held_count l + k) q"

inductive lq_step :: "'b lq \<Rightarrow> 'b lq_obs \<Rightarrow> 'b lq \<Rightarrow> bool" where
  put: "held_count l \<le> length q \<Longrightarrow> held_count l + k \<le> Suc (length q) \<Longrightarrow> lq_step (q, l) (Put b k) (evict l k (q @ [b]), l)"
| lease: "lq_step (b # q, False) (Lease b) (b # q, True)"
| ack: "lq_step (b # q, True) (Ack b) (q, False)"
| release: "lq_step (q, True) Tau (q, False)"
| idle: "lq_step (q, l) Tau (q, l)"
| restart: "k \<le> length q \<Longrightarrow> lq_step (q, l) (Restart k) (drop k q, False)"

inductive_cases lq_stepE: "lq_step a x b"

inductive lq_run :: "'b lq \<Rightarrow> 'b lq_obs list \<Rightarrow> 'b lq \<Rightarrow> bool" where
  lq_nil: "lq_run a [] a"
| lq_snoc: "lq_run a xs b \<Longrightarrow> lq_step b x c \<Longrightarrow> lq_run a (xs @ [x]) c"

text \<open>What went in, what was acknowledged, and whether anything was evicted.\<close>

fun puts :: "'b lq_obs list \<Rightarrow> 'b list" where
  "puts [] = []"
| "puts (Put b k # xs) = b # puts xs"
| "puts (x # xs) = puts xs"

fun acks :: "'b lq_obs list \<Rightarrow> 'b list" where
  "acks [] = []"
| "acks (Ack b # xs) = b # acks xs"
| "acks (x # xs) = acks xs"

fun evicts :: "'b lq_obs \<Rightarrow> bool" where
  "evicts (Put b k) = (k \<noteq> 0)"
| "evicts (Restart k) = (k \<noteq> 0)"
| "evicts x = False"

fun evictions :: "'b lq_obs list \<Rightarrow> nat" where
  "evictions [] = 0"
| "evictions (Put b k # xs) = k + evictions xs"
| "evictions (Restart k # xs) = k + evictions xs"
| "evictions (x # xs) = evictions xs"

lemma evictions_append [simp]: "evictions (xs @ ys) = evictions xs + evictions ys"
  by (induction xs rule: evictions.induct) auto

lemma puts_append [simp]: "puts (xs @ ys) = puts xs @ puts ys"
  by (induction xs rule: puts.induct) auto

lemma acks_append [simp]: "acks (xs @ ys) = acks xs @ acks ys"
  by (induction xs rule: acks.induct) auto

lemma evict_0 [simp]: "evict l 0 q = q"
  by (simp add: evict_def)

lemma subseq_evict: "subseq (evict l k q) q"
proof -
  have "subseq (take n q @ drop (n + k) q) (take n q @ drop n q)" for n
    by (intro list_emb_append_mono) (auto simp: add.commute drop_drop [symmetric] simp del: drop_drop)
  then show ?thesis by (simp add: evict_def)
qed

text \<open>Acknowledged batches followed by the queue are what was put, less what was evicted, in order.\<close>

lemma lq_run_subseq:
  assumes "lq_run ([], False) xs (q, l)"
  shows "subseq (acks xs @ q) (puts xs)"
  using assms
proof (induction "([] :: 'a list, False)" xs "(q, l)" arbitrary: q l rule: lq_run.induct)
  case lq_nil
  then show ?case by simp
next
  case (lq_snoc xs b x)
  obtain q' l' where b: "b = (q', l')" by fastforce
  from lq_snoc(2) [OF b] have ih: "subseq (acks xs @ q') (puts xs)" .
  have weak: "subseq (acks xs @ q) (puts xs)" if "subseq q q'" for q
    using that ih by (meson list_emb_append_mono subseq_order.dual_order.trans subseq_order.order_refl)
  from lq_snoc(3) show ?case unfolding b
  proof (cases rule: lq_step.cases)
    case (put k a)
    have "subseq (acks xs @ evict l' k (q' @ [a])) (acks xs @ q' @ [a])"
      by (intro list_emb_append_mono subseq_evict) auto
    moreover have "subseq (acks xs @ q' @ [a]) (puts xs @ [a])"
      using list_emb_append_mono [OF ih, of "[a]" "[a]"] by simp
    ultimately show ?thesis using put subseq_order.order_trans by fastforce
  next
    case (restart k)
    with weak [of "drop k q'"] show ?thesis by (simp add: suffix_imp_subseq suffix_drop)
  qed (use ih in auto)
qed

text \<open>Every batch is accounted for: acknowledged, still queued or evicted.\<close>

lemma lq_run_count:
  assumes "lq_run ([], False) xs (q, l)"
  shows "length (puts xs) = length (acks xs) + length q + evictions xs"
  using assms
proof (induction "([] :: 'a list, False)" xs "(q, l)" arbitrary: q l rule: lq_run.induct)
  case (lq_snoc xs b x)
  obtain q' l' where b: "b = (q', l')" by fastforce
  with lq_snoc have ih: "length (puts xs) = length (acks xs) + length q' + evictions xs" by simp
  from lq_snoc(3) ih show ?case unfolding b by (auto simp: evict_def elim!: lq_stepE)
qed simp

lemma lq_run_lossless:
  assumes "lq_run ([], False) xs (q, l)" and "list_all (\<lambda>x. \<not> evicts x) xs"
  shows "acks xs @ q = puts xs"
  using assms
proof (induction "([] :: 'a list, False)" xs "(q, l)" arbitrary: q l rule: lq_run.induct)
  case lq_nil
  then show ?case by simp
next
  case (lq_snoc xs b x)
  obtain q' l' where b: "b = (q', l')" by fastforce
  with lq_snoc have ih: "acks xs @ q' = puts xs" by simp
  from lq_snoc(3,4) ih show ?case unfolding b by (auto elim!: lq_stepE)
qed

section \<open>Implementations\<close>

text \<open>The runs of a step relation from an initial state, with what each step shows.\<close>

inductive run :: "('s \<Rightarrow> 'o \<Rightarrow> 's \<Rightarrow> bool) \<Rightarrow> 's \<Rightarrow> 'o list \<Rightarrow> 's \<Rightarrow> bool"
  for step :: "'s \<Rightarrow> 'o \<Rightarrow> 's \<Rightarrow> bool" and init :: 's where
  run_init: "run step init [] init"
| run_step: "run step init xs s \<Longrightarrow> step s x t \<Longrightarrow> run step init (xs @ [x]) t"

locale lease_queue =
  fixes inv :: "'s \<Rightarrow> bool"
    and abs :: "'s \<Rightarrow> 'b lq"
    and step :: "'s \<Rightarrow> 'b lq_obs \<Rightarrow> 's \<Rightarrow> bool"
  assumes step_inv: "inv s \<Longrightarrow> step s x t \<Longrightarrow> inv t"
    and step_abs: "inv s \<Longrightarrow> step s x t \<Longrightarrow> lq_step (abs s) x (abs t)"
begin

lemma run_inv: "run step init xs s \<Longrightarrow> inv init \<Longrightarrow> inv s"
  by (induction rule: run.induct) (auto intro: step_inv)

lemma run_abs:
  "run step init xs s \<Longrightarrow> inv init \<Longrightarrow> lq_run (abs init) xs (abs s)"
proof (induction rule: run.induct)
  case run_init
  show ?case by (rule lq_nil)
next
  case (run_step xs s x t)
  then show ?case using step_abs run_inv by (meson lq_snoc)
qed

lemma fifo:
  assumes "run step init xs s" and "inv init" and "abs init = ([], False)"
  shows "subseq (acks xs @ fst (abs s)) (puts xs)"
  using run_abs [OF assms(1,2)] assms(3) by (intro lq_run_subseq [of xs _ "snd (abs s)"]) simp

lemma counted:
  assumes "run step init xs s" and "inv init" and "abs init = ([], False)"
  shows "length (puts xs) = length (acks xs) + length (fst (abs s)) + evictions xs"
  using run_abs [OF assms(1,2)] assms(3) by (intro lq_run_count [of xs _ "snd (abs s)"]) simp

lemma lossless:
  assumes "run step init xs s" and "inv init" and "abs init = ([], False)"
    and "list_all (\<lambda>x. \<not> evicts x) xs"
  shows "acks xs @ fst (abs s) = puts xs"
  using run_abs [OF assms(1,2)] assms(3,4) by (intro lq_run_lossless [of xs _ "snd (abs s)"]) simp_all

end

end
