(* ===== verification/Spool.thy ===== *)
theory Spool
  imports LogEntry LeaseQueue
begin

text \<open>
  The durable spool of the agent, \<open>internal/spool/spool.go\<close>: a FIFO of batches, one segment
  file each, with the non-destructive Peek, Send, Commit protocol and its crash recovery.

  The spool directory is part of the state (\<open>s_dir\<close>, file name to segment); everything else
  is the memory of the process and is lost in a crash. All paths of the code are
  \<open>filepath.Join(s.dir, name)\<close>, so a path is modelled by its name. A segment is what the
  code can observe of the bytes of a file: their number and what \<open>json.Unmarshal\<close> makes of
  them (\<open>None\<close> when it fails). \<open>json.Marshal\<close> is the argument \<open>marshal\<close>, which gives the
  segment that writing a batch produces, or \<open>None\<close> when the batch cannot be marshalled.
  Every system call can fail: the argument \<open>flt\<close> says which calls do. A lease is a pointer
  in the code and is compared by address; \<open>bl_addr\<close> is that address.
\<close>

section \<open>Data\<close>

datatype spool_error = ErrEmpty | ErrClosed | ErrInFlight | ErrInvalidLease
  | ErrDirEmpty | ErrMkdir | ErrReadDir
  | ErrMarshal | ErrCreateTemp | ErrWriteTemp | ErrFsyncTemp | ErrCloseTemp | ErrRenameTemp
  | ErrMarkInFlight | ErrReadSpool | ErrUnmarshal | ErrRevertRename | ErrCommitPopped

record stored_batch =
  sb_ID :: string
  sb_Timestamp :: gotime
  sb_Events :: "log_entry list"

record segment =
  seg_size :: int
  seg_batch :: "stored_batch option"

record spool_file =
  sf_path :: string
  sf_sizeBytes :: int
  sf_eventNum :: int

record batch_lease =
  bl_addr :: nat
  bl_ID :: string
  bl_Timestamp :: gotime
  bl_Events :: "log_entry list"
  bl_file :: spool_file

type_synonym spool_dir = "(string, segment) gomap"

record spool =
  s_dir :: spool_dir
  s_maxSizeBytes :: int
  s_closed :: bool
  s_currentSize :: int
  s_totalEvents :: int
  s_files :: "spool_file list"
  s_activeLease :: "batch_lease option"
  s_nextAddr :: nat

section \<open>System calls\<close>

datatype io_call = Rename string string | Remove string | ReadFile string | Stat string
  | ReadDir | MkdirAll | OpenTemp string | WriteTemp string | SyncTemp string | CloseTemp string

type_synonym faults = "io_call \<Rightarrow> bool"

definition no_faults :: faults where
  "no_faults c = False"

definition os_Rename :: "faults \<Rightarrow> string \<Rightarrow> string \<Rightarrow> spool_dir \<Rightarrow> spool_dir option" where
  "os_Rename flt old new d =
     (if flt (Rename old new) then None
      else map_option (\<lambda>seg. AList.update new seg (AList.delete old d)) (map_of d old))"

text \<open>The code ignores the error of every \<open>os.Remove\<close>.\<close>

definition os_Remove :: "faults \<Rightarrow> string \<Rightarrow> spool_dir \<Rightarrow> spool_dir" where
  "os_Remove flt name d = (if flt (Remove name) then d else AList.delete name d)"

definition os_ReadFile :: "faults \<Rightarrow> string \<Rightarrow> spool_dir \<Rightarrow> segment option" where
  "os_ReadFile flt name d = (if flt (ReadFile name) then None else map_of d name)"

section \<open>Operations\<close>

definition spool_prefix :: string where
  "spool_prefix = ''spool_''"

definition json_ext :: string where
  "json_ext = ''.json''"

definition inflight_ext :: string where
  "inflight_ext = ''.inflight''"

definition normalPath :: "string \<Rightarrow> string" where
  "normalPath p = TrimSuffix p inflight_ext @ json_ext"

definition inflightPath :: "string \<Rightarrow> string" where
  "inflightPath p = TrimSuffix p json_ext @ inflight_ext"

definition segment_name :: "int \<Rightarrow> string \<Rightarrow> string" where
  "segment_name nano uuid = spool_prefix @ sprintf_0d 20 nano @ ''_'' @ uuid @ json_ext"

definition temp_name :: "string \<Rightarrow> string" where
  "temp_name n = ''.'' @ n @ ''.tmp''"

text \<open>One turn of the loop of \<open>enforceLimitLocked\<close> after the victim has left the queue.\<close>

definition drop_segment :: "faults \<Rightarrow> spool_file \<Rightarrow> spool \<Rightarrow> spool" where
  "drop_segment flt f s =
     s\<lparr>s_currentSize := s_currentSize s - sf_sizeBytes f,
       s_totalEvents := s_totalEvents s - sf_eventNum f,
       s_dir := os_Remove flt (sf_path f) (s_dir s)\<rparr>"

definition leased :: "spool \<Rightarrow> spool_file \<Rightarrow> bool" where
  "leased s f \<longleftrightarrow> (case s_activeLease s of None \<Rightarrow> False | Some l \<Rightarrow> sf_path (bl_file l) = sf_path f)"

function enforceLimitLocked :: "faults \<Rightarrow> spool \<Rightarrow> spool" where
  "enforceLimitLocked flt s =
     (if s_maxSizeBytes s < s_currentSize s \<and> s_files s \<noteq> [] then
        if leased s (hd (s_files s)) then
          if 1 < length (s_files s) then
            enforceLimitLocked flt
              (drop_segment flt (s_files s ! 1)
                (s\<lparr>s_files := hd (s_files s) # drop 2 (s_files s)\<rparr>))
          else s
        else enforceLimitLocked flt (drop_segment flt (hd (s_files s)) (s\<lparr>s_files := tl (s_files s)\<rparr>))
      else s)"
  by pat_completeness auto
termination
  by (relation "measure (\<lambda>(flt, s). length (s_files s))") (auto simp: drop_segment_def)

declare enforceLimitLocked.simps [simp del]

definition Push ::
  "(stored_batch \<Rightarrow> segment option) \<Rightarrow> faults \<Rightarrow> string \<Rightarrow> gotime \<Rightarrow> int \<Rightarrow> log_entry list \<Rightarrow> spool
     \<Rightarrow> (spool_error, unit) result \<times> spool" where
  "Push marshal flt uuid now nano events s =
     (if events = [] then (Inr (), s)
      else if s_closed s then (Inl ErrClosed, s)
      else
        case marshal \<lparr>sb_ID = uuid, sb_Timestamp = now, sb_Events = events\<rparr> of
          None \<Rightarrow> (Inl ErrMarshal, s)
        | Some seg \<Rightarrow>
            let finalPath = segment_name nano uuid; tempPath = temp_name finalPath;
                created = AList.update tempPath \<lparr>seg_size = 0, seg_batch = None\<rparr> (s_dir s);
                written = AList.update tempPath seg (s_dir s)
            in if flt (OpenTemp tempPath) then (Inl ErrCreateTemp, s)
               else if flt (WriteTemp tempPath) then
                 (Inl ErrWriteTemp, s\<lparr>s_dir := os_Remove flt tempPath created\<rparr>)
               else if flt (SyncTemp tempPath) then
                 (Inl ErrFsyncTemp, s\<lparr>s_dir := os_Remove flt tempPath written\<rparr>)
               else if flt (CloseTemp tempPath) then
                 (Inl ErrCloseTemp, s\<lparr>s_dir := os_Remove flt tempPath written\<rparr>)
               else
                 case os_Rename flt tempPath finalPath written of
                   None \<Rightarrow> (Inl ErrRenameTemp, s\<lparr>s_dir := os_Remove flt tempPath written\<rparr>)
                 | Some d \<Rightarrow>
                     (Inr (), enforceLimitLocked flt
                       (s\<lparr>s_dir := d,
                          s_files := s_files s @ [\<lparr>sf_path = finalPath, sf_sizeBytes = seg_size seg,
                                                   sf_eventNum = int (length events)\<rparr>],
                          s_currentSize := s_currentSize s + seg_size seg,
                          s_totalEvents := s_totalEvents s + int (length events)\<rparr>)))"

definition Peek :: "faults \<Rightarrow> spool \<Rightarrow> (spool_error, batch_lease) result \<times> spool" where
  "Peek flt s =
     (if s_closed s then (Inl ErrClosed, s)
      else if s_activeLease s \<noteq> None then (Inl ErrInFlight, s)
      else
        case s_files s of
          [] \<Rightarrow> (Inl ErrEmpty, s)
        | oldest # rest \<Rightarrow>
            let ip = inflightPath (sf_path oldest) in
            case os_Rename flt (sf_path oldest) ip (s_dir s) of
              None \<Rightarrow> (Inl ErrMarkInFlight, s)
            | Some d \<Rightarrow>
                let oldest' = oldest\<lparr>sf_path := ip\<rparr>; s1 = s\<lparr>s_dir := d, s_files := oldest' # rest\<rparr> in
                case os_ReadFile flt ip d of
                  None \<Rightarrow>
                    let np = normalPath ip;
                        d' = (case os_Rename flt ip np d of None \<Rightarrow> d | Some d' \<Rightarrow> d')
                    in (Inl ErrReadSpool,
                        s1\<lparr>s_dir := d', s_files := oldest'\<lparr>sf_path := np\<rparr> # rest\<rparr>)
                | Some seg \<Rightarrow>
                    case seg_batch seg of
                      None \<Rightarrow>
                        (Inl ErrUnmarshal,
                         s1\<lparr>s_dir := os_Remove flt ip d, s_files := rest,
                            s_currentSize := s_currentSize s - sf_sizeBytes oldest,
                            s_totalEvents := s_totalEvents s - sf_eventNum oldest\<rparr>)
                    | Some b \<Rightarrow>
                        let l = \<lparr>bl_addr = s_nextAddr s, bl_ID = sb_ID b, bl_Timestamp = sb_Timestamp b,
                                 bl_Events = sb_Events b, bl_file = oldest'\<rparr>
                        in (Inr l, s1\<lparr>s_activeLease := Some l, s_nextAddr := Suc (s_nextAddr s)\<rparr>))"

text \<open>\<open>s.activeLease != l\<close> compares pointers.\<close>

definition owns_lease :: "spool \<Rightarrow> batch_lease \<Rightarrow> bool" where
  "owns_lease s l \<longleftrightarrow> map_option bl_addr (s_activeLease s) = Some (bl_addr l)"

definition commitLease :: "faults \<Rightarrow> batch_lease \<Rightarrow> spool \<Rightarrow> (spool_error, unit) result \<times> spool" where
  "commitLease flt l s =
     (if \<not> owns_lease s l then (Inl ErrInvalidLease, s)
      else
        let p = sf_path (bl_file l);
            fs = (if s_files s \<noteq> [] \<and> sf_path (hd (s_files s)) = p then tl (s_files s)
                  else remove_first (\<lambda>f. sf_path f = p) (s_files s))
        in (Inr (), s\<lparr>s_dir := os_Remove flt p (s_dir s), s_files := fs,
                       s_currentSize := s_currentSize s - sf_sizeBytes (bl_file l),
                       s_totalEvents := s_totalEvents s - sf_eventNum (bl_file l),
                       s_activeLease := None\<rparr>))"

definition revertLease :: "faults \<Rightarrow> batch_lease \<Rightarrow> spool \<Rightarrow> (spool_error, unit) result \<times> spool" where
  "revertLease flt l s =
     (if \<not> owns_lease s l then (Inl ErrInvalidLease, s)
      else
        let p = sf_path (bl_file l); np = normalPath p in
        case os_Rename flt p np (s_dir s) of
          None \<Rightarrow> (Inl ErrRevertRename, s)
        | Some d \<Rightarrow>
            let f' = (bl_file l)\<lparr>sf_path := np\<rparr>; ip = inflightPath np;
                fs = (if s_files s \<noteq> [] \<and> sf_path (hd (s_files s)) = ip then f' # tl (s_files s)
                      else update_first (\<lambda>f. sf_path f = ip) f' (s_files s))
            in (Inr (), s\<lparr>s_dir := d, s_files := fs, s_activeLease := None\<rparr>))"

text \<open>The methods of the lease itself; a nil lease is refused.\<close>

definition Commit :: "faults \<Rightarrow> batch_lease option \<Rightarrow> spool \<Rightarrow> (spool_error, unit) result \<times> spool" where
  "Commit flt lo s = (case lo of None \<Rightarrow> (Inl ErrInvalidLease, s) | Some l \<Rightarrow> commitLease flt l s)"

definition Revert :: "faults \<Rightarrow> batch_lease option \<Rightarrow> spool \<Rightarrow> (spool_error, unit) result \<times> spool" where
  "Revert flt lo s = (case lo of None \<Rightarrow> (Inl ErrInvalidLease, s) | Some l \<Rightarrow> revertLease flt l s)"

definition Pop :: "faults \<Rightarrow> spool \<Rightarrow> (spool_error, log_entry list) result \<times> spool" where
  "Pop flt s =
     (case Peek flt s of
        (Inl e, s1) \<Rightarrow> (Inl e, s1)
      | (Inr l, s1) \<Rightarrow>
          (case Commit flt (Some l) s1 of
             (Inl e, s2) \<Rightarrow> (Inl ErrCommitPopped, s2)
           | (Inr _, s2) \<Rightarrow> (Inr (bl_Events l), s2)))"

definition Size :: "spool \<Rightarrow> int \<times> int" where
  "Size s = (s_currentSize s, s_totalEvents s)"

definition Count :: "spool \<Rightarrow> nat" where
  "Count s = length (s_files s)"

definition Close_spool :: "faults \<Rightarrow> spool \<Rightarrow> spool" where
  "Close_spool flt s =
     (case s_activeLease s of
        None \<Rightarrow> s\<lparr>s_closed := True\<rparr>
      | Some l \<Rightarrow>
          let p = sf_path (bl_file l) in
          s\<lparr>s_dir := (case os_Rename flt p (normalPath p) (s_dir s) of None \<Rightarrow> s_dir s | Some d \<Rightarrow> d),
            s_activeLease := None, s_closed := True\<rparr>)"

text \<open>
  Restart. \<open>os.ReadDir\<close> lists the names in order; the list is read once, before the loop
  renames or removes anything.
\<close>

definition scan_segment ::
  "faults \<Rightarrow> string \<Rightarrow> spool_dir \<times> spool_file list \<Rightarrow> spool_dir \<times> spool_file list" where
  "scan_segment flt p df =
     (case df of (d, found) \<Rightarrow>
        if flt (Stat p) then (d, found)
        else
          case os_ReadFile flt p d of
            None \<Rightarrow> (d, found)
          | Some seg \<Rightarrow>
              (case seg_batch seg of
                 None \<Rightarrow> (os_Remove flt p d, found)
               | Some b \<Rightarrow> (d, found @ [\<lparr>sf_path = p, sf_sizeBytes = seg_size seg,
                                          sf_eventNum = int (length (sb_Events b))\<rparr>])))"

definition scan_entry ::
  "faults \<Rightarrow> string \<Rightarrow> spool_dir \<times> spool_file list \<Rightarrow> spool_dir \<times> spool_file list" where
  "scan_entry flt n df =
     (if \<not> HasPrefix n spool_prefix then df
      else if HasSuffix n inflight_ext then
        (case os_Rename flt n (normalPath n) (fst df) of
           Some d \<Rightarrow> scan_segment flt (normalPath n) (d, snd df)
         | None \<Rightarrow> scan_segment flt n df)
      else if \<not> HasSuffix n json_ext then
        (if HasSuffix n ''.tmp'' then (os_Remove flt n (fst df), snd df) else df)
      else scan_segment flt n df)"

definition scanExisting :: "faults \<Rightarrow> spool \<Rightarrow> (spool_error, spool) result" where
  "scanExisting flt s =
     (if flt ReadDir then Inl ErrReadDir
      else
        let (d, found) = fold (scan_entry flt) (sort (map fst (s_dir s))) (s_dir s, []);
            fs = sort_key sf_path found
        in Inr (enforceLimitLocked flt
             (s\<lparr>s_dir := d, s_files := fs,
                s_currentSize := sum_list (map sf_sizeBytes found),
                s_totalEvents := sum_list (map sf_eventNum found)\<rparr>)))"

definition New_spool :: "faults \<Rightarrow> string \<Rightarrow> int \<Rightarrow> spool_dir \<Rightarrow> (spool_error, spool) result" where
  "New_spool flt dir maxSizeMB d =
     (if TrimSpace dir = '''' then Inl ErrDirEmpty
      else if flt MkdirAll then Inl ErrMkdir
      else
        let maxBytes = int64 (maxSizeMB * 1024 * 1024);
            maxBytes = (if maxBytes \<le> 0 then 1024 * 1024 * 1024 else maxBytes)
        in scanExisting flt
             \<lparr>s_dir = d, s_maxSizeBytes = maxBytes, s_closed = False, s_currentSize = 0,
              s_totalEvents = 0, s_files = [], s_activeLease = None, s_nextAddr = 0\<rparr>)"

section \<open>File names\<close>

lemma ext_neq [simp]: "inflight_ext \<noteq> json_ext" "json_ext \<noteq> inflight_ext"
  by (simp_all add: json_ext_def inflight_ext_def)

lemma inflight_not_json [simp]: "\<not> HasSuffix (r @ json_ext) inflight_ext"
  by (auto simp: HasSuffix_iff json_ext_def inflight_ext_def dest: arg_cong [where f = last])

lemma json_not_inflight [simp]: "\<not> HasSuffix (r @ inflight_ext) json_ext"
  by (auto simp: HasSuffix_iff json_ext_def inflight_ext_def dest: arg_cong [where f = last])

lemma ext_not_ext_prefixed [simp]:
  "\<not> HasSuffix (p @ r @ json_ext) inflight_ext" "\<not> HasSuffix (p @ r @ inflight_ext) json_ext"
  "HasSuffix (p @ r @ json_ext) json_ext" "HasSuffix (p @ r @ inflight_ext) inflight_ext"
  using inflight_not_json [of "p @ r"] json_not_inflight [of "p @ r"]
    HasSuffix_append [of "p @ r" json_ext] HasSuffix_append [of "p @ r" inflight_ext] by simp_all

lemma inflight_neq_json [simp]: "r @ inflight_ext \<noteq> r' @ json_ext" "r @ json_ext \<noteq> r' @ inflight_ext"
  by (metis HasSuffix_append inflight_not_json)+

lemma inflight_neq_json_prefixed [simp]: "p @ r @ inflight_ext \<noteq> p @ r' @ json_ext" "p @ r @ json_ext \<noteq> p @ r' @ inflight_ext"
  by simp_all

lemma normalPath_inflight [simp]:
  "normalPath (r @ inflight_ext) = r @ json_ext" "normalPath (p @ r @ inflight_ext) = p @ r @ json_ext"
  using TrimSuffix_append [of "p @ r" inflight_ext] by (simp_all add: normalPath_def)

lemma inflightPath_json [simp]:
  "inflightPath (r @ json_ext) = r @ inflight_ext" "inflightPath (p @ r @ json_ext) = p @ r @ inflight_ext"
  using TrimSuffix_append [of "p @ r" json_ext] by (simp_all add: inflightPath_def)

lemma temp_name_not_spool [simp]: "\<not> HasPrefix (temp_name n) spool_prefix" "temp_name n \<noteq> spool_prefix @ r"
  by (simp_all add: temp_name_def HasPrefix_def spool_prefix_def)

lemma segment_name_shape: "\<exists>r. segment_name nano uuid = spool_prefix @ r @ json_ext"
  by (auto simp: segment_name_def)

text \<open>Names of segments order as their timestamps: the sort on restart restores push order.\<close>

lemma segment_name_less:
  assumes "0 \<le> m" and "m < n" and "n < 2 ^ 63"
  shows "segment_name m u < segment_name n v"
proof -
  have b: "nat m < 10 ^ 20" "nat n < 10 ^ 20" using assms by auto
  have "zpad 20 (nat m) < zpad 20 (nat n)"
    using zpad_less [OF b] assms by simp
  moreover have "length (zpad 20 (nat m)) = length (zpad 20 (nat n))"
    using b by (simp add: length_zpad)
  ultimately show ?thesis
    using assms by (simp add: segment_name_def sprintf_0d_def less_append_same_length)
qed

section \<open>The directory\<close>

lemma map_of_os_Rename:
  "os_Rename flt a b d = Some d' \<Longrightarrow> map_of d' = (map_of d)(a := None, b := map_of d a)"
  by (auto simp: os_Rename_def update_conv' delete_conv' split: if_splits)

lemma map_of_os_Remove:
  "map_of (os_Remove flt a d) = (if flt (Remove a) then map_of d else (map_of d)(a := None))"
  by (simp add: os_Remove_def delete_conv')

lemma wf_os_Rename: "os_Rename flt a b d = Some d' \<Longrightarrow> wf_map d \<Longrightarrow> wf_map d'"
  by (auto simp: os_Rename_def split: if_splits)

lemma wf_os_Remove: "wf_map d \<Longrightarrow> wf_map (os_Remove flt a d)"
  by (simp add: os_Remove_def)

lemma os_Rename_Some:
  "map_of d a = Some seg \<Longrightarrow> \<not> flt (Rename a b) \<Longrightarrow> \<exists>d'. os_Rename flt a b d = Some d'"
  by (simp add: os_Rename_def)

section \<open>Invariant and abstraction\<close>

text \<open>The events stored under a name, and the queue of batches the spool represents.\<close>

definition events_of :: "spool_dir \<Rightarrow> string \<Rightarrow> log_entry list" where
  "events_of d p =
     (case map_of d p of None \<Rightarrow> []
      | Some seg \<Rightarrow> (case seg_batch seg of None \<Rightarrow> [] | Some b \<Rightarrow> sb_Events b))"

definition queue :: "spool \<Rightarrow> log_entry list list" where
  "queue s = map (\<lambda>f. events_of (s_dir s) (sf_path f)) (s_files s)"

text \<open>The name of a segment when it is not in flight.\<close>

definition canon :: "spool_file \<Rightarrow> string" where
  "canon f = (if HasSuffix (sf_path f) inflight_ext then normalPath (sf_path f) else sf_path f)"

definition seg_ok :: "spool_dir \<Rightarrow> spool_file \<Rightarrow> bool" where
  "seg_ok d f \<longleftrightarrow>
     (case map_of d (sf_path f) of None \<Rightarrow> False
      | Some seg \<Rightarrow>
          (case seg_batch seg of None \<Rightarrow> False
           | Some b \<Rightarrow> seg_size seg = sf_sizeBytes f \<and> int (length (sb_Events b)) = sf_eventNum f \<and>
               0 \<le> sf_sizeBytes f))"

definition spool_name :: "string \<Rightarrow> spool_file \<Rightarrow> bool" where
  "spool_name ext f \<longleftrightarrow> HasPrefix (sf_path f) spool_prefix \<and>
     (\<exists>r. sf_path f = spool_prefix @ r @ ext)"

definition pending :: "spool \<Rightarrow> spool_file list" where
  "pending s = (if s_activeLease s = None then s_files s else tl (s_files s))"

definition lease_ok :: "spool \<Rightarrow> bool" where
  "lease_ok s \<longleftrightarrow>
     (case s_activeLease s of None \<Rightarrow> True
      | Some l \<Rightarrow> s_files s \<noteq> [] \<and> bl_file l = hd (s_files s) \<and> spool_name inflight_ext (hd (s_files s)) \<and>
          bl_Events l = events_of (s_dir s) (sf_path (bl_file l)) \<and> bl_addr l < s_nextAddr s)"

definition spool_inv :: "spool \<Rightarrow> bool" where
  "spool_inv s \<longleftrightarrow>
     wf_map (s_dir s) \<and> distinct (map canon (s_files s)) \<and>
     s_currentSize s = sum_list (map sf_sizeBytes (s_files s)) \<and>
     s_totalEvents s = sum_list (map sf_eventNum (s_files s)) \<and>
     (\<forall>f\<in>set (s_files s). seg_ok (s_dir s) f) \<and>
     (\<forall>f\<in>set (pending s). spool_name json_ext f) \<and> lease_ok s"

text \<open>Every segment file in the directory is tracked.\<close>

definition dir_exact :: "spool \<Rightarrow> bool" where
  "dir_exact s \<longleftrightarrow>
     (\<forall>n\<in>set (map fst (s_dir s)). HasPrefix n spool_prefix \<longrightarrow> n \<in> sf_path ` set (s_files s))"

lemma dir_exact_dom:
  "dir_exact s \<longleftrightarrow> (\<forall>n\<in>dom (map_of (s_dir s)). HasPrefix n spool_prefix \<longrightarrow> n \<in> sf_path ` set (s_files s))"
  by (auto simp: dir_exact_def dom_map_of_conv_image_fst)

lemma events_of_cong: "map_of d p = map_of d' p \<Longrightarrow> events_of d p = events_of d' p"
  by (simp add: events_of_def)

lemma seg_ok_cong: "map_of d (sf_path f) = map_of d' (sf_path f) \<Longrightarrow> seg_ok d f = seg_ok d' f"
  by (simp add: seg_ok_def)

lemma seg_ok_rename:
  "seg_ok d f \<Longrightarrow> map_of d' p = map_of d (sf_path f) \<Longrightarrow> seg_ok d' (f\<lparr>sf_path := p\<rparr>)"
  by (auto simp: seg_ok_def split: option.splits)

lemma seg_okE:
  assumes "seg_ok d f"
  obtains seg b where "map_of d (sf_path f) = Some seg" "seg_batch seg = Some b"
    "seg_size seg = sf_sizeBytes f" "int (length (sb_Events b)) = sf_eventNum f" "0 \<le> sf_sizeBytes f"
  using assms by (auto simp: seg_ok_def split: option.splits)

lemma spool_name_json:
  "spool_name json_ext f \<longleftrightarrow> (\<exists>r. sf_path f = spool_prefix @ r @ json_ext)"
  "spool_name inflight_ext f \<longleftrightarrow> (\<exists>r. sf_path f = spool_prefix @ r @ inflight_ext)"
  by (auto simp: spool_name_def HasPrefix_iff)

lemma canon_path [simp]:
  "sf_path f = r @ json_ext \<Longrightarrow> canon f = r @ json_ext"
  "sf_path f = r @ inflight_ext \<Longrightarrow> canon f = r @ json_ext"
  "sf_path f = p @ r @ json_ext \<Longrightarrow> canon f = p @ r @ json_ext"
  "sf_path f = p @ r @ inflight_ext \<Longrightarrow> canon f = p @ r @ json_ext"
  by (simp_all add: canon_def)

lemma canon_cong: "sf_path f = sf_path g \<Longrightarrow> canon f = canon g"
  by (simp add: canon_def)

lemma distinct_canon_paths: "distinct (map canon fs) \<Longrightarrow> distinct (map sf_path fs)"
  by (metis (mono_tags, lifting) canon_cong distinct_map inj_on_def)

lemmas spool_inv_defs = spool_inv_def lease_ok_def pending_def

section \<open>Disk limit\<close>

lemma leased_hd:
  "lease_ok s \<Longrightarrow> s_files s \<noteq> [] \<Longrightarrow> leased s (hd (s_files s)) \<longleftrightarrow> s_activeLease s \<noteq> None"
  by (auto simp: leased_def lease_ok_def split: option.splits)

lemma drop_segment_sel [simp]:
  "s_files (drop_segment flt f s) = s_files s" "s_activeLease (drop_segment flt f s) = s_activeLease s"
  "s_nextAddr (drop_segment flt f s) = s_nextAddr s" "s_maxSizeBytes (drop_segment flt f s) = s_maxSizeBytes s"
  "s_closed (drop_segment flt f s) = s_closed s"
  "s_currentSize (drop_segment flt f s) = s_currentSize s - sf_sizeBytes f"
  "s_totalEvents (drop_segment flt f s) = s_totalEvents s - sf_eventNum f"
  "s_dir (drop_segment flt f s) = os_Remove flt (sf_path f) (s_dir s)"
  by (simp_all add: drop_segment_def)

lemma drop_segment_step:
  fixes flt :: faults
  assumes inv: "spool_inv s" and fs: "s_files s = xs @ f # ys"
    and lease: "s_activeLease s \<noteq> None \<Longrightarrow> xs \<noteq> []"
  defines "t \<equiv> drop_segment flt f (s\<lparr>s_files := xs @ ys\<rparr>)"
  shows "spool_inv t" and "queue t = map (\<lambda>g. events_of (s_dir s) (sf_path g)) (xs @ ys)"
proof -
  have "distinct (map sf_path (s_files s))"
    using inv by (simp add: spool_inv_def distinct_canon_paths)
  then have neq: "sf_path g \<noteq> sf_path f" if "g \<in> set (xs @ ys)" for g
    using that fs by (auto simp: image_iff)
  have same: "map_of (s_dir t) (sf_path g) = map_of (s_dir s) (sf_path g)" if "g \<in> set (xs @ ys)" for g
    using neq [OF that] by (simp add: t_def map_of_os_Remove)
  show "queue t = map (\<lambda>g. events_of (s_dir s) (sf_path g)) (xs @ ys)"
    unfolding queue_def using same by (auto simp: t_def intro!: events_of_cong)
  have hd: "xs \<noteq> [] \<Longrightarrow> hd (xs @ ys) = hd (s_files s) \<and> hd (xs @ ys) \<in> set (xs @ ys)"
    using fs by (cases xs) auto
  have segs: "\<forall>g\<in>set (xs @ ys). seg_ok (s_dir t) g"
    using inv fs seg_ok_cong [OF same] by (auto simp: spool_inv_def)
  have ev: "xs \<noteq> [] \<Longrightarrow> events_of (s_dir t) (sf_path (hd (s_files s))) = events_of (s_dir s) (sf_path (hd (s_files s)))"
    using hd events_of_cong [OF same] by metis
  have "lease_ok t"
    using inv lease hd ev
    by (auto simp: spool_inv_def lease_ok_def t_def split: option.splits)
  then show "spool_inv t"
    using inv fs lease segs
    by (cases xs) (auto simp: spool_inv_defs t_def wf_os_Remove split: option.splits)
qed

lemma enforceLimit_step:
  assumes inv: "spool_inv s" and "s_maxSizeBytes s < s_currentSize s"
    and pend: "pending s \<noteq> []"
  obtains xs f ys where "s_files s = xs @ f # ys"
    "length xs = (if s_activeLease s = None then 0 else 1)"
    "enforceLimitLocked flt s = enforceLimitLocked flt (drop_segment flt f (s\<lparr>s_files := xs @ ys\<rparr>))"
proof (cases "s_activeLease s")
  case None
  with pend obtain f ys where "s_files s = f # ys" by (cases "s_files s") (auto simp: pending_def)
  with None assms show thesis
    by (intro that [of "[]" f ys]) (simp_all add: enforceLimitLocked.simps [of flt s] leased_def)
next
  case (Some l)
  with assms obtain g f ys where fs: "s_files s = g # f # ys"
    by (cases "s_files s"; cases "tl (s_files s)") (auto simp: pending_def)
  with Some inv leased_hd [of s] have "leased s g" by (auto simp: spool_inv_def)
  with Some fs assms show thesis
    by (intro that [of "[g]" f ys]) (simp_all add: enforceLimitLocked.simps [of flt s])
qed

lemma enforceLimit_done:
  assumes "spool_inv s"
    and "s_currentSize s \<le> s_maxSizeBytes s \<or> s_files s = [] \<or> (s_activeLease s \<noteq> None \<and> length (s_files s) = 1)"
  shows "enforceLimitLocked flt s = s"
  using assms leased_hd [of s]
  by (subst enforceLimitLocked.simps) (auto simp: spool_inv_def)

text \<open>
  What the limit does to the queue: it drops batches from the front, after the leased one,
  and it stops as soon as the size is within the limit or nothing more may be dropped.
\<close>

definition within_limit :: "spool \<Rightarrow> bool" where
  "within_limit s \<longleftrightarrow> s_currentSize s \<le> s_maxSizeBytes s \<or> pending s = []"

definition held :: "spool \<Rightarrow> spool_file list" where
  "held s = (if s_activeLease s = None then [] else take 1 (s_files s))"

definition limited :: "spool \<Rightarrow> spool \<Rightarrow> bool" where
  "limited s t \<longleftrightarrow>
     (\<exists>k \<le> length (pending s).
        s_files t = held s @ drop k (pending s) \<and>
        queue t = map (\<lambda>f. events_of (s_dir s) (sf_path f)) (s_files t) \<and>
        (k = 0 \<or> s_maxSizeBytes s < s_currentSize s - sum_list (map sf_sizeBytes (take (k - 1) (pending s)))))"

lemma held_pending: "s_files s = held s @ pending s"
  by (cases "s_files s") (simp_all add: held_def pending_def)

lemma enforceLimit_frame:
  "s_activeLease (enforceLimitLocked flt s) = s_activeLease s \<and>
   s_maxSizeBytes (enforceLimitLocked flt s) = s_maxSizeBytes s \<and>
   s_closed (enforceLimitLocked flt s) = s_closed s \<and> s_nextAddr (enforceLimitLocked flt s) = s_nextAddr s"
proof (induction flt s rule: enforceLimitLocked.induct)
  case (1 flt s)
  then show ?case by (subst (1 2 3 4) enforceLimitLocked.simps) (auto simp: drop_segment_def)
qed

lemma limited_refl: "limited s s"
  unfolding limited_def using held_pending [of s] by (intro exI [of _ 0]) (auto simp: queue_def)

lemma limited_trans_step:
  assumes fs: "s_files s = xs @ f # ys" and len: "length xs = (if s_activeLease s = None then 0 else 1)"
    and over: "s_maxSizeBytes s < s_currentSize s"
    and t: "t = drop_segment flt f (s\<lparr>s_files := xs @ ys\<rparr>)" and inv: "spool_inv s" and lim: "limited t u"
  shows "limited s u"
proof -
  have pend: "pending s = f # ys" "pending t = ys" "held t = held s"
    using fs len by (auto simp: pending_def held_def t length_Suc_conv split: if_splits)
  have sizes: "s_maxSizeBytes t = s_maxSizeBytes s" "s_currentSize t = s_currentSize s - sf_sizeBytes f"
    by (simp_all add: t)
  have lease: "s_activeLease s \<noteq> None \<Longrightarrow> xs \<noteq> []" using len by auto
  from lim obtain k where k: "k \<le> length ys" "s_files u = held s @ drop k ys"
      "queue u = map (\<lambda>f. events_of (s_dir t) (sf_path f)) (s_files u)"
      "k = 0 \<or> s_maxSizeBytes s < s_currentSize s - sf_sizeBytes f - sum_list (map sf_sizeBytes (take (k - 1) ys))"
    unfolding limited_def pend sizes by blast
  have "set (s_files u) \<subseteq> set (s_files t)"
    using k(2) held_pending [of t] pend by (auto dest: in_set_dropD)
  moreover have "map (\<lambda>f. events_of (s_dir t) (sf_path f)) (s_files t) =
      map (\<lambda>f. events_of (s_dir s) (sf_path f)) (s_files t)"
    using drop_segment_step(2) [OF inv fs lease, of flt] by (simp add: t queue_def)
  ultimately have ev: "queue u = map (\<lambda>f. events_of (s_dir s) (sf_path f)) (s_files u)"
    using k(3) by auto
  show ?thesis
    unfolding limited_def pend
    using k(1,2,4) ev over by (intro exI [of _ "Suc k"]) (auto simp: take_Cons' algebra_simps)
qed

lemma enforceLimit_correct:
  assumes "spool_inv s"
  shows "spool_inv (enforceLimitLocked flt s)" and "within_limit (enforceLimitLocked flt s)"
    and "limited s (enforceLimitLocked flt s)"
proof -
  have "spool_inv (enforceLimitLocked flt s) \<and> within_limit (enforceLimitLocked flt s) \<and>
      limited s (enforceLimitLocked flt s)"
    using assms
  proof (induction "length (s_files s)" arbitrary: s rule: less_induct)
    case less
    show ?case
    proof (cases "s_currentSize s \<le> s_maxSizeBytes s \<or> pending s = []")
      case True
      then have "enforceLimitLocked flt s = s"
        using less.prems by (intro enforceLimit_done)
          (auto simp: spool_inv_defs tl_Nil split: option.splits)
      with True less.prems limited_refl show ?thesis by (auto simp: within_limit_def)
    next
      case False
      then obtain xs f ys where s: "s_files s = xs @ f # ys"
          "length xs = (if s_activeLease s = None then 0 else 1)"
          "enforceLimitLocked flt s = enforceLimitLocked flt (drop_segment flt f (s\<lparr>s_files := xs @ ys\<rparr>))"
        using less.prems by (auto elim: enforceLimit_step [of s flt])
      let ?t = "drop_segment flt f (s\<lparr>s_files := xs @ ys\<rparr>)"
      have inv: "spool_inv ?t"
        by (rule drop_segment_step(1) [OF less.prems s(1)]) (use s(2) in auto)
      with less.hyps [of ?t] s(1) limited_trans_step [OF s(1,2) _ refl less.prems] False s(3)
      show ?thesis by auto
    qed
  qed
  then show "spool_inv (enforceLimitLocked flt s)" "within_limit (enforceLimitLocked flt s)"
    "limited s (enforceLimitLocked flt s)" by auto
qed

section \<open>The operations on the queue\<close>

text \<open>
  What the spool relies on of \<open>encoding/json\<close>: a batch that marshals is read back as it was
  (the package documents this for valid UTF-8 strings).
\<close>

definition json_faithful :: "(stored_batch \<Rightarrow> segment option) \<Rightarrow> bool" where
  "json_faithful marshal \<longleftrightarrow>
     (\<forall>b seg. marshal b = Some seg \<longrightarrow> seg_batch seg = Some b \<and> 0 \<le> seg_size seg)"

definition fresh_name :: "string \<Rightarrow> spool \<Rightarrow> bool" where
  "fresh_name n s \<longleftrightarrow> n \<notin> canon ` set (s_files s)"

lemma tracked_path:
  "spool_inv s \<Longrightarrow> f \<in> set (s_files s) \<Longrightarrow> \<exists>r. sf_path f = spool_prefix @ r"
  by (cases "s_files s") (auto simp: spool_inv_defs spool_name_json split: if_splits option.splits)

lemma inv_change_dir:
  assumes "spool_inv s" and "wf_map d"
    and "\<And>f. f \<in> set (s_files s) \<Longrightarrow> map_of d (sf_path f) = map_of (s_dir s) (sf_path f)"
  shows "spool_inv (s\<lparr>s_dir := d\<rparr>)" and "queue (s\<lparr>s_dir := d\<rparr>) = queue s"
proof -
  have ev: "events_of d (sf_path f) = events_of (s_dir s) (sf_path f)" if "f \<in> set (s_files s)" for f
    by (rule events_of_cong) (use assms(3) that in blast)
  then show "queue (s\<lparr>s_dir := d\<rparr>) = queue s" by (simp add: queue_def)
  have "lease_ok (s\<lparr>s_dir := d\<rparr>)"
    using assms(1) ev by (auto simp: spool_inv_def lease_ok_def split: option.splits)
  then show "spool_inv (s\<lparr>s_dir := d\<rparr>)"
    using assms seg_ok_cong [OF assms(3)] by (auto simp: spool_inv_def pending_def)
qed

lemma inv_temp_file:
  assumes inv: "spool_inv s"
  defines "t \<equiv> (\<lambda>flt n seg. s\<lparr>s_dir := os_Remove flt (temp_name n) (AList.update (temp_name n) seg (s_dir s))\<rparr>)"
  shows "spool_inv (t flt n seg)" and "queue (t flt n seg) = queue s"
    and "dir_exact s \<Longrightarrow> dir_exact (t flt n seg)"
proof -
  let ?d = "os_Remove flt (temp_name n) (AList.update (temp_name n) seg (s_dir s))"
  have wf: "wf_map ?d"
    using inv by (simp add: spool_inv_def wf_os_Remove)
  have same: "map_of ?d (sf_path f) = map_of (s_dir s) (sf_path f)" if "f \<in> set (s_files s)" for f
    using tracked_path [OF inv that] temp_name_not_spool(2) [of n]
    by (auto simp: map_of_os_Remove update_conv')
  show "spool_inv (t flt n seg)" "queue (t flt n seg) = queue s"
    unfolding t_def by (rule inv_change_dir [OF inv wf same]; assumption)+
  show "dir_exact s \<Longrightarrow> dir_exact (t flt n seg)"
    by (auto simp: t_def dir_exact_dom map_of_os_Remove update_conv' split: if_splits)
qed

text \<open>A failed \<open>Push\<close> leaves the queue as it was.\<close>

lemma Push_error:
  assumes "spool_inv s" and "Push marshal flt uuid now nano evs s = (Inl e, t)"
  shows "spool_inv t" and "queue t = queue s" and "dir_exact s \<Longrightarrow> dir_exact t"
    and "s_files t = s_files s \<and> s_activeLease t = s_activeLease s"
  using assms
  by (auto simp: Push_def Let_def inv_temp_file split: if_splits option.splits)

text \<open>A successful \<open>Push\<close> appends the batch, then applies the disk limit.\<close>

lemma Push_ok:
  assumes inv: "spool_inv s" and push: "Push marshal flt uuid now nano evs s = (Inr (), t)"
    and json: "json_faithful marshal" and fresh: "fresh_name (segment_name nano uuid) s" and ne: "evs \<noteq> []"
  obtains u where "spool_inv u" "queue u = queue s @ [evs]" "t = enforceLimitLocked flt u"
    "s_maxSizeBytes u = s_maxSizeBytes s" "s_activeLease u = s_activeLease s" "s_closed u = s_closed s"
    "map canon (s_files u) = map canon (s_files s) @ [segment_name nano uuid]"
    "dir_exact s \<Longrightarrow> dir_exact u"
    "\<And>seg. marshal \<lparr>sb_ID = uuid, sb_Timestamp = now, sb_Events = evs\<rparr> = Some seg \<Longrightarrow>
      s_currentSize u = s_currentSize s + seg_size seg"
    "\<exists>seg. marshal \<lparr>sb_ID = uuid, sb_Timestamp = now, sb_Events = evs\<rparr> = Some seg \<and>
      map sf_sizeBytes (s_files u) = map sf_sizeBytes (s_files s) @ [seg_size seg]"
proof -
  let ?n = "segment_name nano uuid"
  from push ne obtain seg d where m: "marshal \<lparr>sb_ID = uuid, sb_Timestamp = now, sb_Events = evs\<rparr> = Some seg"
    and r: "os_Rename flt (temp_name ?n) ?n (AList.update (temp_name ?n) seg (s_dir s)) = Some d"
    and t: "t = enforceLimitLocked flt
        (s\<lparr>s_dir := d,
           s_files := s_files s @ [\<lparr>sf_path = ?n, sf_sizeBytes = seg_size seg, sf_eventNum = int (length evs)\<rparr>],
           s_currentSize := s_currentSize s + seg_size seg,
           s_totalEvents := s_totalEvents s + int (length evs)\<rparr>)"
    by (auto simp: Push_def Let_def split: if_splits option.splits)
  let ?f = "\<lparr>sf_path = ?n, sf_sizeBytes = seg_size seg, sf_eventNum = int (length evs)\<rparr>"
  let ?u = "s\<lparr>s_dir := d, s_files := s_files s @ [?f], s_currentSize := s_currentSize s + seg_size seg,
      s_totalEvents := s_totalEvents s + int (length evs)\<rparr>"
  obtain q where q: "?n = spool_prefix @ q @ json_ext" using segment_name_shape by blast
  have canon: "canon ?f = ?n" using q by (simp add: canon_def)
  have mo: "map_of d = (map_of (s_dir s))(temp_name ?n := None, ?n := Some seg)"
    using map_of_os_Rename [OF r] by (auto simp: update_conv' q)
  have path_neq: "sf_path g \<noteq> ?n" if "g \<in> set (s_files s)" for g
    using that fresh canon by (metis canon_cong fresh_name_def image_eqI spool_file.select_convs(1))
  have same: "map_of d (sf_path g) = map_of (s_dir s) (sf_path g)" if "g \<in> set (s_files s)" for g
    using path_neq [OF that] tracked_path [OF inv that] by (auto simp: mo)
  have wf: "wf_map d"
    using inv by (intro wf_os_Rename [OF r]) (auto simp: spool_inv_def)
  note sd = inv_change_dir [OF inv wf same]
  have seg: "seg_batch seg = Some \<lparr>sb_ID = uuid, sb_Timestamp = now, sb_Events = evs\<rparr>" "0 \<le> seg_size seg"
    using json m by (auto simp: json_faithful_def)
  have fok: "seg_ok d ?f" "events_of d ?n = evs"
    using seg by (simp_all add: seg_ok_def events_of_def mo)
  have "spool_inv ?u"
    using sd(1) fok fresh canon q
    by (auto simp: spool_inv_defs fresh_name_def spool_name_json split: option.splits)
  moreover have "queue ?u = queue s @ [evs]"
    using sd(2) fok by (simp add: queue_def)
  moreover have "dir_exact s \<Longrightarrow> dir_exact ?u"
    by (auto simp: dir_exact_dom mo split: if_splits)
  ultimately show thesis using that [of ?u] t canon m by simp
qed

text \<open>\<open>Peek\<close> leases the oldest batch and changes nothing in the queue.\<close>

lemma Peek_ok:
  assumes inv: "spool_inv s" and peek: "Peek flt s = (Inr l, t)"
  shows "spool_inv t" and "queue t = queue s" and "queue s \<noteq> []" and "bl_Events l = hd (queue s)"
    and "s_activeLease t = Some l" and "s_activeLease s = None" and "map canon (s_files t) = map canon (s_files s)"
    and "s_maxSizeBytes t = s_maxSizeBytes s" and "s_closed t = s_closed s"
    and "dir_exact s \<Longrightarrow> dir_exact t"
proof -
  from peek obtain f fs seg b d where s: "s_activeLease s = None" "s_files s = f # fs"
    and r: "os_Rename flt (sf_path f) (inflightPath (sf_path f)) (s_dir s) = Some d"
    and seg: "map_of d (inflightPath (sf_path f)) = Some seg" "seg_batch seg = Some b"
    and l: "l = \<lparr>bl_addr = s_nextAddr s, bl_ID = sb_ID b, bl_Timestamp = sb_Timestamp b,
        bl_Events = sb_Events b, bl_file = f\<lparr>sf_path := inflightPath (sf_path f)\<rparr>\<rparr>"
    and t: "t = s\<lparr>s_dir := d, s_files := f\<lparr>sf_path := inflightPath (sf_path f)\<rparr> # fs,
        s_activeLease := Some l, s_nextAddr := Suc (s_nextAddr s)\<rparr>"
    by (auto simp: Peek_def Let_def os_ReadFile_def split: if_splits option.splits list.splits)
  from inv s obtain q where q: "sf_path f = spool_prefix @ q @ json_ext"
    by (auto simp: spool_inv_defs spool_name_json)
  then have ip: "inflightPath (sf_path f) = spool_prefix @ q @ inflight_ext"
    using inflightPath_json [of "spool_prefix @ q"] by simp
  let ?f = "f\<lparr>sf_path := inflightPath (sf_path f)\<rparr>"
  have mo: "map_of d = (map_of (s_dir s))(sf_path f := None, sf_path ?f := map_of (s_dir s) (sf_path f))"
    using map_of_os_Rename [OF r] by simp
  have "distinct (map sf_path (s_files s))"
    using inv by (simp add: spool_inv_def distinct_canon_paths)
  then have same: "map_of d (sf_path g) = map_of (s_dir s) (sf_path g)" if "g \<in> set fs" for g
    using that inv s ip by (auto simp: mo spool_inv_defs spool_name_json q image_iff)
  have mf: "map_of d (sf_path ?f) = map_of (s_dir s) (sf_path f)" by (simp add: mo)
  have ev: "events_of d (sf_path ?f) = events_of (s_dir s) (sf_path f)"
    using mf by (simp add: events_of_def)
  show q_eq: "queue t = queue s"
    using ev events_of_cong [OF same] by (simp add: queue_def t s)
  show "queue s \<noteq> []" "s_activeLease s = None" "s_activeLease t = Some l"
    "s_maxSizeBytes t = s_maxSizeBytes s" "s_closed t = s_closed s"
    by (simp_all add: queue_def s t)
  show "dir_exact s \<Longrightarrow> dir_exact t"
    by (auto simp: dir_exact_dom mo t s split: if_splits)
  have evl: "bl_Events l = events_of d (sf_path ?f)"
    using seg by (simp add: l events_of_def)
  then show "bl_Events l = hd (queue s)" using ev by (simp add: queue_def s)
  have canon: "canon ?f = canon f" using q ip by simp
  then show "map canon (s_files t) = map canon (s_files s)" by (simp add: t s)
  have "seg_ok d ?f" by (rule seg_ok_rename) (use inv s mf in \<open>auto simp: spool_inv_def\<close>)
  then show "spool_inv t"
    using inv s canon evl ip seg_ok_cong [OF same] wf_os_Rename [OF r]
    by (auto simp: spool_inv_defs t l spool_name_json)
qed

text \<open>Under the invariant a failing \<open>Peek\<close> leaves the spool unchanged or, when the read fails, restored.\<close>

lemma Peek_unavailable:
  shows "s_closed s \<Longrightarrow> Peek flt s = (Inl ErrClosed, s)"
    and "\<not> s_closed s \<Longrightarrow> s_activeLease s \<noteq> None \<Longrightarrow> Peek flt s = (Inl ErrInFlight, s)"
    and "\<not> s_closed s \<Longrightarrow> s_activeLease s = None \<Longrightarrow> s_files s = [] \<Longrightarrow> Peek flt s = (Inl ErrEmpty, s)"
  by (auto simp: Peek_def)

lemma Peek_error:
  assumes inv: "spool_inv s" and peek: "Peek flt s = (Inl e, t)"
    and undo: "\<And>p. \<not> flt (Rename p (normalPath p))"
  shows "spool_inv t" and "queue t = queue s" and "dir_exact s \<Longrightarrow> dir_exact t"
    and "s_files t = s_files s \<and> s_activeLease t = s_activeLease s"
proof -
  have "t = s \<or> (\<exists>d. t = s\<lparr>s_dir := d\<rparr> \<and> wf_map d \<and>
      (\<exists>ip. map_of d = (map_of (s_dir s))(ip := None) \<and> (\<forall>f\<in>set (s_files s). sf_path f \<noteq> ip)))"
  proof (cases "s_closed s \<or> s_activeLease s \<noteq> None \<or> s_files s = []")
    case True
    with peek have "t = s" by (auto simp: Peek_def split: if_splits list.splits)
    then show ?thesis ..
  next
    case False
    then obtain f fs where fs: "s_activeLease s = None" "s_files s = f # fs" "\<not> s_closed s"
      by (cases "s_files s") auto
    from inv fs obtain q where q: "sf_path f = spool_prefix @ q @ json_ext"
      by (auto simp: spool_inv_defs spool_name_json)
    then have ip: "inflightPath (sf_path f) = spool_prefix @ q @ inflight_ext" by simp
    from inv fs have "seg_ok (s_dir s) f" by (simp add: spool_inv_def)
    then obtain seg b where seg: "map_of (s_dir s) (sf_path f) = Some seg" "seg_batch seg = Some b"
      by (auto elim: seg_okE)
    show ?thesis
    proof (cases "os_Rename flt (sf_path f) (inflightPath (sf_path f)) (s_dir s)")
      case None
      with peek fs show ?thesis by (auto simp: Peek_def Let_def)
    next
      case (Some d)
      note mo = map_of_os_Rename [OF Some]
      have np: "normalPath (inflightPath (sf_path f)) = sf_path f" using q ip by simp
      from Some seg mo undo [of "inflightPath (sf_path f)"] obtain d' where
        bk: "os_Rename flt (inflightPath (sf_path f)) (sf_path f) d = Some d'"
        using os_Rename_Some [of d "inflightPath (sf_path f)" seg flt] np by auto
      have t: "t = s\<lparr>s_dir := d'\<rparr>"
        using peek fs Some bk np seg mo
        by (auto simp: Peek_def Let_def os_ReadFile_def split: if_splits option.splits)
      have "map_of d' = (map_of (s_dir s))(inflightPath (sf_path f) := None)"
        using map_of_os_Rename [OF bk] mo q ip by (auto simp: fun_eq_iff)
      moreover have "\<forall>g\<in>set (s_files s). sf_path g \<noteq> inflightPath (sf_path f)"
        using inv fs(1) ip by (auto simp: spool_inv_defs spool_name_json)
      moreover have "wf_map d'"
        using inv wf_os_Rename [OF Some] wf_os_Rename [OF bk] by (simp add: spool_inv_def)
      ultimately show ?thesis using t by blast
    qed
  qed
  then show "spool_inv t" "queue t = queue s" "dir_exact s \<Longrightarrow> dir_exact t"
    "s_files t = s_files s \<and> s_activeLease t = s_activeLease s"
    using inv inv_change_dir [OF inv] by (auto simp: dir_exact_dom split: if_splits)
qed

lemma Peek_succeeds:
  assumes "spool_inv s" and "\<not> s_closed s" and "s_activeLease s = None" and "s_files s \<noteq> []"
    and "\<And>c. \<not> flt c"
  shows "\<exists>l t. Peek flt s = (Inr l, t)"
proof -
  from assms(4) obtain f fs where fs: "s_files s = f # fs" by (cases "s_files s") auto
  with assms(1) have "seg_ok (s_dir s) f" by (simp add: spool_inv_def)
  then obtain seg b where seg: "map_of (s_dir s) (sf_path f) = Some seg" "seg_batch seg = Some b"
    by (auto elim: seg_okE)
  then obtain d where d: "os_Rename flt (sf_path f) (inflightPath (sf_path f)) (s_dir s) = Some d"
    using os_Rename_Some assms(5) by metis
  with seg have "map_of d (inflightPath (sf_path f)) = Some seg"
    by (auto simp: map_of_os_Rename)
  with d seg fs assms show ?thesis
    by (simp add: Peek_def Let_def os_ReadFile_def)
qed

text \<open>\<open>Commit\<close> removes exactly the leased batch, the head of the queue.\<close>

lemma Commit_ok:
  assumes inv: "spool_inv s" and l: "s_activeLease s = Some l"
  defines "t \<equiv> (\<lambda>flt. snd (commitLease flt l s))"
  shows "fst (commitLease flt l s) = Inr ()"
    and "spool_inv (t flt)" and "queue (t flt) = tl (queue s)" and "s_activeLease (t flt) = None"
    and "s_files (t flt) = tl (s_files s)" and "s_closed (t flt) = s_closed s"
    and "s_maxSizeBytes (t flt) = s_maxSizeBytes s"
    and "dir_exact s \<Longrightarrow> \<not> flt (Remove (sf_path (bl_file l))) \<Longrightarrow> dir_exact (t flt)"
proof -
  from inv l obtain f fs where fs: "s_files s = f # fs" "bl_file l = f"
    by (cases "s_files s") (auto simp: spool_inv_defs)
  then have t: "commitLease flt l s = (Inr (), (drop_segment flt f (s\<lparr>s_files := fs, s_activeLease := None\<rparr>)))"
    using l by (simp add: commitLease_def owns_lease_def drop_segment_def Let_def)
  then show "fst (commitLease flt l s) = Inr ()" "s_activeLease (t flt) = None"
    "s_files (t flt) = tl (s_files s)" "s_closed (t flt) = s_closed s" "s_maxSizeBytes (t flt) = s_maxSizeBytes s"
    by (simp_all add: t_def fs)
  show "dir_exact s \<Longrightarrow> \<not> flt (Remove (sf_path (bl_file l))) \<Longrightarrow> dir_exact (t flt)"
    by (auto simp: t t_def fs dir_exact_dom map_of_os_Remove split: if_splits)
  have "distinct (map sf_path (s_files s))"
    using inv by (simp add: spool_inv_def distinct_canon_paths)
  then have same: "map_of (s_dir (t flt)) (sf_path g) = map_of (s_dir s) (sf_path g)" if "g \<in> set fs" for g
    using that by (auto simp: t t_def fs map_of_os_Remove image_iff)
  show "queue (t flt) = tl (queue s)"
    using events_of_cong [OF same] by (simp add: queue_def t t_def fs)
  have "\<forall>g\<in>set fs. seg_ok (s_dir (t flt)) g"
    using inv fs seg_ok_cong [OF same] by (auto simp: spool_inv_def)
  then show "spool_inv (t flt)"
    using inv l by (auto simp: spool_inv_defs t t_def fs wf_os_Remove)
qed

text \<open>\<open>Revert\<close> gives the lease back and keeps the queue.\<close>

lemma Revert_ok:
  assumes inv: "spool_inv s" and l: "s_activeLease s = Some l" and revert: "revertLease flt l s = (Inr (), t)"
  shows "spool_inv t" and "queue t = queue s" and "s_activeLease t = None"
    and "map canon (s_files t) = map canon (s_files s)" and "s_closed t = s_closed s"
    and "s_maxSizeBytes t = s_maxSizeBytes s" and "dir_exact s \<Longrightarrow> dir_exact t"
    and "map sf_sizeBytes (s_files t) = map sf_sizeBytes (s_files s)"
proof -
  from inv l obtain f fs q where fs: "s_files s = f # fs" "bl_file l = f"
    and q: "sf_path f = spool_prefix @ q @ inflight_ext"
    by (cases "s_files s") (auto simp: spool_inv_defs spool_name_json)
  let ?np = "spool_prefix @ q @ json_ext"
  let ?f = "f\<lparr>sf_path := ?np\<rparr>"
  from revert l fs q obtain d where r: "os_Rename flt (sf_path f) ?np (s_dir s) = Some d"
    and t: "t = s\<lparr>s_dir := d, s_files := ?f # fs, s_activeLease := None\<rparr>"
    by (auto simp: revertLease_def owns_lease_def Let_def split: option.splits)
  have "canon ?f = ?np" by (rule canon_path(3)) simp
  moreover have "canon f = ?np" using q by simp
  ultimately have canon: "canon ?f = canon f" by metis
  then show "map canon (s_files t) = map canon (s_files s)" by (simp add: t fs del: canon_path)
  have mo: "map_of d = (map_of (s_dir s))(sf_path f := None, ?np := map_of (s_dir s) (sf_path f))"
    using map_of_os_Rename [OF r] by simp
  show "dir_exact s \<Longrightarrow> dir_exact t"
    by (auto simp: dir_exact_dom mo t fs split: if_splits)
  have dist: "distinct (map canon (s_files s))" "distinct (map sf_path (s_files s))"
    using inv by (simp_all add: spool_inv_def distinct_canon_paths)
  have same: "map_of d (sf_path g) = map_of (s_dir s) (sf_path g)" if "g \<in> set fs" for g
  proof -
    have "canon g \<noteq> canon f" "sf_path g \<noteq> sf_path f" using dist that by (auto simp: fs image_iff)
    then have "sf_path g \<noteq> ?np" using q by (metis canon_path(3,4))
    with \<open>sf_path g \<noteq> sf_path f\<close> show ?thesis by (simp add: mo)
  qed
  have mf: "map_of d (sf_path ?f) = map_of (s_dir s) (sf_path f)" by (simp add: mo)
  have "events_of d (sf_path ?f) = events_of (s_dir s) (sf_path f)"
    using mf by (simp add: events_of_def)
  then show "queue t = queue s"
    using events_of_cong [OF same] by (simp add: queue_def t fs)
  have "seg_ok d ?f" by (rule seg_ok_rename) (use inv fs mf in \<open>auto simp: spool_inv_def\<close>)
  then show "spool_inv t"
    using inv l canon fs seg_ok_cong [OF same] wf_os_Rename [OF r]
    by (auto simp: spool_inv_defs t spool_name_json simp del: canon_path)
  show "s_activeLease t = None" "s_closed t = s_closed s" "s_maxSizeBytes t = s_maxSizeBytes s"
    "map sf_sizeBytes (s_files t) = map sf_sizeBytes (s_files s)"
    by (simp_all add: t fs)
qed

lemma stale_lease:
  assumes "\<not> owns_lease s l"
  shows "commitLease flt l s = (Inl ErrInvalidLease, s)" and "revertLease flt l s = (Inl ErrInvalidLease, s)"
  using assms by (simp_all add: commitLease_def revertLease_def)

lemma Pop_ok:
  assumes "spool_inv s" and "Pop flt s = (Inr evs, t)"
  shows "spool_inv t" and "queue s = evs # queue t" and "s_activeLease t = None"
proof -
  from assms(2) obtain l s1 where p: "Peek flt s = (Inr l, s1)"
    and c: "commitLease flt l s1 = (Inr (), t)" "evs = bl_Events l"
    by (auto simp: Pop_def Commit_def split: prod.splits sum.splits)
  note pk = Peek_ok [OF assms(1) p]
  have t: "t = snd (commitLease flt l s1)" using c by simp
  note cm = Commit_ok [OF pk(1,5), of flt, folded t]
  show "spool_inv t" "s_activeLease t = None" by (rule cm)+
  show "queue s = evs # queue t"
    using cm(3) pk(2,3,4) c(2) by (metis list.collapse)
qed

end
