(* ===== verification/SpoolRuns.thy ===== *)
theory SpoolRuns
  imports Spool
begin

text \<open>
  The life of a spool across crashes (\<open>internal/spool/spool.go\<close>): the scan at start-up restores
  the queue the directory holds, every operation keeps the directory recoverable, and so the
  spool provides the contract of theory \<open>LeaseQueue\<close> along all runs with faults, crashes and
  restarts. The properties of the component are at the end.
\<close>

section \<open>Crash recovery\<close>

definition recoverable :: "spool \<Rightarrow> bool" where
  "recoverable s \<longleftrightarrow> spool_inv s \<and> dir_exact s \<and> sorted_wrt (<) (map canon (s_files s))"

definition restored :: "spool_file \<Rightarrow> spool_file" where
  "restored f = f\<lparr>sf_path := canon f\<rparr>"

text \<open>The scan has still to visit \<open>ns\<close>; the segments already visited have their normal names.\<close>

definition position :: "string list \<Rightarrow> spool_file \<Rightarrow> string" where
  "position ns f = (if sf_path f \<in> set ns then sf_path f else canon f)"

definition scan_inv :: "spool_dir \<Rightarrow> spool_file list \<Rightarrow> string list \<Rightarrow> spool_dir \<Rightarrow> bool" where
  "scan_inv d0 fs ns d \<longleftrightarrow> wf_map d \<and>
     (\<forall>f\<in>set fs. map_of d (position ns f) = map_of d0 (sf_path f)) \<and>
     (\<forall>n\<in>dom (map_of d). HasPrefix n spool_prefix \<longrightarrow> n \<in> position ns ` set fs)"

lemma scan_inv_position:
  assumes "scan_inv d0 fs ns d" and "\<And>g. g \<in> set fs \<Longrightarrow> position ns' g = position ns g"
  shows "scan_inv d0 fs ns' d"
proof -
  have "position ns' ` set fs = position ns ` set fs" using assms(2) by (auto simp: image_iff)
  with assms show ?thesis by (auto simp: scan_inv_def)
qed

lemma spool_file_shape:
  assumes "spool_inv s" and "f \<in> set (s_files s)"
  obtains r where "sf_path f = spool_prefix @ r @ json_ext" "canon f = sf_path f"
  | r where "sf_path f = spool_prefix @ r @ inflight_ext" "canon f = spool_prefix @ r @ json_ext"
proof -
  from assms consider "spool_name json_ext f" | "spool_name inflight_ext f"
    by (cases "s_files s") (auto simp: spool_inv_defs split: if_splits option.splits)
  then show thesis by cases (use that in \<open>auto simp: spool_name_json\<close>)
qed

lemma scan_segment_found:
  assumes "map_of d p = Some seg" and "seg_batch seg = Some b"
  shows "scan_segment no_faults p (d, found) =
     (d, found @ [\<lparr>sf_path = p, sf_sizeBytes = seg_size seg, sf_eventNum = int (length (sb_Events b))\<rparr>])"
  using assms by (simp add: scan_segment_def os_ReadFile_def no_faults_def)

lemma scan_entry_tracked:
  assumes inv: "spool_inv s" and f: "f \<in> set (s_files s)" and ns: "sf_path f \<notin> set ns"
    and J: "scan_inv (s_dir s) (s_files s) (sf_path f # ns) d"
    and canon_ns: "sf_path f \<noteq> canon f \<Longrightarrow> canon f \<notin> set ns"
  obtains d' where "scan_entry no_faults (sf_path f) (d, found) = (d', found @ [restored f])"
    "scan_inv (s_dir s) (s_files s) ns d'"
proof -
  from inv f have "seg_ok (s_dir s) f" by (simp add: spool_inv_def)
  then obtain seg b where seg: "map_of (s_dir s) (sf_path f) = Some seg" "seg_batch seg = Some b"
      "seg_size seg = sf_sizeBytes f" "int (length (sb_Events b)) = sf_eventNum f"
    by (auto elim: seg_okE)
  have df: "map_of d (sf_path f) = Some seg"
    using J f seg(1) by (auto simp: scan_inv_def position_def)
  have rest: "\<lparr>sf_path = canon f, sf_sizeBytes = seg_size seg, sf_eventNum = int (length (sb_Events b))\<rparr> = restored f"
    using seg(3,4) by (simp add: restored_def)
  from inv f show thesis
  proof (cases rule: spool_file_shape)
    case (1 r)
    have "scan_entry no_faults (sf_path f) (d, found) = (d, found @ [restored f])"
      using 1 scan_segment_found [OF df seg(2)] rest by (auto simp: scan_entry_def)
    moreover have "scan_inv (s_dir s) (s_files s) ns d"
    proof (rule scan_inv_position [OF J])
      fix g assume "g \<in> set (s_files s)"
      show "position ns g = position (sf_path f # ns) g"
        using 1(2) canon_cong [of g f] by (auto simp: position_def)
    qed
    ultimately show thesis by (rule that)
  next
    case (2 r)
    have dist: "distinct (map canon (s_files s))" using inv by (simp add: spool_inv_def)
    have "sf_path f \<noteq> canon f" unfolding 2 by (rule inflight_neq_json_prefixed)
    then have not_ns: "canon f \<notin> set ns" by (rule canon_ns)
    obtain d' where d': "os_Rename no_faults (sf_path f) (canon f) d = Some d'"
      using df by (auto simp: os_Rename_def no_faults_def)
    have mo: "map_of d' = (map_of d)(sf_path f := None, canon f := Some seg)"
      using map_of_os_Rename [OF d'] df by simp
    have "scan_entry no_faults (sf_path f) (d, found) = (d', found @ [restored f])"
      using 2 d' scan_segment_found [of d' "canon f" seg b] seg(2) mo rest by (auto simp: scan_entry_def)
    moreover have pos_f: "position ns f = canon f" using ns by (simp add: position_def)
    have other: "position ns g = position (sf_path f # ns) g" "position ns g \<noteq> sf_path f" "position ns g \<noteq> canon f"
      if g: "g \<in> set (s_files s)" "g \<noteq> f" for g
    proof -
      have c: "canon g \<noteq> canon f" using dist f g by (meson distinct_map inj_onD)
      then have p: "sf_path g \<noteq> sf_path f" by (metis canon_cong)
      have q: "canon g \<noteq> sf_path f"
        using inv g(1) 2(1) by (cases rule: spool_file_shape) auto
      show "position ns g = position (sf_path f # ns) g" "position ns g \<noteq> sf_path f"
        using p q by (simp_all add: position_def)
      show "position ns g \<noteq> canon f"
        using c not_ns by (auto simp: position_def)
    qed
    have "scan_inv (s_dir s) (s_files s) ns d'"
      unfolding scan_inv_def
    proof (intro conjI ballI impI)
      show "wf_map d'" using J wf_os_Rename [OF d'] by (simp add: scan_inv_def)
    next
      fix g assume g: "g \<in> set (s_files s)"
      show "map_of d' (position ns g) = map_of (s_dir s) (sf_path g)"
      proof (cases "g = f")
        case True
        then show ?thesis using seg(1) mo pos_f by simp
      next
        case False
        with other [OF g] J g show ?thesis by (simp add: mo scan_inv_def)
      qed
    next
      fix n assume n: "n \<in> dom (map_of d')" "HasPrefix n spool_prefix"
      show "n \<in> position ns ` set (s_files s)"
      proof (cases "n = canon f")
        case True
        with pos_f f show ?thesis by (metis image_eqI)
      next
        case False
        with n mo have "n \<in> dom (map_of d)" "n \<noteq> sf_path f" by (auto split: if_splits)
        with J n(2) obtain g where "g \<in> set (s_files s)" "n = position (sf_path f # ns) g"
          by (auto simp: scan_inv_def)
        moreover from this \<open>n \<noteq> sf_path f\<close> have "g \<noteq> f" by (auto simp: position_def)
        ultimately show ?thesis using other(1) by (metis image_eqI)
      qed
    qed
    ultimately show thesis using that by blast
  qed
qed

text \<open>The files found while visiting the names \<open>ns\<close>.\<close>

definition visited :: "spool \<Rightarrow> string list \<Rightarrow> spool_file list" where
  "visited s ns = concat (map (\<lambda>n. map restored (filter (\<lambda>f. sf_path f = n) (s_files s))) ns)"

lemma scan_fold:
  assumes inv: "spool_inv s" and "distinct ns"
    and "\<And>n. n \<in> set ns \<Longrightarrow> HasPrefix n spool_prefix \<Longrightarrow> n \<in> sf_path ` set (s_files s)"
    and "scan_inv (s_dir s) (s_files s) ns d"
  obtains d' where "fold (scan_entry no_faults) ns (d, found) = (d', found @ visited s ns)"
    "scan_inv (s_dir s) (s_files s) [] d'"
  using assms(2-4)
proof (induction ns arbitrary: d found thesis)
  case Nil
  then show ?case by (simp add: visited_def)
next
  case (Cons n ns)
  have dist: "distinct (map canon (s_files s))" "distinct (map sf_path (s_files s))"
    using inv by (simp_all add: spool_inv_def distinct_canon_paths)
  have n: "n \<notin> set ns" "distinct ns" using Cons.prems(2) by auto
  show ?case
  proof (cases "HasPrefix n spool_prefix")
    case False
    then have no: "sf_path f \<noteq> n" if "f \<in> set (s_files s)" for f
      using tracked_path [OF inv that] by (auto simp: HasPrefix_iff)
    then have "scan_inv (s_dir s) (s_files s) ns d"
      by (intro scan_inv_position [OF Cons.prems(4)]) (simp add: position_def)
    with Cons.IH [of d found] n Cons.prems(3) obtain d' where
      "fold (scan_entry no_faults) ns (d, found) = (d', found @ visited s ns)"
      "scan_inv (s_dir s) (s_files s) [] d'" by auto
    moreover have "filter (\<lambda>f. sf_path f = n) (s_files s) = []" using no by (simp add: filter_empty_conv)
    moreover have "scan_entry no_faults n (d, found) = (d, found)"
      using False by (simp add: scan_entry_def)
    ultimately show ?thesis
      using Cons.prems(1) by (simp add: visited_def)
  next
    case True
    with Cons.prems(3) obtain f where f: "f \<in> set (s_files s)" "sf_path f = n" by auto
    have one: "filter (\<lambda>g. sf_path g = n) (s_files s) = [f]"
      using dist(2) f by (metis distinct_map_filter_unique)
    have "canon f \<notin> set ns" if "sf_path f \<noteq> canon f"
    proof
      assume "canon f \<in> set ns"
      moreover have "HasPrefix (canon f) spool_prefix"
        using inv f(1) by (cases rule: spool_file_shape) (auto simp: HasPrefix_iff)
      ultimately obtain g where g: "g \<in> set (s_files s)" "sf_path g = canon f"
        using Cons.prems(3) [of "canon f"] by auto
      have "canon g = canon f"
        using inv f(1) g(2) by (cases rule: spool_file_shape) auto
      with dist(1) f(1) g(1) have "g = f" by (meson distinct_map inj_onD)
      with g(2) that show False by simp
    qed
    with scan_entry_tracked [OF inv f(1), of ns d found] Cons.prems(4) n(1) f(2) obtain d1 where
      d1: "scan_entry no_faults n (d, found) = (d1, found @ [restored f])"
        "scan_inv (s_dir s) (s_files s) ns d1" by auto
    with Cons.IH [of d1 "found @ [restored f]"] n Cons.prems(3) obtain d' where
      "fold (scan_entry no_faults) ns (d1, found @ [restored f]) = (d', (found @ [restored f]) @ visited s ns)"
      "scan_inv (s_dir s) (s_files s) [] d'" by auto
    with d1 one show ?thesis using Cons.prems(1) by (simp add: visited_def)
  qed
qed

lemma mset_visited:
  assumes "distinct ns"
  shows "mset (visited s ns) = image_mset restored (filter_mset (\<lambda>f. sf_path f \<in> set ns) (mset (s_files s)))"
  using assms
proof (induction ns)
  case Nil
  then show ?case by (simp add: visited_def)
next
  case (Cons n ns)
  have "filter_mset (\<lambda>f. sf_path f \<in> set (n # ns)) M =
      filter_mset (\<lambda>f. sf_path f = n) M + filter_mset (\<lambda>f. sf_path f \<in> set ns) M" for M
    using Cons.prems by (induction M) auto
  note split = this [of "mset (s_files s)"]
  have "mset (visited s (n # ns)) =
      image_mset restored (filter_mset (\<lambda>f. sf_path f = n) (mset (s_files s))) + mset (visited s ns)"
    by (simp add: visited_def)
  with Cons show ?case by (simp only: split image_mset_union distinct.simps)
qed

lemma restored_sel [simp]:
  "sf_path (restored f) = canon f" "sf_sizeBytes (restored f) = sf_sizeBytes f"
  "sf_eventNum (restored f) = sf_eventNum f"
  by (simp_all add: restored_def)

lemma canon_restored: "spool_inv s \<Longrightarrow> f \<in> set (s_files s) \<Longrightarrow> canon (restored f) = canon f"
  by (cases rule: spool_file_shape) (auto simp: canon_def [of "restored f"] canon_def)

lemma tracked_in_dir:
  assumes "spool_inv s" and "f \<in> set (s_files s)"
  shows "sf_path f \<in> set (map fst (s_dir s))"
proof -
  from assms have "seg_ok (s_dir s) f" by (simp add: spool_inv_def)
  then obtain seg where "map_of (s_dir s) (sf_path f) = Some seg" by (auto elim: seg_okE)
  then show ?thesis by (force dest: map_of_SomeD)
qed

text \<open>The scan finds exactly the tracked segments and gives each its normal name.\<close>

lemma scan_finds_queue:
  assumes rec: "recoverable s"
  obtains d' found where
    "fold (scan_entry no_faults) (sort (map fst (s_dir s))) (s_dir s, []) = (d', found)"
    "sort_key sf_path found = map restored (s_files s)"
    "mset found = image_mset restored (mset (s_files s))"
    "scan_inv (s_dir s) (s_files s) [] d'"
proof -
  let ?ns = "sort (map fst (s_dir s))"
  from rec have inv: "spool_inv s" and ex: "dir_exact s"
    and srt: "sorted_wrt (<) (map canon (s_files s))" by (simp_all add: recoverable_def)
  have dist: "distinct ?ns" using inv by (simp add: spool_inv_def)
  have pos: "position ?ns f = sf_path f" if "f \<in> set (s_files s)" for f
    using tracked_in_dir [OF inv that] by (simp add: position_def)
  have J: "scan_inv (s_dir s) (s_files s) ?ns (s_dir s)"
    using inv ex pos by (auto simp: scan_inv_def spool_inv_def dir_exact_def dom_map_of_conv_image_fst)
  have tracked: "n \<in> sf_path ` set (s_files s)" if "n \<in> set ?ns" "HasPrefix n spool_prefix" for n
    using ex that by (auto simp: dir_exact_def)
  obtain d' where d': "fold (scan_entry no_faults) ?ns (s_dir s, []) = (d', [] @ visited s ?ns)"
      "scan_inv (s_dir s) (s_files s) [] d'"
    using scan_fold [OF inv dist tracked J] by blast
  have m: "mset (visited s ?ns) = image_mset restored (mset (s_files s))"
  proof -
    have "filter (\<lambda>f. sf_path f \<in> set ?ns) (s_files s) = s_files s"
      using tracked_in_dir [OF inv] by (auto simp: filter_id_conv)
    then show ?thesis using mset_visited [OF dist, of s] by (simp flip: mset_filter)
  qed
  have "inj_on sf_path (set (visited s ?ns))"
  proof -
    have "set (visited s ?ns) = restored ` set (s_files s)"
      using arg_cong [OF m, of set_mset] by simp
    moreover have "inj_on canon (set (s_files s))"
      using inv by (simp add: spool_inv_def distinct_map)
    ultimately show ?thesis by (auto simp: inj_on_def)
  qed
  moreover have "sorted (map sf_path (map restored (s_files s)))"
    using srt by (simp add: comp_def strict_sorted_iff)
  ultimately have "sort_key sf_path (visited s ?ns) = map restored (s_files s)"
    using m by (intro sort_key_inj_key_eq) simp_all
  with d' m show thesis by (intro that [of d' "visited s ?ns"]) simp_all
qed

text \<open>The state the scan builds, before the limit is applied.\<close>

definition rescanned :: "int \<Rightarrow> spool_dir \<Rightarrow> spool_file list \<Rightarrow> spool" where
  "rescanned m d fs =
     \<lparr>s_dir = d, s_maxSizeBytes = m, s_closed = False, s_currentSize = sum_list (map sf_sizeBytes fs),
      s_totalEvents = sum_list (map sf_eventNum fs), s_files = fs, s_activeLease = None, s_nextAddr = 0\<rparr>"

lemma rescanned_ok:
  fixes m :: int
  assumes rec: "recoverable s" and J: "scan_inv (s_dir s) (s_files s) [] d'"
  defines "u \<equiv> rescanned m d' (map restored (s_files s))"
  shows "recoverable u" and "queue u = queue s" and "s_currentSize u = s_currentSize s"
proof -
  from rec have inv: "spool_inv s" and srt: "sorted_wrt (<) (map canon (s_files s))"
    by (simp_all add: recoverable_def)
  have canons: "map canon (map restored (s_files s)) = map canon (s_files s)"
    using canon_restored [OF inv] by simp
  have mo: "map_of d' (canon f) = map_of (s_dir s) (sf_path f)" if "f \<in> set (s_files s)" for f
    using J that by (simp add: scan_inv_def position_def)
  have seg: "seg_ok d' (restored f)" if "f \<in> set (s_files s)" for f
    unfolding restored_def
    by (rule seg_ok_rename [of "s_dir s"]) (use inv that mo in \<open>auto simp: spool_inv_def\<close>)
  have name: "spool_name json_ext (restored f)" if "f \<in> set (s_files s)" for f
    using inv that by (cases rule: spool_file_shape) (auto simp: spool_name_json)
  show "queue u = queue s"
    using mo by (simp add: queue_def u_def rescanned_def events_of_def)
  show "s_currentSize u = s_currentSize s"
    using inv by (simp add: u_def rescanned_def spool_inv_def comp_def)
  have "distinct (map canon (map restored (s_files s)))"
    and srt': "sorted_wrt (<) (map canon (map restored (s_files s)))"
    unfolding canons using inv srt by (simp_all add: spool_inv_def)
  then have "spool_inv u"
    using inv J seg name by (auto simp: spool_inv_defs u_def rescanned_def scan_inv_def)
  moreover have "dir_exact u"
    using J by (auto simp: dir_exact_def scan_inv_def u_def rescanned_def position_def
        dom_map_of_conv_image_fst image_image)
  ultimately show "recoverable u"
    using srt' by (simp add: recoverable_def u_def rescanned_def)
qed

definition limit_of_MB :: "int \<Rightarrow> int" where
  "limit_of_MB mb = (let b = int64 (mb * 1024 * 1024) in if b \<le> 0 then 1024 * 1024 * 1024 else b)"

lemma New_recovers:
  assumes rec: "recoverable s" and dir: "TrimSpace dir \<noteq> ''''"
  obtains u where "New_spool no_faults dir mb (s_dir s) = Inr (enforceLimitLocked no_faults u)"
    "recoverable u" "queue u = queue s" "s_currentSize u = s_currentSize s"
    "s_maxSizeBytes u = limit_of_MB mb" "s_activeLease u = None" "\<not> s_closed u"
    "map sf_sizeBytes (s_files u) = map sf_sizeBytes (s_files s)"
proof -
  obtain d' found where sc: "fold (scan_entry no_faults) (sort (map fst (s_dir s))) (s_dir s, []) = (d', found)"
    "sort_key sf_path found = map restored (s_files s)"
    "mset found = image_mset restored (mset (s_files s))"
    "scan_inv (s_dir s) (s_files s) [] d'" by (rule scan_finds_queue [OF rec])
  let ?u = "rescanned (limit_of_MB mb) d' (map restored (s_files s))"
  have sums: "sum_list (map g found) = sum_list (map g (map restored (s_files s)))" for g :: "spool_file \<Rightarrow> int"
    using sc(3) by (metis mset_map sum_mset_sum_list)
  have "New_spool no_faults dir mb (s_dir s) = Inr (enforceLimitLocked no_faults ?u)"
    using dir by (simp add: New_spool_def scanExisting_def sc(1,2) sums rescanned_def limit_of_MB_def
        no_faults_def Let_def)
  with rescanned_ok [OF rec sc(4), of "limit_of_MB mb"] show thesis
    by (intro that [of ?u]) (simp_all add: rescanned_def)
qed

section \<open>Runs of the spool\<close>

text \<open>
  Faults that the spool undoes: files can be removed, and a lease can be renamed back. All
  other calls (creating, writing, syncing, closing and publishing the temporary file, marking
  a segment in flight, reading it) may fail at any time.
\<close>

definition undo_ok :: "faults \<Rightarrow> bool" where
  "undo_ok flt \<longleftrightarrow> (\<forall>n. \<not> flt (Remove n)) \<and> (\<forall>p. \<not> flt (Rename p (normalPath p)))"

lemma undo_ok_no_faults [simp]: "undo_ok no_faults"
  by (simp add: undo_ok_def no_faults_def)

lemma enforceLimit_dir_exact:
  assumes "undo_ok flt"
  shows "dir_exact s \<Longrightarrow> dir_exact (enforceLimitLocked flt s)"
  using assms
proof (induction flt s rule: enforceLimitLocked.induct)
  case (1 flt s)
  have step: "dir_exact (drop_segment flt f (s\<lparr>s_files := xs @ ys\<rparr>))" if "s_files s = xs @ f # ys" for xs f ys
    using "1.prems" that by (auto simp: dir_exact_dom map_of_os_Remove undo_ok_def)
  show ?case
  proof (cases "s_maxSizeBytes s < s_currentSize s \<and> s_files s \<noteq> []")
    case True
    then obtain f fs where fs: "s_files s = f # fs" by (cases "s_files s") auto
    show ?thesis
    proof (cases "leased s f")
      case leased: True
      show ?thesis
      proof (cases fs)
        case Nil
        with True fs leased "1.prems" show ?thesis by (subst enforceLimitLocked.simps) simp
      next
        case (Cons g gs)
        with "1.IH"(1) True fs leased "1.prems" step [of "[f]" g gs] show ?thesis
          by (subst enforceLimitLocked.simps) simp
      qed
    next
      case False
      with "1.IH"(2) True fs "1.prems" step [of "[]" f fs] show ?thesis
        by (subst enforceLimitLocked.simps) simp
    qed
  next
    case False
    with "1.prems" show ?thesis by (subst enforceLimitLocked.simps) auto
  qed
qed

lemma enforceLimit_recoverable:
  assumes "recoverable s" and "undo_ok flt"
  shows "recoverable (enforceLimitLocked flt s)"
proof -
  from assms have inv: "spool_inv s" and ex: "dir_exact s" and srt: "sorted_wrt (<) (map canon (s_files s))"
    by (simp_all add: recoverable_def)
  from enforceLimit_correct(3) [OF inv, of flt] obtain k where
    "s_files (enforceLimitLocked flt s) = held s @ drop k (pending s)" by (auto simp: limited_def)
  then have "sorted_wrt (<) (map canon (s_files (enforceLimitLocked flt s)))"
    using srt held_pending [of s] sorted_wrt_drop [of "(<)" "map canon (pending s)" k]
    by (auto simp: sorted_wrt_append drop_map dest: in_set_dropD)
  with enforceLimit_correct(1) [OF inv] enforceLimit_dir_exact [OF assms(2) ex] show ?thesis
    by (simp add: recoverable_def)
qed

text \<open>The new segment is named after all others: the clock moved on since the last push.\<close>

definition later_name :: "string \<Rightarrow> spool \<Rightarrow> bool" where
  "later_name n s \<longleftrightarrow> (\<forall>f\<in>set (s_files s). canon f < n)"

lemma later_name_fresh: "later_name n s \<Longrightarrow> fresh_name n s"
  by (auto simp: later_name_def fresh_name_def)

lemma Push_recoverable:
  assumes rec: "recoverable s" and push: "Push marshal flt uuid now nano evs s = (r, t)"
    and json: "json_faithful marshal" and later: "later_name (segment_name nano uuid) s" and undo: "undo_ok flt"
  shows "recoverable t"
proof (cases "r = Inr () \<and> evs \<noteq> []")
  case True
  from rec have inv: "spool_inv s" and ex: "dir_exact s" and srt: "sorted_wrt (<) (map canon (s_files s))"
    by (simp_all add: recoverable_def)
  from Push_ok [OF inv _ json later_name_fresh [OF later]] push True obtain u where u: "spool_inv u"
    "t = enforceLimitLocked flt u" "map canon (s_files u) = map canon (s_files s) @ [segment_name nano uuid]"
    "dir_exact u" using ex by metis
  have "recoverable u"
    using u srt later by (auto simp: recoverable_def sorted_wrt_append later_name_def)
  with u(2) undo show ?thesis by (simp add: enforceLimit_recoverable)
next
  case False
  then consider e where "r = Inl e" | "evs = []" "r = Inr ()" by (cases r) auto
  then show ?thesis
  proof cases
    case 1
    with rec push Push_error [of s marshal flt uuid now nano evs e t] show ?thesis
      by (simp add: recoverable_def)
  next
    case 2
    with rec push show ?thesis by (simp add: Push_def)
  qed
qed

lemma Peek_recoverable:
  assumes rec: "recoverable s" and peek: "Peek flt s = (r, t)" and undo: "undo_ok flt"
  shows "recoverable t"
proof (cases r)
  case (Inl e)
  with Peek_error [of s flt e t] rec peek undo show ?thesis by (auto simp: recoverable_def undo_ok_def)
next
  case (Inr l)
  with Peek_ok [of s flt l t] rec peek show ?thesis by (auto simp: recoverable_def)
qed

text \<open>A lease is the one the spool handed out last, or a stale one.\<close>

definition genuine :: "batch_lease \<Rightarrow> spool \<Rightarrow> bool" where
  "genuine l s \<longleftrightarrow> (owns_lease s l \<longrightarrow> s_activeLease s = Some l)"

lemma Commit_recoverable:
  assumes "recoverable s" and "undo_ok flt" and "genuine l s"
  shows "recoverable (snd (commitLease flt l s))"
proof (cases "owns_lease s l")
  case True
  with assms Commit_ok [of s l flt] show ?thesis
    by (cases "s_files s") (auto simp: genuine_def recoverable_def undo_ok_def)
qed (use assms stale_lease in auto)

lemma Revert_recoverable:
  assumes "recoverable s" and "genuine l s"
  shows "recoverable (snd (revertLease flt l s))"
proof (cases "owns_lease s l")
  case True
  show ?thesis
  proof (cases "fst (revertLease flt l s)")
    case (Inl e)
    with True have "snd (revertLease flt l s) = s"
      by (auto simp: revertLease_def Let_def split: option.splits)
    with assms show ?thesis by simp
  next
    case (Inr x)
    with True assms Revert_ok [of s l flt "snd (revertLease flt l s)"] show ?thesis
      by (cases "revertLease flt l s") (auto simp: genuine_def recoverable_def)
  qed
qed (use assms stale_lease in auto)

text \<open>
  \<open>Close\<close> renames a leased segment back, exactly as \<open>Revert\<close> does, or fails to and leaves
  it in flight. Either way the directory is that of a recoverable spool with the same queue.
\<close>

lemma Close_dir:
  assumes rec: "recoverable s"
  obtains u where "recoverable u" "s_dir (Close_spool flt s) = s_dir u" "queue u = queue s"
    "s_currentSize u = s_currentSize s" "map sf_sizeBytes (s_files u) = map sf_sizeBytes (s_files s)"
proof (cases "s_activeLease s")
  case None
  with rec that [of s] show thesis by (simp add: Close_spool_def)
next
  case (Some l)
  let ?r = "os_Rename flt (sf_path (bl_file l)) (normalPath (sf_path (bl_file l))) (s_dir s)"
  show thesis
  proof (cases ?r)
    case None
    with rec Some that [of s] show thesis by (simp add: Close_spool_def Let_def)
  next
    case r: (Some d)
    with Some obtain t where t: "revertLease flt l s = (Inr (), t)" "s_dir t = d" "s_currentSize t = s_currentSize s"
      by (auto simp: revertLease_def owns_lease_def Let_def)
    from rec have "spool_inv s" by (simp add: recoverable_def)
    note rv = Revert_ok [OF this Some t(1)]
    have "recoverable t" using Revert_recoverable [OF rec, of l flt] t(1) Some by (simp add: genuine_def)
    with rv t that [of t] Some r show thesis by (simp add: Close_spool_def Let_def)
  qed
qed

text \<open>
  One step of a process that uses the spool: an operation, with the faults that happen during
  it, or the end of the process, by a crash (possibly in the middle of a push, which leaves
  a temporary file) or after \<open>Close\<close>, followed by the restart on the directory left behind.
  Any call may fail, also the removal of a file, with one exception: the segment that
  a failing \<open>Peek\<close> renames back has its name again (lemma \<open>failed_rename_back_blocks\<close> is about
  the other case). A restart meets no fault and finds a directory as it should be: every file the
  spool tried to remove is gone, and the names sort in the order of the pushes. Lemma
  \<open>failed_remove_requeues\<close> shows what it finds after a removal that failed.
\<close>

inductive spool_op :: "(stored_batch \<Rightarrow> segment option) \<Rightarrow> spool \<Rightarrow> log_entry list lq_obs \<Rightarrow> spool \<Rightarrow> bool"
  for marshal :: "stored_batch \<Rightarrow> segment option" where
  push: "Push marshal flt uuid now nano evs s = (Inr (), t) \<Longrightarrow> evs \<noteq> [] \<Longrightarrow> fresh_name (segment_name nano uuid) s \<Longrightarrow>
    spool_op marshal s (Put evs (Suc (length (queue s)) - length (queue t))) t"
| push_empty: "Push marshal flt uuid now nano [] s = (r, t) \<Longrightarrow> spool_op marshal s Tau t"
| push_error: "Push marshal flt uuid now nano evs s = (Inl e, t) \<Longrightarrow> spool_op marshal s Tau t"
| peek: "Peek flt s = (Inr l, t) \<Longrightarrow> spool_op marshal s (Lease (bl_Events l)) t"
| peek_error: "Peek flt s = (Inl e, t) \<Longrightarrow> (\<And>p. \<not> flt (Rename p (normalPath p))) \<Longrightarrow> spool_op marshal s Tau t"
| commit: "commitLease flt l s = (Inr (), t) \<Longrightarrow> genuine l s \<Longrightarrow> spool_op marshal s (Ack (bl_Events l)) t"
| commit_error: "commitLease flt l s = (Inl e, t) \<Longrightarrow> spool_op marshal s Tau t"
| revert: "revertLease flt l s = (r, t) \<Longrightarrow> genuine l s \<Longrightarrow> spool_op marshal s Tau t"
| crash: "recoverable s \<Longrightarrow> New_spool no_faults dir mb (s_dir s) = Inr t \<Longrightarrow>
    spool_op marshal s (Restart (length (queue s) - length (queue t))) t"
| crash_in_push: "recoverable s \<Longrightarrow> New_spool no_faults dir mb (AList.update (temp_name n) seg (s_dir s)) = Inr t \<Longrightarrow>
    spool_op marshal s (Restart (length (queue s) - length (queue t))) t"
| close: "recoverable s \<Longrightarrow> New_spool no_faults dir mb (s_dir (Close_spool flt s)) = Inr t \<Longrightarrow>
    spool_op marshal s (Restart (length (queue s) - length (queue t))) t"

text \<open>
  The steps that keep the directory recoverable: in them files can be removed, and the clock moves
  on between two pushes.
\<close>

inductive spool_step :: "(stored_batch \<Rightarrow> segment option) \<Rightarrow> spool \<Rightarrow> log_entry list lq_obs \<Rightarrow> spool \<Rightarrow> bool"
  for marshal :: "stored_batch \<Rightarrow> segment option" where
  push: "Push marshal flt uuid now nano evs s = (Inr (), t) \<Longrightarrow> evs \<noteq> [] \<Longrightarrow> undo_ok flt \<Longrightarrow>
    later_name (segment_name nano uuid) s \<Longrightarrow>
    spool_step marshal s (Put evs (Suc (length (queue s)) - length (queue t))) t"
| push_empty: "Push marshal flt uuid now nano [] s = (r, t) \<Longrightarrow> spool_step marshal s Tau t"
| push_error: "Push marshal flt uuid now nano evs s = (Inl e, t) \<Longrightarrow> spool_step marshal s Tau t"
| peek: "Peek flt s = (Inr l, t) \<Longrightarrow> undo_ok flt \<Longrightarrow> spool_step marshal s (Lease (bl_Events l)) t"
| peek_error: "Peek flt s = (Inl e, t) \<Longrightarrow> undo_ok flt \<Longrightarrow> spool_step marshal s Tau t"
| commit: "commitLease flt l s = (Inr (), t) \<Longrightarrow> genuine l s \<Longrightarrow> undo_ok flt \<Longrightarrow>
    spool_step marshal s (Ack (bl_Events l)) t"
| commit_error: "commitLease flt l s = (Inl e, t) \<Longrightarrow> spool_step marshal s Tau t"
| revert: "revertLease flt l s = (r, t) \<Longrightarrow> genuine l s \<Longrightarrow> spool_step marshal s Tau t"
| crash: "New_spool no_faults dir mb (s_dir s) = Inr t \<Longrightarrow>
    spool_step marshal s (Restart (length (queue s) - length (queue t))) t"
| crash_in_push: "New_spool no_faults dir mb (AList.update (temp_name n) seg (s_dir s)) = Inr t \<Longrightarrow>
    spool_step marshal s (Restart (length (queue s) - length (queue t))) t"
| close: "New_spool no_faults dir mb (s_dir (Close_spool flt s)) = Inr t \<Longrightarrow>
    spool_step marshal s (Restart (length (queue s) - length (queue t))) t"

lemma spool_step_op: "recoverable s \<Longrightarrow> spool_step marshal s x t \<Longrightarrow> spool_op marshal s x t"
  by (erule spool_step.cases) (auto simp: undo_ok_def intro: spool_op.intros later_name_fresh)

definition spool_abs :: "spool \<Rightarrow> log_entry list lq" where
  "spool_abs s = (queue s, s_activeLease s \<noteq> None)"

lemma length_queue [simp]: "length (queue s) = length (s_files s)"
  by (simp add: queue_def)

lemma limited_evict:
  assumes "limited s t"
  shows "queue t = evict (s_activeLease s \<noteq> None) (length (queue s) - length (queue t)) (queue s)"
proof -
  let ?ev = "\<lambda>f. events_of (s_dir s) (sf_path f)"
  from assms obtain k where k: "k \<le> length (pending s)" "s_files t = held s @ drop k (pending s)"
      "queue t = map ?ev (s_files t)" unfolding limited_def by blast
  have len: "length (queue s) - length (queue t) = k"
    using k(1,2) held_pending [of s] by simp
  have h: "held s = take (held_count (s_activeLease s \<noteq> None)) (s_files s)"
    "pending s = drop (held_count (s_activeLease s \<noteq> None)) (s_files s)"
    by (auto simp: held_def pending_def held_count_def drop_Suc)
  show ?thesis
    unfolding len evict_def using k(2,3) by (simp add: h queue_def take_map drop_map add.commute)
qed

text \<open>
  Of segments of these sizes, oldest first, the limit takes the fewest whose removal brings the
  total within it, or all.
\<close>

definition least_eviction :: "int \<Rightarrow> int list \<Rightarrow> int \<Rightarrow> nat \<Rightarrow> bool" where
  "least_eviction limit sizes sz k \<longleftrightarrow> k \<le> length sizes \<and>
     (sz - sum_list (take k sizes) \<le> limit \<or> k = length sizes) \<and> (k = 0 \<or> limit < sz - sum_list (take (k - 1) sizes))"

lemma enforceLimit_least:
  assumes inv: "spool_inv u"
  shows "least_eviction (s_maxSizeBytes u) (map sf_sizeBytes (pending u)) (s_currentSize u) (length (queue u) - length (queue (enforceLimitLocked flt u)))"
proof -
  note e = enforceLimit_correct [OF inv, of flt]
  from e(3) obtain k where k: "k \<le> length (pending u)" "s_files (enforceLimitLocked flt u) = held u @ drop k (pending u)"
    "k = 0 \<or> s_maxSizeBytes u < s_currentSize u - sum_list (map sf_sizeBytes (take (k - 1) (pending u)))"
    unfolding limited_def by (elim exE conjE) (rule that)
  have len: "length (queue u) - length (queue (enforceLimitLocked flt u)) = k" using k(1,2) held_pending [of u] by simp
  let ?z = "\<lambda>fs. sum_list (map sf_sizeBytes fs)"
  have "?z (pending u) = ?z (take k (pending u)) + ?z (drop k (pending u))"
    by (metis append_take_drop_id map_append sum_list.append)
  moreover have "s_currentSize (enforceLimitLocked flt u) = ?z (held u) + ?z (drop k (pending u))" using e(1) k(2) by (simp add: spool_inv_def)
  moreover have "s_currentSize u = ?z (held u) + ?z (pending u)" using inv held_pending [of u] by (simp add: spool_inv_def)
  ultimately have size: "s_currentSize (enforceLimitLocked flt u) = s_currentSize u - sum_list (take k (map sf_sizeBytes (pending u)))"
    by (simp add: take_map)
  have "length (held u) = (if s_activeLease u = None then 0 else 1)"
    using inv by (cases "s_files u") (auto simp: held_def spool_inv_defs split: option.splits)
  then have "pending (enforceLimitLocked flt u) = drop k (pending u)"
    using k(2) enforceLimit_frame [of flt u] by (cases "held u") (auto simp: pending_def split: if_splits)
  then have "s_currentSize (enforceLimitLocked flt u) \<le> s_maxSizeBytes u \<or> k = length (pending u)"
    using e(2) k(1) enforceLimit_frame [of flt u] by (simp add: within_limit_def) auto
  then show ?thesis
    unfolding len using k(1,3) size by (auto simp: least_eviction_def take_map)
qed

lemma Push_effect:
  assumes inv: "spool_inv s" and push: "Push marshal flt uuid now nano evs s = (Inr (), t)" and ne: "evs \<noteq> []"
    and json: "json_faithful marshal" and fresh: "fresh_name (segment_name nano uuid) s"
  defines "k \<equiv> Suc (length (queue s)) - length (queue t)"
  shows "spool_inv t" and "s_activeLease t = s_activeLease s" and "queue t = evict (s_activeLease s \<noteq> None) k (queue s @ [evs])"
    and "\<exists>seg. marshal \<lparr>sb_ID = uuid, sb_Timestamp = now, sb_Events = evs\<rparr> = Some seg \<and>
      least_eviction (s_maxSizeBytes s) (map sf_sizeBytes (pending s) @ [seg_size seg]) (s_currentSize s + seg_size seg) k"
    and "held_count (s_activeLease s \<noteq> None) \<le> length (queue s)" and "held_count (s_activeLease s \<noteq> None) + k \<le> Suc (length (queue s))"
proof -
  obtain u where u: "spool_inv u" "queue u = queue s @ [evs]" "t = enforceLimitLocked flt u"
      "s_maxSizeBytes u = s_maxSizeBytes s" "s_activeLease u = s_activeLease s"
      "\<And>seg. marshal \<lparr>sb_ID = uuid, sb_Timestamp = now, sb_Events = evs\<rparr> = Some seg \<Longrightarrow> s_currentSize u = s_currentSize s + seg_size seg"
      "\<exists>seg. marshal \<lparr>sb_ID = uuid, sb_Timestamp = now, sb_Events = evs\<rparr> = Some seg \<and>
         map sf_sizeBytes (s_files u) = map sf_sizeBytes (s_files s) @ [seg_size seg]"
    by (rule Push_ok [OF inv push json fresh ne]) (rule that, assumption+)
  have lu: "length (queue u) = Suc (length (queue s))" using u(2) by simp
  show "spool_inv t" unfolding u(3) by (rule enforceLimit_correct(1) [OF u(1)])
  show "s_activeLease t = s_activeLease s" using enforceLimit_frame [of flt u] u(3,5) by simp
  have "queue t = evict (s_activeLease u \<noteq> None) (length (queue u) - length (queue t)) (queue u)"
    unfolding u(3) by (rule limited_evict) (rule enforceLimit_correct(3) [OF u(1)])
  then show "queue t = evict (s_activeLease s \<noteq> None) k (queue s @ [evs])" by (simp only: u(2,5) k_def length_append_singleton)
  obtain seg where seg: "marshal \<lparr>sb_ID = uuid, sb_Timestamp = now, sb_Events = evs\<rparr> = Some seg"
    "map sf_sizeBytes (s_files u) = map sf_sizeBytes (s_files s) @ [seg_size seg]" using u(7) by blast
  show held: "held_count (s_activeLease s \<noteq> None) \<le> length (queue s)"
    using inv by (cases "s_files s") (auto simp: held_count_def spool_inv_defs split: option.splits)
  have pend: "map sf_sizeBytes (pending u) = map sf_sizeBytes (pending s) @ [seg_size seg]"
    using seg(2) u(5) held by (cases "s_files s"; cases "s_files u") (auto simp: pending_def held_count_def split: if_splits)
  have least: "least_eviction (s_maxSizeBytes u) (map sf_sizeBytes (pending u)) (s_currentSize u) k"
    using enforceLimit_least [OF u(1), of flt] unfolding u(3) [symmetric] lu k_def .
  then show "\<exists>seg. marshal \<lparr>sb_ID = uuid, sb_Timestamp = now, sb_Events = evs\<rparr> = Some seg \<and>
      least_eviction (s_maxSizeBytes s) (map sf_sizeBytes (pending s) @ [seg_size seg]) (s_currentSize s + seg_size seg) k"
    using seg(1) u(4) u(6) [OF seg(1)] unfolding pend by auto
  have "k \<le> length (pending u)" using least by (simp add: least_eviction_def)
  moreover have "length (pending u) = Suc (length (pending s))" using arg_cong [OF pend, of length] by simp
  moreover have "length (pending s) + held_count (s_activeLease s \<noteq> None) = length (queue s)"
    using held by (auto simp: pending_def held_count_def)
  ultimately show "held_count (s_activeLease s \<noteq> None) + k \<le> Suc (length (queue s))" by simp
qed

lemma Push_sim:
  assumes "spool_inv s" and "Push marshal flt uuid now nano evs s = (Inr (), t)" and "evs \<noteq> []"
    and "json_faithful marshal" and "fresh_name (segment_name nano uuid) s"
  shows "lq_step (spool_abs s) (Put evs (Suc (length (queue s)) - length (queue t))) (spool_abs t)"
  using lq_step.put [OF Push_effect(5,6) [OF assms], of evs] Push_effect(2,3) [OF assms] by (simp only: spool_abs_def)

lemma restart_sim:
  assumes rec: "recoverable s" and new: "New_spool no_faults dir mb (s_dir s) = Inr t" and q: "queue s = q"
  shows "recoverable t" and "lq_step (q, l) (Restart (length q - length (queue t))) (spool_abs t)"
    and "least_eviction (s_maxSizeBytes t) (map sf_sizeBytes (s_files s)) (s_currentSize s) (length q - length (queue t))"
proof -
  have "TrimSpace dir \<noteq> ''''" using new by (auto simp: New_spool_def)
  then obtain u where u: "t = enforceLimitLocked no_faults u" "recoverable u" "queue u = queue s" "s_activeLease u = None"
      "s_currentSize u = s_currentSize s" "map sf_sizeBytes (s_files u) = map sf_sizeBytes (s_files s)"
    using new by (elim New_recovers [OF rec, of dir mb]) auto
  then show "recoverable t" by (simp add: enforceLimit_recoverable)
  have inv: "spool_inv u" using u(2) by (simp add: recoverable_def)
  from limited_evict [OF enforceLimit_correct(3) [OF this, of no_faults]]
  have "queue t = drop (length q - length (queue t)) q"
    using u q by (simp add: evict_def held_count_def)
  moreover have "s_activeLease t = None" using enforceLimit_frame [of no_faults u] u by simp
  ultimately show "lq_step (q, l) (Restart (length q - length (queue t))) (spool_abs t)"
    using lq_step.restart [of "length q - length (queue t)" q l] by (simp only: spool_abs_def not_True_eq_False simp_thms)
  have "least_eviction (s_maxSizeBytes u) (map sf_sizeBytes (pending u)) (s_currentSize u) (length (queue u) - length (queue t))"
    using enforceLimit_least [OF inv, of no_faults] u(1) by simp
  then show "least_eviction (s_maxSizeBytes t) (map sf_sizeBytes (s_files s)) (s_currentSize s) (length q - length (queue t))"
    using enforceLimit_frame [of no_faults u] u q by (simp add: pending_def)
qed

lemma temp_file_recoverable:
  assumes "recoverable s"
  shows "recoverable (s\<lparr>s_dir := AList.update (temp_name n) seg (s_dir s)\<rparr>)"
    and "queue (s\<lparr>s_dir := AList.update (temp_name n) seg (s_dir s)\<rparr>) = queue s"
  using assms inv_temp_file [of s "\<lambda>_. True" n seg] by (auto simp: recoverable_def os_Remove_def)

lemma Commit_step:
  assumes inv: "spool_inv s" and "commitLease flt l s = (Inr (), t)" and "genuine l s"
  shows "spool_inv t" and "lq_step (spool_abs s) (Ack (bl_Events l)) (spool_abs t)" and "queue s = bl_Events l # queue t"
proof -
  from assms have l: "s_activeLease s = Some l"
    by (auto simp: commitLease_def genuine_def split: if_splits)
  note c = Commit_ok [OF inv l, of flt]
  from inv l have hd: "queue s = bl_Events l # tl (queue s)"
    by (cases "s_files s") (auto simp: spool_inv_defs queue_def)
  have "lq_step (bl_Events l # tl (queue s), True) (Ack (bl_Events l)) (tl (queue s), False)"
    by (rule lq_step.ack)
  with c assms(2) l hd show "lq_step (spool_abs s) (Ack (bl_Events l)) (spool_abs t)" "spool_inv t" "queue s = bl_Events l # queue t"
    by (simp_all add: spool_abs_def)
qed

lemma Revert_step:
  assumes inv: "spool_inv s" and "revertLease flt l s = (r, t)" and "genuine l s"
  shows "spool_inv t" and "lq_step (spool_abs s) Tau (spool_abs t)" and "queue t = queue s"
proof -
  have "spool_inv t \<and> lq_step (spool_abs s) Tau (spool_abs t) \<and> queue t = queue s"
  proof (cases r)
    case (Inl e)
    with assms(2) have "t = s" by (auto simp: revertLease_def Let_def split: if_splits option.splits)
    then show ?thesis using lq_step.idle inv by (simp add: spool_abs_def)
  next
    case (Inr x)
    with assms have l: "s_activeLease s = Some l"
      by (auto simp: revertLease_def genuine_def split: if_splits)
    with Revert_ok [OF inv l] assms(2) Inr show ?thesis
      using lq_step.release by (simp add: spool_abs_def)
  qed
  then show "spool_inv t" and "lq_step (spool_abs s) Tau (spool_abs t)" and "queue t = queue s" by blast+
qed

text \<open>A step does to the queue what it shows, and evicts no more than the limit asks for.\<close>

fun op_effect :: "(stored_batch \<Rightarrow> segment option) \<Rightarrow> spool \<Rightarrow> log_entry list lq_obs \<Rightarrow> spool \<Rightarrow> bool" where
  "op_effect marshal s (Put b k) t \<longleftrightarrow> queue t = evict (s_activeLease s \<noteq> None) k (queue s @ [b]) \<and>
     (\<exists>uuid now seg. marshal \<lparr>sb_ID = uuid, sb_Timestamp = now, sb_Events = b\<rparr> = Some seg \<and>
        least_eviction (s_maxSizeBytes s) (map sf_sizeBytes (pending s) @ [seg_size seg]) (s_currentSize s + seg_size seg) k)"
| "op_effect marshal s (Lease b) t \<longleftrightarrow> s_activeLease s = None \<and> queue s = b # tl (queue s) \<and> queue t = queue s"
| "op_effect marshal s (Ack b) t \<longleftrightarrow> queue s = b # queue t"
| "op_effect marshal s (Restart k) t \<longleftrightarrow> queue t = drop k (queue s) \<and>
     least_eviction (s_maxSizeBytes t) (map sf_sizeBytes (s_files s)) (s_currentSize s) k"
| "op_effect marshal s Tau t \<longleftrightarrow> queue t = queue s"

lemma restart_step:
  assumes rec: "recoverable u" and new: "New_spool no_faults dir mb (s_dir u) = Inr t" and q: "queue u = queue s"
    and sz: "map sf_sizeBytes (s_files u) = map sf_sizeBytes (s_files s)" "s_currentSize u = s_currentSize s"
  defines "x \<equiv> Restart (length (queue s) - length (queue t))"
  shows "spool_inv t \<and> lq_step (spool_abs s) x (spool_abs t) \<and> op_effect marshal s x t \<and> recoverable t"
proof -
  note r = restart_sim(1,3) [OF rec new q] restart_sim(2) [OF rec new q, where l = "s_activeLease s \<noteq> None"]
  have "queue t = drop (length (queue s) - length (queue t)) (queue s)"
    using r(3) unfolding spool_abs_def by (auto elim!: lq_stepE)
  with r show ?thesis unfolding sz x_def by (simp add: spool_abs_def recoverable_def)
qed

lemma spool_op_sim:
  assumes json: "json_faithful marshal" and inv: "spool_inv s" and step: "spool_op marshal s x t"
  shows "spool_inv t" and "lq_step (spool_abs s) x (spool_abs t)" and "op_effect marshal s x t"
proof -
  have keep: "lq_step (spool_abs s) Tau (spool_abs t)" if "queue t = queue s" "s_activeLease t = s_activeLease s"
    using that lq_step.idle by (simp add: spool_abs_def)
  from step have "spool_inv t \<and> lq_step (spool_abs s) x (spool_abs t) \<and> op_effect marshal s x t"
  proof (cases rule: spool_op.cases)
    case (push flt uuid now nano evs)
    show ?thesis unfolding push(1) op_effect.simps
      using Push_effect(1,3,4) [OF inv push(2,3) json push(4)] Push_sim [OF inv push(2,3) json push(4)] by blast
  next
    case (push_empty flt uuid now nano r)
    with inv keep show ?thesis by (simp add: Push_def)
  next
    case (push_error flt uuid now nano evs e)
    with Push_error [OF inv push_error(2)] keep show ?thesis by simp
  next
    case (peek flt l)
    note p = Peek_ok [OF inv peek(2)]
    then have "lq_step (bl_Events l # tl (queue s), False) (Lease (bl_Events l)) (bl_Events l # tl (queue s), True)"
      by (intro lq_step.lease)
    moreover have "queue s = bl_Events l # tl (queue s)" using p(3,4) by (metis list.collapse)
    ultimately show ?thesis using p peek(1) by (simp add: spool_abs_def)
  next
    case (peek_error flt e)
    with Peek_error [OF inv peek_error(2,3)] keep show ?thesis by simp
  next
    case (commit flt l)
    with Commit_step [OF inv commit(2,3)] show ?thesis by simp
  next
    case (commit_error flt l e)
    then have "t = s" by (auto simp: commitLease_def Let_def split: if_splits)
    with inv commit_error keep show ?thesis by simp
  next
    case (revert flt l r)
    with Revert_step [OF inv revert(2,3)] show ?thesis by simp
  next
    case (crash dir mb)
    with restart_step [OF crash(2,3)] show ?thesis by simp
  next
    case (crash_in_push dir mb n seg)
    then have new: "New_spool no_faults dir mb (s_dir (s\<lparr>s_dir := AList.update (temp_name n) seg (s_dir s)\<rparr>)) = Inr t"
      by simp
    from restart_step [OF temp_file_recoverable(1) [OF crash_in_push(2)] new temp_file_recoverable(2) [OF crash_in_push(2)]] crash_in_push(1)
    show ?thesis by simp
  next
    case (close dir mb flt)
    obtain u where u: "recoverable u" "s_dir (Close_spool flt s) = s_dir u" "queue u = queue s"
        "s_currentSize u = s_currentSize s" "map sf_sizeBytes (s_files u) = map sf_sizeBytes (s_files s)"
      by (rule Close_dir [OF close(2)])
    with restart_step [of u dir mb t s] close show ?thesis by simp
  qed
  then show "spool_inv t" "lq_step (spool_abs s) x (spool_abs t)" "op_effect marshal s x t" by auto
qed

lemma spool_step_sim:
  assumes json: "json_faithful marshal" and rec: "recoverable s" and step: "spool_step marshal s x t"
  shows "recoverable t" and "lq_step (spool_abs s) x (spool_abs t)"
proof -
  have inv: "spool_inv s" using rec by (simp add: recoverable_def)
  show "lq_step (spool_abs s) x (spool_abs t)" by (rule spool_op_sim(2) [OF json inv spool_step_op [OF rec step]])
  from step show "recoverable t"
  proof (cases rule: spool_step.cases)
    case (push flt uuid now nano evs)
    with Push_recoverable [OF rec push(2) json push(5,4)] show ?thesis by blast
  next
    case (push_empty flt uuid now nano r)
    with rec show ?thesis by (simp add: Push_def)
  next
    case (push_error flt uuid now nano evs e)
    with Push_error [OF inv push_error(2)] rec show ?thesis by (simp add: recoverable_def)
  next
    case (peek flt l)
    with Peek_recoverable [OF rec peek(2,3)] show ?thesis by simp
  next
    case (peek_error flt e)
    with Peek_recoverable [OF rec peek_error(2,3)] show ?thesis by simp
  next
    case (commit flt l)
    with rec Commit_recoverable [of s flt l] show ?thesis by auto
  next
    case (commit_error flt l e)
    then have "t = s" by (auto simp: commitLease_def Let_def split: if_splits)
    with rec show ?thesis by simp
  next
    case (revert flt l r)
    with rec Revert_recoverable [of s l flt] show ?thesis by auto
  next
    case (crash dir mb)
    with restart_sim(1) [OF rec crash(2) refl] show ?thesis by simp
  next
    case (crash_in_push dir mb n seg)
    then have new: "New_spool no_faults dir mb (s_dir (s\<lparr>s_dir := AList.update (temp_name n) seg (s_dir s)\<rparr>)) = Inr t"
      by simp
    from restart_sim(1) [OF temp_file_recoverable(1) [OF rec] new refl] show ?thesis .
  next
    case (close dir mb flt)
    obtain u where "recoverable u" "s_dir (Close_spool flt s) = s_dir u" by (rule Close_dir [OF rec])
    with restart_sim(1) [of u dir mb t "queue u"] close show ?thesis by simp
  qed
qed

text \<open>The spool of a fresh directory.\<close>

definition fresh_spool :: "int \<Rightarrow> spool" where
  "fresh_spool mb = rescanned (limit_of_MB mb) [] []"

lemma New_fresh:
  assumes "TrimSpace dir \<noteq> ''''"
  shows "New_spool no_faults dir mb [] = Inr (fresh_spool mb)"
proof -
  have "enforceLimitLocked no_faults (fresh_spool mb) = fresh_spool mb"
    by (subst enforceLimitLocked.simps) (simp add: fresh_spool_def rescanned_def)
  with assms show ?thesis
    by (simp add: New_spool_def scanExisting_def fresh_spool_def rescanned_def no_faults_def limit_of_MB_def Let_def)
qed

lemma fresh_spool_ok: "recoverable (fresh_spool mb)" "spool_abs (fresh_spool mb) = ([], False)"
  by (simp_all add: recoverable_def spool_inv_defs dir_exact_def fresh_spool_def rescanned_def spool_abs_def queue_def)

text \<open>The spool provides the contract, for every faithful codec.\<close>

interpretation sq: lease_queue "\<lambda>s. json_faithful marshal \<and> recoverable s" spool_abs "spool_step marshal" for marshal
  by unfold_locales (auto dest: spool_step_sim)

interpretation so: lease_queue "\<lambda>s. json_faithful marshal \<and> spool_inv s" spool_abs "spool_op marshal" for marshal
  by unfold_locales (auto dest: spool_op_sim)

lemma spool_run_recoverable:
  "run (spool_step marshal) (fresh_spool mb) xs s \<Longrightarrow> json_faithful marshal \<Longrightarrow> recoverable s"
  using sq.run_inv [of marshal "fresh_spool mb"] fresh_spool_ok by blast

text \<open>A concrete faithful codec, for examples.\<close>

definition sized_marshal :: "int \<Rightarrow> stored_batch \<Rightarrow> segment option" where
  "sized_marshal sz b = Some \<lparr>seg_size = \<bar>sz\<bar> * int (length (sb_Events b)), seg_batch = Some b\<rparr>"

lemma sized_marshal_faithful [simp]: "json_faithful (sized_marshal sz)"
  by (simp add: json_faithful_def sized_marshal_def)

section \<open>A concrete run\<close>

definition ex_entry :: "string \<Rightarrow> log_entry" where
  "ex_entry i = \<lparr>ID = i, Timestamp = \<lparr>instant = 1000, zone = 0\<rparr>, Host = ''web'', Source = ''app'',
     Level = ''INFO'', Message = ''started'', Fields = []\<rparr>"

definition ex_push :: "spool \<Rightarrow> int \<Rightarrow> string \<Rightarrow> spool" where
  "ex_push s nano i = snd (Push (sized_marshal 400000) no_faults i zero_time nano [ex_entry i] s)"

definition ex_spool1 :: spool where "ex_spool1 = ex_push (fresh_spool 1) 10 ''a''"
definition ex_spool2 :: spool where "ex_spool2 = ex_push ex_spool1 20 ''b''"
definition ex_spool3 :: spool where "ex_spool3 = snd (Peek no_faults ex_spool2)"

definition ex_lease :: batch_lease where
  "ex_lease = \<lparr>bl_addr = 0, bl_ID = ''a'', bl_Timestamp = zero_time, bl_Events = [ex_entry ''a''],
     bl_file = \<lparr>sf_path = inflightPath (segment_name 10 ''a''), sf_sizeBytes = 400000, sf_eventNum = 1\<rparr>\<rparr>"

definition ex_trace :: "log_entry list lq_obs list" where
  "ex_trace = [Put [ex_entry ''a''] 0, Put [ex_entry ''b''] 0, Lease [ex_entry ''a'']]"

lemmas ex_spool_defs = ex_spool1_def ex_spool2_def ex_spool3_def ex_push_def

lemma ex_push1: "Push (sized_marshal 400000) no_faults ''a'' zero_time 10 [ex_entry ''a''] (fresh_spool 1) = (Inr (), ex_spool1)"
  "Suc (length (queue (fresh_spool 1))) - length (queue ex_spool1) = 0"
  "later_name (segment_name 10 ''a'') (fresh_spool 1)"
  by code_simp+

lemma ex_push2: "Push (sized_marshal 400000) no_faults ''b'' zero_time 20 [ex_entry ''b''] ex_spool1 = (Inr (), ex_spool2)"
  "Suc (length (queue ex_spool1)) - length (queue ex_spool2) = 0"
  "later_name (segment_name 20 ''b'') ex_spool1"
  by code_simp+

lemma ex_peek3: "Peek no_faults ex_spool2 = (Inr ex_lease, ex_spool3)"
  by code_simp

lemma ex_run2: "run (spool_step (sized_marshal 400000)) (fresh_spool 1) [Put [ex_entry ''a''] 0, Put [ex_entry ''b''] 0] ex_spool2"
proof -
  let ?m = "sized_marshal 400000"
  have 1: "spool_step ?m (fresh_spool 1) (Put [ex_entry ''a''] 0) ex_spool1"
    using spool_step.push [OF ex_push1(1)] ex_push1(2,3) by simp
  have 2: "spool_step ?m ex_spool1 (Put [ex_entry ''b''] 0) ex_spool2"
    using spool_step.push [OF ex_push2(1)] ex_push2(2,3) by simp
  show ?thesis using run_step [of "spool_step ?m", OF run_step [of "spool_step ?m", OF run_init 1] 2] by simp
qed

lemma ex_run: "run (spool_step (sized_marshal 400000)) (fresh_spool 1) ex_trace ex_spool3"
proof -
  have "spool_step (sized_marshal 400000) ex_spool2 (Lease [ex_entry ''a'']) ex_spool3"
    using spool_step.peek [OF ex_peek3] by (simp add: ex_lease_def)
  from run_step [of "spool_step (sized_marshal 400000)", OF ex_run2 this] show ?thesis by (simp add: ex_trace_def)
qed

lemma ex_recoverable: "recoverable ex_spool3"
  by (rule spool_run_recoverable [OF ex_run]) simp

section \<open>Properties\<close>

lemma seg_ok_events: "seg_ok d f \<Longrightarrow> int (length (events_of d (sf_path f))) = sf_eventNum f"
  by (auto simp: seg_ok_def events_of_def split: option.splits)

lemma total_events:
  assumes "spool_inv s"
  shows "s_totalEvents s = int (length (concat (queue s)))"
proof -
  have "sum_list (map sf_eventNum fs) = int (length (concat (map (\<lambda>f. events_of (s_dir s) (sf_path f)) fs)))"
    if "\<forall>f\<in>set fs. seg_ok (s_dir s) f" for fs
    using that by (induction fs) (auto simp: seg_ok_events)
  with assms show ?thesis by (simp add: spool_inv_def queue_def)
qed

definition disk_size :: "spool \<Rightarrow> spool_file \<Rightarrow> int" where
  "disk_size s f = (case map_of (s_dir s) (sf_path f) of None \<Rightarrow> 0 | Some seg \<Rightarrow> seg_size seg)"

lemma current_size:
  assumes "spool_inv s"
  shows "s_currentSize s = sum_list (map (disk_size s) (s_files s))"
proof -
  have "disk_size s f = sf_sizeBytes f" if "f \<in> set (s_files s)" for f
    using assms that by (auto simp: spool_inv_def disk_size_def elim!: seg_okE)
  then show ?thesis
    using assms by (simp add: spool_inv_def cong: map_cong)
qed

lemma run_op:
  assumes "json_faithful marshal" and "run (spool_step marshal) (fresh_spool mb) xs s"
  shows "run (spool_op marshal) (fresh_spool mb) xs s"
  using assms(2)
proof (induction rule: run.induct)
  case run_init
  show ?case by (rule run.run_init)
next
  case (run_step xs s x t)
  have "recoverable s" by (rule spool_run_recoverable [OF run_step.hyps(1) assms(1)])
  with run_step show ?case by (blast intro: run.run_step spool_step_op)
qed



text \<open>
  As long as the disk limit evicts nothing, no batch is lost: every pushed batch has been
  committed or is still in the queue, in order, whatever crashed in between.
\<close>

lemma spool_run_lossless:
  assumes "json_faithful marshal" and "run (spool_op marshal) (fresh_spool mb) xs s"
    and "list_all (\<lambda>x. \<not> evicts x) xs"
  shows "acks xs @ queue s = puts xs"
  using so.lossless [OF assms(2)] assms(1,3) fresh_spool_ok by (simp add: spool_abs_def recoverable_def)

lemma spool_run_lossless_witness:
  "acks ex_trace @ queue ex_spool3 = puts ex_trace"
  by (rule spool_run_lossless [OF sized_marshal_faithful run_op [OF sized_marshal_faithful ex_run]]) (simp add: ex_trace_def)

text \<open>
  \<open>commitLease\<close> ignores the error of \<open>os.Remove\<close>: when the file stays, the next start finds it,
  and the batch that was delivered and committed is at the head of the queue again.
\<close>

lemma failed_remove_requeues:
  assumes rec: "recoverable s" and l: "s_activeLease s = Some l" and flt: "flt (Remove (sf_path (bl_file l)))"
    and dir: "TrimSpace dir \<noteq> ''''" and fits: "s_currentSize s \<le> limit_of_MB mb"
  shows "\<exists>t u. commitLease flt l s = (Inr (), t) \<and> queue s = bl_Events l # queue t \<and>
    New_spool no_faults dir mb (s_dir t) = Inr u \<and> queue u = queue s"
proof -
  have inv: "spool_inv s" using rec by (simp add: recoverable_def)
  obtain t where t: "commitLease flt l s = (Inr (), t)"
    using Commit_ok(1) [OF inv l, of flt] by (metis prod.collapse)
  have d: "s_dir t = s_dir s" using t flt by (auto simp: commitLease_def os_Remove_def Let_def split: if_splits)
  have q: "queue s = bl_Events l # queue t" by (rule Commit_step(3) [OF inv t]) (simp add: genuine_def l)
  obtain u where u: "New_spool no_faults dir mb (s_dir s) = Inr (enforceLimitLocked no_faults u)"
    "recoverable u" "queue u = queue s" "s_currentSize u = s_currentSize s" "s_maxSizeBytes u = limit_of_MB mb"
    by (rule New_recovers [OF rec dir])
  have "enforceLimitLocked no_faults u = u" using u fits by (simp add: enforceLimit_done recoverable_def)
  with t q d u show ?thesis by auto
qed

text \<open>
  \<open>Peek\<close> ignores the error of the rename that undoes a failing read, but records the old name: from then on
  the head of the queue cannot be leased, and with it nothing behind it, until a restart.
\<close>

lemma failed_rename_back_blocks:
  assumes inv: "spool_inv s" and fs: "s_files s = f # fs" and idle: "s_activeLease s = None" "\<not> s_closed s"
    and "\<not> flt (Rename (sf_path f) (inflightPath (sf_path f)))" and "flt (ReadFile (inflightPath (sf_path f)))"
    and "flt (Rename (inflightPath (sf_path f)) (sf_path f))"
  shows "\<exists>t. Peek flt s = (Inl ErrReadSpool, t) \<and> (\<forall>flt'. Peek flt' t = (Inl ErrMarkInFlight, t))"
proof -
  have "f \<in> set (pending s)" using fs idle by (simp add: pending_def)
  then obtain r where p: "sf_path f = spool_prefix @ r @ json_ext"
    using inv by (auto simp: spool_inv_def spool_name_json)
  then have np: "normalPath (inflightPath (sf_path f)) = sf_path f" "inflightPath (sf_path f) \<noteq> sf_path f"
    by (simp_all add: inflight_neq_json_prefixed)
  from inv fs have "seg_ok (s_dir s) f" by (simp add: spool_inv_def)
  then obtain seg where "map_of (s_dir s) (sf_path f) = Some seg" by (auto elim: seg_okE)
  then obtain d where d: "os_Rename flt (sf_path f) (inflightPath (sf_path f)) (s_dir s) = Some d"
    using assms(5) by (simp add: os_Rename_def)
  have gone: "map_of d (sf_path f) = None" using map_of_os_Rename [OF d] np(2) by simp
  have undone: "os_Rename flt (inflightPath (sf_path f)) (sf_path f) d = None" "os_ReadFile flt (inflightPath (sf_path f)) d = None"
    using assms(6,7) by (simp_all add: os_Rename_def os_ReadFile_def)
  let ?t = "s\<lparr>s_dir := d, s_files := f # fs\<rparr>"
  have "Peek flt s = (Inl ErrReadSpool, ?t)"
    using fs idle d undone by (simp add: Peek_def np(1) Let_def)
  moreover have "Peek flt' ?t = (Inl ErrMarkInFlight, ?t)" for flt'
    using idle gone by (simp add: Peek_def os_Rename_def Let_def)
  ultimately show ?thesis by blast
qed

text \<open>
  The spool's accounting is exact in every reachable state: \<open>Size\<close> reports the bytes the
  tracked segment files have on disk and the number of events in the queue, and \<open>Count\<close> the
  number of batches.
\<close>

lemma spool_Size_exact:
  assumes "json_faithful marshal" and "run (spool_step marshal) (fresh_spool mb) xs s"
  shows "Size s = (sum_list (map (disk_size s) (s_files s)), int (length (concat (queue s)))) \<and>
    Count s = length (queue s)"
proof -
  have "spool_inv s" using spool_run_recoverable [OF assms(2,1)] by (simp add: recoverable_def)
  then show ?thesis by (simp add: Size_def Count_def current_size total_events)
qed

lemma spool_Size_exact_witness:
  "Size ex_spool3 = (sum_list (map (disk_size ex_spool3) (s_files ex_spool3)), int (length (concat (queue ex_spool3)))) \<and>
   Count ex_spool3 = length (queue ex_spool3)"
  by (rule spool_Size_exact [OF sized_marshal_faithful ex_run])

lemma limited_minimal:
  assumes inv: "spool_inv s" and inv': "spool_inv t" and lim: "limited s t" and ne: "queue t \<noteq> queue s"
  shows "\<exists>f\<in>set (pending s). s_maxSizeBytes s < s_currentSize t + sf_sizeBytes f"
proof -
  from lim obtain k where k: "k \<le> length (pending s)" "s_files t = held s @ drop k (pending s)"
      "queue t = map (\<lambda>f. events_of (s_dir s) (sf_path f)) (s_files t)"
      "k = 0 \<or> s_maxSizeBytes s < s_currentSize s - sum_list (map sf_sizeBytes (take (k - 1) (pending s)))"
    unfolding limited_def by blast
  have "k \<noteq> 0"
  proof
    assume "k = 0"
    with k(2,3) ne show False by (simp add: queue_def flip: held_pending)
  qed
  then obtain j where j: "k = Suc j" by (cases k) auto
  with k(1) have split: "pending s = take j (pending s) @ pending s ! j # drop k (pending s)"
    by (simp add: id_take_nth_drop)
  have "s_currentSize s = sum_list (map sf_sizeBytes (held s @ pending s))"
    using inv held_pending [of s] by (simp add: spool_inv_def)
  also have "\<dots> = sum_list (map sf_sizeBytes (held s)) + sum_list (map sf_sizeBytes (take j (pending s)))
      + sf_sizeBytes (pending s ! j) + sum_list (map sf_sizeBytes (drop k (pending s)))"
    by (subst split) simp
  finally have "s_currentSize s = s_currentSize t + sf_sizeBytes (pending s ! j) +
      sum_list (map sf_sizeBytes (take j (pending s)))"
    using inv' k(2) by (simp add: spool_inv_def)
  then have "s_maxSizeBytes s < s_currentSize t + sf_sizeBytes (pending s ! j)"
    using k(4) j by simp
  with k(1) j show ?thesis by (intro bexI [of _ "pending s ! j"]) auto
qed

text \<open>
  \<open>enforceLimitLocked\<close> keeps the invariant and evicts the fewest oldest batches that bring the
  size within the limit, never the leased one: afterwards the size is within the limit or only
  the leased batch is left, and when anything was evicted, keeping the last evicted segment
  would have exceeded the limit.
\<close>

lemma enforceLimit_evicts:
  assumes "spool_inv s"
  defines "t \<equiv> \<lambda>flt. enforceLimitLocked flt s"
  shows "spool_inv (t flt) \<and> s_activeLease (t flt) = s_activeLease s
    \<and> queue (t flt) = evict (s_activeLease s \<noteq> None) (length (queue s) - length (queue (t flt))) (queue s)
    \<and> (s_currentSize (t flt) \<le> s_maxSizeBytes s \<or> pending (t flt) = [])
    \<and> (queue (t flt) \<noteq> queue s \<longrightarrow>
         (\<exists>f\<in>set (pending s). s_maxSizeBytes s < s_currentSize (t flt) + sf_sizeBytes f))"
proof -
  note e = enforceLimit_correct [OF assms(1), of flt]
  show ?thesis
    using e limited_evict [OF e(3)] limited_minimal [OF assms(1) e(1,3)] enforceLimit_frame [of flt s]
    unfolding t_def within_limit_def by metis
qed

definition ex_tight :: spool where
  "ex_tight = ex_spool3\<lparr>s_maxSizeBytes := 500000\<rparr>"

lemma ex_tight_inv: "spool_inv ex_tight"
  using ex_recoverable by (simp add: recoverable_def spool_inv_defs ex_tight_def split: option.splits)

lemma enforceLimit_evicts_witness:
  "spool_inv (enforceLimitLocked no_faults ex_tight) \<and>
   queue (enforceLimitLocked no_faults ex_tight) = [[ex_entry ''a'']] \<and> queue ex_tight = [[ex_entry ''a''], [ex_entry ''b'']]"
proof -
  have "queue (enforceLimitLocked no_faults ex_tight) = [[ex_entry ''a'']]"
    "queue ex_tight = [[ex_entry ''a''], [ex_entry ''b'']]" by code_simp+
  with enforceLimit_evicts [OF ex_tight_inv, of no_faults] show ?thesis by blast
qed

lemma Push_cases:
  assumes inv: "spool_inv s" and push: "Push marshal flt uuid now nano evs s = (r, t)"
    and json: "json_faithful marshal" and fresh: "fresh_name (segment_name nano uuid) s" and ne: "evs \<noteq> []"
  shows "spool_inv t"
    and "r = Inr () \<Longrightarrow> queue t = evict (s_activeLease s \<noteq> None) (Suc (length (queue s)) - length (queue t)) (queue s @ [evs])"
    and "r = Inr () \<Longrightarrow> marshal \<lparr>sb_ID = uuid, sb_Timestamp = now, sb_Events = evs\<rparr> = Some seg \<Longrightarrow>
      s_currentSize s + seg_size seg \<le> s_maxSizeBytes s \<Longrightarrow> queue t = queue s @ [evs]"
    and "r = Inl e \<Longrightarrow> queue t = queue s \<and> Size t = Size s \<and> (dir_exact s \<longrightarrow> dir_exact t)"
proof -
  have ok: "\<exists>u. spool_inv u \<and> queue u = queue s @ [evs] \<and> t = enforceLimitLocked flt u \<and>
      s_activeLease u = s_activeLease s \<and> s_maxSizeBytes u = s_maxSizeBytes s \<and>
      (\<forall>seg. marshal \<lparr>sb_ID = uuid, sb_Timestamp = now, sb_Events = evs\<rparr> = Some seg \<longrightarrow>
         s_currentSize u = s_currentSize s + seg_size seg)" if "r = Inr ()"
    using Push_ok [OF inv _ json fresh ne] push that by (metis (no_types))
  show "spool_inv t"
  proof (cases r)
    case (Inr x)
    with ok enforceLimit_correct(1) show ?thesis by auto
  qed (use Push_error(1) [OF inv] push in auto)
  show "queue t = evict (s_activeLease s \<noteq> None) (Suc (length (queue s)) - length (queue t)) (queue s @ [evs])"
    if "r = Inr ()"
  proof -
    from ok [OF that] obtain u where u: "spool_inv u" "queue u = queue s @ [evs]" "t = enforceLimitLocked flt u"
      "s_activeLease u = s_activeLease s" by blast
    have "queue t = evict (s_activeLease u \<noteq> None) (length (queue u) - length (queue t)) (queue u)"
      unfolding u(3) by (rule limited_evict) (rule enforceLimit_correct(3) [OF u(1)])
    then show ?thesis by (simp only: u(2,4) length_append_singleton)
  qed
  show "queue t = queue s @ [evs]" if "r = Inr ()"
    "marshal \<lparr>sb_ID = uuid, sb_Timestamp = now, sb_Events = evs\<rparr> = Some seg"
    "s_currentSize s + seg_size seg \<le> s_maxSizeBytes s"
    using ok [OF that(1)] that(2,3) enforceLimit_done by fastforce
  show "queue t = queue s \<and> Size t = Size s \<and> (dir_exact s \<longrightarrow> dir_exact t)" if "r = Inl e"
    using Push_error [OF inv, of marshal flt uuid now nano evs e t] push that inv
    by (auto simp: Size_def spool_inv_def)
qed

text \<open>
  A push either fails, leaving queue and accounting as they were, or appends the batch and
  then applies the disk limit; when the new size fits, nothing is evicted. The files the
  failing push leaves behind never carry a segment name.
\<close>

lemma Push_outcome:
  assumes "spool_inv s" and "Push marshal flt uuid now nano evs s = (r, t)"
    and "json_faithful marshal" and "fresh_name (segment_name nano uuid) s" and "evs \<noteq> []"
  shows "spool_inv t \<and>
    (r = Inr () \<longrightarrow>
       queue t = evict (s_activeLease s \<noteq> None) (Suc (length (queue s)) - length (queue t)) (queue s @ [evs])) \<and>
    (\<forall>seg. r = Inr () \<longrightarrow> marshal \<lparr>sb_ID = uuid, sb_Timestamp = now, sb_Events = evs\<rparr> = Some seg \<longrightarrow>
       s_currentSize s + seg_size seg \<le> s_maxSizeBytes s \<longrightarrow> queue t = queue s @ [evs]) \<and>
    (\<forall>e. r = Inl e \<longrightarrow> queue t = queue s \<and> Size t = Size s \<and> (dir_exact s \<longrightarrow> dir_exact t))"
  using Push_cases [OF assms] by blast

lemma Push_outcome_witness:
  "queue ex_spool2 = queue ex_spool1 @ [[ex_entry ''b'']]"
proof -
  have "recoverable ex_spool1"
    using Push_recoverable [OF fresh_spool_ok(1) ex_push1(1) sized_marshal_faithful ex_push1(3)] by simp
  then have inv: "spool_inv ex_spool1" by (simp add: recoverable_def)
  have fits: "s_currentSize ex_spool1 + 400000 \<le> s_maxSizeBytes ex_spool1" by code_simp
  note p = Push_outcome [OF inv ex_push2(1) sized_marshal_faithful later_name_fresh [OF ex_push2(3)]]
  then have "\<forall>seg. sized_marshal 400000 \<lparr>sb_ID = ''b'', sb_Timestamp = zero_time, sb_Events = [ex_entry ''b'']\<rparr> = Some seg \<longrightarrow>
      s_currentSize ex_spool1 + seg_size seg \<le> s_maxSizeBytes ex_spool1 \<longrightarrow>
      queue ex_spool2 = queue ex_spool1 @ [[ex_entry ''b'']]" by blast
  with fits show ?thesis by (simp add: sized_marshal_def)
qed

text \<open>
  C10. Crash recovery: whenever the process dies, a new spool on the directory left behind has
  exactly the batches of the old one, in order, the leased one included and the lease
  forgotten, provided they fit in the (possibly changed) limit.
\<close>

theorem spool_crash_recovery:
  assumes "json_faithful marshal" and "run (spool_step marshal) (fresh_spool mb) xs s"
    and dir: "TrimSpace dir \<noteq> ''''" and fits: "s_currentSize s \<le> limit_of_MB mb'"
  shows "\<exists>t. New_spool no_faults dir mb' (s_dir s) = Inr t \<and> queue t = queue s \<and> Size t = Size s \<and>
    s_activeLease t = None \<and> \<not> s_closed t"
proof -
  have rec: "recoverable s" by (rule spool_run_recoverable [OF assms(2,1)])
  obtain u where u: "New_spool no_faults dir mb' (s_dir s) = Inr (enforceLimitLocked no_faults u)"
    "recoverable u" "queue u = queue s" "s_currentSize u = s_currentSize s"
    "s_maxSizeBytes u = limit_of_MB mb'" "s_activeLease u = None" "\<not> s_closed u"
    by (rule New_recovers [OF rec dir])
  have inv: "spool_inv u" "spool_inv s" using u(2) rec by (simp_all add: recoverable_def)
  then have "enforceLimitLocked no_faults u = u" using u(4,5) fits by (simp add: enforceLimit_done)
  moreover have "Size u = Size s" using inv u(3,4) by (simp add: Size_def total_events)
  ultimately show ?thesis using u by simp
qed

theorem spool_crash_recovery_witness:
  "\<exists>t. New_spool no_faults ''/var/spool'' 1 (s_dir ex_spool3) = Inr t \<and> queue t = queue ex_spool3 \<and>
     Size t = Size ex_spool3 \<and> s_activeLease t = None \<and> \<not> s_closed t"
proof (rule spool_crash_recovery [OF sized_marshal_faithful ex_run])
  show "TrimSpace ''/var/spool'' \<noteq> ''''" by code_simp
  show "s_currentSize ex_spool3 \<le> limit_of_MB 1" by code_simp
qed

lemma lease_facts:
  assumes inv: "spool_inv s" and peek: "Peek flt s = (Inr l, t)"
  shows "s_activeLease s = None \<and> queue t = queue s \<and> queue s = bl_Events l # tl (queue s)"
    and "Peek flt' t = (Inl ErrInFlight, t)"
    and "\<exists>u. commitLease flt' l t = (Inr (), u) \<and> spool_inv u \<and> queue u = tl (queue s) \<and> s_activeLease u = None \<and>
      commitLease flt'' l u = (Inl ErrInvalidLease, u) \<and> revertLease flt'' l u = (Inl ErrInvalidLease, u)"
    and "bl_addr l' \<noteq> bl_addr l \<Longrightarrow>
      commitLease flt' l' t = (Inl ErrInvalidLease, t) \<and> revertLease flt' l' t = (Inl ErrInvalidLease, t)"
proof -
  note p = Peek_ok [OF inv peek]
  show "s_activeLease s = None \<and> queue t = queue s \<and> queue s = bl_Events l # tl (queue s)"
    using p(2,3,4,6) by (metis list.collapse)
  have "\<not> s_closed s" using peek by (auto simp: Peek_def)
  then show "Peek flt' t = (Inl ErrInFlight, t)"
    using p(5,9) Peek_unavailable(2) [of t flt'] by simp
  note c = Commit_ok [OF p(1,5), of flt']
  have stale: "\<not> owns_lease (snd (commitLease flt' l t)) l" using c(4) by (simp add: owns_lease_def)
  have "commitLease flt' l t = (Inr (), snd (commitLease flt' l t))"
    using c(1) by (metis prod.collapse)
  with c stale_lease [OF stale] p(2)
  show "\<exists>u. commitLease flt' l t = (Inr (), u) \<and> spool_inv u \<and> queue u = tl (queue s) \<and> s_activeLease u = None \<and>
      commitLease flt'' l u = (Inl ErrInvalidLease, u) \<and> revertLease flt'' l u = (Inl ErrInvalidLease, u)"
    by (intro exI [of _ "snd (commitLease flt' l t)"]) simp
  assume "bl_addr l' \<noteq> bl_addr l"
  then have "\<not> owns_lease t l'" using p(5) by (simp add: owns_lease_def)
  then show "commitLease flt' l' t = (Inl ErrInvalidLease, t) \<and> revertLease flt' l' t = (Inl ErrInvalidLease, t)"
    using stale_lease by blast
qed

text \<open>
  C11. The lease protocol: at most one lease is out at a time, a successful \<open>Peek\<close> hands out the
  oldest batch and changes nothing in the queue, committing that lease removes exactly that
  batch, and a lease that is not the active one can neither commit nor revert anything.
\<close>

theorem lease_protocol:
  assumes "spool_inv s" and "Peek flt s = (Inr l, t)"
  shows "s_activeLease s = None \<and> queue t = queue s \<and> queue s = bl_Events l # tl (queue s) \<and>
    Peek flt' t = (Inl ErrInFlight, t) \<and>
    (\<exists>u. commitLease flt' l t = (Inr (), u) \<and> spool_inv u \<and> queue u = tl (queue s) \<and> s_activeLease u = None \<and>
      commitLease flt'' l u = (Inl ErrInvalidLease, u) \<and> revertLease flt'' l u = (Inl ErrInvalidLease, u)) \<and>
    (\<forall>l'. bl_addr l' \<noteq> bl_addr l \<longrightarrow>
      commitLease flt' l' t = (Inl ErrInvalidLease, t) \<and> revertLease flt' l' t = (Inl ErrInvalidLease, t))"
  using lease_facts [OF assms] by blast

theorem lease_protocol_witness:
  "Peek no_faults ex_spool3 = (Inl ErrInFlight, ex_spool3) \<and> bl_Events ex_lease = [ex_entry ''a'']"
proof -
  have "recoverable ex_spool1"
    using Push_recoverable [OF fresh_spool_ok(1) ex_push1(1) sized_marshal_faithful ex_push1(3)] by simp
  then have "recoverable ex_spool2"
    using Push_recoverable [OF _ ex_push2(1) sized_marshal_faithful ex_push2(3)] by simp
  then have "spool_inv ex_spool2" by (simp add: recoverable_def)
  from lease_protocol [OF this ex_peek3] show ?thesis by (simp add: ex_lease_def)
qed

text \<open>
  The clean-up of orphaned temporary files at start-up never runs: \<open>Push\<close> writes to
  \<open>.spool_<n>.json.tmp\<close> and the scan skips every name without the prefix \<open>spool_\<close> before
  it looks for \<open>.tmp\<close>, so a temporary file left by a crash stays in the directory for ever.
\<close>

lemma orphan_temp_file_kept:
  "scan_entry flt (temp_name (segment_name nano uuid)) (d, found) = (d, found)"
  by (simp add: scan_entry_def)

end
