(* ===== verification/HashRing.thy ===== *)
theory HashRing
  imports Prelude
begin

text \<open>
  The consistent-hash ring of \<open>internal/cluster/hashring.go\<close>: nodes with weights, their virtual
  positions on the ring of 64-bit hashes, and the lookups. \<open>xxhash.Sum64String\<close> is the argument
  \<open>hash\<close>. The map of nodes is an association list in the order of one iteration over it, and
  \<open>sort.Slice\<close> is \<^const>\<open>sort_key\<close>: positions with equal hashes come in the (arbitrary)
  iteration order of the map, which is all that the code determines.
\<close>

section \<open>Data\<close>

datatype ring_error = ErrEmptyRing | ErrNodeNotFound

definition DefaultVnodesPerNode :: int where
  "DefaultVnodesPerNode = 128"

record node =
  n_ID :: string
  n_Address :: string
  n_Weight :: int
  n_Metadata :: "(string, string) gomap"

record vnode =
  v_hash :: "64 word"
  v_nodeID :: string

record hash_ring =
  vnodesPerNode :: int
  h_nodes :: "(string, node) gomap"
  h_ring :: "vnode list"

type_synonym hash_fn = "string \<Rightarrow> 64 word"

text \<open>The zero value of \<open>Node\<close>, which a map lookup of a missing key gives.\<close>

definition zero_node :: node where
  "zero_node = \<lparr>n_ID = '''', n_Address = '''', n_Weight = 0, n_Metadata = []\<rparr>"

definition node_at :: "hash_ring \<Rightarrow> string \<Rightarrow> node" where
  "node_at h nid = (case map_of (h_nodes h) nid of None \<Rightarrow> zero_node | Some n \<Rightarrow> n)"

section \<open>Operations\<close>

definition NewHashRing :: "int \<Rightarrow> hash_ring" where
  "NewHashRing vp = \<lparr>vnodesPerNode = (if vp \<le> 0 then DefaultVnodesPerNode else vp), h_nodes = [], h_ring = []\<rparr>"

definition vnode_count :: "int \<Rightarrow> node \<Rightarrow> nat" where
  "vnode_count vp n = nat (int64 (vp * n_Weight n))"

definition vnodes_of :: "hash_fn \<Rightarrow> int \<Rightarrow> string \<times> node \<Rightarrow> vnode list" where
  "vnodes_of hash vp idn =
     map (\<lambda>i. \<lparr>v_hash = hash (fst idn @ ''#'' @ Itoa (int i)), v_nodeID = fst idn\<rparr>)
       [0..<vnode_count vp (snd idn)]"

definition rebuildRingLocked :: "hash_fn \<Rightarrow> hash_ring \<Rightarrow> hash_ring" where
  "rebuildRingLocked hash h =
     h\<lparr>h_ring := sort_key v_hash (concat (map (vnodes_of hash (vnodesPerNode h)) (h_nodes h)))\<rparr>"

definition AddNode :: "hash_fn \<Rightarrow> node \<Rightarrow> hash_ring \<Rightarrow> hash_ring" where
  "AddNode hash n h =
     (let n = (if n_Weight n \<le> 0 then n\<lparr>n_Weight := 1\<rparr> else n)
      in rebuildRingLocked hash (h\<lparr>h_nodes := AList.update (n_ID n) n (h_nodes h)\<rparr>))"

definition RemoveNode :: "hash_fn \<Rightarrow> string \<Rightarrow> hash_ring \<Rightarrow> (ring_error, hash_ring) result" where
  "RemoveNode hash nodeID h =
     (if map_of (h_nodes h) nodeID = None then Inl ErrNodeNotFound
      else Inr (rebuildRingLocked hash (h\<lparr>h_nodes := AList.delete nodeID (h_nodes h)\<rparr>)))"

text \<open>\<open>sort.Search(n, f)\<close>: binary search for the first index at which \<open>f\<close> holds.\<close>

function search_loop :: "(nat \<Rightarrow> bool) \<Rightarrow> nat \<Rightarrow> nat \<Rightarrow> nat" where
  "search_loop f i j =
     (if i < j then
        let h = (i + j) div 2
        in if \<not> f h then search_loop f (h + 1) j else search_loop f i h
      else i)"
  by pat_completeness auto
termination
  by (relation "measure (\<lambda>(f, i, j). j - i)") auto

declare search_loop.simps [simp del]

definition sort_Search :: "nat \<Rightarrow> (nat \<Rightarrow> bool) \<Rightarrow> nat" where
  "sort_Search n f = search_loop f 0 n"

definition ring_search :: "hash_ring \<Rightarrow> 64 word \<Rightarrow> nat" where
  "ring_search h khash = sort_Search (length (h_ring h)) (\<lambda>i. khash \<le> v_hash (h_ring h ! i))"

definition GetNode :: "hash_fn \<Rightarrow> string \<Rightarrow> hash_ring \<Rightarrow> (ring_error, node) result" where
  "GetNode hash key h =
     (if h_ring h = [] then Inl ErrEmptyRing
      else
        let idx = ring_search h (hash key);
            idx = (if idx = length (h_ring h) then 0 else idx)
        in Inr (node_at h (v_nodeID (h_ring h ! idx))))"

function getNodes_loop ::
  "hash_ring \<Rightarrow> nat \<Rightarrow> int \<Rightarrow> nat \<Rightarrow> string list \<Rightarrow> node list \<Rightarrow> node list" where
  "getNodes_loop h idx cnt i seen result =
     (if i < length (h_ring h) \<and> int (length result) < cnt then
        let nid = v_nodeID (h_ring h ! ((idx + i) mod length (h_ring h)))
        in if nid \<notin> set seen then getNodes_loop h idx cnt (i + 1) (nid # seen) (result @ [node_at h nid])
           else getNodes_loop h idx cnt (i + 1) seen result
      else result)"
  by pat_completeness auto
termination
  by (relation "measure (\<lambda>(h, idx, cnt, i, seen, result). length (h_ring h) - i)") auto

declare getNodes_loop.simps [simp del]

definition GetNodes :: "hash_fn \<Rightarrow> string \<Rightarrow> int \<Rightarrow> hash_ring \<Rightarrow> (ring_error, node list) result" where
  "GetNodes hash key cnt h =
     (if h_ring h = [] then Inl ErrEmptyRing
      else
        let cnt = (if int (length (h_nodes h)) < cnt then int (length (h_nodes h)) else cnt);
            cnt = (if cnt \<le> 0 then 1 else cnt);
            idx = ring_search h (hash key)
        in Inr (getNodes_loop h idx cnt 0 [] []))"

definition Nodes :: "hash_ring \<Rightarrow> node list" where
  "Nodes h = sort_key n_ID (map snd (h_nodes h))"

definition NodeCount :: "hash_ring \<Rightarrow> nat" where
  "NodeCount h = length (h_nodes h)"

section \<open>Binary search\<close>

lemma search_loop_first:
  assumes "i \<le> j" and "\<And>a b. a \<le> b \<Longrightarrow> b < j \<Longrightarrow> f a \<Longrightarrow> f b" and "\<And>a. a < i \<Longrightarrow> \<not> f a"
  shows "search_loop f i j \<le> j \<and> (\<forall>a < search_loop f i j. \<not> f a) \<and>
    (search_loop f i j < j \<longrightarrow> f (search_loop f i j))"
  using assms
proof (induction f i j rule: search_loop.induct)
  case (1 f i j)
  let ?h = "(i + j) div 2"
  show ?case
  proof (cases "i < j")
    case True
    then have h: "i \<le> ?h" "?h < j" by auto
    show ?thesis
    proof (cases "f ?h")
      case fh: True
      have eq: "search_loop f i j = search_loop f i ?h"
        using True fh by (subst search_loop.simps) (simp add: Let_def)
      have "search_loop f i ?h \<le> ?h \<and> (\<forall>a < search_loop f i ?h. \<not> f a) \<and>
          (search_loop f i ?h < ?h \<longrightarrow> f (search_loop f i ?h))"
        using "1.IH"(2) [OF True refl] fh h "1.prems" by auto
      with eq fh h show ?thesis by (cases "search_loop f i ?h = ?h") auto
    next
      case fh: False
      have eq: "search_loop f i j = search_loop f (?h + 1) j"
        using True fh by (subst search_loop.simps) (simp add: Let_def)
      have "\<not> f a" if "a < ?h + 1" for a
      proof
        assume "f a"
        with "1.prems"(2) [of a ?h] that h have "f ?h" by simp
        with fh show False ..
      qed
      with "1.IH"(1) [OF True refl fh] h "1.prems"(2) eq show ?thesis by auto
    qed
  next
    case False
    with "1.prems" show ?thesis by (subst (1 2 3 4) search_loop.simps) auto
  qed
qed

lemma sort_Search_first:
  assumes "\<And>a b. a \<le> b \<Longrightarrow> b < n \<Longrightarrow> f a \<Longrightarrow> f b"
  shows "sort_Search n f \<le> n" and "a < sort_Search n f \<Longrightarrow> \<not> f a" and "sort_Search n f < n \<Longrightarrow> f (sort_Search n f)"
  using search_loop_first [of 0 n f] assms by (auto simp: sort_Search_def)

section \<open>Invariant\<close>

definition all_vnodes :: "hash_fn \<Rightarrow> hash_ring \<Rightarrow> vnode list" where
  "all_vnodes hash h = concat (map (vnodes_of hash (vnodesPerNode h)) (h_nodes h))"

definition node_ok :: "int \<Rightarrow> string \<times> node \<Rightarrow> bool" where
  "node_ok vp idn \<longleftrightarrow> n_ID (snd idn) = fst idn \<and> 0 < n_Weight (snd idn) \<and> vp * n_Weight (snd idn) < 2 ^ 63"

definition ring_inv :: "hash_fn \<Rightarrow> hash_ring \<Rightarrow> bool" where
  "ring_inv hash h \<longleftrightarrow> wf_map (h_nodes h) \<and> 0 < vnodesPerNode h \<and>
     h_ring h = sort_key v_hash (all_vnodes hash h) \<and> (\<forall>idn\<in>set (h_nodes h). node_ok (vnodesPerNode h) idn)"

definition fits :: "node \<Rightarrow> hash_ring \<Rightarrow> bool" where
  "fits n h \<longleftrightarrow> vnodesPerNode h * max 1 (n_Weight n) < 2 ^ 63"

lemma rebuild_sel [simp]:
  "h_nodes (rebuildRingLocked hash h) = h_nodes h" "vnodesPerNode (rebuildRingLocked hash h) = vnodesPerNode h"
  "h_ring (rebuildRingLocked hash h) = sort_key v_hash (all_vnodes hash h)"
  "all_vnodes hash (rebuildRingLocked hash h) = all_vnodes hash h"
  by (simp_all add: rebuildRingLocked_def all_vnodes_def)

lemma ring_inv_rebuild:
  "wf_map (h_nodes h) \<Longrightarrow> 0 < vnodesPerNode h \<Longrightarrow> (\<And>idn. idn \<in> set (h_nodes h) \<Longrightarrow> node_ok (vnodesPerNode h) idn) \<Longrightarrow>
   ring_inv hash (rebuildRingLocked hash h)"
  by (simp add: ring_inv_def)

lemma ring_inv_New: "ring_inv hash (NewHashRing vp)"
  by (auto simp: ring_inv_def NewHashRing_def all_vnodes_def DefaultVnodesPerNode_def)

lemma set_update_subset: "set (AList.update k v m) \<subseteq> insert (k, v) (set m)"
  by (induction m) auto

lemma set_delete_subset: "set (AList.delete k m) \<subseteq> set m"
  by (auto simp: AList.delete_eq)

lemma ring_inv_AddNode:
  assumes "ring_inv hash h" and "fits n h"
  shows "ring_inv hash (AddNode hash n h)"
proof -
  let ?n = "if n_Weight n \<le> 0 then n\<lparr>n_Weight := 1\<rparr> else n"
  have n: "node_ok (vnodesPerNode h) (n_ID ?n, ?n)"
    using assms(2) by (auto simp: node_ok_def fits_def max_def split: if_splits)
  have "ring_inv hash (rebuildRingLocked hash (h\<lparr>h_nodes := AList.update (n_ID ?n) ?n (h_nodes h)\<rparr>))"
    using assms(1) n set_update_subset [of "n_ID ?n" ?n "h_nodes h"]
    by (intro ring_inv_rebuild) (auto simp: ring_inv_def)
  then show ?thesis by (simp add: AddNode_def Let_def)
qed

lemma ring_inv_RemoveNode:
  assumes "ring_inv hash h" and "RemoveNode hash nid h = Inr h'"
  shows "ring_inv hash h'"
proof -
  from assms(2) have h': "h' = rebuildRingLocked hash (h\<lparr>h_nodes := AList.delete nid (h_nodes h)\<rparr>)"
    by (auto simp: RemoveNode_def split: if_splits)
  show ?thesis unfolding h'
    using assms(1) set_delete_subset [of nid "h_nodes h"]
    by (intro ring_inv_rebuild) (auto simp: ring_inv_def)
qed

lemma vnode_count_pos: "node_ok vp idn \<Longrightarrow> 0 < vp \<Longrightarrow> 0 < vnode_count vp (snd idn)"
proof -
  assume "node_ok vp idn" and "0 < vp"
  then have "0 < vp * n_Weight (snd idn)" "vp * n_Weight (snd idn) < 2 ^ 63"
    by (auto simp: node_ok_def)
  then show ?thesis by (simp add: vnode_count_def int64_id)
qed

lemma set_vnodes_of: "v \<in> set (vnodes_of hash vp idn) \<Longrightarrow> v_nodeID v = fst idn"
  by (auto simp: vnodes_of_def)

lemma ring_set: "ring_inv hash h \<Longrightarrow> set (h_ring h) = (\<Union>idn\<in>set (h_nodes h). set (vnodes_of hash (vnodesPerNode h) idn))"
  by (simp add: ring_inv_def all_vnodes_def)

lemma ring_sorted: "ring_inv hash h \<Longrightarrow> sorted (map v_hash (h_ring h))"
  by (simp add: ring_inv_def)

text \<open>The owners of the positions are exactly the registered nodes.\<close>

lemma ring_ids:
  assumes "ring_inv hash h"
  shows "v_nodeID ` set (h_ring h) = fst ` set (h_nodes h)"
proof -
  have "v_nodeID ` set (vnodes_of hash (vnodesPerNode h) idn) = {fst idn}" if "idn \<in> set (h_nodes h)" for idn
    using assms that vnode_count_pos [of "vnodesPerNode h" idn]
    by (auto simp: ring_inv_def vnodes_of_def image_image)
  then show ?thesis by (auto simp: ring_set [OF assms] image_UN)
qed

lemma ring_empty_iff: "ring_inv hash h \<Longrightarrow> h_ring h = [] \<longleftrightarrow> h_nodes h = []"
  using ring_ids [of hash h] by (metis image_is_empty set_empty)

lemma node_at_ID:
  assumes "ring_inv hash h" and "nid \<in> fst ` set (h_nodes h)"
  shows "(nid, node_at h nid) \<in> set (h_nodes h)" and "n_ID (node_at h nid) = nid"
proof -
  from assms(2) obtain n where "(nid, n) \<in> set (h_nodes h)" by auto
  with assms(1) have "map_of (h_nodes h) nid = Some n" by (simp add: ring_inv_def)
  then show "(nid, node_at h nid) \<in> set (h_nodes h)" by (simp add: node_at_def map_of_SomeD)
  with assms(1) show "n_ID (node_at h nid) = nid" by (auto simp: ring_inv_def node_ok_def)
qed

section \<open>Lookup\<close>

text \<open>
  The specification of a lookup: the position that comes first clockwise from the hash of the
  key. Clockwise distance is subtraction of 64-bit words, which wraps around.
\<close>

definition succ_vnode :: "64 word \<Rightarrow> vnode set \<Rightarrow> vnode \<Rightarrow> bool" where
  "succ_vnode k R v \<longleftrightarrow> v \<in> R \<and> (\<forall>w\<in>R. v_hash v - k \<le> v_hash w - k)"

lemma clockwise_after: "k \<le> a \<Longrightarrow> k \<le> b \<Longrightarrow> a \<le> b \<Longrightarrow> a - k \<le> b - k" for a b k :: "64 word"
  by (simp add: word_le_def uint_sub_if')

lemma clockwise_wrap: "k \<le> a \<Longrightarrow> b < k \<Longrightarrow> a - k \<le> b - k" for a b k :: "64 word"
proof -
  assume "k \<le> a" and "b < k"
  moreover have "uint a < 18446744073709551616" using uint_lt2p [of a] by simp
  ultimately show ?thesis
    by (simp add: word_le_def word_less_def uint_sub_if') (use uint_ge_0 [of b] in linarith)
qed

lemma clockwise_before: "a < k \<Longrightarrow> b < k \<Longrightarrow> a \<le> b \<Longrightarrow> a - k \<le> b - k" for a b k :: "64 word"
  by (simp add: word_le_def word_less_def uint_sub_if')

lemma succ_vnode_unique:
  assumes "succ_vnode k R v" and "succ_vnode k R w" and "inj_on v_hash R"
  shows "v = w"
proof -
  from assms(1,2) have "v_hash v - k = v_hash w - k" by (meson antisym succ_vnode_def)
  then have "v_hash v = v_hash w" by simp
  with assms show ?thesis by (auto simp: succ_vnode_def dest: inj_onD)
qed

lemma succ_vnode_subset: "succ_vnode k R v \<Longrightarrow> v \<in> R' \<Longrightarrow> R' \<subseteq> R \<Longrightarrow> succ_vnode k R' v"
  by (auto simp: succ_vnode_def)

lemma ring_search_first:
  assumes "ring_inv hash h"
  shows "ring_search h (k :: 64 word) \<le> length (h_ring h)"
    and "a < ring_search h k \<Longrightarrow> v_hash (h_ring h ! a) < k"
    and "ring_search h k < length (h_ring h) \<Longrightarrow> k \<le> v_hash (h_ring h ! ring_search h k)"
proof -
  have "v_hash (h_ring h ! a) \<le> v_hash (h_ring h ! b)" if "a \<le> b" "b < length (h_ring h)" for a b
    using sorted_nth_mono [OF ring_sorted [OF assms], of a b] that by simp
  then have mono: "k \<le> v_hash (h_ring h ! b)" if "a \<le> b" "b < length (h_ring h)" "k \<le> v_hash (h_ring h ! a)" for a b
    using that by (meson order_trans)
  note s = sort_Search_first [of "length (h_ring h)" "\<lambda>i. k \<le> v_hash (h_ring h ! i)", OF mono, folded ring_search_def]
  show "ring_search h k \<le> length (h_ring h)" by (rule s(1))
  show "v_hash (h_ring h ! a) < k" if "a < ring_search h k" using s(2) [OF _ _ _ that] by (simp add: not_le)
  show "k \<le> v_hash (h_ring h ! ring_search h k)" if "ring_search h k < length (h_ring h)" using s(3) that by simp
qed

definition ring_index :: "hash_ring \<Rightarrow> 64 word \<Rightarrow> nat" where
  "ring_index h khash = (let idx = ring_search h khash in if idx = length (h_ring h) then 0 else idx)"

lemma ring_index_succ:
  assumes inv: "ring_inv hash h" and ne: "h_ring h \<noteq> []"
  shows "ring_index h k < length (h_ring h)" and "succ_vnode k (set (h_ring h)) (h_ring h ! ring_index h k)"
proof -
  note s = ring_search_first [OF inv, where k = k]
  show lt: "ring_index h k < length (h_ring h)"
    using s(1) ne by (auto simp: ring_index_def Let_def)
  have mono: "v_hash (h_ring h ! a) \<le> v_hash (h_ring h ! b)" if "a \<le> b" "b < length (h_ring h)" for a b
    using sorted_nth_mono [OF ring_sorted [OF inv], of a b] that by simp
  have "v_hash (h_ring h ! ring_index h k) - k \<le> v_hash w - k" if w: "w \<in> set (h_ring h)" for w
  proof -
    from w obtain b where b: "w = h_ring h ! b" "b < length (h_ring h)" by (metis in_set_conv_nth)
    show ?thesis
    proof (cases "ring_search h k = length (h_ring h)")
      case True
      then have i: "ring_index h k = 0" by (simp add: ring_index_def)
      have "v_hash (h_ring h ! 0) < k" "v_hash w < k" using s(2) True b ne by auto
      then show ?thesis using i b mono [of 0 b] by (simp add: clockwise_before)
    next
      case False
      then have i: "ring_index h k = ring_search h k" "ring_search h k < length (h_ring h)"
        using s(1) by (auto simp: ring_index_def)
      show ?thesis
      proof (cases "b < ring_search h k")
        case True
        then show ?thesis using s(2) [of b] s(3) i b by (simp add: clockwise_wrap)
      next
        case False
        then have "v_hash (h_ring h ! ring_search h k) \<le> v_hash w" using mono b by simp
        then show ?thesis using s(3) i by (simp add: clockwise_after)
      qed
    qed
  qed
  with lt show "succ_vnode k (set (h_ring h)) (h_ring h ! ring_index h k)"
    by (simp add: succ_vnode_def)
qed

lemma GetNode_index:
  "h_ring h \<noteq> [] \<Longrightarrow> GetNode hash key h = Inr (node_at h (v_nodeID (h_ring h ! ring_index h (hash key))))"
  by (simp add: GetNode_def ring_index_def Let_def)

lemma GetNode_succ:
  assumes "ring_inv hash h" and "h_nodes h \<noteq> []"
  obtains v where "succ_vnode (hash key) (set (h_ring h)) v" "GetNode hash key h = Inr (node_at h (v_nodeID v))"
    "(v_nodeID v, node_at h (v_nodeID v)) \<in> set (h_nodes h)" "n_ID (node_at h (v_nodeID v)) = v_nodeID v"
proof -
  have ne: "h_ring h \<noteq> []" using assms by (simp add: ring_empty_iff)
  let ?v = "h_ring h ! ring_index h (hash key)"
  note s = ring_index_succ [OF assms(1) ne, of "hash key"]
  have "v_nodeID ?v \<in> fst ` set (h_nodes h)"
    using ring_ids [OF assms(1)] s(1) by (metis image_eqI nth_mem)
  with s GetNode_index [OF ne] node_at_ID [OF assms(1)] that [of ?v] show thesis by blast
qed

section \<open>Replica sets\<close>

text \<open>The first occurrences of a list, less what has been seen.\<close>

fun firsts :: "'a list \<Rightarrow> 'a list \<Rightarrow> 'a list" where
  "firsts seen [] = []"
| "firsts seen (x # xs) = (if x \<in> set seen then firsts seen xs else x # firsts (x # seen) xs)"

lemma set_firsts: "set (firsts seen xs) = set xs - set seen"
  by (induction seen xs rule: firsts.induct) auto

lemma distinct_firsts: "distinct (firsts seen xs)"
  by (induction seen xs rule: firsts.induct) (auto simp: set_firsts)

lemma hd_firsts: "xs \<noteq> [] \<Longrightarrow> firsts [] xs \<noteq> [] \<and> hd (firsts [] xs) = hd xs"
  by (cases xs) auto

definition clockwise_ids :: "hash_ring \<Rightarrow> nat \<Rightarrow> string list" where
  "clockwise_ids h idx = map v_nodeID (rotate idx (h_ring h))"

lemma getNodes_loop_nodes:
  assumes "i \<le> length (h_ring h)"
  shows "getNodes_loop h idx cnt i seen result =
    result @ map (node_at h) (take (nat (cnt - int (length result))) (firsts seen (drop i (clockwise_ids h idx))))"
  using assms
proof (induction h idx cnt i seen result rule: getNodes_loop.induct)
  case (1 h idx cnt i seen result)
  show ?case
  proof (cases "i < length (h_ring h) \<and> int (length result) < cnt")
    case True
    let ?nid = "v_nodeID (h_ring h ! ((idx + i) mod length (h_ring h)))"
    have drop: "drop i (clockwise_ids h idx) = ?nid # drop (i + 1) (clockwise_ids h idx)"
      using True by (simp add: clockwise_ids_def Cons_nth_drop_Suc [symmetric] nth_rotate)
    obtain m where m: "nat (cnt - int (length result)) = Suc m" "m = nat (cnt - int (Suc (length result)))"
      using True by (cases "nat (cnt - int (length result))") auto
    show ?thesis
    proof (cases "?nid \<in> set seen")
      case seen: True
      with True "1.IH"(2) [OF True refl] show ?thesis
        by (subst getNodes_loop.simps) (simp add: drop)
    next
      case False
      with True "1.IH"(1) [OF True refl] m show ?thesis
        by (subst getNodes_loop.simps) (simp add: drop Let_def)
    qed
  next
    case False
    with "1.prems" show ?thesis
      by (subst getNodes_loop.simps) (auto simp: clockwise_ids_def)
  qed
qed

definition replica_count :: "int \<Rightarrow> hash_ring \<Rightarrow> nat" where
  "replica_count cnt h = nat (max 1 (min cnt (int (length (h_nodes h)))))"

lemma GetNodes_ids:
  assumes "ring_inv hash h" and "h_nodes h \<noteq> []"
  obtains ns where "GetNodes hash key cnt h = Inr ns"
    "map n_ID ns = take (replica_count cnt h) (firsts [] (clockwise_ids h (ring_search h (hash key))))"
    "\<forall>n\<in>set ns. (n_ID n, n) \<in> set (h_nodes h)"
proof -
  let ?ids = "take (replica_count cnt h) (firsts [] (clockwise_ids h (ring_search h (hash key))))"
  have "h_ring h \<noteq> []" "1 \<le> int (length (h_nodes h))" using assms by (auto simp: ring_empty_iff Suc_le_eq)
  moreover from this(2) have "(let c = if int (length (h_nodes h)) < cnt then int (length (h_nodes h)) else cnt
      in if c \<le> 0 then 1 else c) = int (replica_count cnt h)"
    by (auto simp: replica_count_def Let_def max_def min_def)
  ultimately have get: "GetNodes hash key cnt h = Inr (map (node_at h) ?ids)"
    using getNodes_loop_nodes [of 0 h "ring_search h (hash key)" "int (replica_count cnt h)" "[]" "[]"]
    by (simp add: GetNodes_def Let_def)
  have "set ?ids \<subseteq> fst ` set (h_nodes h)"
    using set_take_subset [of "replica_count cnt h"] ring_ids [OF assms(1)] by (force simp: set_firsts clockwise_ids_def)
  then have "\<forall>i\<in>set ?ids. n_ID (node_at h i) = i \<and> (i, node_at h i) \<in> set (h_nodes h)"
    using node_at_ID [OF assms(1)] by blast
  then show thesis using that [OF get] by (auto simp: map_idI)
qed

text \<open>The clockwise distance of a node from a position: that of its nearest virtual node.\<close>

definition node_distance :: "64 word \<Rightarrow> hash_ring \<Rightarrow> string \<Rightarrow> 64 word" where
  "node_distance k h nid = Min ((\<lambda>v. v_hash v - k) ` {v \<in> set (h_ring h). v_nodeID v = nid})"

text \<open>The walk from the key visits the virtual nodes by distance, so first occurrences are ordered by the distance of the node.\<close>

lemma walk_sorted:
  assumes "ring_inv hash h"
  shows "sorted (map (\<lambda>v. v_hash v - k) (rotate (ring_search h k) (h_ring h)))"
proof -
  let ?i = "ring_search h k" and ?r = "h_ring h"
  note s = ring_search_first [OF assms, where k = k]
  have rot: "rotate ?i ?r = drop ?i ?r @ take ?i ?r"
    using s(1) by (cases "?i = length ?r") (simp_all add: rotate_drop_take)
  have mono: "v_hash (?r ! a) \<le> v_hash (?r ! b)" if "a \<le> b" "b < length ?r" for a b
    using sorted_nth_mono [OF ring_sorted [OF assms], of a b] that by simp
  have above: "k \<le> v_hash (?r ! a)" if "?i \<le> a" "a < length ?r" for a
    using s(3) mono [OF that] that by (meson order_trans le_less_trans)
  have "sorted (map (\<lambda>v. v_hash v - k) (drop ?i ?r))"
    by (auto simp: sorted_iff_nth_mono intro!: clockwise_after above mono)
  moreover have "sorted (map (\<lambda>v. v_hash v - k) (take ?i ?r))"
    using s(1) by (auto simp: sorted_iff_nth_mono intro!: clockwise_before s(2) mono)
  moreover have "v_hash v - k \<le> v_hash w - k" if "v \<in> set (drop ?i ?r)" "w \<in> set (take ?i ?r)" for v w
    using that s(1) by (auto simp: in_set_conv_nth intro!: clockwise_wrap above s(2))
  ultimately show ?thesis by (auto simp: rot sorted_append)
qed

lemma firsts_sorted:
  fixes f :: "'a \<Rightarrow> 'b :: linorder"
  assumes "sorted (map f vs)" and "\<And>a. a \<notin> set seen \<Longrightarrow> a \<in> g ` set vs \<Longrightarrow> D a = Min (f ` {v \<in> set vs. g v = a})"
  shows "sorted_wrt (\<lambda>a b. D a \<le> D b) (firsts seen (map g vs))"
  using assms
proof (induction vs arbitrary: seen)
  case (Cons v vs)
  have tail: "{w \<in> set (v # vs). g w = a} = {w \<in> set vs. g w = a}" if "a \<noteq> g v" for a using that by auto
  have IH: "sorted_wrt (\<lambda>a b. D a \<le> D b) (firsts seen' (map g vs))" if "set seen \<subseteq> set seen'" "g v \<in> set seen'" for seen'
  proof (rule Cons.IH)
    show "sorted (map f vs)" using Cons.prems(1) by simp
    show "D a = Min (f ` {w \<in> set vs. g w = a})" if "a \<notin> set seen'" "a \<in> g ` set vs" for a
    proof -
      have "a \<noteq> g v" "a \<notin> set seen" using that \<open>set seen \<subseteq> set seen'\<close> \<open>g v \<in> set seen'\<close> by auto
      with Cons.prems(2) [of a] that(2) tail show ?thesis by auto
    qed
  qed
  show ?case
  proof (cases "g v \<in> set seen")
    case True
    with IH [of seen] show ?thesis by simp
  next
    case False
    have le: "f v \<le> f w" if "w \<in> set vs" for w using Cons.prems(1) that by simp
    have "D (g v) = Min (f ` {w \<in> set (v # vs). g w = g v})" using Cons.prems(2) False by simp
    also have "\<dots> = f v" by (rule Min_eqI) (auto dest: le)
    finally have Dv: "D (g v) = f v" .
    have "f v \<le> D b" if "b \<in> set (firsts (g v # seen) (map g vs))" for b
    proof -
      have b: "b \<noteq> g v" "b \<notin> set seen" "b \<in> g ` set vs" using that by (auto simp: set_firsts)
      then have "D b = Min (f ` {w \<in> set vs. g w = b})" using Cons.prems(2) [of b] tail [OF b(1)] by auto
      moreover have "{w \<in> set vs. g w = b} \<noteq> {}" using b(3) by auto
      ultimately show ?thesis using le by (auto simp: Min_ge_iff)
    qed
    with False Dv IH [of "g v # seen"] show ?thesis by auto
  qed
qed simp

lemma clockwise_firsts_sorted:
  assumes "ring_inv hash h"
  shows "sorted_wrt (\<lambda>a b. node_distance k h a \<le> node_distance k h b) (firsts [] (clockwise_ids h (ring_search h k)))"
  unfolding clockwise_ids_def by (rule firsts_sorted [OF walk_sorted [OF assms]]) (simp add: node_distance_def)

lemma hd_clockwise:
  assumes "ring_inv hash h" and "h_ring h \<noteq> []"
  shows "hd (clockwise_ids h (ring_search h k)) = v_nodeID (h_ring h ! ring_index h k)"
proof -
  have "hd (clockwise_ids h (ring_search h k)) = v_nodeID (h_ring h ! (ring_search h k mod length (h_ring h)))"
    using assms(2) by (simp add: clockwise_ids_def hd_map hd_rotate_conv_nth)
  moreover have "ring_search h k mod length (h_ring h) = ring_index h k"
    using ring_search_first(1) [OF assms(1), of k] by (auto simp: ring_index_def Let_def le_less)
  ultimately show ?thesis by simp
qed

section \<open>Membership changes\<close>

lemma succ_of_GetNode:
  assumes "ring_inv hash h" and "GetNode hash key h = Inr n"
  obtains v where "succ_vnode (hash key) (set (h_ring h)) v" "n = node_at h (v_nodeID v)" "n_ID n = v_nodeID v"
    "(n_ID n, n) \<in> set (h_nodes h)"
proof -
  have "h_nodes h \<noteq> []" using assms by (auto simp: GetNode_def ring_empty_iff split: if_splits)
  then show thesis
    using GetNode_succ [OF assms(1), of key] assms(2) that by (metis sum.inject(2))
qed

lemma delete_nodes_set: "wf_map m \<Longrightarrow> set (AList.delete k m) = {p \<in> set m. fst p \<noteq> k}"
  by (auto simp: AList.delete_eq)

lemma ring_set_RemoveNode:
  assumes "ring_inv hash h" and "RemoveNode hash nid h = Inr h'"
  shows "set (h_ring h') = {v \<in> set (h_ring h). v_nodeID v \<noteq> nid}"
proof -
  from assms(2) have h': "h_nodes h' = AList.delete nid (h_nodes h)" "vnodesPerNode h' = vnodesPerNode h"
    by (auto simp: RemoveNode_def split: if_splits)
  have "wf_map (h_nodes h)" using assms(1) by (simp add: ring_inv_def)
  then show ?thesis
    unfolding ring_set [OF assms(1)] ring_set [OF ring_inv_RemoveNode [OF assms]] h'
    by (auto simp: delete_nodes_set set_vnodes_of)
qed

lemma ring_set_AddNode:
  assumes inv: "ring_inv hash h" and "fits n h" and new: "n_ID n \<notin> fst ` set (h_nodes h)"
  shows "{v \<in> set (h_ring (AddNode hash n h)). v_nodeID v \<noteq> n_ID n} = set (h_ring h)"
proof -
  obtain m where m: "h_nodes (AddNode hash n h) = h_nodes h @ [(n_ID n, m)]"
    using new by (auto simp: AddNode_def Let_def update_new)
  have vp: "vnodesPerNode (AddNode hash n h) = vnodesPerNode h" by (simp add: AddNode_def Let_def)
  show ?thesis
    unfolding ring_set [OF inv] ring_set [OF ring_inv_AddNode [OF assms(1,2)]] vp m
    using new by (force simp: set_vnodes_of image_iff)
qed

text \<open>Two rings that contain the same positions route alike, when no two positions collide.\<close>

lemma GetNode_cong:
  assumes "ring_inv hash h" and "ring_inv hash h'" and "set (h_ring h) = set (h_ring h')"
    and "inj_on v_hash (set (h_ring h))" and "GetNode hash key h = Inr n" and "GetNode hash key h' = Inr n'"
  shows "n_ID n = n_ID n'"
proof -
  obtain v where v: "succ_vnode (hash key) (set (h_ring h)) v" "n_ID n = v_nodeID v"
    by (rule succ_of_GetNode [OF assms(1,5)])
  obtain v' where v': "succ_vnode (hash key) (set (h_ring h')) v'" "n_ID n' = v_nodeID v'"
    by (rule succ_of_GetNode [OF assms(2,6)])
  have "v = v'" using v v' assms(3,4) succ_vnode_unique by metis
  with v v' show ?thesis by simp
qed

section \<open>An example ring\<close>

definition ex_hash :: hash_fn where
  "ex_hash s = fold (\<lambda>c a. a * 31 + of_char c) s 7"

definition ex_node :: "string \<Rightarrow> int \<Rightarrow> node" where
  "ex_node i w = \<lparr>n_ID = i, n_Address = ''http://'' @ i, n_Weight = w, n_Metadata = []\<rparr>"

definition ex_ring1 :: hash_ring where "ex_ring1 = AddNode ex_hash (ex_node ''a'' 1) (NewHashRing 2)"
definition ex_ring2 :: hash_ring where "ex_ring2 = AddNode ex_hash (ex_node ''b'' 0) ex_ring1"

lemma ex_ring_inv: "ring_inv ex_hash ex_ring1" "ring_inv ex_hash ex_ring2"
proof -
  have "fits (ex_node ''a'' 1) (NewHashRing 2)" "fits (ex_node ''b'' 0) ex_ring1" by code_simp+
  then show "ring_inv ex_hash ex_ring1" "ring_inv ex_hash ex_ring2"
    unfolding ex_ring1_def ex_ring2_def by (simp_all add: ring_inv_New ring_inv_AddNode)
qed

lemma ex_ring_inj: "inj_on v_hash (set (h_ring ex_ring2))"
  by code_simp

section \<open>Properties\<close>

text \<open>
  C17. A lookup on a ring with at least one node always succeeds and returns the registered node
  whose virtual position is the first one clockwise (in wrapping 64-bit arithmetic) from the
  hash of the key: the binary search and the wrap to index 0 are right.
\<close>

theorem GetNode_successor:
  assumes "ring_inv hash h" and "h_nodes h \<noteq> []"
  shows "\<exists>v n. GetNode hash key h = Inr n \<and> v \<in> set (h_ring h) \<and> n_ID n = v_nodeID v \<and> (n_ID n, n) \<in> set (h_nodes h) \<and>
    (\<forall>w\<in>set (h_ring h). v_hash v - hash key \<le> v_hash w - hash key)"
proof -
  obtain v where "succ_vnode (hash key) (set (h_ring h)) v" "GetNode hash key h = Inr (node_at h (v_nodeID v))"
    "(v_nodeID v, node_at h (v_nodeID v)) \<in> set (h_nodes h)" "n_ID (node_at h (v_nodeID v)) = v_nodeID v"
    by (rule GetNode_succ [OF assms])
  then show ?thesis
    by (intro exI [of _ v] exI [of _ "node_at h (v_nodeID v)"]) (simp add: succ_vnode_def)
qed

theorem GetNode_successor_witness:
  "\<exists>v n. GetNode ex_hash ''web/app'' ex_ring2 = Inr n \<and> v \<in> set (h_ring ex_ring2) \<and> n_ID n = v_nodeID v \<and>
    (n_ID n, n) \<in> set (h_nodes ex_ring2) \<and>
    (\<forall>w\<in>set (h_ring ex_ring2). v_hash v - ex_hash ''web/app'' \<le> v_hash w - ex_hash ''web/app'')"
proof (rule GetNode_successor [OF ex_ring_inv(2)])
  show "h_nodes ex_ring2 \<noteq> []" by code_simp
qed

text \<open>
  C18. Removing a node moves only the keys it owned: every key owned by another node keeps its
  owner (virtual positions not colliding).
\<close>

theorem RemoveNode_minimal_disruption:
  assumes inv: "ring_inv hash h" and "inj_on v_hash (set (h_ring h))"
    and rm: "RemoveNode hash nid h = Inr h'" and get: "GetNode hash key h = Inr n" and "n_ID n \<noteq> nid"
  shows "\<exists>n'. GetNode hash key h' = Inr n' \<and> n_ID n' = n_ID n"
proof -
  note inv' = ring_inv_RemoveNode [OF inv rm] and set' = ring_set_RemoveNode [OF inv rm]
  obtain v where v: "succ_vnode (hash key) (set (h_ring h)) v" "n_ID n = v_nodeID v"
    by (rule succ_of_GetNode [OF inv get])
  then have v': "v \<in> set (h_ring h')" using assms(5) set' by (simp add: succ_vnode_def)
  then have "h_nodes h' \<noteq> []" using inv' ring_empty_iff by fastforce
  then obtain w where w: "succ_vnode (hash key) (set (h_ring h')) w" "GetNode hash key h' = Inr (node_at h' (v_nodeID w))"
    "n_ID (node_at h' (v_nodeID w)) = v_nodeID w" by (rule GetNode_succ [OF inv'])
  have "succ_vnode (hash key) (set (h_ring h')) v"
    by (rule succ_vnode_subset [OF v(1) v']) (auto simp: set')
  moreover have "inj_on v_hash (set (h_ring h'))" using assms(2) by (auto simp: set' inj_on_def)
  ultimately have "v = w" using w(1) succ_vnode_unique by blast
  with w v show ?thesis by simp
qed

lemma ex_owners:
  "GetNode ex_hash ''web/app'' ex_ring2 = Inr (ex_node ''a'' 1)"
  "GetNode ex_hash ''web/app'' ex_ring1 = Inr (ex_node ''a'' 1)"
  "map_of (h_nodes ex_ring2) ''b'' \<noteq> None"
  by code_simp+

theorem RemoveNode_minimal_disruption_witness:
  "\<exists>h' n'. RemoveNode ex_hash ''b'' ex_ring2 = Inr h' \<and> GetNode ex_hash ''web/app'' h' = Inr n' \<and> n_ID n' = ''a''"
proof -
  obtain h' where h': "RemoveNode ex_hash ''b'' ex_ring2 = Inr h'" using ex_owners(3) by (auto simp: RemoveNode_def)
  from RemoveNode_minimal_disruption [OF ex_ring_inv(2) ex_ring_inj h' ex_owners(1)] h' show ?thesis
    by (simp add: ex_node_def)
qed

text \<open>
  Adding a node moves keys only to the new node: after the addition every key is owned by
  the node that owned it before or by the new one (virtual positions not colliding).
\<close>

lemma AddNode_minimal_disruption:
  assumes inv: "ring_inv hash h" and "fits m h" and new: "n_ID m \<notin> fst ` set (h_nodes h)"
    and inj: "inj_on v_hash (set (h_ring (AddNode hash m h)))" and get: "GetNode hash key h = Inr n"
  shows "\<exists>n'. GetNode hash key (AddNode hash m h) = Inr n' \<and> (n_ID n' = n_ID n \<or> n_ID n' = n_ID m)"
proof -
  let ?h = "AddNode hash m h"
  note inv' = ring_inv_AddNode [OF assms(1,2)] and set' = ring_set_AddNode [OF assms(1-3)]
  have "h_nodes ?h \<noteq> []" by (simp add: AddNode_def Let_def update_nonempty)
  then obtain w where w: "succ_vnode (hash key) (set (h_ring ?h)) w" "GetNode hash key ?h = Inr (node_at ?h (v_nodeID w))"
    "n_ID (node_at ?h (v_nodeID w)) = v_nodeID w" by (rule GetNode_succ [OF inv'])
  obtain v where v: "succ_vnode (hash key) (set (h_ring h)) v" "n_ID n = v_nodeID v"
    by (rule succ_of_GetNode [OF inv get])
  have "v_nodeID w = v_nodeID v" if "v_nodeID w \<noteq> n_ID m"
  proof -
    have "w \<in> set (h_ring h)" using w(1) that set' by (auto simp: succ_vnode_def)
    then have "succ_vnode (hash key) (set (h_ring h)) w"
      by (rule succ_vnode_subset [OF w(1)]) (use set' in auto)
    moreover have "inj_on v_hash (set (h_ring h))" using inj set' by (auto simp: inj_on_def)
    ultimately show ?thesis using v(1) succ_vnode_unique by blast
  qed
  with w v show ?thesis by auto
qed

lemma AddNode_minimal_disruption_witness:
  "\<exists>n'. GetNode ex_hash ''web/app'' (AddNode ex_hash (ex_node ''b'' 0) ex_ring1) = Inr n' \<and> (n_ID n' = ''a'' \<or> n_ID n' = ''b'')"
proof -
  have "fits (ex_node ''b'' 0) ex_ring1" "n_ID (ex_node ''b'' 0) \<notin> fst ` set (h_nodes ex_ring1)" by code_simp+
  from AddNode_minimal_disruption [OF ex_ring_inv(1) this _ ex_owners(2)] ex_ring_inj show ?thesis
    by (simp add: ex_ring2_def ex_node_def)
qed

text \<open>
  C19. A replica lookup returns the wanted number of nodes (at least one, at most all of them): registered nodes,
  pairwise distinct, in clockwise order, which is the order of the distances of their nearest virtual
  nodes from the key; no node left out is nearer than one returned, and the first is the owner of the key.
\<close>

theorem GetNodes_replicas:
  assumes inv: "ring_inv hash h" and ne: "h_nodes h \<noteq> []"
  shows "\<exists>ns n. GetNodes hash key cnt h = Inr ns \<and> GetNode hash key h = Inr n \<and>
    length ns = nat (max 1 (min cnt (int (NodeCount h)))) \<and> distinct (map n_ID ns) \<and>
    (\<forall>n\<in>set ns. (n_ID n, n) \<in> set (h_nodes h)) \<and> n_ID (hd ns) = n_ID n \<and>
    sorted (map (\<lambda>n. node_distance (hash key) h (n_ID n)) ns) \<and>
    (\<forall>n\<in>set ns. \<forall>i\<in>fst ` set (h_nodes h) - n_ID ` set ns. node_distance (hash key) h (n_ID n) \<le> node_distance (hash key) h i)"
proof -
  let ?ids = "clockwise_ids h (ring_search h (hash key))" and ?k = "replica_count cnt h"
  have ring: "h_ring h \<noteq> []" using assms by (simp add: ring_empty_iff)
  obtain ns where ns: "GetNodes hash key cnt h = Inr ns" "map n_ID ns = take ?k (firsts [] ?ids)" "\<forall>n\<in>set ns. (n_ID n, n) \<in> set (h_nodes h)"
    by (rule GetNodes_ids [OF assms])
  have ids: "set ?ids = fst ` set (h_nodes h)"
    using ring_ids [OF inv] by (simp add: clockwise_ids_def)
  have "length (firsts [] ?ids) = card (set ?ids)"
    using distinct_card [OF distinct_firsts, of "[]" ?ids] by (simp add: set_firsts)
  also have "\<dots> = length (h_nodes h)"
    using inv distinct_card [of "map fst (h_nodes h)"] unfolding ids by (simp add: ring_inv_def)
  finally have len: "length ns = nat (max 1 (min cnt (int (NodeCount h))))"
    using arg_cong [OF ns(2), of length] ne
    by (cases "h_nodes h") (auto simp: NodeCount_def replica_count_def Suc_le_eq max_def min_def)
  have dist: "distinct (map n_ID ns)" unfolding ns(2) by (rule distinct_take) (rule distinct_firsts)
  have order: "sorted_wrt (\<lambda>a b. node_distance (hash key) h a \<le> node_distance (hash key) h b) (map n_ID ns @ drop ?k (firsts [] ?ids))"
    unfolding ns(2) append_take_drop_id by (rule clockwise_firsts_sorted [OF inv])
  have sorted: "sorted (map (\<lambda>n. node_distance (hash key) h (n_ID n)) ns)"
    using order by (simp add: sorted_wrt_append sorted_wrt_map)
  have "fst ` set (h_nodes h) = n_ID ` set ns \<union> set (drop ?k (firsts [] ?ids))"
    using arg_cong [OF append_take_drop_id [of ?k "firsts [] ?ids"], of set] unfolding ns(2) [symmetric] by (simp add: set_firsts ids)
  then have near: "\<forall>n\<in>set ns. \<forall>i\<in>fst ` set (h_nodes h) - n_ID ` set ns. node_distance (hash key) h (n_ID n) \<le> node_distance (hash key) h i"
    using order by (auto simp: sorted_wrt_append)
  have "?ids \<noteq> []" using ring by (simp add: clockwise_ids_def)
  moreover have "0 < ?k" by (simp add: replica_count_def)
  ultimately have "hd (map n_ID ns) = hd ?ids"
    unfolding ns(2) using hd_firsts [of ?ids] by (simp add: hd_take)
  moreover have "ns \<noteq> []" using len by auto
  ultimately have "n_ID (hd ns) = v_nodeID (h_ring h ! ring_index h (hash key))"
    using hd_clockwise [OF inv ring] by (simp add: hd_map)
  moreover have "v_nodeID (h_ring h ! ring_index h (hash key)) \<in> fst ` set (h_nodes h)"
    using ring_ids [OF inv] ring_index_succ(1) [OF inv ring] by (metis image_eqI nth_mem)
  ultimately have owner: "n_ID (hd ns) = n_ID (node_at h (v_nodeID (h_ring h ! ring_index h (hash key))))"
    using node_at_ID(2) [OF inv] by simp
  show ?thesis by (intro exI conjI) (rule ns(1) GetNode_index [OF ring] len dist ns(3) owner sorted near)+
qed

theorem GetNodes_replicas_witness:
  "\<exists>ns. GetNodes ex_hash ''web/app'' 3 ex_ring2 = Inr ns \<and> length ns = nat (max 1 (min 3 (int (NodeCount ex_ring2)))) \<and>
    sorted (map (\<lambda>n. node_distance (ex_hash ''web/app'') ex_ring2 (n_ID n)) ns)"
proof -
  have "h_nodes ex_ring2 \<noteq> []" by code_simp
  from GetNodes_replicas [OF ex_ring_inv(2) this, of "''web/app''" 3] show ?thesis by blast
qed

text \<open>
  Routing does not depend on the iteration order of Go's maps nor on the history of the
  ring: two rings with the same members, weights and virtual-node setting send every key to
  the same node (virtual positions not colliding).
\<close>

lemma GetNode_deterministic:
  assumes "ring_inv hash h" and "ring_inv hash h'" and "vnodesPerNode h = vnodesPerNode h'"
    and "set (h_nodes h) = set (h_nodes h')" and "inj_on v_hash (set (h_ring h))"
  shows "GetNode hash key h = GetNode hash key h'"
proof (cases "h_nodes h = []")
  case True
  with assms show ?thesis by (auto simp: GetNode_def ring_empty_iff)
next
  case False
  then have "h_nodes h' \<noteq> []" using assms(4) by auto
  obtain n where n: "GetNode hash key h = Inr n" using False by (elim GetNode_succ [OF assms(1), of key])
  obtain n' where n': "GetNode hash key h' = Inr n'" using \<open>h_nodes h' \<noteq> []\<close> by (elim GetNode_succ [OF assms(2), of key])
  have "set (h_ring h) = set (h_ring h')"
    unfolding ring_set [OF assms(1)] ring_set [OF assms(2)] using assms(3,4) by simp
  with assms n n' have id: "n_ID n = n_ID n'" by (metis GetNode_cong)
  have "(n_ID n, n) \<in> set (h_nodes h)" by (rule succ_of_GetNode [OF assms(1) n])
  moreover have "(n_ID n, n') \<in> set (h_nodes h)"
    unfolding id assms(4) by (rule succ_of_GetNode [OF assms(2) n'])
  ultimately show ?thesis
    using n n' assms(1) by (auto simp: ring_inv_def dest: eq_key_imp_eq_value)
qed

definition ex_ring3 :: hash_ring where
  "ex_ring3 = AddNode ex_hash (ex_node ''a'' 1) (AddNode ex_hash (ex_node ''b'' 0) (NewHashRing 2))"

lemma GetNode_deterministic_witness:
  "GetNode ex_hash ''web/app'' ex_ring2 = GetNode ex_hash ''web/app'' ex_ring3 \<and> h_nodes ex_ring2 \<noteq> h_nodes ex_ring3"
proof -
  have "ring_inv ex_hash ex_ring3"
  proof -
    have "fits (ex_node ''b'' 0) (NewHashRing 2)" "fits (ex_node ''a'' 1) (AddNode ex_hash (ex_node ''b'' 0) (NewHashRing 2))"
      by code_simp+
    then show ?thesis unfolding ex_ring3_def by (simp add: ring_inv_New ring_inv_AddNode)
  qed
  moreover have "vnodesPerNode ex_ring2 = vnodesPerNode ex_ring3" "set (h_nodes ex_ring2) = set (h_nodes ex_ring3)"
    "h_nodes ex_ring2 \<noteq> h_nodes ex_ring3" by code_simp+
  ultimately show ?thesis
    using GetNode_deterministic [OF ex_ring_inv(2) _ _ _ ex_ring_inj] by blast
qed

end
