(* ===== verification/RecentBuffer.thy ===== *)
theory RecentBuffer
  imports LogEntry
begin

text \<open>
  The ring buffer of recent entries, \<open>internal/stream/recent.go\<close>, refined to the list of the
  last \<open>capacity\<close> entries. The locale \<open>recent_log\<close> is the interface the hub relies on.
\<close>

section \<open>Interface\<close>

locale recent_log =
  fixes inv :: "'b \<Rightarrow> bool"
    and contents :: "'b \<Rightarrow> 'e list"
    and cap :: "'b \<Rightarrow> nat"
    and add_batch :: "'e list \<Rightarrow> 'b \<Rightarrow> 'b"
    and snapshot :: "int \<Rightarrow> 'b \<Rightarrow> 'e list"
  assumes add_inv: "inv b \<Longrightarrow> inv (add_batch es b)"
    and add_cap: "inv b \<Longrightarrow> cap (add_batch es b) = cap b"
    and add_contents: "inv b \<Longrightarrow> contents (add_batch es b) = lastn (cap b) (contents b @ es)"
    and snapshot_contents: "inv b \<Longrightarrow> snapshot lim b = (if lim \<le> 0 then contents b else lastn (nat lim) (contents b))"
begin

lemma batches_inv: "inv b \<Longrightarrow> inv (fold add_batch bs b) \<and> cap (fold add_batch bs b) = cap b"
  by (induction bs arbitrary: b) (auto simp: add_inv add_cap)

lemma batches_contents:
  assumes "inv b" and "contents b = lastn (cap b) xs"
  shows "contents (fold add_batch bs b) = lastn (cap b) (xs @ concat bs)"
  using assms
proof (induction bs arbitrary: b xs)
  case (Cons es bs)
  have "contents (add_batch es b) = lastn (cap b) (xs @ es)"
    using Cons.prems by (simp add: add_contents lastn_append_lastn)
  with Cons.IH [of "add_batch es b" "xs @ es"] Cons.prems show ?case by (simp add: add_inv add_cap)
qed simp

lemma batches_snapshot:
  assumes "inv b" and "contents b = []"
  shows "snapshot lim (fold add_batch bs b) = lastn (if lim \<le> 0 then cap b else min (nat lim) (cap b)) (concat bs)"
  using snapshot_contents batches_inv [OF assms(1), of bs] batches_contents [OF assms(1), of "[]" bs] assms
  by (auto simp: lastn_lastn)

end

section \<open>The ring buffer\<close>

record recent_buffer =
  rb_capacity :: nat
  rb_entries :: "log_entry list"
  rb_head :: nat
  rb_full :: bool

text \<open>The zero value of \<open>LogEntry\<close>, which fills a new slice.\<close>

definition zero_entry :: log_entry where
  "zero_entry = \<lparr>ID = '''', Timestamp = zero_time, Host = '''', Source = '''', Level = '''', Message = '''', Fields = []\<rparr>"

definition NewRecentBuffer :: "int \<Rightarrow> recent_buffer" where
  "NewRecentBuffer capacity =
     (let n = nat (if capacity \<le> 0 then 1000 else capacity)
      in \<lparr>rb_capacity = n, rb_entries = replicate n zero_entry, rb_head = 0, rb_full = False\<rparr>)"

definition Add :: "log_entry \<Rightarrow> recent_buffer \<Rightarrow> recent_buffer" where
  "Add e b =
     (let h = (rb_head b + 1) mod rb_capacity b
      in b\<lparr>rb_entries := (rb_entries b)[rb_head b := e], rb_head := h,
           rb_full := (if h = 0 then True else rb_full b)\<rparr>)"

definition AddBatch :: "log_entry list \<Rightarrow> recent_buffer \<Rightarrow> recent_buffer" where
  "AddBatch es b = (if es = [] then b else fold Add es b)"

definition Snapshot :: "int \<Rightarrow> recent_buffer \<Rightarrow> log_entry list" where
  "Snapshot lim b =
     (let total = (if rb_full b then rb_capacity b else rb_head b)
      in if total = 0 then []
         else
           let lim = (if lim \<le> 0 \<or> int total < lim then int total else lim);
               result = (if rb_full b then drop (rb_head b) (rb_entries b) @ take (rb_head b) (rb_entries b)
                         else take (rb_head b) (rb_entries b))
           in if lim < int (length result) then drop (length result - nat lim) result else result)"

definition Len_recent :: "recent_buffer \<Rightarrow> nat" where
  "Len_recent b = (if rb_full b then rb_capacity b else rb_head b)"

section \<open>Refinement\<close>

definition rb_inv :: "recent_buffer \<Rightarrow> bool" where
  "rb_inv b \<longleftrightarrow> 0 < rb_capacity b \<and> length (rb_entries b) = rb_capacity b \<and> rb_head b < rb_capacity b"

definition rb_contents :: "recent_buffer \<Rightarrow> log_entry list" where
  "rb_contents b =
     (if rb_full b then drop (rb_head b) (rb_entries b) @ take (rb_head b) (rb_entries b)
      else take (rb_head b) (rb_entries b))"

lemma rb_inv_New: "rb_inv (NewRecentBuffer n)" "rb_contents (NewRecentBuffer n) = []"
  "rb_capacity (NewRecentBuffer n) = nat (if n \<le> 0 then 1000 else n)"
  by (auto simp: rb_inv_def rb_contents_def NewRecentBuffer_def Let_def)

lemma Add_inv: "rb_inv b \<Longrightarrow> rb_inv (Add e b)" "rb_capacity (Add e b) = rb_capacity b"
  by (auto simp: rb_inv_def Add_def Let_def)

lemma Len_contents: "rb_inv b \<Longrightarrow> Len_recent b = length (rb_contents b)"
  by (simp add: rb_inv_def rb_contents_def Len_recent_def)

lemma length_contents: "rb_inv b \<Longrightarrow> length (rb_contents b) \<le> rb_capacity b"
  by (simp add: rb_inv_def rb_contents_def)

lemma take_Suc_update: "i < length xs \<Longrightarrow> take (Suc i) (xs[i := x]) = take i xs @ [x]"
  by (simp add: take_Suc_conv_app_nth)

lemma Add_contents:
  assumes "rb_inv b"
  shows "rb_contents (Add e b) = lastn (rb_capacity b) (rb_contents b @ [e])"
proof -
  let ?n = "rb_capacity b" and ?h = "rb_head b" and ?xs = "rb_entries b"
  have b: "0 < ?n" "length ?xs = ?n" "?h < ?n" using assms by (simp_all add: rb_inv_def)
  have split: "?xs[?h := e] = take ?h ?xs @ e # drop (Suc ?h) ?xs" using b by (simp add: upd_conv_take_nth_drop)
  show ?thesis
  proof (cases "Suc ?h = ?n")
    case True
    then have "rb_contents (Add e b) = take ?h ?xs @ [e]"
      using b split by (simp add: rb_contents_def Add_def Let_def)
    moreover have "lastn ?n (rb_contents b @ [e]) = take ?h ?xs @ [e]"
      using True b by (auto simp: rb_contents_def lastn_def)
    ultimately show ?thesis by simp
  next
    case False
    with b have h: "Suc ?h mod ?n = Suc ?h" by simp
    show ?thesis
    proof (cases "rb_full b")
      case True
      then have "rb_contents (Add e b) = drop (Suc ?h) ?xs @ take ?h ?xs @ [e]"
        using h b split by (simp add: rb_contents_def Add_def Let_def)
      moreover have "lastn ?n (rb_contents b @ [e]) = drop (Suc ?h) ?xs @ take ?h ?xs @ [e]"
        using True b by (simp add: rb_contents_def lastn_def)
      ultimately show ?thesis by simp
    next
      case notfull: False
      then have "rb_contents (Add e b) = take ?h ?xs @ [e]"
        using h b split by (simp add: rb_contents_def Add_def Let_def)
      moreover have "lastn ?n (rb_contents b @ [e]) = take ?h ?xs @ [e]"
        using notfull b by (simp add: rb_contents_def)
      ultimately show ?thesis by simp
    qed
  qed
qed

lemma fold_Add:
  "rb_inv b \<Longrightarrow> rb_inv (fold Add es b) \<and> rb_capacity (fold Add es b) = rb_capacity b \<and>
     rb_contents (fold Add es b) = lastn (rb_capacity b) (rb_contents b @ es)"
proof (induction es arbitrary: b)
  case Nil
  then show ?case by (simp add: length_contents)
next
  case (Cons e es)
  from Cons.IH [OF Add_inv(1) [OF Cons.prems], of e] show ?case
    by (simp add: Add_inv Add_contents Cons.prems lastn_append_lastn)
qed

lemma Snapshot_contents:
  assumes "rb_inv b"
  shows "Snapshot lim b = (if lim \<le> 0 then rb_contents b else lastn (nat lim) (rb_contents b))"
proof -
  have len: "length (rb_contents b) = (if rb_full b then rb_capacity b else rb_head b)"
    using Len_contents [OF assms] by (simp add: Len_recent_def)
  have "Snapshot lim b =
      (let total = length (rb_contents b)
       in if total = 0 then []
          else let lim = (if lim \<le> 0 \<or> int total < lim then int total else lim)
            in if lim < int total then drop (total - nat lim) (rb_contents b) else rb_contents b)"
    unfolding Snapshot_def len [symmetric] by (simp add: rb_contents_def Let_def)
  then show ?thesis by (auto simp: Let_def lastn_def)
qed

text \<open>The ring buffer provides the interface.\<close>

interpretation rb: recent_log rb_inv rb_contents rb_capacity AddBatch Snapshot
  using fold_Add by unfold_locales (auto simp: AddBatch_def Snapshot_contents length_contents)

section \<open>Properties\<close>

text \<open>
  A snapshot of the ring buffer is the chronological list of the most recent entries: after
  any sequence of batches it consists of the last \<open>limit\<close> entries (all, for a limit that is not
  positive) of what the capacity retains.
\<close>

lemma Snapshot_recent:
  "Snapshot lim (fold AddBatch bs (NewRecentBuffer n)) =
     lastn (let c = nat (if n \<le> 0 then 1000 else n) in if lim \<le> 0 then c else min (nat lim) c) (concat bs)"
  using rb.batches_snapshot [OF rb_inv_New(1,2), of lim bs n] rb_inv_New(3) [of n] by (simp add: Let_def)

end
