(* ===== verification/Block.thy ===== *)
theory Block
  imports LogEntry
begin

text \<open>
  Compressed blocks, \<open>internal/store/block.go\<close>: the severity bitmask, the block header, encoding
  and decoding of a block, and the pruning test on the header. The zstd codec and
  \<open>encoding/json\<close> are a record of functions; \<open>bc_decode\<close> takes one JSON value off the front
  of a stream, skipping white space before it, and gives \<open>None\<close> at the end of the input and on
  malformed input. \<open>uuid.NewString()\<close> and \<open>time.Now().UTC()\<close> are arguments. The order of \<open>Hosts\<close>
  and \<open>Sources\<close>, which in the code is the iteration order of a map, is here that of first
  occurrence.
\<close>

unbundle bit_operations_syntax

section \<open>Severity bits\<close>

type_synonym level_mask = "16 word"

definition LevelTrace :: level_mask where "LevelTrace = push_bit 0 1"
definition LevelDebug :: level_mask where "LevelDebug = push_bit 1 1"
definition LevelInfo :: level_mask where "LevelInfo = push_bit 2 1"
definition LevelWarn :: level_mask where "LevelWarn = push_bit 3 1"
definition LevelError :: level_mask where "LevelError = push_bit 4 1"
definition LevelFatal :: level_mask where "LevelFatal = push_bit 5 1"

definition LevelToBit :: "string \<Rightarrow> level_mask" where
  "LevelToBit level =
     (let l = ToUpper (TrimSpace level)
      in if l = ''TRACE'' then LevelTrace
         else if l = ''DEBUG'' then LevelDebug
         else if l = ''INFO'' then LevelInfo
         else if l \<in> {''WARN'', ''WARNING''} then LevelWarn
         else if l \<in> {''ERROR'', ''ERR''} then LevelError
         else if l \<in> {''FATAL'', ''PANIC'', ''CRIT'', ''CRITICAL''} then LevelFatal
         else LevelInfo)"

section \<open>Blocks\<close>

record block_header =
  bh_ID :: string
  bh_FileName :: string
  bh_MinTimestampNano :: int
  bh_MaxTimestampNano :: int
  bh_RecordCount :: int
  bh_UncompressedBytes :: int
  bh_CompressedBytes :: int
  bh_LevelMask :: level_mask
  bh_Hosts :: "string list"
  bh_Sources :: "string list"

record block_codec =
  bc_marshal :: "log_entry \<Rightarrow> string option"
  bc_decode :: "string \<Rightarrow> (log_entry \<times> string) option"
  bc_zenc :: "string \<Rightarrow> string option"
  bc_zdec :: "string \<Rightarrow> string option"

datatype block_error = ErrZstdEncoder | ErrDecompress

definition zero_header :: block_header where
  "zero_header = \<lparr>bh_ID = '''', bh_FileName = '''', bh_MinTimestampNano = 0, bh_MaxTimestampNano = 0,
     bh_RecordCount = 0, bh_UncompressedBytes = 0, bh_CompressedBytes = 0, bh_LevelMask = 0, bh_Hosts = [], bh_Sources = []\<rparr>"

definition add_key :: "string \<Rightarrow> string list \<Rightarrow> string list" where
  "add_key k ks = (if k = '''' \<or> k \<in> set ks then ks else ks @ [k])"

record block_acc =
  ba_min :: int
  ba_max :: int
  ba_mask :: level_mask
  ba_hosts :: "string list"
  ba_sources :: "string list"
  ba_raw :: string

definition encode_entry :: "block_codec \<Rightarrow> gotime \<Rightarrow> log_entry \<Rightarrow> block_acc \<Rightarrow> block_acc" where
  "encode_entry cd now e a =
     (let ts = (if IsZero (Timestamp e) then now else Timestamp e);
          nano = UnixNano ts
      in a\<lparr>ba_min := (if nano < ba_min a then nano else ba_min a),
           ba_max := (if ba_max a < nano then nano else ba_max a),
           ba_mask := ba_mask a OR LevelToBit (Level e),
           ba_hosts := add_key (Host e) (ba_hosts a),
           ba_sources := add_key (Source e) (ba_sources a),
           ba_raw := (case bc_marshal cd e of None \<Rightarrow> ba_raw a | Some data \<Rightarrow> ba_raw a @ data @ ''\<newline>'')\<rparr>)"

definition empty_acc :: block_acc where
  "empty_acc = \<lparr>ba_min = 2 ^ 63 - 1, ba_max = - 1, ba_mask = 0, ba_hosts = [], ba_sources = [], ba_raw = []\<rparr>"

definition EncodeBlock ::
  "block_codec \<Rightarrow> string \<Rightarrow> gotime \<Rightarrow> log_entry list \<Rightarrow> (block_error, block_header \<times> string) result" where
  "EncodeBlock cd uuid now entries =
     (if entries = [] then Inr (zero_header, [])
      else
        let a = fold (encode_entry cd now) entries empty_acc
        in case bc_zenc cd (ba_raw a) of
             None \<Rightarrow> Inl ErrZstdEncoder
           | Some compressed \<Rightarrow>
               Inr (\<lparr>bh_ID = uuid, bh_FileName = ''block_'' @ sprintf_0d 20 (ba_min a) @ ''_'' @ take 8 uuid @ ''.zst'',
                      bh_MinTimestampNano = ba_min a, bh_MaxTimestampNano = ba_max a,
                      bh_RecordCount = int (length entries), bh_UncompressedBytes = int (length (ba_raw a)),
                      bh_CompressedBytes = int (length compressed), bh_LevelMask = ba_mask a,
                      bh_Hosts = ba_hosts a, bh_Sources = ba_sources a\<rparr>, compressed))"

text \<open>The loop over the JSON stream; a decoded value always takes some input.\<close>

function decode_stream :: "block_codec \<Rightarrow> string \<Rightarrow> log_entry list" where
  "decode_stream cd s =
     (case bc_decode cd s of
        None \<Rightarrow> []
      | Some (e, rest) \<Rightarrow> if length rest < length s then e # decode_stream cd rest else [e])"
  by pat_completeness auto
termination
  by (relation "measure (\<lambda>(cd, s). length s)") auto

declare decode_stream.simps [simp del]

definition DecodeBlock :: "block_codec \<Rightarrow> string \<Rightarrow> (block_error, log_entry list) result" where
  "DecodeBlock cd compressed =
     (if compressed = [] then Inr []
      else
        case bc_zdec cd compressed of
          None \<Rightarrow> Inl ErrDecompress
        | Some decompressed \<Rightarrow> Inr (decode_stream cd decompressed))"

definition MatchesQuery :: "block_header \<Rightarrow> log_query \<Rightarrow> bool" where
  "MatchesQuery h q \<longleftrightarrow>
     (if \<not> IsZero (q_StartTime q) \<and> bh_MaxTimestampNano h < UnixNano (q_StartTime q) then False
      else if \<not> IsZero (q_EndTime q) \<and> UnixNano (q_EndTime q) < bh_MinTimestampNano h then False
      else if q_Level q \<noteq> '''' \<and> bh_LevelMask h AND LevelToBit (q_Level q) = 0 then False
      else if q_Host q \<noteq> '''' \<and> \<not> list_ex (\<lambda>x. EqualFold x (q_Host q)) (bh_Hosts h) then False
      else if q_Source q \<noteq> '''' \<and> \<not> list_ex (\<lambda>x. EqualFold x (q_Source q)) (bh_Sources h) then False
      else True)"

section \<open>What the header records\<close>

lemma LevelToBit_cong: "EqualFold l m \<Longrightarrow> LevelToBit l = LevelToBit m"
proof -
  assume "EqualFold l m"
  then have "ToUpper (TrimSpace l) = ToUpper (TrimSpace m)"
    by (simp add: EqualFold_ToUpper ToUpper_TrimSpace)
  then show ?thesis by (simp add: LevelToBit_def)
qed

lemma level_bits_nonzero:
  "LevelTrace \<noteq> 0" "LevelDebug \<noteq> 0" "LevelInfo \<noteq> 0" "LevelWarn \<noteq> 0" "LevelError \<noteq> 0" "LevelFatal \<noteq> 0"
  by (simp_all add: LevelTrace_def LevelDebug_def LevelInfo_def LevelWarn_def LevelError_def LevelFatal_def)

lemma LevelToBit_nonzero: "LevelToBit l \<noteq> 0"
  unfolding LevelToBit_def Let_def
  by (simp only: level_bits_nonzero if_distrib [of "\<lambda>x. x \<noteq> (0 :: level_mask)"] if_cancel not_False_eq_True)

lemma OR_AND_nonzero: "m AND b \<noteq> 0 \<Longrightarrow> (m OR k) AND b \<noteq> 0" for m b k :: "16 word"
proof -
  assume "m AND b \<noteq> 0"
  moreover have "(m OR k) AND b = (m AND b) OR (k AND b)" by (simp add: bit.conj_disj_distrib2)
  ultimately show ?thesis by (metis or_eq_0_iff)
qed

lemma set_add_key: "set (add_key k ks) = set ks \<union> (if k = '''' then {} else {k})"
  by (auto simp: add_key_def)

text \<open>The accumulator covers the entries it has seen.\<close>

definition covers :: "gotime \<Rightarrow> block_acc \<Rightarrow> log_entry \<Rightarrow> bool" where
  "covers now a e \<longleftrightarrow>
     (let nano = UnixNano (if IsZero (Timestamp e) then now else Timestamp e)
      in ba_min a \<le> nano \<and> nano \<le> ba_max a) \<and>
     ba_mask a AND LevelToBit (Level e) \<noteq> 0 \<and>
     (Host e \<noteq> '''' \<longrightarrow> Host e \<in> set (ba_hosts a)) \<and> (Source e \<noteq> '''' \<longrightarrow> Source e \<in> set (ba_sources a))"

lemma covers_step: "covers now (encode_entry cd now e a) e"
  "covers now a f \<Longrightarrow> covers now (encode_entry cd now e a) f"
proof -
  have "(ba_mask a OR LevelToBit (Level e)) AND LevelToBit (Level e) = LevelToBit (Level e)"
    by (simp add: bit.conj_disj_distrib2 or.commute)
  then show "covers now (encode_entry cd now e a) e"
    by (simp add: covers_def encode_entry_def Let_def set_add_key LevelToBit_nonzero)
  assume "covers now a f"
  then show "covers now (encode_entry cd now e a) f"
    by (auto simp: covers_def encode_entry_def Let_def set_add_key OR_AND_nonzero)
qed

lemma covers_fold:
  "e \<in> set es \<or> covers now a e \<Longrightarrow> covers now (fold (encode_entry cd now) es a) e"
  by (induction es arbitrary: a) (auto simp: covers_step)

lemma EncodeBlock_ok:
  assumes "EncodeBlock cd uuid now es = Inr (h, z)" and "es \<noteq> []"
  defines "a \<equiv> fold (encode_entry cd now) es empty_acc"
  shows "bc_zenc cd (ba_raw a) = Some z" and "bh_MinTimestampNano h = ba_min a" and "bh_MaxTimestampNano h = ba_max a"
    and "bh_LevelMask h = ba_mask a" and "bh_Hosts h = ba_hosts a" and "bh_Sources h = ba_sources a"
    and "bh_RecordCount h = int (length es)" and "bh_CompressedBytes h = int (length z)"
    and "bh_FileName h = ''block_'' @ sprintf_0d 20 (ba_min a) @ ''_'' @ take 8 uuid @ ''.zst''"
proof -
  have "bc_zenc cd (ba_raw a) = Some z \<and>
      h = \<lparr>bh_ID = uuid, bh_FileName = ''block_'' @ sprintf_0d 20 (ba_min a) @ ''_'' @ take 8 uuid @ ''.zst'',
           bh_MinTimestampNano = ba_min a, bh_MaxTimestampNano = ba_max a,
           bh_RecordCount = int (length es), bh_UncompressedBytes = int (length (ba_raw a)),
           bh_CompressedBytes = int (length z), bh_LevelMask = ba_mask a, bh_Hosts = ba_hosts a, bh_Sources = ba_sources a\<rparr>"
    using assms(1,2) unfolding EncodeBlock_def Let_def a_def [symmetric]
    by (cases "bc_zenc cd (ba_raw a)") simp_all
  then show "bc_zenc cd (ba_raw a) = Some z" "bh_MinTimestampNano h = ba_min a" "bh_MaxTimestampNano h = ba_max a"
    "bh_LevelMask h = ba_mask a" "bh_Hosts h = ba_hosts a" "bh_Sources h = ba_sources a"
    "bh_RecordCount h = int (length es)" "bh_CompressedBytes h = int (length z)"
    "bh_FileName h = ''block_'' @ sprintf_0d 20 (ba_min a) @ ''_'' @ take 8 uuid @ ''.zst''"
    by simp_all
qed

text \<open>Entries of which \<open>UnixNano\<close> is exact, as is that of the bounds of the query.\<close>

definition times_ok :: "log_query \<Rightarrow> log_entry \<Rightarrow> bool" where
  "times_ok q e \<longleftrightarrow> nano_range (Timestamp e) \<and>
     (IsZero (q_StartTime q) \<or> nano_range (q_StartTime q)) \<and> (IsZero (q_EndTime q) \<or> nano_range (q_EndTime q))"

text \<open>Level, host and source are covered whatever the times are.\<close>

lemma covered_attributes:
  assumes cov: "covers now a e" and m: "Matches e q"
  shows "q_Level q \<noteq> '''' \<Longrightarrow> ba_mask a AND LevelToBit (q_Level q) \<noteq> 0"
    and "q_Host q \<noteq> '''' \<Longrightarrow> list_ex (\<lambda>x. EqualFold x (q_Host q)) (ba_hosts a)"
    and "q_Source q \<noteq> '''' \<Longrightarrow> list_ex (\<lambda>x. EqualFold x (q_Source q)) (ba_sources a)"
proof -
  have nonempty: "x \<noteq> ''''" if "EqualFold x y" "y \<noteq> ''''" for x y
    using that by (auto simp: EqualFold_def ToLower_def)
  show "ba_mask a AND LevelToBit (q_Level q) \<noteq> 0" if "q_Level q \<noteq> ''''"
    using cov LevelToBit_cong [OF Matches_Level [OF m that]] by (simp add: covers_def)
  show "list_ex (\<lambda>x. EqualFold x (q_Host q)) (ba_hosts a)" if "q_Host q \<noteq> ''''"
    using cov Matches_Host [OF m that] nonempty that by (auto simp: covers_def list_ex_iff)
  show "list_ex (\<lambda>x. EqualFold x (q_Source q)) (ba_sources a)" if "q_Source q \<noteq> ''''"
    using cov Matches_Source [OF m that] nonempty that by (auto simp: covers_def list_ex_iff)
qed

lemma covered_matches:
  assumes cov: "covers now a e" and m: "Matches e q" and ok: "times_ok q e"
    and h: "bh_MinTimestampNano h = ba_min a" "bh_MaxTimestampNano h = ba_max a" "bh_LevelMask h = ba_mask a"
      "bh_Hosts h = ba_hosts a" "bh_Sources h = ba_sources a"
  shows "MatchesQuery h q"
proof -
  have nz: "\<not> IsZero (Timestamp e)" using ok nano_range_not_zero by (auto simp: times_ok_def)
  have t: "ba_min a \<le> instant (Timestamp e)" "instant (Timestamp e) \<le> ba_max a"
    using cov nz ok by (simp_all add: covers_def times_ok_def Let_def)
  have start: "instant (q_StartTime q) \<le> instant (Timestamp e)" if "\<not> IsZero (q_StartTime q)"
    by (rule Matches_Start [OF m that])
  have ends: "instant (Timestamp e) \<le> instant (q_EndTime q)" if "\<not> IsZero (q_EndTime q)"
    by (rule Matches_End [OF m that])
  have "\<not> (\<not> IsZero (q_StartTime q) \<and> ba_max a < UnixNano (q_StartTime q))"
    using t(2) start ok by (fastforce simp: times_ok_def)
  moreover have "\<not> (\<not> IsZero (q_EndTime q) \<and> UnixNano (q_EndTime q) < ba_min a)"
    using t(1) ends ok by (fastforce simp: times_ok_def)
  ultimately show ?thesis
    unfolding MatchesQuery_def h using covered_attributes [OF cov m] by presburger
qed

section \<open>Decoding\<close>

text \<open>
  What the store relies on of its codecs, for the entries at hand: every entry marshals to a JSON
  text that the stream decoder reads back as the same entry, leaving the rest of the stream;
  a stream at its end gives no value; zstd frames are not empty and decompress to what
  was compressed. (For \<open>encoding/json\<close> this holds of valid UTF-8 text and of timestamps of
  years 0 to 9999.)
\<close>

definition codec_faithful :: "block_codec \<Rightarrow> log_entry list \<Rightarrow> bool" where
  "codec_faithful cd es \<longleftrightarrow>
     (\<forall>e\<in>set es. \<exists>d. bc_marshal cd e = Some d \<and> d \<noteq> [] \<and>
        (\<forall>ws rest. ws \<in> {'''', ''\<newline>''} \<longrightarrow>
           bc_decode cd (ws @ d @ ''\<newline>'' @ rest) = Some (e, ''\<newline>'' @ rest))) \<and>
     bc_decode cd '''' = None \<and> bc_decode cd ''\<newline>'' = None \<and>
     (\<forall>s. \<exists>z. bc_zenc cd s = Some z \<and> z \<noteq> [] \<and> bc_zdec cd z = Some s)"

definition raw_of :: "block_codec \<Rightarrow> log_entry list \<Rightarrow> string" where
  "raw_of cd es = concat (map (\<lambda>e. case bc_marshal cd e of None \<Rightarrow> [] | Some d \<Rightarrow> d @ ''\<newline>'') es)"

lemma fold_encode_raw:
  "ba_raw (fold (encode_entry cd now) es a) = ba_raw a @ raw_of cd es"
  by (induction es arbitrary: a) (auto simp: raw_of_def encode_entry_def Let_def split: option.splits)

lemma decode_stream_raw:
  assumes "codec_faithful cd es" and "ws \<in> {'''', ''\<newline>''}"
  shows "decode_stream cd (ws @ raw_of cd es) = es"
  using assms
proof (induction es arbitrary: ws)
  case Nil
  then show ?case by (subst decode_stream.simps) (auto simp: raw_of_def codec_faithful_def)
next
  case (Cons e es)
  from Cons.prems(1) have "\<exists>d. bc_marshal cd e = Some d \<and> d \<noteq> [] \<and>
      (\<forall>ws rest. ws \<in> {'''', ''\<newline>''} \<longrightarrow> bc_decode cd (ws @ d @ ''\<newline>'' @ rest) = Some (e, ''\<newline>'' @ rest))"
    by (simp add: codec_faithful_def)
  then obtain d where d: "bc_marshal cd e = Some d" "d \<noteq> []"
    "\<And>ws rest. ws \<in> {'''', ''\<newline>''} \<Longrightarrow> bc_decode cd (ws @ d @ ''\<newline>'' @ rest) = Some (e, ''\<newline>'' @ rest)"
    by blast
  have raw: "raw_of cd (e # es) = d @ ''\<newline>'' @ raw_of cd es" using d(1) by (simp add: raw_of_def)
  have "codec_faithful cd es" using Cons.prems(1) by (simp add: codec_faithful_def)
  then have "decode_stream cd (''\<newline>'' @ raw_of cd es) = es" by (rule Cons.IH) simp
  then show ?case
    unfolding raw by (subst decode_stream.simps) (simp only: d(3) [OF Cons.prems(2)], simp add: d(2))
qed

lemma DecodeBlock_EncodeBlock:
  assumes "codec_faithful cd es" and "EncodeBlock cd uuid now es = Inr (h, z)" and "es \<noteq> []"
  shows "DecodeBlock cd z = Inr es"
proof -
  have "bc_zenc cd (raw_of cd es) = Some z"
    using EncodeBlock_ok(1) [OF assms(2,3)] by (simp add: fold_encode_raw empty_acc_def)
  moreover obtain z' where "bc_zenc cd (raw_of cd es) = Some z'" "z' \<noteq> []" "bc_zdec cd z' = Some (raw_of cd es)"
    using assms(1) unfolding codec_faithful_def by blast
  ultimately have "z \<noteq> []" "bc_zdec cd z = Some (raw_of cd es)" by auto
  then show ?thesis using decode_stream_raw [OF assms(1), of "''''"] by (simp add: DecodeBlock_def)
qed

section \<open>Examples\<close>

text \<open>A toy codec: an entry is one letter, a compressed block has a marker in front.\<close>

definition letter_entry :: "char \<Rightarrow> log_entry" where
  "letter_entry c = \<lparr>ID = [c], Timestamp = \<lparr>instant = 1700000000000000000 + of_char c, zone = 0\<rparr>, Host = ''web'',
     Source = ''app'', Level = ''INFO'', Message = ''up'', Fields = []\<rparr>"

definition letter_codec :: block_codec where
  "letter_codec =
     \<lparr>bc_marshal = (\<lambda>e. if ID e = '''' \<or> hd (ID e) = CHR ''\<newline>'' then None else Some [hd (ID e)]),
      bc_decode = (\<lambda>s. case dropWhile (\<lambda>c. c = CHR ''\<newline>'') s of [] \<Rightarrow> None | c # rest \<Rightarrow> Some (letter_entry c, rest)),
      bc_zenc = (\<lambda>s. Some (CHR ''Z'' # s)),
      bc_zdec = (\<lambda>z. case z of [] \<Rightarrow> None | c # s \<Rightarrow> Some s)\<rparr>"

lemma letter_codec_faithful:
  "list_all (\<lambda>c. c \<noteq> CHR ''\<newline>'') cs \<Longrightarrow> codec_faithful letter_codec (map letter_entry cs)"
  by (auto simp: codec_faithful_def letter_codec_def letter_entry_def list_all_iff)

section \<open>Properties\<close>

text \<open>
  C16. Block pruning is sound, within the range of int64 nanoseconds (the years 1678 to 2262). A block that is pruned for
  its level mask (with its folding of level names), its hosts or its sources contains no entry that matches the query,
  whatever the times are. A block that is pruned for any reason, its time bounds included, contains no matching
  entry whose time is in this range, if the time bounds of the query are in it or not given. (A bound beyond
  wraps around: see \<open>late_end_prunes\<close>.)
\<close>

theorem block_pruning_sound:
  assumes "EncodeBlock cd uuid now es = Inr (h, z)" and "e \<in> set es" and "\<not> MatchesQuery h q"
  shows "(\<not> MatchesQuery h (q\<lparr>q_StartTime := zero_time, q_EndTime := zero_time\<rparr>) \<longrightarrow> \<not> Matches e q) \<and>
    (nano_range (Timestamp e) \<and> (IsZero (q_StartTime q) \<or> nano_range (q_StartTime q)) \<and> (IsZero (q_EndTime q) \<or> nano_range (q_EndTime q)) \<longrightarrow>
      \<not> Matches e q)"
proof -
  have ne: "es \<noteq> []" using assms(2) by auto
  note h = EncodeBlock_ok(2-6) [OF assms(1) ne]
  have cov: "covers now (fold (encode_entry cd now) es empty_acc) e" using assms(2) by (simp add: covers_fold)
  have "MatchesQuery h (q\<lparr>q_StartTime := zero_time, q_EndTime := zero_time\<rparr>)" if "Matches e q"
    using covered_attributes [OF cov that] by (auto simp: MatchesQuery_def h)
  moreover have "\<not> Matches e q" if "times_ok q e"
    using covered_matches [OF cov _ that h] assms(3) by blast
  ultimately show ?thesis unfolding times_ok_def by blast
qed

definition ex_query :: log_query where
  "ex_query = \<lparr>q_Host = '''', q_Source = '''', q_Level = ''ERROR'', q_StartTime = zero_time, q_EndTime = zero_time,
     q_Search = '''', q_Limit = 0\<rparr>"

theorem block_pruning_sound_witness:
  "\<not> Matches (letter_entry CHR ''a'') ex_query"
proof -
  obtain h z where b: "EncodeBlock letter_codec ''01234567-89'' zero_time (map letter_entry ''ab'') = Inr (h, z)"
    by (cases "EncodeBlock letter_codec ''01234567-89'' zero_time (map letter_entry ''ab'')")
      (auto simp: EncodeBlock_def letter_codec_def Let_def)
  have mask: "bh_LevelMask h = LevelInfo"
    using EncodeBlock_ok(4) [OF b] by (simp add: encode_entry_def empty_acc_def Let_def letter_entry_def) code_simp
  have "LevelInfo AND LevelToBit ''ERROR'' = 0" by code_simp
  then have "\<not> MatchesQuery h ex_query" using mask by (simp add: MatchesQuery_def ex_query_def)
  moreover have "nano_range (Timestamp (letter_entry CHR ''a''))" by code_simp
  ultimately show ?thesis using block_pruning_sound [OF b] by (simp add: ex_query_def)
qed

text \<open>
  A query that ends on the last day of the year 9999, beyond the range of int64 nanoseconds: its bound wraps around
  to a time before 1970, and a block with a matching entry of the year 2023 is pruned.
\<close>

definition ex_late_query :: log_query where
  "ex_late_query = ex_query\<lparr>q_Level := '''', q_EndTime := \<lparr>instant = 253402300799 * 10 ^ 9, zone = 0\<rparr>\<rparr>"

lemma late_end_prunes:
  "\<exists>h z. EncodeBlock letter_codec ''01234567-89'' zero_time [letter_entry CHR ''a''] = Inr (h, z) \<and> \<not> MatchesQuery h ex_late_query \<and>
     Matches (letter_entry CHR ''a'') ex_late_query"
proof -
  let ?e = "letter_entry CHR ''a''"
  obtain h z where b: "EncodeBlock letter_codec ''01234567-89'' zero_time [?e] = Inr (h, z)"
    by (cases "EncodeBlock letter_codec ''01234567-89'' zero_time [?e]") (auto simp: EncodeBlock_def letter_codec_def Let_def)
  have "bh_MinTimestampNano h = ba_min (encode_entry letter_codec zero_time ?e empty_acc)" using EncodeBlock_ok(2) [OF b] by simp
  moreover have "UnixNano (q_EndTime ex_late_query) < ba_min (encode_entry letter_codec zero_time ?e empty_acc)"
    "\<not> IsZero (q_EndTime ex_late_query)" "Matches ?e ex_late_query" by code_simp+
  ultimately show ?thesis using b by (auto simp: MatchesQuery_def)
qed

text \<open>
  Encoding and decoding a block is the identity: \<open>DecodeBlock\<close> gives back exactly the entries
  \<open>EncodeBlock\<close> was given, in order.
\<close>

lemma block_roundtrip:
  assumes "codec_faithful cd es" and "es \<noteq> []"
  shows "\<exists>h z. EncodeBlock cd uuid now es = Inr (h, z) \<and> bh_RecordCount h = int (length es) \<and>
    bh_CompressedBytes h = int (length z) \<and> DecodeBlock cd z = Inr es"
proof -
  have "\<exists>z. bc_zenc cd (ba_raw (fold (encode_entry cd now) es empty_acc)) = Some z"
    using assms(1) by (auto simp: codec_faithful_def)
  then obtain h z where b: "EncodeBlock cd uuid now es = Inr (h, z)"
    using assms(2) by (auto simp: EncodeBlock_def Let_def)
  then show ?thesis
    using EncodeBlock_ok(7,8) [OF b assms(2)] DecodeBlock_EncodeBlock [OF assms(1) b assms(2)] by blast
qed

lemma block_roundtrip_witness:
  "\<exists>h z. EncodeBlock letter_codec ''u'' zero_time (map letter_entry ''ab'') = Inr (h, z) \<and>
     bh_RecordCount h = int (length (map letter_entry ''ab'')) \<and> bh_CompressedBytes h = int (length z) \<and>
     DecodeBlock letter_codec z = Inr (map letter_entry ''ab'')"
  by (rule block_roundtrip [OF letter_codec_faithful]) simp_all

end
