(* ===== verification/Partition.thy ===== *)
theory Partition
  imports Block
begin

text \<open>
  Hourly partitions on disk and their index, \<open>internal/store/index.go\<close>, and the calendar that
  names them (\<open>Time.Format\<close> with the layouts 2006, 01, 02 and 15, in the proleptic Gregorian
  calendar). A partition is named by its path relative to the storage root.

  A partition directory holds block files, the append-only \<open>index.jsonl\<close>, the legacy
  \<open>index.json\<close> and legacy \<open>.log\<close> files. A line of an index is its size and what
  \<open>json.Unmarshal\<close> makes of it; \<open>json.Marshal\<close> of a header is the argument \<open>hjson\<close>. Faults
  of the system calls are given by \<open>flt\<close>. Temporary files are removed by the code on its
  error paths and are not part of the model; an interrupted write of an index line is not
  modelled either.
\<close>

section \<open>Calendar\<close>

definition hour_ns :: int where
  "hour_ns = 3600 * 1000000000"

definition civil_date :: "int \<Rightarrow> int \<times> int \<times> int" where
  "civil_date days =
     (let z = days + 719468; era = z div 146097; doe = z mod 146097;
          yoe = (doe - doe div 1460 + doe div 36524 - doe div 146096) div 365;
          doy = doe - (365 * yoe + yoe div 4 - yoe div 100);
          mp = (5 * doy + 2) div 153;
          d = doy - (153 * mp + 2) div 5 + 1;
          m = (if mp < 10 then mp + 3 else mp - 9);
          y = yoe + era * 400
      in (if m \<le> 2 then y + 1 else y, m, d))"

definition year_str :: "int \<Rightarrow> string" where
  "year_str y = (if y < 0 then CHR ''-'' # zpad 4 (nat (- y)) else zpad 4 (nat y))"

text \<open>The path of the partition of an hour, counted from the epoch.\<close>

definition hour_path :: "int \<Rightarrow> string" where
  "hour_path h =
     (case civil_date (h div 24) of (y, m, d) \<Rightarrow>
        year_str y @ ''/'' @ zpad 2 (nat m) @ ''/'' @ zpad 2 (nat d) @ ''/'' @ zpad 2 (nat (h mod 24)))"

text \<open>\<open>Format\<close> reads the clock of the time's own location.\<close>

definition local_hour :: "gotime \<Rightarrow> int" where
  "local_hour t = (instant t + zone t * 1000000000) div hour_ns"

definition partition_dir :: "gotime \<Rightarrow> string" where
  "partition_dir t = hour_path (local_hour t)"

section \<open>Files\<close>

record block_file =
  bf_data :: string
  bf_mod :: gotime

record log_file =
  lf_size :: int
  lf_lines :: "log_entry option list"
  lf_mod :: gotime

text \<open>
  A line of the index with its length (the newline included), the header it decodes to and
  whether its newline is missing, as after a short write.
\<close>

record index_line =
  il_size :: int
  il_header :: "block_header option"
  il_open :: bool

record legacy_index =
  li_size :: int
  li_headers :: "block_header list option"

record partition =
  p_blocks :: "(string, block_file) gomap"
  p_index :: "index_line list option"
  p_legacy :: "legacy_index option"
  p_logs :: "(string, log_file) gomap"

type_synonym disk = "(string, partition) gomap"

definition empty_partition :: partition where
  "empty_partition = \<lparr>p_blocks = [], p_index = None, p_legacy = None, p_logs = []\<rparr>"

datatype store_call = SMkdir string | SWriteBlock string string | SAppendIndex string string
  | SIndexWrite string string | SIndexByte string string nat | SIndexClose string string
  | SOpenIndex string | SReadLegacy string | SReadBlock string string | SReadLog string string
  | SReadDir string | SRemove string string | SStat string string | SRewriteIndex string | SWalk
  | SCtxEntry nat | SCtxDir string | SCtxBlock string string | SCtxFile string string

type_synonym store_faults = "store_call \<Rightarrow> bool"

datatype store_error = ErrStoreClosed | ErrStorageDirEmpty | ErrCreateStorageDir | ErrInitialScan | ErrCanceled
  | ErrCreatePartition | ErrWriteBlock | ErrAppendIndex | ErrReadIndex | ErrEncodeBlock | ErrCollectDirs
  | ErrReadCompact | ErrDecodeCompact | ErrEncodeCompact | ErrWriteCompact | ErrRewriteIndex

section \<open>The index\<close>

text \<open>The scanner stops at the first line that does not fit its buffer of 1 MiB.\<close>

definition short_line :: "index_line \<Rightarrow> bool" where
  "short_line l \<longleftrightarrow> il_size l \<le> 1024 * 1024"

definition scan_index :: "index_line list \<Rightarrow> block_header list" where
  "scan_index ls = List.map_filter il_header (takeWhile short_line ls)"

definition add_header :: "block_header \<Rightarrow> block_header list \<Rightarrow> block_header list" where
  "add_header h hs = (if bh_FileName h \<in> set (map bh_FileName hs) then hs else hs @ [h])"

definition LoadPartitionIndex :: "store_faults \<Rightarrow> string \<Rightarrow> partition \<Rightarrow> (store_error, block_header list) result" where
  "LoadPartitionIndex flt dir p =
     (let legacy = (case p_legacy p of
                      None \<Rightarrow> []
                    | Some li \<Rightarrow> if flt (SReadLegacy dir) then []
                        else (case li_headers li of None \<Rightarrow> [] | Some hs \<Rightarrow> fold add_header hs []))
      in case p_index p of
           None \<Rightarrow> Inr (sort_key bh_MinTimestampNano legacy)
         | Some ls \<Rightarrow>
             if flt (SOpenIndex dir) then Inl ErrReadIndex
             else Inr (sort_key bh_MinTimestampNano (fold add_header (scan_index ls) legacy)))"

text \<open>
  \<open>O_APPEND\<close>: what is written continues a line that lacks its newline. A proper beginning of a JSON
  object, or a whole one, followed by another object is not JSON.
\<close>

definition put_line :: "index_line list \<Rightarrow> index_line \<Rightarrow> index_line list" where
  "put_line ls l =
     (if ls \<noteq> [] \<and> il_open (last ls)
      then butlast ls @ [\<lparr>il_size = il_size (last ls) + il_size l, il_header = None, il_open = il_open l\<rparr>]
      else ls @ [l])"

text \<open>The first \<open>n\<close> bytes of a line; only its newline may be missing.\<close>

definition torn_line :: "index_line \<Rightarrow> nat \<Rightarrow> index_line" where
  "torn_line l n = \<lparr>il_size = int n, il_header = (if int n + 1 = il_size l then il_header l else None), il_open = True\<rparr>"

text \<open>
  \<open>SAppendIndex\<close> is a failing open of the index, \<open>SIndexWrite\<close> a failing \<open>Write\<close>, of which the bytes
  \<open>SIndexByte\<close> reach the file, and \<open>SIndexClose\<close> a failing \<open>Close\<close> after the line has been written.
\<close>

definition short_write :: "store_faults \<Rightarrow> string \<Rightarrow> string \<Rightarrow> index_line \<Rightarrow> nat" where
  "short_write flt dir name l = length (takeWhile (\<lambda>i. flt (SIndexByte dir name i)) [0..<nat (il_size l) - 1])"

definition AppendBlockToPartition ::
  "(block_header \<Rightarrow> index_line) \<Rightarrow> store_faults \<Rightarrow> gotime \<Rightarrow> string \<Rightarrow> block_header \<Rightarrow> string \<Rightarrow> disk
     \<Rightarrow> store_error option \<times> disk" where
  "AppendBlockToPartition hjson flt mt dir header payload d =
     (if flt (SMkdir dir) then (Some ErrCreatePartition, d)
      else
        let p = (case map_of d dir of None \<Rightarrow> empty_partition | Some p \<Rightarrow> p);
            name = bh_FileName header
        in if flt (SWriteBlock dir name) then (Some ErrWriteBlock, AList.update dir p d)
           else
             let p1 = p\<lparr>p_blocks := AList.update name \<lparr>bf_data = payload, bf_mod = mt\<rparr> (p_blocks p)\<rparr>
             in if flt (SAppendIndex dir name) then (Some ErrAppendIndex, AList.update dir p1 d)
                else
                  let old = (case p_index p of None \<Rightarrow> [] | Some ls \<Rightarrow> ls); line = hjson header
                  in if flt (SIndexWrite dir name) then
                       let n = short_write flt dir name line
                       in (Some ErrAppendIndex,
                           AList.update dir (p1\<lparr>p_index := Some (if n = 0 then old else put_line old (torn_line line n))\<rparr>) d)
                     else
                       let d' = AList.update dir (p1\<lparr>p_index := Some (put_line old line)\<rparr>) d
                       in (if flt (SIndexClose dir name) then Some ErrAppendIndex else None, d'))"

text \<open>The new index replaces the old one by a rename, and the legacy index is removed.\<close>

definition RewritePartitionIndex ::
  "(block_header \<Rightarrow> index_line) \<Rightarrow> store_faults \<Rightarrow> string \<Rightarrow> block_header list \<Rightarrow> partition \<Rightarrow> (store_error, partition) result" where
  "RewritePartitionIndex hjson flt dir headers p =
     (if flt (SRewriteIndex dir) then Inl ErrRewriteIndex
      else Inr (p\<lparr>p_index := Some (map hjson headers),
                  p_legacy := (if flt (SRemove dir ''index.json'') then p_legacy p else None)\<rparr>))"

section \<open>Facts\<close>

text \<open>
  What the store relies on of the encoding of headers: a line, with its newline, reads back as its
  header, and fits the buffer of the scanner.
\<close>

definition index_faithful :: "(block_header \<Rightarrow> index_line) \<Rightarrow> bool" where
  "index_faithful hjson \<longleftrightarrow> (\<forall>h. il_header (hjson h) = Some h \<and> \<not> il_open (hjson h) \<and> 0 \<le> il_size (hjson h) \<and> short_line (hjson h))"

lemma scan_index_short: "list_all short_line ls \<Longrightarrow> scan_index ls = List.map_filter il_header ls"
  by (simp add: scan_index_def list_all_iff takeWhile_eq_all_conv [THEN iffD2])

lemma hour_of_utc: "local_hour (UTC t) = instant t div hour_ns"
  by (simp add: local_hour_def UTC_def)

lemma add_header_new: "bh_FileName h \<notin> bh_FileName ` set hs \<Longrightarrow> add_header h hs = hs @ [h]"
  by (simp add: add_header_def)

lemma fold_add_header_distinct:
  "distinct (map bh_FileName (xs @ hs)) \<Longrightarrow> fold add_header hs xs = xs @ hs"
  by (induction hs arbitrary: xs) (auto simp: add_header_new)

end
