(* ===== verification/FileStore.thy ===== *)
theory FileStore
  imports Partition
begin

text \<open>
  The filesystem store, \<open>internal/store/filesystem.go\<close>: its in-memory catalogue (partition cache,
  partition summaries, known hosts and sources, byte count) over the partitions on disk, and
  every operation. Context cancellation and I/O errors are given by \<open>flt\<close>; the UUID of a new
  block is \<open>uuid\<close> of the partition (and of the chunk, in a compaction). The in-memory maps are
  association lists in the order of one iteration.

  \<open>Query\<close> takes the read lock several times; it is modelled as run without interleaved writes.
\<close>

section \<open>State\<close>

record partition_summary =
  ps_MinTime :: gotime
  ps_MaxTime :: gotime
  ps_LevelMask :: level_mask
  ps_Hosts :: "string list"
  ps_Sources :: "string list"
  ps_BlockCount :: int
  ps_TotalBytes :: int

record file_store =
  fs_disk :: disk
  fs_closed :: bool
  fs_totalBytes :: int
  fs_knownHosts :: "string list"
  fs_knownSrcs :: "string list"
  fs_cache :: "(string, block_header list) gomap"
  fs_summaries :: "(string, partition_summary) gomap"

section \<open>Partition summaries\<close>

definition summary_matches :: "partition_summary \<Rightarrow> log_query \<Rightarrow> bool" where
  "summary_matches ps q \<longleftrightarrow>
     (if \<not> IsZero (q_StartTime q) \<and> \<not> IsZero (ps_MaxTime ps) \<and> Before (ps_MaxTime ps) (q_StartTime q) then False
      else if \<not> IsZero (q_EndTime q) \<and> \<not> IsZero (ps_MinTime ps) \<and> After (ps_MinTime ps) (q_EndTime q) then False
      else if q_Level q \<noteq> '''' \<and> LevelToBit (q_Level q) \<noteq> 0 \<and> ps_LevelMask ps AND LevelToBit (q_Level q) = 0 then False
      else if q_Host q \<noteq> '''' \<and> q_Host q \<notin> set (ps_Hosts ps) then False
      else if q_Source q \<noteq> '''' \<and> q_Source q \<notin> set (ps_Sources ps) then False
      else True)"

definition empty_summary :: partition_summary where
  "empty_summary = \<lparr>ps_MinTime = zero_time, ps_MaxTime = zero_time, ps_LevelMask = 0, ps_Hosts = [], ps_Sources = [],
     ps_BlockCount = 0, ps_TotalBytes = 0\<rparr>"

text \<open>The part of the two functions below that they share: all but the time bounds and the count.\<close>

definition merge_header :: "block_header \<Rightarrow> partition_summary \<Rightarrow> partition_summary" where
  "merge_header h ps =
     ps\<lparr>ps_LevelMask := ps_LevelMask ps OR bh_LevelMask h,
        ps_TotalBytes := ps_TotalBytes ps + bh_CompressedBytes h,
        ps_Hosts := fold add_key (bh_Hosts h) (ps_Hosts ps),
        ps_Sources := fold add_key (bh_Sources h) (ps_Sources ps)\<rparr>"

definition build_step :: "nat \<times> block_header \<Rightarrow> partition_summary \<Rightarrow> partition_summary" where
  "build_step ih ps =
     (case ih of (i, h) \<Rightarrow>
        let minT = unix_utc (bh_MinTimestampNano h); maxT = unix_utc (bh_MaxTimestampNano h)
        in merge_header h
             (ps\<lparr>ps_MinTime := (if i = 0 \<or> Before minT (ps_MinTime ps) then minT else ps_MinTime ps),
                 ps_MaxTime := (if i = 0 \<or> After maxT (ps_MaxTime ps) then maxT else ps_MaxTime ps)\<rparr>))"

definition buildPartitionSummaryLocked :: "block_header list \<Rightarrow> partition_summary option" where
  "buildPartitionSummaryLocked headers =
     (if headers = [] then None
      else Some (fold build_step (zip [0..<length headers] headers)
                   (empty_summary\<lparr>ps_BlockCount := int (length headers)\<rparr>)))"

definition update_summary :: "block_header \<Rightarrow> partition_summary option \<Rightarrow> partition_summary" where
  "update_summary h old =
     (let ps = (case old of None \<Rightarrow> empty_summary | Some ps \<Rightarrow> ps);
          minT = unix_utc (bh_MinTimestampNano h); maxT = unix_utc (bh_MaxTimestampNano h);
          ps = ps\<lparr>ps_MinTime := (if IsZero (ps_MinTime ps) \<or> Before minT (ps_MinTime ps) then minT else ps_MinTime ps),
                  ps_MaxTime := (if IsZero (ps_MaxTime ps) \<or> After maxT (ps_MaxTime ps) then maxT else ps_MaxTime ps),
                  ps_BlockCount := ps_BlockCount ps + 1\<rparr>
      in merge_header h ps)"

definition updatePartitionSummaryLocked :: "string \<Rightarrow> block_header \<Rightarrow> file_store \<Rightarrow> file_store" where
  "updatePartitionSummaryLocked dir h s =
     s\<lparr>fs_summaries := AList.update dir (update_summary h (map_of (fs_summaries s) dir)) (fs_summaries s)\<rparr>"

text \<open>A nil summary, which the code can store for an empty list of headers, reads as no summary.\<close>

definition set_summary :: "string \<Rightarrow> partition_summary option \<Rightarrow> file_store \<Rightarrow> file_store" where
  "set_summary dir ps s =
     s\<lparr>fs_summaries := (case ps of None \<Rightarrow> AList.delete dir (fs_summaries s) | Some p \<Rightarrow> AList.update dir p (fs_summaries s))\<rparr>"

section \<open>Opening\<close>

definition learn_header :: "block_header \<Rightarrow> file_store \<Rightarrow> file_store" where
  "learn_header h s =
     s\<lparr>fs_knownHosts := fold add_key (bh_Hosts h) (fs_knownHosts s),
       fs_knownSrcs := fold add_key (bh_Sources h) (fs_knownSrcs s)\<rparr>"

definition partition_bytes :: "partition \<Rightarrow> int" where
  "partition_bytes p =
     sum_list (map (\<lambda>nb. int (length (bf_data (snd nb)))) (p_blocks p)) +
     (case p_index p of None \<Rightarrow> 0 | Some ls \<Rightarrow> sum_list (map il_size ls)) +
     (case p_legacy p of None \<Rightarrow> 0 | Some li \<Rightarrow> li_size li) +
     sum_list (map (\<lambda>nl. lf_size (snd nl)) (p_logs p))"

definition scan_partition :: "store_faults \<Rightarrow> string \<times> partition \<Rightarrow> file_store \<Rightarrow> file_store" where
  "scan_partition flt dp s =
     (case dp of (dir, p) \<Rightarrow>
        let s = s\<lparr>fs_totalBytes := fs_totalBytes s + partition_bytes p\<rparr>
        in if p_index p = None \<and> p_legacy p = None then s
           else
             case LoadPartitionIndex flt dir p of
               Inl e \<Rightarrow> s
             | Inr headers \<Rightarrow>
                 fold learn_header headers
                   (set_summary dir (buildPartitionSummaryLocked headers)
                     (s\<lparr>fs_cache := AList.update dir headers (fs_cache s)\<rparr>)))"

definition NewFileStore :: "store_faults \<Rightarrow> string \<Rightarrow> disk \<Rightarrow> (store_error, file_store) result" where
  "NewFileStore flt directory d =
     (if TrimSpace directory = '''' then Inl ErrStorageDirEmpty
      else if flt (SMkdir directory) then Inl ErrCreateStorageDir
      else if flt SWalk then Inl ErrInitialScan
      else
        Inr (fold (scan_partition flt) d
          \<lparr>fs_disk = d, fs_closed = False, fs_totalBytes = 0, fs_knownHosts = [], fs_knownSrcs = [],
           fs_cache = [], fs_summaries = []\<rparr>))"

section \<open>Append\<close>

type_synonym groups = "(string, log_entry list) gomap"

fun group_entries ::
  "store_faults \<Rightarrow> gotime \<Rightarrow> nat \<Rightarrow> log_entry list \<Rightarrow> groups \<times> file_store \<Rightarrow> store_error option \<times> groups \<times> file_store" where
  "group_entries flt now i [] gs = (None, gs)"
| "group_entries flt now i (e # es) (g, s) =
     (if flt (SCtxEntry i) then (Some ErrCanceled, g, s)
      else
        let ts = (if IsZero (Timestamp e) then now else Timestamp e);
            dir = partition_dir ts;
            old = (case map_of g dir of None \<Rightarrow> [] | Some xs \<Rightarrow> xs)
        in group_entries flt now (Suc i) es
             (AList.update dir (old @ [e]) g,
              s\<lparr>fs_knownHosts := add_key (Host e) (fs_knownHosts s),
                fs_knownSrcs := add_key (Source e) (fs_knownSrcs s)\<rparr>))"

definition append_group ::
  "block_codec \<Rightarrow> (block_header \<Rightarrow> index_line) \<Rightarrow> store_faults \<Rightarrow> (string \<Rightarrow> string) \<Rightarrow> gotime \<Rightarrow> string \<Rightarrow> log_entry list \<Rightarrow> file_store
     \<Rightarrow> store_error option \<times> file_store" where
  "append_group cd hjson flt uuid now dir es s =
     (case EncodeBlock cd (uuid dir) now es of
        Inl e \<Rightarrow> (Some ErrEncodeBlock, s)
      | Inr (header, payload) \<Rightarrow>
          (case AppendBlockToPartition hjson flt now dir header payload (fs_disk s) of
             (Some e, d) \<Rightarrow> (Some e, s\<lparr>fs_disk := d\<rparr>)
           | (None, d) \<Rightarrow>
               let old = (case map_of (fs_cache s) dir of None \<Rightarrow> [] | Some hs \<Rightarrow> hs);
                   s = s\<lparr>fs_disk := d, fs_cache := AList.update dir (old @ [header]) (fs_cache s)\<rparr>;
                   s = updatePartitionSummaryLocked dir header s
               in (None, s\<lparr>fs_totalBytes := fs_totalBytes s + bh_CompressedBytes header\<rparr>)))"

fun append_groups ::
  "block_codec \<Rightarrow> (block_header \<Rightarrow> index_line) \<Rightarrow> store_faults \<Rightarrow> (string \<Rightarrow> string) \<Rightarrow> gotime \<Rightarrow> groups \<Rightarrow> file_store
     \<Rightarrow> store_error option \<times> file_store" where
  "append_groups cd hjson flt uuid now [] s = (None, s)"
| "append_groups cd hjson flt uuid now ((dir, es) # gs) s =
     (if flt (SCtxDir dir) then (Some ErrCanceled, s)
      else
        case append_group cd hjson flt uuid now dir es s of
          (Some e, s') \<Rightarrow> (Some e, s')
        | (None, s') \<Rightarrow> append_groups cd hjson flt uuid now gs s')"

definition Append ::
  "block_codec \<Rightarrow> (block_header \<Rightarrow> index_line) \<Rightarrow> store_faults \<Rightarrow> (string \<Rightarrow> string) \<Rightarrow> gotime \<Rightarrow> log_entry list \<Rightarrow> file_store
     \<Rightarrow> store_error option \<times> file_store" where
  "Append cd hjson flt uuid now entries s =
     (if entries = [] then (None, s)
      else if fs_closed s then (Some ErrStoreClosed, s)
      else
        case group_entries flt now 0 entries ([], s) of
          (Some e, g, s') \<Rightarrow> (Some e, s')
        | (None, g, s') \<Rightarrow> append_groups cd hjson flt uuid now g s')"

section \<open>Query\<close>

definition getPartitionHeaders :: "store_faults \<Rightarrow> string \<Rightarrow> file_store \<Rightarrow> block_header list \<times> file_store" where
  "getPartitionHeaders flt dir s =
     (case map_of (fs_cache s) dir of
        Some hs \<Rightarrow> (hs, s)
      | None \<Rightarrow>
          (case map_of (fs_disk s) dir of
             None \<Rightarrow> ([], s)
           | Some p \<Rightarrow>
               (case LoadPartitionIndex flt dir p of
                  Inl e \<Rightarrow> ([], s)
                | Inr [] \<Rightarrow> ([], s)
                | Inr hs \<Rightarrow>
                    (hs, set_summary dir (buildPartitionSummaryLocked hs)
                           (s\<lparr>fs_cache := AList.update dir hs (fs_cache s)\<rparr>)))))"

text \<open>Matching entries of one block, the latest first, up to the limit.\<close>

definition take_matching :: "log_query \<Rightarrow> log_entry list \<Rightarrow> log_entry list \<Rightarrow> log_entry list" where
  "take_matching q es matched =
     foldl (\<lambda>m e. if q_Limit q \<le> int (length m) then m else if Matches e q then m @ [e] else m) matched (rev es)"

fun query_blocks ::
  "block_codec \<Rightarrow> store_faults \<Rightarrow> log_query \<Rightarrow> string \<Rightarrow> partition \<Rightarrow> block_header list \<Rightarrow> log_entry list
     \<Rightarrow> (store_error, log_entry list) result" where
  "query_blocks cd flt q dir p [] matched = Inr matched"
| "query_blocks cd flt q dir p (h # hs) matched =
     (if flt (SCtxBlock dir (bh_FileName h)) then Inl ErrCanceled
      else if q_Limit q \<le> int (length matched) then Inr matched
      else if \<not> MatchesQuery h q then query_blocks cd flt q dir p hs matched
      else
        case (if flt (SReadBlock dir (bh_FileName h)) then None else map_of (p_blocks p) (bh_FileName h)) of
          None \<Rightarrow> query_blocks cd flt q dir p hs matched
        | Some bf \<Rightarrow>
            (case DecodeBlock cd (bf_data bf) of
               Inl e \<Rightarrow> query_blocks cd flt q dir p hs matched
             | Inr es \<Rightarrow> query_blocks cd flt q dir p hs (take_matching q es matched)))"

text \<open>Legacy files, in the order of \<open>os.ReadDir\<close>; the caller ignores the error of this function.\<close>

fun query_logs :: "store_faults \<Rightarrow> log_query \<Rightarrow> string \<Rightarrow> (string, log_file) gomap \<Rightarrow> log_entry list \<Rightarrow> log_entry list" where
  "query_logs flt q dir [] matched = matched"
| "query_logs flt q dir ((n, lf) # lfs) matched =
     (if \<not> HasSuffix n ''.log'' then query_logs flt q dir lfs matched
      else if q_Limit q \<le> int (length matched) then matched
      else if flt (SReadLog dir n) then query_logs flt q dir lfs matched
      else if flt (SCtxFile dir n) then matched
      else
        let es = filter (\<lambda>e. Matches e q) (List.map_filter id (lf_lines lf))
        in query_logs flt q dir lfs
             (foldl (\<lambda>m e. if q_Limit q \<le> int (length m) then m else m @ [e]) matched (rev es)))"

definition queryLegacyFilesInDir ::
  "store_faults \<Rightarrow> log_query \<Rightarrow> string \<Rightarrow> partition \<Rightarrow> log_entry list \<Rightarrow> log_entry list" where
  "queryLegacyFilesInDir flt q dir p matched =
     (if flt (SReadDir dir) then matched else query_logs flt q dir (sort_key fst (p_logs p)) matched)"

function hours_until :: "int \<Rightarrow> int \<Rightarrow> int list" where
  "hours_until h last_ns = (if h * hour_ns \<le> last_ns then h # hours_until (h + 1) last_ns else [])"
  by pat_completeness auto
termination
proof (relation "measure (\<lambda>(h, n). nat (n div hour_ns + 1 - h))")
  fix h n :: int
  assume "h * hour_ns \<le> n"
  then have "h \<le> n div hour_ns"
    using zdiv_mono1 [of "h * hour_ns" n hour_ns] by (simp add: hour_ns_def)
  then show "((h + 1, n), h, n) \<in> measure (\<lambda>(h, n). nat (n div hour_ns + 1 - h))" by simp
qed simp

declare hours_until.simps [simp del]

definition sort_desc :: "string list \<Rightarrow> string list" where
  "sort_desc xs = rev (sort xs)"

definition generateCandidateDirs :: "gotime \<Rightarrow> gotime \<Rightarrow> file_store \<Rightarrow> string list" where
  "generateCandidateDirs startTime endTime s =
     sort_desc (filter (\<lambda>dir. map_of (fs_disk s) dir \<noteq> None)
       (map hour_path (hours_until (instant startTime div hour_ns) (instant endTime))))"

definition walkAllDirs :: "store_faults \<Rightarrow> file_store \<Rightarrow> (store_error, string list) result" where
  "walkAllDirs flt s = (if flt SWalk then Inl ErrCollectDirs else Inr (sort_desc (map fst (fs_disk s))))"

text \<open>\<open>time.Parse\<close> of a partition path, as the hour it names; \<open>None\<close> when it does not parse.\<close>

definition days_of_civil :: "int \<Rightarrow> int \<Rightarrow> int \<Rightarrow> int" where
  "days_of_civil y m d =
     (let y = (if m \<le> 2 then y - 1 else y); era = y div 400; yoe = y mod 400;
          mp = (if 2 < m then m - 3 else m + 9);
          doy = (153 * mp + 2) div 5 + d - 1;
          doe = yoe * 365 + yoe div 4 - yoe div 100 + doy
      in era * 146097 + doe - 719468)"

definition parse_path :: "string \<Rightarrow> int option" where
  "parse_path p =
     (if length p \<noteq> 13 \<or> p ! 4 \<noteq> CHR ''/'' \<or> p ! 7 \<noteq> CHR ''/'' \<or> p ! 10 \<noteq> CHR ''/'' then None
      else
        case (read_dec (take 4 p), read_dec (take 2 (drop 5 p)), read_dec (take 2 (drop 8 p)), read_dec (drop 11 p)) of
          (Some y, Some m, Some d, Some hh) \<Rightarrow>
            if 1 \<le> m \<and> m \<le> 12 \<and> 1 \<le> d \<and> hh \<le> 23 \<and> civil_date (days_of_civil y m d) = (y, m, d)
            then Some (24 * days_of_civil y m d + hh) else None
        | _ \<Rightarrow> None)"

definition dir_candidate :: "log_query \<Rightarrow> string \<Rightarrow> bool" where
  "dir_candidate q dir \<longleftrightarrow>
     (case parse_path dir of
        None \<Rightarrow> True
      | Some h \<Rightarrow>
          \<not> (\<not> IsZero (q_StartTime q) \<and> (h + 1) * hour_ns < instant (q_StartTime q)) \<and>
          \<not> (\<not> IsZero (q_EndTime q) \<and> instant (q_EndTime q) < h * hour_ns))"

definition walkAndFilterDirs :: "store_faults \<Rightarrow> log_query \<Rightarrow> file_store \<Rightarrow> (store_error, string list) result" where
  "walkAndFilterDirs flt q s =
     (case walkAllDirs flt s of Inl e \<Rightarrow> Inl e | Inr dirs \<Rightarrow> Inr (filter (dir_candidate q) dirs))"

definition collectCandidateDirs :: "store_faults \<Rightarrow> log_query \<Rightarrow> file_store \<Rightarrow> (store_error, string list) result" where
  "collectCandidateDirs flt q s =
     (if \<not> IsZero (q_StartTime q) \<and> \<not> IsZero (q_EndTime q) then
        Inr (generateCandidateDirs (q_StartTime q) (q_EndTime q) s)
      else if \<not> IsZero (q_StartTime q) \<or> \<not> IsZero (q_EndTime q) then walkAndFilterDirs flt q s
      else walkAllDirs flt s)"

fun query_dirs ::
  "block_codec \<Rightarrow> store_faults \<Rightarrow> log_query \<Rightarrow> string list \<Rightarrow> log_entry list \<Rightarrow> file_store
     \<Rightarrow> (store_error, log_entry list) result \<times> file_store" where
  "query_dirs cd flt q [] matched s = (Inr matched, s)"
| "query_dirs cd flt q (dir # dirs) matched s =
     (if flt (SCtxDir dir) then (Inl ErrCanceled, s)
      else if q_Limit q \<le> int (length matched) then (Inr matched, s)
      else if (case map_of (fs_summaries s) dir of None \<Rightarrow> False | Some ps \<Rightarrow> \<not> summary_matches ps q) then
        query_dirs cd flt q dirs matched s
      else
        let (headers, s1) = getPartitionHeaders flt dir s;
            p = (case map_of (fs_disk s) dir of None \<Rightarrow> empty_partition | Some p \<Rightarrow> p)
        in case query_blocks cd flt q dir p (rev headers) matched of
             Inl e \<Rightarrow> (Inl e, s1)
           | Inr m \<Rightarrow> query_dirs cd flt q dirs (queryLegacyFilesInDir flt q dir p m) s1)"

definition Query ::
  "block_codec \<Rightarrow> store_faults \<Rightarrow> log_query \<Rightarrow> file_store \<Rightarrow> (store_error, log_entry list) result \<times> file_store" where
  "Query cd flt q0 s =
     (let q = Normalize q0
      in if fs_closed s then (Inl ErrStoreClosed, s)
         else
           case collectCandidateDirs flt q s of
             Inl e \<Rightarrow> (Inl e, s)
           | Inr dirs \<Rightarrow> query_dirs cd flt q dirs [] s)"

definition Sources :: "file_store \<Rightarrow> string list" where
  "Sources s = sort (fs_knownSrcs s)"

definition Hosts :: "file_store \<Rightarrow> string list" where
  "Hosts s = sort (fs_knownHosts s)"

definition DiskUsage :: "file_store \<Rightarrow> int" where
  "DiskUsage s = fs_totalBytes s"

definition Close_store :: "file_store \<Rightarrow> file_store" where
  "Close_store s = s\<lparr>fs_closed := True\<rparr>"

lemma partition_dir_example: "partition_dir (unix_utc 1700000000000000000) = ''2023/11/14/22''"
  by code_simp

lemma parse_path_example: "parse_path ''2023/11/14/22'' = Some (1700000000000000000 div hour_ns)"
  by code_simp

end
