(* ===== verification/Config.thy ===== *)
theory Config
  imports Prelude Complex_Main
begin

text \<open>
  The configuration, \<open>internal/config/config.go\<close>: settings with their defaults, validation that completes
  them in place, expansion of environment variables, and loading. A \<open>time.Duration\<close> is an \<open>int\<close> of
  nanoseconds and a \<open>float64\<close> a real number. \<open>yaml.Unmarshal\<close> is an argument, which overwrites the
  settings it finds and says whether it failed; the host name, the environment and the contents of
  the file are arguments too. \<open>Validate\<close> has a pointer receiver: it returns its error, if any, and the
  settings as it leaves them.
\<close>

section \<open>Data\<close>

datatype config_error =
  ErrMissingServerAddress | ErrMissingStorageDir | ErrNoTokens | ErrNoCertificate
| ErrMissingAgentID | ErrMissingServerURL | ErrNoSpoolDir | ErrInvalidSource nat
| ErrReadConfig | ErrParseYAML

definition Millisecond :: int where "Millisecond = 1000000"
definition Second :: int where "Second = 1000 * Millisecond"
definition Minute :: int where "Minute = 60 * Second"

record server_settings =
  ss_Address :: string
  ss_ReadHeaderTimeout :: int
  ss_ReadTimeout :: int
  ss_WriteTimeout :: int
  ss_IdleTimeout :: int
  ss_MaxBodyBytes :: int
  ss_WebDir :: string

record auth_settings =
  as_Enabled :: bool
  as_Tokens :: "string list"

record tls_settings =
  ts_Enabled :: bool
  ts_CertFile :: string
  ts_KeyFile :: string

record ingest_settings =
  is_MaxBatchEvents :: int
  is_MaxMessageBytes :: int
  is_DedupWindow :: int
  is_DedupCapacity :: int

record storage_settings =
  sg_Directory :: string
  sg_SyncOnWrite :: bool

record stream_settings =
  sm_RecentEvents :: int
  sm_MaxClients :: int
  sm_ClientBufferSize :: int
  sm_PingInterval :: int
  sm_WriteDeadline :: int

record retention_settings =
  rs_Enabled :: bool
  rs_MaxSizeGB :: int
  rs_MaxAgeHours :: int
  rs_CheckInterval :: int

record server_config =
  sc_Server :: server_settings
  sc_Auth :: auth_settings
  sc_TLS :: tls_settings
  sc_Ingest :: ingest_settings
  sc_Storage :: storage_settings
  sc_Stream :: stream_settings
  sc_Retention :: retention_settings

record agent_settings =
  ag_ID :: string
  ag_Host :: string
  ag_MetricsAddress :: string

record server_target =
  st_URL :: string
  st_Token :: string
  st_Timeout :: int
  st_InsecureSkipVerify :: bool
  st_Compression :: string
  st_Format :: string

record batch_settings =
  bs_MaxEvents :: int
  bs_FlushInterval :: int
  bs_MaxQueueEvents :: int

record retry_settings =
  rt_InitialBackoff :: int
  rt_MaxBackoff :: int
  rt_BackoffMultiplier :: real
  rt_MaxRetries :: int

record spool_settings =
  sl_Enabled :: bool
  sl_Directory :: string
  sl_MaxSizeMB :: int
  sl_MaxBatchEvents :: int

record source_config =
  sr_Name :: string
  sr_Path :: string
  sr_Format :: string
  sr_Pattern :: string
  sr_StartPosition :: string
  sr_Tags :: "(string, string) gomap"

record agent_config =
  ac_Agent :: agent_settings
  ac_Server :: server_target
  ac_Batch :: batch_settings
  ac_Retry :: retry_settings
  ac_Spool :: spool_settings
  ac_Sources :: "source_config list"

section \<open>Server settings\<close>

definition DefaultServerConfig :: server_config where
  "DefaultServerConfig =
     \<lparr>sc_Server = \<lparr>ss_Address = '':8080'', ss_ReadHeaderTimeout = 5 * Second, ss_ReadTimeout = 15 * Second, ss_WriteTimeout = 15 * Second,
                   ss_IdleTimeout = 60 * Second, ss_MaxBodyBytes = 10 * 1024 * 1024, ss_WebDir = []\<rparr>,
      sc_Auth = \<lparr>as_Enabled = False, as_Tokens = []\<rparr>,
      sc_TLS = \<lparr>ts_Enabled = False, ts_CertFile = [], ts_KeyFile = []\<rparr>,
      sc_Ingest = \<lparr>is_MaxBatchEvents = 500, is_MaxMessageBytes = 1024 * 1024, is_DedupWindow = 5 * Minute, is_DedupCapacity = 50000\<rparr>,
      sc_Storage = \<lparr>sg_Directory = ''./data/logs'', sg_SyncOnWrite = False\<rparr>,
      sc_Stream = \<lparr>sm_RecentEvents = 10000, sm_MaxClients = 100, sm_ClientBufferSize = 256, sm_PingInterval = 30 * Second, sm_WriteDeadline = 5 * Second\<rparr>,
      sc_Retention = \<lparr>rs_Enabled = True, rs_MaxSizeGB = 10, rs_MaxAgeHours = 168, rs_CheckInterval = 10 * Minute\<rparr>\<rparr>"

text \<open>\<open>if x <= 0 { x = d }\<close>\<close>

definition or_default :: "int \<Rightarrow> int \<Rightarrow> int" where
  "or_default d x = (if x \<le> 0 then d else x)"

definition complete_ingest :: "ingest_settings \<Rightarrow> ingest_settings" where
  "complete_ingest i =
     i\<lparr>is_MaxBatchEvents := or_default 500 (is_MaxBatchEvents i), is_MaxMessageBytes := or_default (1024 * 1024) (is_MaxMessageBytes i),
       is_DedupCapacity := or_default 50000 (is_DedupCapacity i)\<rparr>"

definition complete_stream :: "stream_settings \<Rightarrow> stream_settings" where
  "complete_stream s =
     s\<lparr>sm_RecentEvents := or_default 10000 (sm_RecentEvents s), sm_MaxClients := or_default 100 (sm_MaxClients s),
       sm_ClientBufferSize := or_default 256 (sm_ClientBufferSize s)\<rparr>"

definition Validate_server :: "server_config \<Rightarrow> config_error option \<times> server_config" where
  "Validate_server c =
     (if TrimSpace (ss_Address (sc_Server c)) = '''' then (Some ErrMissingServerAddress, c)
      else if TrimSpace (sg_Directory (sc_Storage c)) = '''' then (Some ErrMissingStorageDir, c)
      else
        let c = c\<lparr>sc_Ingest := complete_ingest (sc_Ingest c), sc_Stream := complete_stream (sc_Stream c)\<rparr>
        in if as_Enabled (sc_Auth c) \<and> length (as_Tokens (sc_Auth c)) = 0 then (Some ErrNoTokens, c)
           else if ts_Enabled (sc_TLS c) \<and> (ts_CertFile (sc_TLS c) = '''' \<or> ts_KeyFile (sc_TLS c) = '''') then (Some ErrNoCertificate, c)
           else (None, c))"

section \<open>Agent settings\<close>

text \<open>\<open>None\<close> is a failed \<open>os.Hostname\<close>.\<close>

definition DefaultAgentConfig :: "string option \<Rightarrow> agent_config" where
  "DefaultAgentConfig hostname =
     (let hostname = (case hostname of None \<Rightarrow> ''agent-node'' | Some h \<Rightarrow> if h = '''' then ''agent-node'' else h)
      in \<lparr>ac_Agent = \<lparr>ag_ID = hostname, ag_Host = hostname, ag_MetricsAddress = '':9090''\<rparr>,
          ac_Server = \<lparr>st_URL = ''http://localhost:8080'', st_Token = [], st_Timeout = 10 * Second, st_InsecureSkipVerify = False,
                       st_Compression = ''zstd'', st_Format = ''json''\<rparr>,
          ac_Batch = \<lparr>bs_MaxEvents = 500, bs_FlushInterval = Second, bs_MaxQueueEvents = 5000\<rparr>,
          ac_Retry = \<lparr>rt_InitialBackoff = Second, rt_MaxBackoff = 30 * Second, rt_BackoffMultiplier = 2, rt_MaxRetries = 0\<rparr>,
          ac_Spool = \<lparr>sl_Enabled = True, sl_Directory = ''./data/agent-spool'', sl_MaxSizeMB = 1024, sl_MaxBatchEvents = 500\<rparr>,
          ac_Sources = []\<rparr>)"

text \<open>One turn of the loop over the sources: the error, or the source with its two settings in normal form.\<close>

definition validate_source :: "nat \<Rightarrow> source_config \<Rightarrow> (config_error, source_config) result" where
  "validate_source i src =
     (if TrimSpace (sr_Name src) = '''' then Inl (ErrInvalidSource i)
      else if TrimSpace (sr_Path src) = '''' then Inl (ErrInvalidSource i)
      else
        let fmt = ToLower (TrimSpace (sr_Format src));
            fmt = (if fmt = '''' then ''auto'' else fmt)
        in if fmt \<noteq> ''auto'' \<and> fmt \<noteq> ''text'' \<and> fmt \<noteq> ''json'' \<and> fmt \<noteq> ''regexp'' then Inl (ErrInvalidSource i)
           else if fmt = ''regexp'' \<and> TrimSpace (sr_Pattern src) = '''' then Inl (ErrInvalidSource i)
           else
             let startPos = ToLower (TrimSpace (sr_StartPosition src));
                 startPos = (if startPos = '''' then ''end'' else startPos)
             in if startPos \<noteq> ''beginning'' \<and> startPos \<noteq> ''end'' then Inl (ErrInvalidSource i)
                else Inr (src\<lparr>sr_Format := fmt, sr_StartPosition := startPos\<rparr>))"

fun validate_sources :: "nat \<Rightarrow> source_config list \<Rightarrow> config_error option \<times> source_config list" where
  "validate_sources i [] = (None, [])"
| "validate_sources i (src # srcs) =
     (case validate_source i src of
        Inl e \<Rightarrow> (Some e, src # srcs)
      | Inr src' \<Rightarrow> (case validate_sources (Suc i) srcs of (e, srcs') \<Rightarrow> (e, src' # srcs')))"

definition complete_batch :: "batch_settings \<Rightarrow> batch_settings" where
  "complete_batch b =
     b\<lparr>bs_MaxEvents := or_default 500 (bs_MaxEvents b), bs_FlushInterval := or_default Second (bs_FlushInterval b),
       bs_MaxQueueEvents := or_default 5000 (bs_MaxQueueEvents b)\<rparr>"

definition complete_retry :: "retry_settings \<Rightarrow> retry_settings" where
  "complete_retry r =
     r\<lparr>rt_InitialBackoff := or_default Second (rt_InitialBackoff r), rt_MaxBackoff := or_default (30 * Second) (rt_MaxBackoff r),
       rt_BackoffMultiplier := (if rt_BackoffMultiplier r \<le> 1 then 2 else rt_BackoffMultiplier r)\<rparr>"

definition Validate_agent :: "agent_config \<Rightarrow> config_error option \<times> agent_config" where
  "Validate_agent c =
     (if TrimSpace (ag_ID (ac_Agent c)) = '''' then (Some ErrMissingAgentID, c)
      else
        let c = (if TrimSpace (ag_Host (ac_Agent c)) = '''' then c\<lparr>ac_Agent := (ac_Agent c)\<lparr>ag_Host := ag_ID (ac_Agent c)\<rparr>\<rparr> else c)
        in if TrimSpace (st_URL (ac_Server c)) = '''' then (Some ErrMissingServerURL, c)
           else
             let c = c\<lparr>ac_Batch := complete_batch (ac_Batch c), ac_Retry := complete_retry (ac_Retry c)\<rparr>
             in if sl_Enabled (ac_Spool c) \<and> TrimSpace (sl_Directory (ac_Spool c)) = '''' then (Some ErrNoSpoolDir, c)
                else
                  let c = (if sl_Enabled (ac_Spool c)
                           then c\<lparr>ac_Spool := (ac_Spool c)\<lparr>sl_MaxSizeMB := or_default 1024 (sl_MaxSizeMB (ac_Spool c))\<rparr>\<rparr> else c)
                  in case validate_sources 0 (ac_Sources c) of (e, srcs) \<Rightarrow> (e, c\<lparr>ac_Sources := srcs\<rparr>))"

section \<open>Environment variables\<close>

definition is_name_start :: "char \<Rightarrow> bool" where
  "is_name_start c \<longleftrightarrow> 97 \<le> code c \<and> code c \<le> 122 \<or> 65 \<le> code c \<and> code c \<le> 90 \<or> c = CHR ''_''"

definition is_name_char :: "char \<Rightarrow> bool" where
  "is_name_char c \<longleftrightarrow> is_name_start c \<or> 48 \<le> code c \<and> code c \<le> 57"

text \<open>
  A match of \<open>envVarPattern\<close> at the beginning of the text: the name, the default (the empty text when the
  group is absent) and what follows. A name ends where no name character follows, and the default at
  the first closing brace, so that a match is unique.
\<close>

definition match_var :: "string \<Rightarrow> (string \<times> string \<times> string) option" where
  "match_var s =
     (if \<not> HasPrefix s ''${'' then None
      else
        let t = drop 2 s; name = takeWhile is_name_char t; u = dropWhile is_name_char t
        in if name = [] \<or> \<not> is_name_start (hd name) then None
           else if HasPrefix u ''}'' then Some (name, [], drop 1 u)
           else if HasPrefix u '':-'' then
             (let d = takeWhile (\<lambda>c. c \<noteq> CHR ''}'') (drop 2 u); v = dropWhile (\<lambda>c. c \<noteq> CHR ''}'') (drop 2 u)
              in if v = [] then None else Some (name, d, drop 1 v))
           else None)"

lemma match_var_shorter: "match_var s = Some (name, d, rest) \<Longrightarrow> length rest < length s"
proof -
  assume m: "match_var s = Some (name, d, rest)"
  have dw: "length (dropWhile P xs) \<le> length xs" for P and xs :: string by (rule length_dropWhile_le)
  have pre: "2 \<le> length s" using m by (auto simp: match_var_def HasPrefix_iff split: if_splits)
  have "length rest \<le> length (drop 2 s)"
    using m dw [of is_name_char "drop 2 s"]
      dw [of "\<lambda>c. c \<noteq> CHR ''}''" "drop 2 (dropWhile is_name_char (drop 2 s))"]
    by (auto simp: match_var_def Let_def split: if_splits)
  with pre show "length rest < length s" by simp
qed

text \<open>\<open>os.LookupEnv\<close> is \<open>env\<close>; the value of an unset variable is empty.\<close>

definition var_value :: "(string \<Rightarrow> string option) \<Rightarrow> string \<Rightarrow> string \<Rightarrow> string" where
  "var_value env varName dflt =
     (case env varName of
        Some val \<Rightarrow> if val \<noteq> '''' then val else if dflt \<noteq> '''' then dflt else val
      | None \<Rightarrow> if dflt \<noteq> '''' then dflt else '''')"

function ExpandEnv :: "(string \<Rightarrow> string option) \<Rightarrow> string \<Rightarrow> string" where
  "ExpandEnv env [] = []"
| "ExpandEnv env (c # s) =
     (case match_var (c # s) of
        Some (name, dflt, rest) \<Rightarrow> var_value env name dflt @ ExpandEnv env rest
      | None \<Rightarrow> c # ExpandEnv env s)"
  by pat_completeness auto
termination
  by (relation "measure (length \<circ> snd)") (auto dest: match_var_shorter)

section \<open>Loading\<close>

text \<open>\<open>data\<close> is what \<open>os.ReadFile\<close> gives; the settings are returned with the error.\<close>

definition LoadServerConfig ::
  "(string \<Rightarrow> server_config \<Rightarrow> server_config \<times> bool) \<Rightarrow> (string \<Rightarrow> string option) \<Rightarrow> string \<Rightarrow> string option \<Rightarrow> config_error option \<times> server_config" where
  "LoadServerConfig yaml env filePath data =
     (let cfg = DefaultServerConfig
      in if filePath = '''' then Validate_server cfg
         else
           case data of
             None \<Rightarrow> (Some ErrReadConfig, cfg)
           | Some data \<Rightarrow>
               (case yaml (ExpandEnv env data) cfg of
                  (cfg, failed) \<Rightarrow> if failed then (Some ErrParseYAML, cfg) else Validate_server cfg))"

definition LoadAgentConfig ::
  "(string \<Rightarrow> agent_config \<Rightarrow> agent_config \<times> bool) \<Rightarrow> (string \<Rightarrow> string option) \<Rightarrow> string option \<Rightarrow> string \<Rightarrow> string option \<Rightarrow> config_error option \<times> agent_config" where
  "LoadAgentConfig yaml env hostname filePath data =
     (let cfg = DefaultAgentConfig hostname
      in if filePath = '''' then Validate_agent cfg
         else
           case data of
             None \<Rightarrow> (Some ErrReadConfig, cfg)
           | Some data \<Rightarrow>
               (case yaml (ExpandEnv env data) cfg of
                  (cfg, failed) \<Rightarrow> if failed then (Some ErrParseYAML, cfg) else Validate_agent cfg))"

section \<open>Facts\<close>

definition ingest_ok :: "ingest_settings \<Rightarrow> bool" where
  "ingest_ok i \<longleftrightarrow> 0 < is_MaxBatchEvents i \<and> 0 < is_MaxMessageBytes i \<and> 0 < is_DedupCapacity i"

definition stream_ok :: "stream_settings \<Rightarrow> bool" where
  "stream_ok s \<longleftrightarrow> 0 < sm_RecentEvents s \<and> 0 < sm_MaxClients s \<and> 0 < sm_ClientBufferSize s"

text \<open>What the rest of the server relies on.\<close>

definition server_ok :: "server_config \<Rightarrow> bool" where
  "server_ok c \<longleftrightarrow>
     TrimSpace (ss_Address (sc_Server c)) \<noteq> [] \<and> TrimSpace (sg_Directory (sc_Storage c)) \<noteq> [] \<and>
     ingest_ok (sc_Ingest c) \<and> stream_ok (sc_Stream c) \<and>
     (if as_Enabled (sc_Auth c) then as_Tokens (sc_Auth c) \<noteq> [] else True) \<and>
     (if ts_Enabled (sc_TLS c) then ts_CertFile (sc_TLS c) \<noteq> [] \<and> ts_KeyFile (sc_TLS c) \<noteq> [] else True)"

definition source_ok :: "source_config \<Rightarrow> bool" where
  "source_ok s \<longleftrightarrow>
     TrimSpace (sr_Name s) \<noteq> [] \<and> TrimSpace (sr_Path s) \<noteq> [] \<and>
     sr_Format s \<in> set [''auto'', ''text'', ''json'', ''regexp''] \<and> (if sr_Format s = ''regexp'' then TrimSpace (sr_Pattern s) \<noteq> [] else True) \<and>
     sr_StartPosition s \<in> set [''beginning'', ''end'']"

definition batch_ok :: "batch_settings \<Rightarrow> bool" where
  "batch_ok b \<longleftrightarrow> 0 < bs_MaxEvents b \<and> 0 < bs_FlushInterval b \<and> 0 < bs_MaxQueueEvents b"

definition retry_ok :: "retry_settings \<Rightarrow> bool" where
  "retry_ok r \<longleftrightarrow> 0 < rt_InitialBackoff r \<and> 0 < rt_MaxBackoff r \<and> 1 < rt_BackoffMultiplier r"

text \<open>What the rest of the agent relies on.\<close>

definition agent_ok :: "agent_config \<Rightarrow> bool" where
  "agent_ok c \<longleftrightarrow>
     TrimSpace (ag_ID (ac_Agent c)) \<noteq> [] \<and> TrimSpace (ag_Host (ac_Agent c)) \<noteq> [] \<and> TrimSpace (st_URL (ac_Server c)) \<noteq> [] \<and>
     batch_ok (ac_Batch c) \<and> retry_ok (ac_Retry c) \<and>
     (if sl_Enabled (ac_Spool c) then TrimSpace (sl_Directory (ac_Spool c)) \<noteq> [] \<and> 0 < sl_MaxSizeMB (ac_Spool c) else True) \<and>
     list_all source_ok (ac_Sources c)"

lemma or_default_pos: "0 < d \<Longrightarrow> 0 < or_default d x"
  by (simp add: or_default_def)

lemma or_default_id: "0 < x \<Longrightarrow> or_default d x = x"
  by (simp add: or_default_def)

lemma durations_pos [simp]: "0 < Second" "0 < Minute"
  by (simp_all add: Second_def Minute_def Millisecond_def)

lemma complete_ok:
  "ingest_ok (complete_ingest i)" "stream_ok (complete_stream s)" "batch_ok (complete_batch b)" "retry_ok (complete_retry r)"
  by (simp_all add: ingest_ok_def complete_ingest_def stream_ok_def complete_stream_def batch_ok_def complete_batch_def
      retry_ok_def complete_retry_def or_default_pos)

lemma complete_id:
  "ingest_ok i \<Longrightarrow> complete_ingest i = i" "stream_ok s \<Longrightarrow> complete_stream s = s"
  "batch_ok b \<Longrightarrow> complete_batch b = b" "retry_ok r \<Longrightarrow> complete_retry r = r"
  by (simp_all add: ingest_ok_def complete_ingest_def stream_ok_def complete_stream_def batch_ok_def complete_batch_def
      retry_ok_def complete_retry_def or_default_id)

lemma Validate_server_ok: "Validate_server c = (None, c') \<Longrightarrow> server_ok c'"
  by (auto simp: Validate_server_def server_ok_def Let_def complete_ok split: if_splits)

lemma server_ok_Validate: "server_ok c \<Longrightarrow> Validate_server c = (None, c)"
  by (auto simp: Validate_server_def server_ok_def Let_def complete_id)

lemma formats_normal:
  "ToLower (TrimSpace ''auto'') = ''auto''" "ToLower (TrimSpace ''text'') = ''text''" "ToLower (TrimSpace ''json'') = ''json''"
  "ToLower (TrimSpace ''regexp'') = ''regexp''" "ToLower (TrimSpace ''beginning'') = ''beginning''" "ToLower (TrimSpace ''end'') = ''end''"
  by code_simp+

lemma validate_source_ok: "validate_source i src = Inr src' \<Longrightarrow> source_ok src'"
  by (auto simp: validate_source_def source_ok_def Let_def split: if_splits)

lemma source_ok_validate: "source_ok src \<Longrightarrow> validate_source i src = Inr src"
  by (auto simp: validate_source_def source_ok_def Let_def formats_normal)

lemma validate_sources_ok: "validate_sources i srcs = (None, srcs') \<Longrightarrow> list_all source_ok srcs'"
  by (induction i srcs arbitrary: srcs' rule: validate_sources.induct)
     (auto split: sum.splits prod.splits dest: validate_source_ok)

lemma sources_ok_validate: "list_all source_ok srcs \<Longrightarrow> validate_sources i srcs = (None, srcs)"
  by (induction srcs arbitrary: i) (simp_all add: source_ok_validate)

lemma Validate_agent_ok: "Validate_agent c = (None, c') \<Longrightarrow> agent_ok c'"
  by (auto simp: Validate_agent_def agent_ok_def Let_def complete_ok or_default_pos split: if_splits prod.splits
      dest: validate_sources_ok)

lemma agent_ok_Validate: "agent_ok c \<Longrightarrow> Validate_agent c = (None, c)"
  by (auto simp: Validate_agent_def agent_ok_def Let_def complete_id or_default_id sources_ok_validate)

lemma expand_plain: "CHR ''$'' \<notin> set pre \<Longrightarrow> ExpandEnv env (pre @ s) = pre @ ExpandEnv env s"
proof (induction pre)
  case (Cons c pre)
  then have "match_var (c # pre @ s) = None" by (auto simp: match_var_def HasPrefix_iff)
  with Cons show ?case by simp
qed simp

definition is_name :: "string \<Rightarrow> bool" where
  "is_name n \<longleftrightarrow> n \<noteq> [] \<and> is_name_start (hd n) \<and> list_all is_name_char n"

lemma match_plain:
  assumes "is_name n"
  shows "match_var (''${'' @ n @ ''}'' @ post) = Some (n, [], post)"
proof -
  have br: "\<not> is_name_char CHR ''}''" by code_simp
  have "takeWhile is_name_char (n @ ''}'' @ post) = n" "dropWhile is_name_char (n @ ''}'' @ post) = ''}'' @ post"
    using assms br by (auto simp: is_name_def list_all_iff takeWhile_append2 dropWhile_append2)
  with assms show ?thesis by (simp add: match_var_def is_name_def HasPrefix_def)
qed

lemma match_default:
  assumes "is_name n" and "CHR ''}'' \<notin> set d"
  shows "match_var (''${'' @ n @ '':-'' @ d @ ''}'' @ post) = Some (n, d, post)"
proof -
  have br: "\<not> is_name_char CHR '':''" by code_simp
  have 1: "takeWhile is_name_char (n @ '':-'' @ d @ ''}'' @ post) = n" "dropWhile is_name_char (n @ '':-'' @ d @ ''}'' @ post) = '':-'' @ d @ ''}'' @ post"
    using assms br by (auto simp: is_name_def list_all_iff takeWhile_append2 dropWhile_append2)
  have 2: "takeWhile (\<lambda>c. c \<noteq> CHR ''}'') (d @ ''}'' @ post) = d" "dropWhile (\<lambda>c. c \<noteq> CHR ''}'') (d @ ''}'' @ post) = ''}'' @ post"
    using assms(2) by (subst takeWhile_append2 dropWhile_append2; auto)+
  from 1 2 assms show ?thesis by (simp add: match_var_def is_name_def HasPrefix_def)
qed

lemma expand_match: "match_var (''$'' @ s) = Some (n, d, rest) \<Longrightarrow> ExpandEnv env (''$'' @ s) = var_value env n d @ ExpandEnv env rest"
  by simp

section \<open>Properties\<close>

text \<open>
  A server configuration that loads without error, from whatever file, environment and YAML, has an
  address, a directory, positive limits, tokens when authentication is on and both files when TLS is
  on; validating it again changes nothing, and the defaults are such a configuration.
\<close>

lemma server_config_valid:
  assumes "LoadServerConfig yaml env filePath data = (None, cfg)"
  shows "server_ok cfg \<and> Validate_server cfg = (None, cfg) \<and> server_ok DefaultServerConfig"
proof -
  have "server_ok cfg" using assms by (auto simp: LoadServerConfig_def Let_def split: if_splits option.splits prod.splits intro: Validate_server_ok)
  moreover have "server_ok DefaultServerConfig" by code_simp
  ultimately show ?thesis by (simp add: server_ok_Validate)
qed

lemma server_config_valid_witness:
  "server_ok (snd (LoadServerConfig (\<lambda>_ c. (c\<lparr>sc_Auth := \<lparr>as_Enabled = True, as_Tokens = [''t'']\<rparr>\<rparr>, False)) (\<lambda>_. None) ''f'' (Some ''x'')))"
proof -
  let ?l = "LoadServerConfig (\<lambda>_ c. (c\<lparr>sc_Auth := \<lparr>as_Enabled = True, as_Tokens = [''t'']\<rparr>\<rparr>, False)) (\<lambda>_. None) ''f'' (Some ''x'')"
  have "fst ?l = None" by code_simp
  then have "?l = (None, snd ?l)" by (metis prod.collapse)
  from server_config_valid [OF this] show ?thesis by blast
qed

text \<open>
  C39. An agent configuration that loads without error has an identity, a target, positive batch and retry
  settings, a bounded spool when it is enabled, and sources with a name, a path, one of the four
  formats (a pattern when it is a regular expression) and a start position; validating it again
  changes nothing.
\<close>

theorem agent_config_valid:
  assumes "LoadAgentConfig yaml env hostname filePath data = (None, cfg)"
  shows "agent_ok cfg \<and> Validate_agent cfg = (None, cfg)"
proof -
  have "agent_ok cfg" using assms by (auto simp: LoadAgentConfig_def Let_def split: if_splits option.splits prod.splits intro: Validate_agent_ok)
  then show ?thesis by (simp add: agent_ok_Validate)
qed

definition ex_source :: source_config where
  "ex_source = \<lparr>sr_Name = ''app'', sr_Path = ''/l'', sr_Format = '' JSON'', sr_Pattern = [], sr_StartPosition = [], sr_Tags = []\<rparr>"

theorem agent_config_valid_witness:
  "agent_ok (snd (LoadAgentConfig (\<lambda>_ c. (c\<lparr>ac_Sources := [ex_source]\<rparr>, False)) (\<lambda>_. None) None ''f'' (Some ''x'')))"
proof -
  let ?l = "LoadAgentConfig (\<lambda>_ c. (c\<lparr>ac_Sources := [ex_source]\<rparr>, False)) (\<lambda>_. None) None ''f'' (Some ''x'')"
  have "fst ?l = None" by code_simp
  then have "?l = (None, snd ?l)" by (metis prod.collapse)
  from agent_config_valid [OF this] show ?thesis by blast
qed

text \<open>
  Environment variables are expanded once, from left to right: text without a dollar sign is kept, a
  reference \<open>${NAME}\<close> or \<open>${NAME:-default}\<close> is replaced by the value of the variable, by the default when it is
  unset or empty, and what was put in is not expanded again.
\<close>

lemma ExpandEnv_reference:
  assumes "CHR ''$'' \<notin> set pre" and "is_name n" and "CHR ''}'' \<notin> set d"
  shows "ExpandEnv env (pre @ ''${'' @ n @ ''}'' @ post) = pre @ var_value env n [] @ ExpandEnv env post \<and>
    ExpandEnv env (pre @ ''${'' @ n @ '':-'' @ d @ ''}'' @ post) = pre @ var_value env n d @ ExpandEnv env post"
  using expand_match [of "''{'' @ n @ ''}'' @ post" n "[]" post env] match_plain [OF assms(2), of post]
    expand_match [of "''{'' @ n @ '':-'' @ d @ ''}'' @ post" n d post env] match_default [OF assms(2,3), of post]
  by (simp add: expand_plain [OF assms(1)] del: ExpandEnv.simps)

lemma ExpandEnv_reference_witness:
  "ExpandEnv (\<lambda>n. if n = ''A'' then Some ''$B'' else None) ''x: ${A}!'' = ''x: $B!''"
proof -
  have "CHR ''$'' \<notin> set ''x: ''" "is_name ''A''" "CHR ''}'' \<notin> set ''''" by code_simp+
  from ExpandEnv_reference [OF this, of "\<lambda>n. if n = ''A'' then Some ''$B'' else None" "''!''"]
  show ?thesis by (simp add: var_value_def match_var_def HasPrefix_def)
qed

end
