(* ===== verification/Maintenance.thy ===== *)
theory Maintenance
  imports FileStore Config
begin

text \<open>
  Retention and compaction of the filesystem store: \<open>Prune\<close>, \<open>cleanEmptyPartitionsLocked\<close>,
  \<open>CompactPartition\<close> and \<open>Compact\<close> of \<open>internal/store/filesystem.go\<close>, and one tick of the worker of
  \<open>internal/store/retention.go\<close>. Parent directories of partitions are not modelled.
\<close>

section \<open>Prune\<close>

record data_file =
  df_dir :: string
  df_name :: string
  df_size :: int
  df_mod :: gotime

definition is_data_name :: "string \<Rightarrow> bool" where
  "is_data_name n \<longleftrightarrow> HasSuffix n ''.zst'' \<or> HasSuffix n ''.log''"

definition data_files_of :: "string \<times> partition \<Rightarrow> data_file list" where
  "data_files_of dp =
     (case dp of (dir, p) \<Rightarrow>
        filter (\<lambda>f. is_data_name (df_name f))
          (map (\<lambda>(n, bf). \<lparr>df_dir = dir, df_name = n, df_size = int (length (bf_data bf)), df_mod = bf_mod bf\<rparr>) (p_blocks p) @
           map (\<lambda>(n, lf). \<lparr>df_dir = dir, df_name = n, df_size = lf_size lf, df_mod = lf_mod lf\<rparr>) (p_logs p)))"

definition df_path :: "data_file \<Rightarrow> string" where
  "df_path f = df_dir f @ ''/'' @ df_name f"

definition all_data_files :: "disk \<Rightarrow> data_file list" where
  "all_data_files d = sort_key df_path (concat (map data_files_of d))"

definition remove_data_file :: "data_file \<Rightarrow> disk \<Rightarrow> disk" where
  "remove_data_file f d =
     (case map_of d (df_dir f) of
        None \<Rightarrow> d
      | Some p \<Rightarrow>
          AList.update (df_dir f)
            (p\<lparr>p_blocks := AList.delete (df_name f) (p_blocks p), p_logs := AList.delete (df_name f) (p_logs p)\<rparr>) d)"

definition should_delete :: "gotime \<Rightarrow> int \<Rightarrow> int \<Rightarrow> int \<Rightarrow> file_store \<Rightarrow> data_file \<Rightarrow> bool" where
  "should_delete now maxAge maxSizeBytes freed s f \<longleftrightarrow>
     (0 < maxAge \<and> maxAge < time_Sub now (df_mod f)) \<or>
     (0 < maxSizeBytes \<and> maxSizeBytes < fs_totalBytes s - freed)"

fun prune_files ::
  "store_faults \<Rightarrow> gotime \<Rightarrow> int \<Rightarrow> int \<Rightarrow> data_file list \<Rightarrow> int \<Rightarrow> int \<Rightarrow> file_store
     \<Rightarrow> store_error option \<times> int \<times> int \<times> file_store" where
  "prune_files flt now maxAge maxSize [] deleted freed s = (None, deleted, freed, s)"
| "prune_files flt now maxAge maxSize (f # fs) deleted freed s =
     (if flt (SCtxFile (df_dir f) (df_name f)) then (Some ErrCanceled, deleted, freed, s)
      else if flt (SStat (df_dir f) (df_name f)) then prune_files flt now maxAge maxSize fs deleted freed s
      else if should_delete now maxAge maxSize freed s f \<and> \<not> flt (SRemove (df_dir f) (df_name f)) then
        prune_files flt now maxAge maxSize fs (deleted + 1) (freed + df_size f)
          (s\<lparr>fs_disk := remove_data_file f (fs_disk s), fs_totalBytes := fs_totalBytes s - df_size f\<rparr>)
      else prune_files flt now maxAge maxSize fs deleted freed s)"

definition has_data :: "partition \<Rightarrow> bool" where
  "has_data p \<longleftrightarrow> list_ex is_data_name (map fst (p_blocks p) @ map fst (p_logs p))"

definition clean_partition :: "store_faults \<Rightarrow> string \<times> partition \<Rightarrow> file_store \<Rightarrow> file_store" where
  "clean_partition flt dp s =
     (case dp of (dir, p) \<Rightarrow>
        if flt (SReadDir dir) \<or> has_data p then s
        else
          let isize = (case p_index p of None \<Rightarrow> 0 | Some ls \<Rightarrow> sum_list (map il_size ls));
              lsize = (case p_legacy p of None \<Rightarrow> 0 | Some li \<Rightarrow> li_size li);
              p' = p\<lparr>p_index := (if flt (SRemove dir ''index.jsonl'') then p_index p else None),
                     p_legacy := (if flt (SRemove dir ''index.json'') then p_legacy p else None),
                     p_blocks := [], p_logs := []\<rparr>
          in s\<lparr>fs_summaries := AList.delete dir (fs_summaries s),
               fs_totalBytes := fs_totalBytes s - isize - lsize,
               fs_disk := (if p_index p' = None \<and> p_legacy p' = None then AList.delete dir (fs_disk s)
                           else AList.update dir p' (fs_disk s))\<rparr>)"

definition cleanEmptyPartitionsLocked :: "store_faults \<Rightarrow> file_store \<Rightarrow> file_store" where
  "cleanEmptyPartitionsLocked flt s = fold (clean_partition flt) (fs_disk s) s"

definition Prune ::
  "store_faults \<Rightarrow> gotime \<Rightarrow> int \<Rightarrow> int \<Rightarrow> file_store \<Rightarrow> store_error option \<times> int \<times> int \<times> file_store" where
  "Prune flt now maxAge maxSizeBytes s =
     (if fs_closed s then (Some ErrStoreClosed, 0, 0, s)
      else
        case prune_files flt now maxAge maxSizeBytes (all_data_files (fs_disk s)) 0 0 s of
          (Some e, deleted, freed, s1) \<Rightarrow> (Some e, deleted, freed, s1)
        | (None, deleted, freed, s1) \<Rightarrow>
            (None, deleted, freed,
             if 0 < deleted then cleanEmptyPartitionsLocked flt (s1\<lparr>fs_cache := []\<rparr>) else s1))"

section \<open>Compaction\<close>

fun read_blocks ::
  "block_codec \<Rightarrow> store_faults \<Rightarrow> string \<Rightarrow> partition \<Rightarrow> block_header list \<Rightarrow> (store_error, log_entry list) result" where
  "read_blocks cd flt dir p [] = Inr []"
| "read_blocks cd flt dir p (h # hs) =
     (case (if flt (SReadBlock dir (bh_FileName h)) then None else map_of (p_blocks p) (bh_FileName h)) of
        None \<Rightarrow> Inl ErrReadCompact
      | Some bf \<Rightarrow>
          (case DecodeBlock cd (bf_data bf) of
             Inl e \<Rightarrow> Inl ErrDecodeCompact
           | Inr es \<Rightarrow>
               (case read_blocks cd flt dir p hs of Inl e \<Rightarrow> Inl e | Inr rest \<Rightarrow> Inr (es @ rest))))"

function chunks :: "nat \<Rightarrow> 'a list \<Rightarrow> 'a list list" where
  "chunks n xs = (if xs = [] \<or> n = 0 then [] else take n xs # chunks n (drop n xs))"
  by pat_completeness auto
termination
  by (relation "measure (\<lambda>(n, xs). length xs)") auto

declare chunks.simps [simp del]

text \<open>New blocks are written one by one; on an error the ones already written are removed again.\<close>

fun write_chunks ::
  "block_codec \<Rightarrow> store_faults \<Rightarrow> (nat \<Rightarrow> string) \<Rightarrow> gotime \<Rightarrow> string \<Rightarrow> nat \<Rightarrow> log_entry list list \<Rightarrow> partition
     \<Rightarrow> (store_error, block_header list \<times> partition) result" where
  "write_chunks cd flt uuid now dir i [] p = Inr ([], p)"
| "write_chunks cd flt uuid now dir i (c # cs) p =
     (case EncodeBlock cd (uuid i) now c of
        Inl e \<Rightarrow> Inl ErrEncodeCompact
      | Inr (h, payload) \<Rightarrow>
          let h = h\<lparr>bh_FileName := ''compact_'' @ take 8 (bh_ID h) @ ''_'' @ sprintf_0d 4 (int i) @ ''.zst''\<rparr>
          in if flt (SWriteBlock dir (bh_FileName h)) then Inl ErrWriteCompact
             else
               case write_chunks cd flt uuid now dir (Suc i) cs
                      (p\<lparr>p_blocks := AList.update (bh_FileName h) \<lparr>bf_data = payload, bf_mod = now\<rparr> (p_blocks p)\<rparr>) of
                 Inl e \<Rightarrow> Inl e
               | Inr (hs, p') \<Rightarrow> Inr (h # hs, p'))"

definition remove_old_blocks :: "store_faults \<Rightarrow> string \<Rightarrow> block_header list \<Rightarrow> partition \<Rightarrow> partition" where
  "remove_old_blocks flt dir hs p =
     fold (\<lambda>h p. if flt (SRemove dir (bh_FileName h)) then p
                 else p\<lparr>p_blocks := AList.delete (bh_FileName h) (p_blocks p)\<rparr>) hs p"

definition CompactPartition ::
  "block_codec \<Rightarrow> (block_header \<Rightarrow> index_line) \<Rightarrow> store_faults \<Rightarrow> (nat \<Rightarrow> string) \<Rightarrow> gotime \<Rightarrow> string \<Rightarrow> int \<Rightarrow> file_store
     \<Rightarrow> (store_error, int \<times> int) result \<times> file_store" where
  "CompactPartition cd hjson flt uuid now dir maxBlockRecords s =
     (let maxr = (if maxBlockRecords \<le> 0 then 5000 else maxBlockRecords);
          p = (case map_of (fs_disk s) dir of None \<Rightarrow> empty_partition | Some p \<Rightarrow> p);
          cached = (case map_of (fs_cache s) dir of None \<Rightarrow> [] | Some hs \<Rightarrow> hs)
      in if fs_closed s then (Inl ErrStoreClosed, s)
         else
           let headers = (if length cached < 2
                          then (case LoadPartitionIndex flt dir p of Inl e \<Rightarrow> [] | Inr hs \<Rightarrow> hs)
                          else cached)
           in if length headers < 2 then (Inr (0, 0), s)
              else
                case read_blocks cd flt dir p headers of
                  Inl e \<Rightarrow> (Inl e, s)
                | Inr [] \<Rightarrow> (Inr (0, 0), s)
                | Inr es \<Rightarrow>
                    (case write_chunks cd flt uuid now dir 0 (chunks (nat maxr) es) p of
                       Inl e \<Rightarrow> (Inl e, s)
                     | Inr (newHeaders, p1) \<Rightarrow>
                         (case RewritePartitionIndex hjson flt dir newHeaders p1 of
                            Inl e \<Rightarrow> (Inl e, s)
                          | Inr p2 \<Rightarrow>
                              let freed = sum_list (map bh_CompressedBytes headers) - sum_list (map bh_CompressedBytes newHeaders)
                              in (Inr (int (length headers) - int (length newHeaders), freed),
                                  (set_summary dir (buildPartitionSummaryLocked newHeaders) s)
                                    \<lparr>fs_disk := AList.update dir (remove_old_blocks flt dir headers p2) (fs_disk s),
                                     fs_cache := AList.update dir newHeaders (fs_cache s),
                                     fs_totalBytes := fs_totalBytes s - freed\<rparr>))))"

fun compact_dirs ::
  "block_codec \<Rightarrow> (block_header \<Rightarrow> index_line) \<Rightarrow> store_faults \<Rightarrow> (string \<Rightarrow> nat \<Rightarrow> string) \<Rightarrow> gotime \<Rightarrow> string list \<Rightarrow> int \<Rightarrow> int \<Rightarrow> file_store
     \<Rightarrow> store_error option \<times> int \<times> int \<times> file_store" where
  "compact_dirs cd hjson flt uuid now [] r f s = (None, r, f, s)"
| "compact_dirs cd hjson flt uuid now (dir # dirs) r f s =
     (if flt (SCtxDir dir) then (Some ErrCanceled, r, f, s)
      else
        case CompactPartition cd hjson flt (uuid dir) now dir 5000 s of
          (Inl e, s1) \<Rightarrow> (Some e, r, f, s1)
        | (Inr (r1, f1), s1) \<Rightarrow> compact_dirs cd hjson flt uuid now dirs (r + r1) (f + f1) s1)"

definition Compact ::
  "block_codec \<Rightarrow> (block_header \<Rightarrow> index_line) \<Rightarrow> store_faults \<Rightarrow> (string \<Rightarrow> nat \<Rightarrow> string) \<Rightarrow> gotime \<Rightarrow> int \<Rightarrow> file_store
     \<Rightarrow> store_error option \<times> int \<times> int \<times> file_store" where
  "Compact cd hjson flt uuid now minBlocks s =
     (let minb = (if minBlocks < 2 then 2 else minBlocks)
      in if fs_closed s then (Some ErrStoreClosed, 0, 0, s)
         else compact_dirs cd hjson flt uuid now
                (map fst (filter (\<lambda>dh. minb \<le> int (length (snd dh))) (fs_cache s))) 0 0 s)"

section \<open>The retention worker\<close>

record retention_worker =
  rw_cfg :: retention_settings
  rw_stopped :: bool

definition NewRetentionWorker :: "retention_settings \<Rightarrow> retention_worker" where
  "NewRetentionWorker cfg = \<lparr>rw_cfg = cfg, rw_stopped = False\<rparr>"

definition retention_interval :: "retention_settings \<Rightarrow> int" where
  "retention_interval cfg = (if rs_CheckInterval cfg \<le> 0 then 10 * Minute else rs_CheckInterval cfg)"

text \<open>One tick of the retention worker: prune, then compact, whatever the outcome of the first.\<close>

definition retention_tick ::
  "block_codec \<Rightarrow> (block_header \<Rightarrow> index_line) \<Rightarrow> store_faults \<Rightarrow> (string \<Rightarrow> nat \<Rightarrow> string) \<Rightarrow> gotime \<Rightarrow> retention_settings \<Rightarrow> file_store
     \<Rightarrow> file_store" where
  "retention_tick cd hjson flt uuid now cfg s =
     (let maxAge = int64 (rs_MaxAgeHours cfg * hour_ns);
          maxSize = int64 (rs_MaxSizeGB cfg * 1024 * 1024 * 1024)
      in case Prune flt now maxAge maxSize s of
           (_, _, _, s1) \<Rightarrow> (case Compact cd hjson flt uuid now 3 s1 of (_, _, _, s2) \<Rightarrow> s2))"

text \<open>
  What the loop of the worker receives: a tick of its timer, with the time and the faults and UUIDs of the calls
  it makes, the cancellation of its context, or the closing of the stop channel.
\<close>

datatype retention_event = Tick gotime store_faults "string \<Rightarrow> nat \<Rightarrow> string" | CtxDone | StopClosed

fun retention_loop ::
  "block_codec \<Rightarrow> (block_header \<Rightarrow> index_line) \<Rightarrow> retention_settings \<Rightarrow> retention_event list \<Rightarrow> file_store \<Rightarrow> file_store" where
  "retention_loop cd hjson cfg [] s = s"
| "retention_loop cd hjson cfg (CtxDone # evs) s = s"
| "retention_loop cd hjson cfg (StopClosed # evs) s = s"
| "retention_loop cd hjson cfg (Tick now flt uuid # evs) s =
     retention_loop cd hjson cfg evs (retention_tick cd hjson flt uuid now cfg s)"

definition Start_retention ::
  "block_codec \<Rightarrow> (block_header \<Rightarrow> index_line) \<Rightarrow> retention_event list \<Rightarrow> retention_worker \<Rightarrow> file_store \<Rightarrow> file_store" where
  "Start_retention cd hjson evs w s = (if \<not> rs_Enabled (rw_cfg w) then s else retention_loop cd hjson (rw_cfg w) evs s)"

definition Stop_retention :: "retention_worker \<Rightarrow> retention_worker" where
  "Stop_retention w = (if rw_stopped w then w else w\<lparr>rw_stopped := True\<rparr>)"

end
