(* ===== verification/StoreProps.thy ===== *)
theory StoreProps
  imports Maintenance
begin

text \<open>
  Correctness of the filesystem store: the in-memory catalogue stays consistent with the disk
  through \<open>Append\<close> under every fault, a query returns exactly the stored entries that match it, and
  what the incremental summaries record. The deviations found in \<open>Prune\<close> are at the end.
\<close>

section \<open>Summaries\<close>

definition header_typed :: "block_header \<Rightarrow> bool" where
  "header_typed h \<longleftrightarrow> - (2 ^ 63) \<le> bh_MinTimestampNano h \<and> bh_MinTimestampNano h < 2 ^ 63 \<and>
     - (2 ^ 63) \<le> bh_MaxTimestampNano h \<and> bh_MaxTimestampNano h < 2 ^ 63"

lemma unix_not_zero: "- (2 ^ 63) \<le> n \<Longrightarrow> \<not> IsZero (unix_utc n)"
  by (simp add: IsZero_def unix_utc_def zero_time_def)

definition set_count :: "int \<Rightarrow> partition_summary \<Rightarrow> partition_summary" where
  "set_count k ps = ps\<lparr>ps_BlockCount := k\<rparr>"

lemma update_summary_Some:
  "header_typed h \<Longrightarrow> \<not> IsZero (ps_MinTime (update_summary h o1)) \<and> \<not> IsZero (ps_MaxTime (update_summary h o1))"
  by (auto simp: update_summary_def merge_header_def Let_def header_typed_def unix_not_zero)

lemma build_update_step:
  assumes "\<not> IsZero (ps_MinTime ps)" and "\<not> IsZero (ps_MaxTime ps)"
  shows "build_step (Suc i, h) (set_count k ps) = set_count k (update_summary h (Some ps))"
  using assms by (simp add: build_step_def update_summary_def set_count_def merge_header_def Let_def)

lemma build_update_fold:
  assumes "\<not> IsZero (ps_MinTime ps)" and "\<not> IsZero (ps_MaxTime ps)" and "list_all header_typed hs"
  shows "fold build_step (zip [Suc i..<Suc i + length hs] hs) (set_count k ps) =
    set_count k (fold (\<lambda>h p. update_summary h (Some p)) hs ps)"
  using assms
proof (induction hs arbitrary: i ps)
  case Nil
  then show ?case by simp
next
  case (Cons h hs)
  have z: "zip [Suc i..<Suc i + length (h # hs)] (h # hs) = (Suc i, h) # zip [Suc (Suc i)..<Suc (Suc i) + length hs] hs"
    by (simp add: upt_rec)
  show ?case
    unfolding z using Cons.IH [of "update_summary h (Some ps)" "Suc i"] Cons.prems
    by (simp add: build_update_step update_summary_Some)
qed

lemma update_count: "ps_BlockCount (update_summary h o1) = (case o1 of None \<Rightarrow> 1 | Some ps \<Rightarrow> ps_BlockCount ps + 1)"
  by (simp add: update_summary_def merge_header_def empty_summary_def Let_def split: option.splits)

lemma fold_update_count:
  "ps_BlockCount (fold (\<lambda>h p. update_summary h (Some p)) hs ps) = ps_BlockCount ps + int (length hs)"
  by (induction hs arbitrary: ps) (simp_all add: update_count)

lemma build_first:
  "build_step (0, h) (set_count k empty_summary) = set_count k (update_summary h None)"
  by (simp add: build_step_def update_summary_def set_count_def merge_header_def empty_summary_def Let_def)

lemma build_as_updates:
  assumes "list_all header_typed (h # hs)"
  shows "buildPartitionSummaryLocked (h # hs) = Some (fold (\<lambda>h p. update_summary h (Some p)) hs (update_summary h None))"
proof -
  let ?k = "int (length (h # hs))"
  have z: "zip [0..<length (h # hs)] (h # hs) = (0, h) # zip [Suc 0..<Suc 0 + length hs] hs"
    by (simp add: upt_rec)
  have start: "empty_summary\<lparr>ps_BlockCount := ?k\<rparr> = set_count ?k empty_summary" by (simp add: set_count_def)
  have nz: "\<not> IsZero (ps_MinTime (update_summary h None))" "\<not> IsZero (ps_MaxTime (update_summary h None))"
    using assms update_summary_Some [of h None] by auto
  let ?u = "fold (\<lambda>h p. update_summary h (Some p)) hs (update_summary h None)"
  have "buildPartitionSummaryLocked (h # hs) = Some (set_count ?k ?u)"
    unfolding buildPartitionSummaryLocked_def z start
    using build_update_fold [OF nz, of hs 0 ?k] assms by (simp add: build_first)
  moreover have "set_count ?k ?u = ?u" by (simp add: set_count_def fold_update_count update_count)
  ultimately show ?thesis by simp
qed

text \<open>A summary covers a header when it can only prune more cautiously than the header.\<close>

definition summary_covers :: "partition_summary \<Rightarrow> block_header \<Rightarrow> bool" where
  "summary_covers ps h \<longleftrightarrow> instant (ps_MinTime ps) \<le> bh_MinTimestampNano h \<and> bh_MaxTimestampNano h \<le> instant (ps_MaxTime ps) \<and>
     (\<forall>b. bh_LevelMask h AND b \<noteq> 0 \<longrightarrow> ps_LevelMask ps AND b \<noteq> 0) \<and>
     (\<forall>x\<in>set (bh_Hosts h). x \<noteq> '''' \<longrightarrow> x \<in> set (ps_Hosts ps)) \<and> (\<forall>x\<in>set (bh_Sources h). x \<noteq> '''' \<longrightarrow> x \<in> set (ps_Sources ps))"

lemma set_fold_add_key: "set (fold add_key ks acc) = set acc \<union> (set ks - {''''})"
  by (induction ks arbitrary: acc) (auto simp: set_add_key)

lemma OR_AND_cases: "(m OR k) AND b = 0 \<longleftrightarrow> m AND b = 0 \<and> k AND b = 0" for m k b :: "16 word"
  by (simp add: bit.conj_disj_distrib2 or_eq_0_iff)

lemma update_covers_new: "summary_covers (update_summary h o1) h"
  by (auto simp: summary_covers_def update_summary_def merge_header_def Let_def set_fold_add_key OR_AND_cases
      Before_def After_def unix_utc_def split: option.splits)

lemma update_covers_old:
  assumes "summary_covers ps g" and "\<not> IsZero (ps_MinTime ps)" and "\<not> IsZero (ps_MaxTime ps)"
  shows "summary_covers (update_summary h (Some ps)) g"
  using assms
  by (auto simp: summary_covers_def update_summary_def merge_header_def Let_def set_fold_add_key OR_AND_cases
      Before_def After_def unix_utc_def)

lemma summary_match:
  assumes "summary_covers ps h" and "MatchesQuery h q" and "times_ok q e"
    and host: "q_Host q \<noteq> '''' \<Longrightarrow> q_Host q \<in> set (bh_Hosts h)" and src: "q_Source q \<noteq> '''' \<Longrightarrow> q_Source q \<in> set (bh_Sources h)"
  shows "summary_matches ps q"
proof -
  have q: "IsZero (q_StartTime q) \<or> UnixNano (q_StartTime q) = instant (q_StartTime q)"
    "IsZero (q_EndTime q) \<or> UnixNano (q_EndTime q) = instant (q_EndTime q)" using assms(3) by (auto simp: times_ok_def)
  have m: "\<not> (\<not> IsZero (q_StartTime q) \<and> bh_MaxTimestampNano h < UnixNano (q_StartTime q))"
    "\<not> (\<not> IsZero (q_EndTime q) \<and> UnixNano (q_EndTime q) < bh_MinTimestampNano h)"
    "q_Level q \<noteq> '''' \<Longrightarrow> bh_LevelMask h AND LevelToBit (q_Level q) \<noteq> 0"
    using assms(2) by (auto simp: MatchesQuery_def split: if_splits)
  have c: "instant (ps_MinTime ps) \<le> bh_MinTimestampNano h" "bh_MaxTimestampNano h \<le> instant (ps_MaxTime ps)"
    "\<And>b. bh_LevelMask h AND b \<noteq> 0 \<Longrightarrow> ps_LevelMask ps AND b \<noteq> 0"
    "\<And>x. x \<in> set (bh_Hosts h) \<Longrightarrow> x \<noteq> '''' \<Longrightarrow> x \<in> set (ps_Hosts ps)"
    "\<And>x. x \<in> set (bh_Sources h) \<Longrightarrow> x \<noteq> '''' \<Longrightarrow> x \<in> set (ps_Sources ps)"
    using assms(1) by (auto simp: summary_covers_def)
  have "\<not> (\<not> IsZero (q_StartTime q) \<and> \<not> IsZero (ps_MaxTime ps) \<and> Before (ps_MaxTime ps) (q_StartTime q))"
    using q(1) m(1) c(2) by (auto simp: Before_def)
  moreover have "\<not> (\<not> IsZero (q_EndTime q) \<and> \<not> IsZero (ps_MinTime ps) \<and> After (ps_MinTime ps) (q_EndTime q))"
    using q(2) m(2) c(1) by (auto simp: After_def)
  ultimately show ?thesis
    unfolding summary_matches_def using c(3) [OF m(3)] c(4) [OF host] c(5) [OF src] by presburger
qed

section \<open>Invariant\<close>

definition header_covers :: "block_header \<Rightarrow> log_entry \<Rightarrow> bool" where
  "header_covers h e \<longleftrightarrow> bh_MinTimestampNano h \<le> UnixNano (Timestamp e) \<and> UnixNano (Timestamp e) \<le> bh_MaxTimestampNano h \<and>
     bh_LevelMask h AND LevelToBit (Level e) \<noteq> 0 \<and>
     (Host e \<noteq> '''' \<longrightarrow> Host e \<in> set (bh_Hosts h)) \<and> (Source e \<noteq> '''' \<longrightarrow> Source e \<in> set (bh_Sources h))"

definition cached :: "file_store \<Rightarrow> string \<Rightarrow> block_header list" where
  "cached s dir = (case map_of (fs_cache s) dir of None \<Rightarrow> [] | Some hs \<Rightarrow> hs)"

definition index_headers :: "partition \<Rightarrow> block_header list" where
  "index_headers p = (case p_index p of None \<Rightarrow> [] | Some ls \<Rightarrow> List.map_filter il_header ls)"

definition lines_short :: "partition \<Rightarrow> bool" where
  "lines_short p \<longleftrightarrow> (case p_index p of None \<Rightarrow> True | Some ls \<Rightarrow> list_all (\<lambda>l. short_line l \<and> \<not> il_open l) ls)"

definition block_entries :: "block_codec \<Rightarrow> partition \<Rightarrow> block_header \<Rightarrow> log_entry list" where
  "block_entries cd p h =
     (case map_of (p_blocks p) (bh_FileName h) of None \<Rightarrow> []
      | Some bf \<Rightarrow> (case DecodeBlock cd (bf_data bf) of Inl e \<Rightarrow> [] | Inr es \<Rightarrow> es))"

definition stamped :: "log_entry \<Rightarrow> bool" where
  "stamped e \<longleftrightarrow> \<not> IsZero (Timestamp e)"

definition block_ok :: "block_codec \<Rightarrow> string \<Rightarrow> partition \<Rightarrow> block_header \<Rightarrow> bool" where
  "block_ok cd dir p h \<longleftrightarrow> header_typed h \<and>
     (\<exists>bf es. map_of (p_blocks p) (bh_FileName h) = Some bf \<and> DecodeBlock cd (bf_data bf) = Inr es) \<and>
     (\<forall>e\<in>set (block_entries cd p h). header_covers h e \<and> stamped e \<and> partition_dir (Timestamp e) = dir)"

text \<open>The catalogue in memory: its blocks are on disk and their headers and summaries cover them.\<close>

definition partition_live :: "block_codec \<Rightarrow> file_store \<Rightarrow> string \<Rightarrow> partition \<Rightarrow> bool" where
  "partition_live cd s dir p \<longleftrightarrow> distinct (map bh_FileName (cached s dir)) \<and>
     (\<forall>h\<in>set (cached s dir). block_ok cd dir p h) \<and>
     (case map_of (fs_summaries s) dir of
        None \<Rightarrow> cached s dir = []
      | Some ps \<Rightarrow> \<not> IsZero (ps_MinTime ps) \<and> \<not> IsZero (ps_MaxTime ps) \<and> (\<forall>h\<in>set (cached s dir). summary_covers ps h))"

definition store_live :: "block_codec \<Rightarrow> file_store \<Rightarrow> bool" where
  "store_live cd s \<longleftrightarrow> wf_map (fs_disk s) \<and> wf_map (fs_cache s) \<and>
     (\<forall>dir p. map_of (fs_disk s) dir = Some p \<longrightarrow> partition_live cd s dir p) \<and>
     (\<forall>dir. map_of (fs_disk s) dir = None \<longrightarrow> map_of (fs_cache s) dir = None \<and> map_of (fs_summaries s) dir = None)"

text \<open>The index on disk: it lists the headers of the catalogue, in whole lines, and there are no legacy files.\<close>

definition index_agrees :: "file_store \<Rightarrow> string \<Rightarrow> partition \<Rightarrow> bool" where
  "index_agrees s dir p \<longleftrightarrow> p_logs p = [] \<and> p_legacy p = None \<and> lines_short p \<and> mset (cached s dir) = mset (index_headers p)"

definition partition_ok :: "block_codec \<Rightarrow> file_store \<Rightarrow> string \<Rightarrow> partition \<Rightarrow> bool" where
  "partition_ok cd s dir p \<longleftrightarrow> partition_live cd s dir p \<and> index_agrees s dir p"

definition store_ok :: "block_codec \<Rightarrow> file_store \<Rightarrow> bool" where
  "store_ok cd s \<longleftrightarrow> store_live cd s \<and> (\<forall>dir p. map_of (fs_disk s) dir = Some p \<longrightarrow> index_agrees s dir p)"

lemma partition_ok_def':
  "partition_ok cd s dir p \<longleftrightarrow> p_logs p = [] \<and> p_legacy p = None \<and> lines_short p \<and>
     mset (cached s dir) = mset (index_headers p) \<and> distinct (map bh_FileName (cached s dir)) \<and>
     (\<forall>h\<in>set (cached s dir). block_ok cd dir p h) \<and>
     (case map_of (fs_summaries s) dir of
        None \<Rightarrow> cached s dir = []
      | Some ps \<Rightarrow> \<not> IsZero (ps_MinTime ps) \<and> \<not> IsZero (ps_MaxTime ps) \<and> (\<forall>h\<in>set (cached s dir). summary_covers ps h))"
  unfolding partition_ok_def partition_live_def index_agrees_def by blast

lemma store_ok_def':
  "store_ok cd s \<longleftrightarrow> wf_map (fs_disk s) \<and> wf_map (fs_cache s) \<and>
     (\<forall>dir p. map_of (fs_disk s) dir = Some p \<longrightarrow> partition_ok cd s dir p) \<and>
     (\<forall>dir. map_of (fs_disk s) dir = None \<longrightarrow> map_of (fs_cache s) dir = None \<and> map_of (fs_summaries s) dir = None)"
  unfolding store_ok_def store_live_def partition_ok_def by blast

lemma store_ok_live: "store_ok cd s \<Longrightarrow> store_live cd s"
  by (simp add: store_ok_def)

definition dir_stored :: "block_codec \<Rightarrow> file_store \<Rightarrow> string \<Rightarrow> log_entry list" where
  "dir_stored cd s dir =
     (case map_of (fs_disk s) dir of None \<Rightarrow> [] | Some p \<Rightarrow> concat (map (block_entries cd p) (cached s dir)))"

text \<open>Everything the store holds.\<close>

definition stored :: "block_codec \<Rightarrow> file_store \<Rightarrow> log_entry multiset" where
  "stored cd s = (\<Sum>dir\<leftarrow>map fst (fs_disk s). mset (dir_stored cd s dir))"

lemma sum_list_one_key:
  fixes f g :: "'k \<Rightarrow> 'b::comm_monoid_add"
  assumes "distinct ks" and "k \<in> set ks" and "g k = f k + x" and "\<And>j. j \<noteq> k \<Longrightarrow> g j = f j"
  shows "(\<Sum>j\<leftarrow>ks. g j) = (\<Sum>j\<leftarrow>ks. f j) + x"
  using assms(1,2)
proof (induction ks)
  case (Cons j ks)
  show ?case
  proof (cases "j = k")
    case True
    have "g y = f y" if "y \<in> set ks" for y
      by (rule assms(4)) (use that True Cons.prems(1) in auto)
    then have "(\<Sum>j\<leftarrow>ks. g j) = (\<Sum>j\<leftarrow>ks. f j)" by (simp cong: map_cong)
    with True assms(3) show ?thesis by (simp add: ac_simps)
  next
    case False
    with Cons assms(4) show ?thesis by (simp add: ac_simps)
  qed
qed simp

lemma stored_update:
  assumes wf: "wf_map (fs_disk s)" and disk: "fs_disk t = AList.update dir p (fs_disk s)"
    and dir: "mset (dir_stored cd t dir) = mset (dir_stored cd s dir) + x"
    and same: "\<And>d. d \<noteq> dir \<Longrightarrow> dir_stored cd t d = dir_stored cd s d"
  shows "stored cd t = stored cd s + x"
proof -
  have keys: "map fst (fs_disk t) = (if dir \<in> set (map fst (fs_disk s)) then map fst (fs_disk s) else map fst (fs_disk s) @ [dir])"
    unfolding disk by (simp add: update_keys)
  show ?thesis
  proof (cases "dir \<in> set (map fst (fs_disk s))")
    case True
    with wf keys have "stored cd t = (\<Sum>d\<leftarrow>map fst (fs_disk s). mset (dir_stored cd t d))" by (simp add: stored_def)
    also have "\<dots> = stored cd s + x"
      unfolding stored_def by (rule sum_list_one_key [where f = "\<lambda>d. mset (dir_stored cd s d)" and g = "\<lambda>d. mset (dir_stored cd t d)", OF wf True dir])
        (simp add: same)
    finally show ?thesis .
  next
    case False
    then have "map_of (fs_disk s) dir = None" by (simp add: map_of_eq_None_iff)
    then have none: "dir_stored cd s dir = []" by (simp add: dir_stored_def)
    have sums: "(\<Sum>d\<leftarrow>map fst (fs_disk s). mset (dir_stored cd t d)) = (\<Sum>d\<leftarrow>map fst (fs_disk s). mset (dir_stored cd s d))"
      using False same by (intro arg_cong [where f = sum_list] map_cong) (auto simp: image_iff)
    have "stored cd t = (\<Sum>d\<leftarrow>map fst (fs_disk s). mset (dir_stored cd t d)) + mset (dir_stored cd t dir)"
      unfolding stored_def keys using False by simp
    with sums dir none show ?thesis by (simp add: stored_def)
  qed
qed

lemma index_headers_snoc:
  "index_faithful hjson \<Longrightarrow> index_headers (p\<lparr>p_blocks := bs, p_index := Some (ls @ [hjson h])\<rparr>) = index_headers (p\<lparr>p_index := Some ls\<rparr>) @ [h]"
  by (induction ls) (auto simp: index_headers_def index_faithful_def List.map_filter_simps split: option.splits)

section \<open>Appending one block\<close>

lemma block_entries_update:
  "bh_FileName h \<noteq> n \<Longrightarrow>
   block_entries cd (p\<lparr>p_blocks := AList.update n bf (p_blocks p)\<rparr>) h = block_entries cd p h"
  "bh_FileName h \<noteq> n \<Longrightarrow>
   block_entries cd (p\<lparr>p_blocks := AList.update n bf (p_blocks p), p_index := ix\<rparr>) h = block_entries cd p h"
  by (simp_all add: block_entries_def update_conv')

lemma block_ok_update:
  "bh_FileName h \<noteq> n \<Longrightarrow>
   block_ok cd dir (p\<lparr>p_blocks := AList.update n bf (p_blocks p)\<rparr>) h = block_ok cd dir p h"
  "bh_FileName h \<noteq> n \<Longrightarrow>
   block_ok cd dir (p\<lparr>p_blocks := AList.update n bf (p_blocks p), p_index := ix\<rparr>) h = block_ok cd dir p h"
  by (simp_all add: block_ok_def block_entries_update) (simp_all add: update_conv')

definition part_at :: "file_store \<Rightarrow> string \<Rightarrow> partition" where
  "part_at s dir = (case map_of (fs_disk s) dir of None \<Rightarrow> empty_partition | Some p \<Rightarrow> p)"

text \<open>The name of the new block is not taken in its partition.\<close>

definition fresh_block :: "file_store \<Rightarrow> string \<Rightarrow> block_header \<Rightarrow> bool" where
  "fresh_block s dir h \<longleftrightarrow> bh_FileName h \<notin> fst ` set (p_blocks (part_at s dir))"

lemma part_at_live: "store_live cd s \<Longrightarrow> partition_live cd s dir (part_at s dir)"
  by (cases "map_of (fs_disk s) dir")
    (auto simp: store_live_def part_at_def partition_live_def empty_partition_def cached_def)

lemma part_at_ok: "store_ok cd s \<Longrightarrow> partition_ok cd s dir (part_at s dir)"
  by (cases "map_of (fs_disk s) dir")
    (auto simp: store_ok_def' part_at_def partition_ok_def' empty_partition_def cached_def index_headers_def lines_short_def)

lemma fresh_block_cached:
  assumes "store_live cd s" and "fresh_block s dir h" and "g \<in> set (cached s dir)"
  shows "bh_FileName g \<noteq> bh_FileName h"
proof -
  have "block_ok cd dir (part_at s dir) g" using part_at_live [OF assms(1), of dir] assms(3) by (auto simp: partition_live_def)
  then obtain bf where "map_of (p_blocks (part_at s dir)) (bh_FileName g) = Some bf" by (auto simp: block_ok_def)
  then have "bh_FileName g \<in> fst ` set (p_blocks (part_at s dir))" by (force dest: map_of_SomeD)
  with assms(2) show ?thesis unfolding fresh_block_def by metis
qed

lemma dir_stored_part_at: "store_live cd s \<Longrightarrow> dir_stored cd s dir = concat (map (block_entries cd (part_at s dir)) (cached s dir))"
  by (cases "map_of (fs_disk s) dir") (auto simp: dir_stored_def part_at_def store_live_def cached_def)

text \<open>The disk changes in one partition, in which the blocks that are in the catalogue stay.\<close>

lemma store_live_disk:
  assumes ok: "store_live cd s"
    and keep: "\<And>g. g \<in> set (cached s dir) \<Longrightarrow> block_ok cd dir p g \<and> block_entries cd p g = block_entries cd (part_at s dir) g"
  defines "t \<equiv> s\<lparr>fs_disk := AList.update dir p (fs_disk s)\<rparr>"
  shows "store_live cd t" and "stored cd t = stored cd s" and "cached t = cached s"
proof -
  show c: "cached t = cached s" by (simp add: t_def cached_def fun_eq_iff)
  have po: "partition_live cd s dir p"
    using part_at_live [OF ok, of dir] keep by (auto simp: partition_live_def split: option.splits)
  have cong: "partition_live cd t d p' = partition_live cd s d p'" for d p'
    unfolding partition_live_def c by (simp add: t_def)
  show "store_live cd t"
    using ok po unfolding store_live_def cong by (auto simp: t_def update_conv')
  show "stored cd t = stored cd s"
  proof (rule stored_update [where x = "{#}", simplified])
    show "wf_map (fs_disk s)" using ok by (simp add: store_live_def)
    show "fs_disk t = AList.update dir p (fs_disk s)" by (simp add: t_def)
    have "dir_stored cd t dir = concat (map (block_entries cd p) (cached s dir))"
      unfolding dir_stored_def c by (simp add: t_def update_conv')
    also have "\<dots> = dir_stored cd s dir"
      using keep by (simp add: dir_stored_part_at [OF ok] cong: map_cong)
    finally show "mset (dir_stored cd t dir) = mset (dir_stored cd s dir)" by simp
    show "dir_stored cd t d = dir_stored cd s d" if "d \<noteq> dir" for d
      using that unfolding dir_stored_def c by (simp add: t_def update_conv')
  qed
qed

lemma store_ok_disk:
  assumes ok: "store_ok cd s" and "p_logs p = []" and "p_legacy p = None" and "lines_short p" and "index_headers p = index_headers (part_at s dir)"
    and keep: "\<And>g. g \<in> set (cached s dir) \<Longrightarrow> block_ok cd dir p g \<and> block_entries cd p g = block_entries cd (part_at s dir) g"
  shows "store_ok cd (s\<lparr>fs_disk := AList.update dir p (fs_disk s)\<rparr>)"
proof -
  note l = store_live_disk [OF store_ok_live [OF ok] keep]
  have "index_agrees s dir p"
    using part_at_ok [OF ok, of dir] assms(2-5) by (simp add: partition_ok_def index_agrees_def)
  moreover have "index_agrees (s\<lparr>fs_disk := AList.update dir p (fs_disk s)\<rparr>) d q = index_agrees s d q" for d q
    by (simp add: index_agrees_def cached_def)
  ultimately show ?thesis
    using ok l(1) by (simp add: store_ok_def update_conv')
qed

text \<open>What a failed append of a block can leave: nothing, the directory, the block, or the block and something in the index.\<close>

lemma AppendBlock_left:
  assumes "AppendBlockToPartition hjson flt now dir h z (fs_disk s) = (Some e, d)"
  defines "p \<equiv> part_at s dir"
  defines "p1 \<equiv> p\<lparr>p_blocks := AList.update (bh_FileName h) \<lparr>bf_data = z, bf_mod = now\<rparr> (p_blocks p)\<rparr>"
    and "old \<equiv> case p_index p of None \<Rightarrow> [] | Some ls \<Rightarrow> ls"
  obtains "d = fs_disk s" | "d = AList.update dir p (fs_disk s)" | "d = AList.update dir p1 (fs_disk s)"
  | n where "flt (SIndexWrite dir (bh_FileName h))" "n = 0 \<or> int n < il_size (hjson h)"
      "d = AList.update dir (p1\<lparr>p_index := Some (if n = 0 then old else put_line old (torn_line (hjson h) n))\<rparr>) (fs_disk s)"
  | "flt (SIndexClose dir (bh_FileName h))" "d = AList.update dir (p1\<lparr>p_index := Some (put_line old (hjson h))\<rparr>) (fs_disk s)"
proof -
  let ?n = "short_write flt dir (bh_FileName h) (hjson h)"
  have "?n \<le> nat (il_size (hjson h)) - 1"
    unfolding short_write_def using length_takeWhile_le [of _ "[0..<nat (il_size (hjson h)) - 1]"] by simp
  then have n: "int ?n < il_size (hjson h) \<or> ?n = 0" by linarith
  show thesis
  proof (cases "flt (SMkdir dir) \<or> flt (SWriteBlock dir (bh_FileName h)) \<or> flt (SAppendIndex dir (bh_FileName h))")
    case True
    with assms(1) that(1-3) show thesis
      unfolding AppendBlockToPartition_def Let_def part_at_def [symmetric] p_def p1_def by (auto split: if_splits)
  next
    case False
    show thesis
    proof (cases "flt (SIndexWrite dir (bh_FileName h))")
      case True
      with False assms(1) have d: "d = AList.update dir (p1\<lparr>p_index := Some (if ?n = 0 then old else put_line old (torn_line (hjson h) ?n))\<rparr>) (fs_disk s)"
        unfolding AppendBlockToPartition_def Let_def part_at_def [symmetric] p_def p1_def old_def by auto
      with n True show thesis by (intro that(4)) auto
    next
      case written: False
      with False assms(1) show thesis
        unfolding AppendBlockToPartition_def Let_def part_at_def [symmetric] p_def p1_def old_def
        by (intro that(5)) (auto simp: p_def p1_def old_def split: if_splits)
    qed
  qed
qed

text \<open>The faults that leave the index alone or complete: no failing \<open>Write\<close> or \<open>Close\<close> of it.\<close>

definition index_whole :: "store_faults \<Rightarrow> bool" where
  "index_whole flt \<longleftrightarrow> (\<forall>dir n. \<not> flt (SIndexWrite dir n) \<and> \<not> flt (SIndexClose dir n))"

lemma store_ok_block:
  fixes bf :: block_file
  assumes ok: "store_ok cd s" and fresh: "fresh_block s dir h"
  defines "p \<equiv> part_at s dir"
  defines "p1 \<equiv> p\<lparr>p_blocks := AList.update (bh_FileName h) bf (p_blocks p)\<rparr>"
  shows "store_ok cd (s\<lparr>fs_disk := AList.update dir p (fs_disk s)\<rparr>)" and "store_ok cd (s\<lparr>fs_disk := AList.update dir p1 (fs_disk s)\<rparr>)"
    and "lines_short (p1\<lparr>p_index := ix\<rparr>) \<Longrightarrow> index_headers (p1\<lparr>p_index := ix\<rparr>) = index_headers p \<Longrightarrow>
      store_ok cd (s\<lparr>fs_disk := AList.update dir (p1\<lparr>p_index := ix\<rparr>) (fs_disk s)\<rparr>)"
proof -
  have pk: "partition_ok cd s dir p" unfolding p_def by (rule part_at_ok [OF ok])
  have ls: "lines_short (p\<lparr>p_blocks := bs\<rparr>) = lines_short p" "index_headers (p\<lparr>p_blocks := bs\<rparr>) = index_headers p" for p bs
    by (simp_all add: lines_short_def index_headers_def)
  note kept = fresh_block_cached [OF store_ok_live [OF ok] fresh]
  show "store_ok cd (s\<lparr>fs_disk := AList.update dir p (fs_disk s)\<rparr>)" "store_ok cd (s\<lparr>fs_disk := AList.update dir p1 (fs_disk s)\<rparr>)"
    using pk kept unfolding p1_def p_def
    by (auto intro!: store_ok_disk [OF ok] simp: partition_ok_def' block_ok_update block_entries_update ls)
  assume "lines_short (p1\<lparr>p_index := ix\<rparr>)" "index_headers (p1\<lparr>p_index := ix\<rparr>) = index_headers p"
  then show "store_ok cd (s\<lparr>fs_disk := AList.update dir (p1\<lparr>p_index := ix\<rparr>) (fs_disk s)\<rparr>)"
    using pk kept unfolding p1_def p_def
    by (auto intro!: store_ok_disk [OF ok] simp: partition_ok_def' block_ok_update block_entries_update)
qed

lemma AppendBlock_failed:
  assumes ok: "store_live cd s" and fresh: "fresh_block s dir h"
    and fail: "AppendBlockToPartition hjson flt now dir h z (fs_disk s) = (Some e, d)"
  shows "store_live cd (s\<lparr>fs_disk := d\<rparr>)" and "stored cd (s\<lparr>fs_disk := d\<rparr>) = stored cd s"
    and "store_ok cd s \<Longrightarrow> index_whole flt \<Longrightarrow> store_ok cd (s\<lparr>fs_disk := d\<rparr>)"
proof -
  let ?p = "part_at s dir"
  let ?p1 = "?p\<lparr>p_blocks := AList.update (bh_FileName h) \<lparr>bf_data = z, bf_mod = now\<rparr> (p_blocks ?p)\<rparr>"
  let ?s = "\<lambda>p. s\<lparr>fs_disk := AList.update dir p (fs_disk s)\<rparr>"
  have po: "partition_live cd s dir ?p" by (rule part_at_live [OF ok])
  have same: "store_live cd (?s ?p)" "stored cd (?s ?p) = stored cd s"
    using po by (auto intro!: store_live_disk [OF ok] simp: partition_live_def)
  have added: "store_live cd (?s ?p1)" "stored cd (?s ?p1) = stored cd s"
    and indexed: "store_live cd (?s (?p1\<lparr>p_index := ix\<rparr>))" "stored cd (?s (?p1\<lparr>p_index := ix\<rparr>)) = stored cd s" for ix
    using po fresh_block_cached [OF ok fresh]
    by (auto intro!: store_live_disk [OF ok] simp: partition_live_def block_ok_update block_entries_update)
  show "store_live cd (s\<lparr>fs_disk := d\<rparr>)" and "stored cd (s\<lparr>fs_disk := d\<rparr>) = stored cd s"
    using fail by (cases rule: AppendBlock_left; use same added indexed ok in simp)+
  assume "store_ok cd s" and "index_whole flt"
  with fail store_ok_block [OF \<open>store_ok cd s\<close> fresh] show "store_ok cd (s\<lparr>fs_disk := d\<rparr>)"
    by (cases rule: AppendBlock_left) (simp_all add: index_whole_def)
qed

text \<open>The catalogue after a successful append of the block of \<open>es\<close>.\<close>

definition catalogued :: "(block_header \<Rightarrow> index_line) \<Rightarrow> gotime \<Rightarrow> string \<Rightarrow> block_header \<Rightarrow> string \<Rightarrow> file_store \<Rightarrow> file_store" where
  "catalogued hjson now dir h z s =
     (let p = part_at s dir;
          old = (case p_index p of None \<Rightarrow> [] | Some ls \<Rightarrow> ls);
          p' = p\<lparr>p_blocks := AList.update (bh_FileName h) \<lparr>bf_data = z, bf_mod = now\<rparr> (p_blocks p), p_index := Some (put_line old (hjson h))\<rparr>
      in s\<lparr>fs_disk := AList.update dir p' (fs_disk s), fs_cache := AList.update dir (cached s dir @ [h]) (fs_cache s),
           fs_summaries := AList.update dir (update_summary h (map_of (fs_summaries s) dir)) (fs_summaries s),
           fs_totalBytes := fs_totalBytes s + bh_CompressedBytes h\<rparr>)"

lemma append_group_cases:
  assumes "append_group cd hjson flt uuid now dir es s = (r, t)"
  obtains (encode) e where "r = Some ErrEncodeBlock" "t = s" "EncodeBlock cd (uuid dir) now es = Inl e"
  | (failed) h z e d where "EncodeBlock cd (uuid dir) now es = Inr (h, z)" "r = Some e"
      "AppendBlockToPartition hjson flt now dir h z (fs_disk s) = (Some e, d)" "t = s\<lparr>fs_disk := d\<rparr>"
  | (success) h z where "EncodeBlock cd (uuid dir) now es = Inr (h, z)" "r = None" "t = catalogued hjson now dir h z s"
proof (cases "EncodeBlock cd (uuid dir) now es")
  case (Inl e)
  with assms that(1) show thesis by (auto simp: append_group_def)
next
  case (Inr hz)
  obtain h z where hz: "hz = (h, z)" by fastforce
  obtain e d where ap: "AppendBlockToPartition hjson flt now dir h z (fs_disk s) = (e, d)" by fastforce
  show thesis
  proof (cases e)
    case None
    then have d: "d = AList.update dir ((part_at s dir)\<lparr>p_blocks := AList.update (bh_FileName h) \<lparr>bf_data = z, bf_mod = now\<rparr> (p_blocks (part_at s dir)),
        p_index := Some (put_line (case p_index (part_at s dir) of None \<Rightarrow> [] | Some ls \<Rightarrow> ls) (hjson h))\<rparr>) (fs_disk s)"
      using ap unfolding AppendBlockToPartition_def Let_def part_at_def [symmetric] by (auto split: if_splits)
    have "r = None \<and> t = catalogued hjson now dir h z s"
      using assms unfolding append_group_def Inr hz
      by (simp add: ap None d catalogued_def cached_def updatePartitionSummaryLocked_def Let_def)
    with Inr hz that(3) show thesis by blast
  next
    case (Some e')
    then have "r = Some e'" "t = s\<lparr>fs_disk := d\<rparr>" using assms by (simp_all add: append_group_def Inr hz ap)
    with Inr hz ap Some that(2) show thesis by blast
  qed
qed

lemma EncodeBlock_covers:
  assumes "EncodeBlock cd uuid now es = Inr (h, z)" and "e \<in> set es" and "stamped e"
  shows "header_covers h e"
proof -
  have ne: "es \<noteq> []" using assms(2) by auto
  have "covers now (fold (encode_entry cd now) es empty_acc) e" using assms(2) by (simp add: covers_fold)
  then show ?thesis
    using EncodeBlock_ok(2-6) [OF assms(1) ne] assms(3) by (simp add: covers_def header_covers_def stamped_def Let_def)
qed

lemma EncodeBlock_typed:
  assumes "EncodeBlock cd uuid now es = Inr (h, z)" and "es \<noteq> []"
  shows "header_typed h"
proof -
  have "- (2 ^ 63) \<le> ba_min (fold (encode_entry cd now) es a) \<and> ba_min (fold (encode_entry cd now) es a) < 2 ^ 63 \<and>
      - (2 ^ 63) \<le> ba_max (fold (encode_entry cd now) es a) \<and> ba_max (fold (encode_entry cd now) es a) < 2 ^ 63"
    if "- (2 ^ 63) \<le> ba_min a \<and> ba_min a < 2 ^ 63 \<and> - (2 ^ 63) \<le> ba_max a \<and> ba_max a < 2 ^ 63" for a
    using that
  proof (induction es arbitrary: a)
    case (Cons e es)
    have "- (2 ^ 63) \<le> UnixNano t \<and> UnixNano t < 2 ^ 63" for t unfolding UnixNano_def by (rule int64_range)
    with Cons.prems show ?case
      unfolding fold_Cons comp_def by (intro Cons.IH) (simp add: encode_entry_def Let_def)
  qed simp
  from this [of empty_acc] show ?thesis
    using EncodeBlock_ok(2,3) [OF assms] by (simp add: header_typed_def empty_acc_def)
qed

lemma put_line_closed: "list_all (\<lambda>l. short_line l \<and> \<not> il_open l) ls \<Longrightarrow> put_line ls l = ls @ [l]"
  by (cases ls rule: rev_cases) (simp_all add: put_line_def)

lemma catalogued_live:
  assumes ok: "store_live cd s" and enc: "EncodeBlock cd (uuid dir) now es = Inr (h, z)"
    and es: "es \<noteq> []" "codec_faithful cd es" "\<forall>e\<in>set es. stamped e \<and> partition_dir (Timestamp e) = dir"
    and fresh: "fresh_block s dir h"
  shows "store_live cd (catalogued hjson now dir h z s)" and "stored cd (catalogued hjson now dir h z s) = stored cd s + mset es"
proof -
  let ?t = "catalogued hjson now dir h z s" and ?p = "part_at s dir" and ?hs = "cached s dir"
  define p' where "p' = ?p\<lparr>p_blocks := AList.update (bh_FileName h) \<lparr>bf_data = z, bf_mod = now\<rparr> (p_blocks ?p),
      p_index := Some (put_line (case p_index ?p of None \<Rightarrow> [] | Some ls \<Rightarrow> ls) (hjson h))\<rparr>"
  have t: "fs_disk ?t = AList.update dir p' (fs_disk s)" "fs_cache ?t = AList.update dir (?hs @ [h]) (fs_cache s)"
    "fs_summaries ?t = AList.update dir (update_summary h (map_of (fs_summaries s) dir)) (fs_summaries s)"
    by (simp_all add: catalogued_def p'_def Let_def)
  have po: "partition_live cd s dir ?p" by (rule part_at_live [OF ok])
  have names: "bh_FileName g \<noteq> bh_FileName h" if "g \<in> set ?hs" for g by (rule fresh_block_cached [OF ok fresh that])
  have dec: "DecodeBlock cd z = Inr es" by (rule DecodeBlock_EncodeBlock [OF es(2) enc es(1)])
  have ent: "block_entries cd p' h = es" "g \<in> set ?hs \<Longrightarrow> block_entries cd p' g = block_entries cd ?p g" for g
    using names dec by (simp_all add: p'_def block_entries_def update_conv')
  have new: "block_ok cd dir p' h"
    using ent(1) es(3) EncodeBlock_typed [OF enc es(1)] EncodeBlock_covers [OF enc] dec
    by (auto simp: block_ok_def p'_def update_conv')
  have old: "block_ok cd dir p' g" if "g \<in> set ?hs" for g
    using po that names [OF that] by (simp add: partition_live_def p'_def block_ok_update)
  have summ: "\<forall>g\<in>set (?hs @ [h]). summary_covers (update_summary h (map_of (fs_summaries s) dir)) g"
    using po by (auto simp: partition_live_def update_covers_new update_covers_old split: option.splits)
  have "bh_FileName h \<notin> bh_FileName ` set ?hs" using names by (metis imageE)
  then have dist: "distinct (map bh_FileName (?hs @ [h]))" using po by (simp add: partition_live_def)
  have cd_dir: "cached ?t dir = ?hs @ [h]" "d \<noteq> dir \<Longrightarrow> cached ?t d = cached s d" for d
    by (simp_all add: cached_def t update_conv')
  have "partition_live cd ?t dir p'"
    unfolding partition_live_def cd_dir
    using po new old dist summ update_summary_Some [OF EncodeBlock_typed [OF enc es(1)]]
    by (simp add: partition_live_def t update_conv')
  moreover have "partition_live cd ?t d q = partition_live cd s d q" if "d \<noteq> dir" for d q
    unfolding partition_live_def cd_dir(2) [OF that] using that by (simp add: t update_conv')
  ultimately show "store_live cd ?t"
    using ok by (auto simp: store_live_def t update_conv')
  show "stored cd ?t = stored cd s + mset es"
  proof (rule stored_update [OF _ t(1)])
    show "wf_map (fs_disk s)" using ok by (simp add: store_live_def)
    have "dir_stored cd ?t dir = concat (map (block_entries cd ?p) ?hs) @ es"
      unfolding dir_stored_def cd_dir using ent by (simp add: t update_conv' cong: map_cong)
    then show "mset (dir_stored cd ?t dir) = mset (dir_stored cd s dir) + mset es" by (simp add: dir_stored_part_at [OF ok])
    show "dir_stored cd ?t d = dir_stored cd s d" if "d \<noteq> dir" for d
      unfolding dir_stored_def cd_dir(2) [OF that] using that by (simp add: t update_conv')
  qed
qed

lemma catalogued_ok:
  assumes ok: "store_ok cd s" and line: "il_header (hjson h) = Some h" "\<not> il_open (hjson h)" "short_line (hjson h)"
    and live: "store_live cd (catalogued hjson now dir h z s)"
  shows "store_ok cd (catalogued hjson now dir h z s)"
proof -
  let ?t = "catalogued hjson now dir h z s" and ?p = "part_at s dir"
  define ls where "ls = (case p_index ?p of None \<Rightarrow> [] | Some ls \<Rightarrow> ls)"
  define p' where "p' = ?p\<lparr>p_blocks := AList.update (bh_FileName h) \<lparr>bf_data = z, bf_mod = now\<rparr> (p_blocks ?p), p_index := Some (ls @ [hjson h])\<rparr>"
  have po: "index_agrees s dir ?p" using part_at_ok [OF ok, of dir] by (simp add: partition_ok_def)
  then have closed: "list_all (\<lambda>l. short_line l \<and> \<not> il_open l) ls"
    by (simp add: ls_def index_agrees_def lines_short_def split: option.splits)
  have t: "fs_disk ?t = AList.update dir p' (fs_disk s)"
    using put_line_closed [OF closed] by (simp add: catalogued_def p'_def Let_def ls_def)
  have c: "cached ?t dir = cached s dir @ [h]" "d \<noteq> dir \<Longrightarrow> cached ?t d = cached s d" for d
    by (simp_all add: cached_def catalogued_def Let_def update_conv')
  have "index_headers p' = index_headers ?p @ [h]"
    using line(1) by (auto simp: p'_def ls_def index_headers_def List.map_filter_def split: option.splits)
  moreover have "p_logs p' = []" "p_legacy p' = None" "lines_short p'"
    using po line closed by (simp_all add: p'_def index_agrees_def lines_short_def)
  ultimately have "index_agrees ?t dir p'" using po by (simp add: index_agrees_def c)
  moreover have "index_agrees ?t d q = index_agrees s d q" if "d \<noteq> dir" for d q
    unfolding index_agrees_def c(2) [OF that] ..
  ultimately show ?thesis using ok live by (auto simp: store_ok_def t update_conv')
qed

section \<open>Appending a batch\<close>

lemma store_frame:
  assumes "fs_disk t = fs_disk s" and "fs_cache t = fs_cache s" and "fs_summaries t = fs_summaries s"
  shows "store_ok cd t = store_ok cd s" and "store_live cd t = store_live cd s" and "stored cd t = stored cd s"
proof -
  have c: "cached t = cached s" using assms by (simp add: cached_def fun_eq_iff)
  have p: "partition_live cd t = partition_live cd s" unfolding partition_live_def fun_eq_iff c assms(3) by blast
  show l: "store_live cd t = store_live cd s" unfolding store_live_def p assms ..
  show "store_ok cd t = store_ok cd s" unfolding store_ok_def l assms index_agrees_def c ..
  show "stored cd t = stored cd s" unfolding stored_def dir_stored_def c assms ..
qed

definition groups_ok :: "groups \<Rightarrow> bool" where
  "groups_ok g \<longleftrightarrow> wf_map g \<and>
     (\<forall>dir es. map_of g dir = Some es \<longrightarrow> es \<noteq> [] \<and> (\<forall>e\<in>set es. partition_dir (Timestamp e) = dir))"

definition group_entries_of :: "groups \<Rightarrow> log_entry multiset" where
  "group_entries_of g = (\<Sum>p\<leftarrow>g. mset (snd p))"

lemma group_update_mset:
  "wf_map g \<Longrightarrow> group_entries_of (AList.update dir ((case map_of g dir of None \<Rightarrow> [] | Some xs \<Rightarrow> xs) @ [e]) g) =
     add_mset e (group_entries_of g)"
  by (induction g) (auto simp: group_entries_of_def)

lemma group_update_ok:
  assumes "groups_ok g" and "dir = partition_dir (Timestamp e)"
  shows "groups_ok (AList.update dir ((case map_of g dir of None \<Rightarrow> [] | Some xs \<Rightarrow> xs) @ [e]) g)"
  using assms by (auto simp: groups_ok_def update_conv' split: option.splits if_splits)

lemma group_entries_spec:
  assumes "group_entries flt now i es (g, s) = (r, g', s')" and "groups_ok g" and "\<forall>e\<in>set es. stamped e"
  shows "groups_ok g' \<and> fs_disk s' = fs_disk s \<and> fs_cache s' = fs_cache s \<and> fs_summaries s' = fs_summaries s \<and>
    fs_closed s' = fs_closed s \<and> group_entries_of g' \<subseteq># group_entries_of g + mset es \<and>
    (r = None \<longrightarrow> group_entries_of g' = group_entries_of g + mset es)"
  using assms
proof (induction es arbitrary: i g s)
  case (Cons e es)
  let ?dir = "partition_dir (Timestamp e)"
  let ?g = "AList.update ?dir ((case map_of g ?dir of None \<Rightarrow> [] | Some xs \<Rightarrow> xs) @ [e]) g"
  let ?s = "s\<lparr>fs_knownHosts := add_key (Host e) (fs_knownHosts s), fs_knownSrcs := add_key (Source e) (fs_knownSrcs s)\<rparr>"
  show ?case
  proof (cases "flt (SCtxEntry i)")
    case True
    with Cons.prems show ?thesis by auto
  next
    case False
    then have "group_entries flt now (Suc i) es (?g, ?s) = (r, g', s')"
      using Cons.prems(1,3) by (simp add: stamped_def Let_def)
    from Cons.IH [OF this group_update_ok [OF Cons.prems(2) refl]] Cons.prems(2,3)
      group_update_mset [of g ?dir e]
    show ?thesis by (simp add: groups_ok_def)
  qed
qed auto

text \<open>No block in the partition has the UUID prefix the new block gets.\<close>

definition uuid_fresh :: "(string \<Rightarrow> string) \<Rightarrow> file_store \<Rightarrow> bool" where
  "uuid_fresh uuid s \<longleftrightarrow>
     (\<forall>dir. \<forall>n\<in>fst ` set (p_blocks (part_at s dir)). \<not> HasSuffix n (take 8 (uuid dir) @ ''.zst''))"

lemma append_group_other:
  assumes "append_group cd hjson flt uuid now dir es s = (r, t)" and "d \<noteq> dir"
  shows "part_at t d = part_at s d"
proof -
  have upd: "map_of d' d = map_of (fs_disk s) d" if "AppendBlockToPartition hjson flt now dir h z (fs_disk s) = (e, d')" for h z e d'
    using that assms(2) unfolding AppendBlockToPartition_def Let_def by (auto simp: update_conv' split: if_splits)
  from assms(1) show ?thesis
  proof (cases rule: append_group_cases)
    case (encode e)
    then show ?thesis by simp
  next
    case (failed h z e d')
    with upd [OF failed(3)] show ?thesis by (simp add: part_at_def)
  next
    case (success h z)
    with assms(2) show ?thesis by (simp add: part_at_def [of _ d] catalogued_def Let_def update_conv')
  qed
qed

lemma EncodeBlock_fresh:
  assumes "EncodeBlock cd u now es = Inr (h, z)" and "es \<noteq> []"
    and "\<forall>n\<in>fst ` set (p_blocks (part_at s dir)). \<not> HasSuffix n (take 8 u @ ''.zst'')"
  shows "fresh_block s dir h"
proof -
  obtain q where "bh_FileName h = q @ take 8 u @ ''.zst''"
    using EncodeBlock_ok(9) [OF assms(1,2)] by (metis append.assoc)
  then have "HasSuffix (bh_FileName h) (take 8 u @ ''.zst'')" by (auto simp: HasSuffix_iff)
  with assms(3) show ?thesis unfolding fresh_block_def by blast
qed

lemma append_group_spec:
  assumes ag: "append_group cd hjson flt uuid now dir es s = (r, t)" and ok: "store_live cd s"
    and es: "es \<noteq> []" "codec_faithful cd es" "\<forall>e\<in>set es. stamped e \<and> partition_dir (Timestamp e) = dir"
    and fresh: "\<forall>n\<in>fst ` set (p_blocks (part_at s dir)). \<not> HasSuffix n (take 8 (uuid dir) @ ''.zst'')"
  shows "store_live cd t \<and> stored cd t = stored cd s + (if r = None then mset es else {#})"
    and "store_ok cd s \<Longrightarrow> index_faithful hjson \<Longrightarrow> r = None \<or> index_whole flt \<Longrightarrow> store_ok cd t"
proof -
  note fb = EncodeBlock_fresh [OF _ es(1) fresh]
  have "(store_live cd t \<and> stored cd t = stored cd s + (if r = None then mset es else {#})) \<and>
    (store_ok cd s \<longrightarrow> index_faithful hjson \<longrightarrow> r = None \<or> index_whole flt \<longrightarrow> store_ok cd t)"
    using ag
  proof (cases rule: append_group_cases)
    case (encode e)
    with ok show ?thesis by simp
  next
    case (failed h z e d)
    with AppendBlock_failed [OF ok fb [OF failed(1)] failed(3)] show ?thesis by simp
  next
    case (success h z)
    note l = catalogued_live [where uuid = uuid and dir = dir and hjson = hjson, OF ok success(1) es fb [OF success(1)]]
    with success catalogued_ok [OF _ _ _ _ l(1)] show ?thesis by (simp add: index_faithful_def)
  qed
  then show "store_live cd t \<and> stored cd t = stored cd s + (if r = None then mset es else {#})"
    and "store_ok cd s \<Longrightarrow> index_faithful hjson \<Longrightarrow> r = None \<or> index_whole flt \<Longrightarrow> store_ok cd t" by blast+
qed

lemma append_groups_spec:
  assumes "append_groups cd hjson flt uuid now g s = (r, t)" and "store_live cd s"
    and "groups_ok g" and "\<forall>p\<in>set g. codec_faithful cd (snd p) \<and> (\<forall>e\<in>set (snd p). stamped e)"
    and "\<forall>p\<in>set g. \<forall>n\<in>fst ` set (p_blocks (part_at s (fst p))). \<not> HasSuffix n (take 8 (uuid (fst p)) @ ''.zst'')"
  shows "store_live cd t \<and> stored cd s \<subseteq># stored cd t \<and> stored cd t \<subseteq># stored cd s + group_entries_of g \<and>
    (r = None \<longrightarrow> stored cd t = stored cd s + group_entries_of g) \<and>
    (store_ok cd s \<longrightarrow> index_faithful hjson \<longrightarrow> r = None \<or> index_whole flt \<longrightarrow> store_ok cd t)"
  using assms
proof (induction g arbitrary: s)
  case Nil
  then show ?case by (simp add: group_entries_of_def)
next
  case (Cons p g)
  obtain dir es where p: "p = (dir, es)" by fastforce
  show ?case
  proof (cases "flt (SCtxDir dir)")
    case True
    with Cons.prems p show ?thesis by auto
  next
    case False
    obtain r1 s1 where s1: "append_group cd hjson flt uuid now dir es s = (r1, s1)" by fastforce
    have es: "es \<noteq> []" "\<forall>e\<in>set es. stamped e \<and> partition_dir (Timestamp e) = dir" "codec_faithful cd es"
      and g: "groups_ok g" and dirs: "dir \<notin> fst ` set g"
      using Cons.prems(3,4) p by (auto simp: groups_ok_def split: if_splits)
        (metis map_of_SomeD option.simps(3) fst_conv imageI map_of_eq_None_iff not_None_eq)+
    have a: "store_live cd s1 \<and> stored cd s1 = stored cd s + (if r1 = None then mset es else {#})"
      and b: "store_ok cd s \<Longrightarrow> index_faithful hjson \<Longrightarrow> r1 = None \<or> index_whole flt \<Longrightarrow> store_ok cd s1"
      using append_group_spec [OF s1 Cons.prems(2) es(1,3,2)] Cons.prems(5) p by simp_all
    have tot: "group_entries_of (p # g) = mset es + group_entries_of g" by (simp add: p group_entries_of_def)
    show ?thesis
    proof (cases r1)
      case None
      have "part_at s1 (fst q) = part_at s (fst q)" if "q \<in> set g" for q
        by (rule append_group_other [OF s1]) (use dirs that in auto)
      then have fr: "\<forall>q\<in>set g. \<forall>n\<in>fst ` set (p_blocks (part_at s1 (fst q))). \<not> HasSuffix n (take 8 (uuid (fst q)) @ ''.zst'')"
        using Cons.prems(5) by simp
      have "append_groups cd hjson flt uuid now g s1 = (r, t)"
        using Cons.prems(1) False s1 None p by simp
      from Cons.IH [OF this _ g _ fr] a None Cons.prems(4)
      have ih: "store_live cd t \<and> stored cd s1 \<subseteq># stored cd t \<and> stored cd t \<subseteq># stored cd s1 + group_entries_of g \<and>
          (r = None \<longrightarrow> stored cd t = stored cd s1 + group_entries_of g) \<and>
          (store_ok cd s1 \<longrightarrow> index_faithful hjson \<longrightarrow> r = None \<or> index_whole flt \<longrightarrow> store_ok cd t)" by simp
      moreover have s1': "stored cd s1 = stored cd s + mset es" using a None by simp
      moreover from this have "stored cd s \<subseteq># stored cd t"
        using subset_mset.order_trans [of "stored cd s" "stored cd s1" "stored cd t"] ih by simp
      ultimately show ?thesis unfolding tot using b None by (simp add: add.assoc)
    next
      case (Some e)
      then have "r = Some e" and "s1 = t" using Cons.prems(1) False s1 p by auto
      with a b Some show ?thesis by simp
    qed
  qed
qed

lemma group_in_entries:
  assumes "p \<in> set g" and "e \<in> set (snd p)"
  shows "e \<in># group_entries_of g"
  using assms by (induction g) (auto simp: group_entries_of_def)

lemma codec_faithful_mono: "codec_faithful cd es \<Longrightarrow> set es' \<subseteq> set es \<Longrightarrow> codec_faithful cd es'"
  unfolding codec_faithful_def by blast

lemma Append_live:
  assumes ap: "Append cd hjson flt uuid now es s = (r, t)" and ok: "store_live cd s"
    and es: "codec_faithful cd es" "\<forall>e\<in>set es. stamped e" and fresh: "uuid_fresh uuid s"
  shows "store_live cd t \<and> stored cd s \<subseteq># stored cd t \<and> stored cd t \<subseteq># stored cd s + mset es \<and>
    (r = None \<longrightarrow> stored cd t = stored cd s + mset es) \<and>
    (store_ok cd s \<longrightarrow> index_faithful hjson \<longrightarrow> r = None \<or> index_whole flt \<longrightarrow> store_ok cd t)"
proof (cases "es = [] \<or> fs_closed s")
  case True
  with ap ok show ?thesis by (auto simp: Append_def split: if_splits)
next
  case False
  obtain r1 g s1 where g: "group_entries flt now 0 es ([], s) = (r1, g, s1)" by (metis prod_cases3)
  have spec: "groups_ok g" "fs_disk s1 = fs_disk s" "fs_cache s1 = fs_cache s" "fs_summaries s1 = fs_summaries s"
      "group_entries_of g \<subseteq># mset es" "r1 = None \<Longrightarrow> group_entries_of g = mset es"
    using group_entries_spec [OF g _ es(2)] by (auto simp: groups_ok_def group_entries_of_def)
  note fr = store_frame [OF spec(2-4), of cd]
  show ?thesis
  proof (cases r1)
    case (Some e)
    with ap False g fr ok show ?thesis by (auto simp: Append_def)
  next
    case None
    have sub: "set (snd p) \<subseteq> set es" if "p \<in> set g" for p
      using group_in_entries [OF that] spec(5) by (metis mset_subset_eqD set_mset_mset subsetI)
    have "append_groups cd hjson flt uuid now g s1 = (r, t)"
      using ap False g None by (simp add: Append_def)
    then have "store_live cd t \<and> stored cd s1 \<subseteq># stored cd t \<and> stored cd t \<subseteq># stored cd s1 + group_entries_of g \<and>
        (r = None \<longrightarrow> stored cd t = stored cd s1 + group_entries_of g) \<and>
        (store_ok cd s1 \<longrightarrow> index_faithful hjson \<longrightarrow> r = None \<or> index_whole flt \<longrightarrow> store_ok cd t)"
    proof (rule append_groups_spec [OF _ _ spec(1)])
      show "store_live cd s1" using fr ok by simp
      show "\<forall>p\<in>set g. codec_faithful cd (snd p) \<and> (\<forall>e\<in>set (snd p). stamped e)"
        using sub es codec_faithful_mono by blast
      show "\<forall>p\<in>set g. \<forall>n\<in>fst ` set (p_blocks (part_at s1 (fst p))). \<not> HasSuffix n (take 8 (uuid (fst p)) @ ''.zst'')"
        using fresh spec(2) by (simp add: uuid_fresh_def part_at_def)
    qed
    then show ?thesis using fr spec(6) [OF None] by simp
  qed
qed

lemma Append_spec:
  assumes "Append cd hjson flt uuid now es s = (None, t)" and "store_ok cd s" and "index_faithful hjson"
    and "codec_faithful cd es" and "\<forall>e\<in>set es. stamped e" and "uuid_fresh uuid s"
  shows "store_ok cd t \<and> stored cd t = stored cd s + mset es"
  using Append_live [OF assms(1) store_ok_live [OF assms(2)] assms(4-6)] assms(2,3) by simp

abbreviation no_faults :: store_faults where
  "no_faults \<equiv> (\<lambda>c. False)"

lemma EncodeBlock_total:
  assumes "codec_faithful cd es"
  shows "\<exists>h z. EncodeBlock cd uuid now es = Inr (h, z)"
proof -
  obtain z where "bc_zenc cd (ba_raw (fold (encode_entry cd now) es empty_acc)) = Some z"
    using assms unfolding codec_faithful_def by blast
  then show ?thesis by (simp add: EncodeBlock_def Let_def)
qed

lemma append_group_total:
  assumes "codec_faithful cd es"
  shows "fst (append_group cd hjson no_faults uuid now dir es s) = None"
    and "fs_closed (snd (append_group cd hjson no_faults uuid now dir es s)) = fs_closed s"
proof -
  obtain h z where "EncodeBlock cd (uuid dir) now es = Inr (h, z)" using EncodeBlock_total [OF assms] by blast
  then show "fst (append_group cd hjson no_faults uuid now dir es s) = None"
    and "fs_closed (snd (append_group cd hjson no_faults uuid now dir es s)) = fs_closed s"
    by (simp_all add: append_group_def AppendBlockToPartition_def updatePartitionSummaryLocked_def Let_def)
qed

lemma append_groups_total:
  assumes "\<forall>p\<in>set g. codec_faithful cd (snd p)"
  shows "fst (append_groups cd hjson no_faults uuid now g s) = None \<and>
    fs_closed (snd (append_groups cd hjson no_faults uuid now g s)) = fs_closed s"
  using assms
proof (induction g arbitrary: s)
  case (Cons p g)
  obtain dir es where p: "p = (dir, es)" by fastforce
  obtain s1 where s1: "append_group cd hjson no_faults uuid now dir es s = (None, s1)" "fs_closed s1 = fs_closed s"
    using append_group_total [of cd es hjson uuid now dir s] Cons.prems p by (cases "append_group cd hjson no_faults uuid now dir es s") auto
  with Cons p show ?case by simp
qed simp

lemma group_entries_total: "fst (group_entries no_faults now i es gs) = None"
  by (induction es arbitrary: i gs) (simp, case_tac gs, simp add: Let_def)

lemma group_mset_sub: "groups_ok g \<Longrightarrow> group_entries_of g \<subseteq># mset es \<Longrightarrow> p \<in> set g \<Longrightarrow> set (snd p) \<subseteq> set es"
  by (metis group_in_entries mset_subset_eqD set_mset_mset subsetI)

lemma Append_total:
  assumes es: "codec_faithful cd es" "\<forall>e\<in>set es. stamped e" and opn: "\<not> fs_closed s"
  shows "fst (Append cd hjson no_faults uuid now es s) = None \<and> \<not> fs_closed (snd (Append cd hjson no_faults uuid now es s))"
proof -
  obtain r1 g s1 where g: "group_entries no_faults now 0 es ([], s) = (r1, g, s1)" by (metis prod_cases3)
  have r1: "r1 = None" using group_entries_total [of now 0 es "([], s)"] g by simp
  have spec: "groups_ok g" "fs_closed s1 = fs_closed s" "group_entries_of g \<subseteq># mset es"
    using group_entries_spec [OF g _ es(2)] by (auto simp: groups_ok_def group_entries_of_def)
  have "\<forall>p\<in>set g. codec_faithful cd (snd p)"
    using codec_faithful_mono [OF es(1)] group_mset_sub [OF spec(1,3)] by blast
  from append_groups_total [OF this, of hjson uuid now s1] show ?thesis
    using opn spec(2) g r1 by (simp add: Append_def)
qed

lemma index_names_distinct:
  assumes "partition_ok cd s dir p"
  shows "distinct (map bh_FileName (index_headers p))"
proof -
  have "mset (cached s dir) = mset (index_headers p)" "distinct (map bh_FileName (cached s dir))"
    using assms by (simp_all add: partition_ok_def')
  then have "mset (map bh_FileName (cached s dir)) = mset (map bh_FileName (index_headers p))" by simp
  from mset_eq_imp_distinct_iff [OF this] show ?thesis using \<open>distinct (map bh_FileName (cached s dir))\<close> by blast
qed

lemma scan_index_whole: "list_all (\<lambda>l. short_line l \<and> \<not> il_open l) ls \<Longrightarrow> scan_index ls = List.map_filter il_header ls"
  by (rule scan_index_short) (simp add: list_all_iff)

lemma LoadPartitionIndex_ok:
  assumes "partition_ok cd s dir p"
  shows "LoadPartitionIndex no_faults dir p = Inr (sort_key bh_MinTimestampNano (index_headers p))"
  using assms index_names_distinct [OF assms] fold_add_header_distinct [of "[]"]
  by (auto simp: partition_ok_def' LoadPartitionIndex_def index_headers_def lines_short_def scan_index_whole Let_def
      split: option.splits)

end
