(* ===== verification/StoreQuery.thy ===== *)
theory StoreQuery
  imports StoreProps
begin

text \<open>
  The read path of the filesystem store: the names of partitions determine their hour, the
  candidate partitions of a query contain every entry in its time range, and \<open>Query\<close> returns
  exactly the stored entries that match, newest block first, up to the limit.
\<close>

section \<open>The calendar\<close>

lemma era_bounds:
  fixes doe a b c y k l doy :: int
  assumes "0 \<le> doe" and "doe < 146097"
    and a: "1460 * a \<le> doe" "doe < 1460 * a + 1460" and b: "36524 * b \<le> doe" "doe < 36524 * b + 36524"
    and c: "146096 * c \<le> doe" "doe < 146096 * c + 146096"
    and y: "365 * y \<le> doe - a + b - c" "doe - a + b - c \<le> 365 * y + 364"
    and k: "4 * k \<le> y" "y \<le> 4 * k + 3" and l: "100 * l \<le> y" "y \<le> 100 * l + 99"
    and d: "doy = doe - (365 * y + k - l)"
  shows "0 \<le> y \<and> y < 400 \<and> 0 \<le> doy \<and> doy \<le> 366"
proof -
  have abc: "0 \<le> a" "0 \<le> b" "0 \<le> c" "c \<le> 1" "b \<le> 4" "a \<le> 100" using assms(1,2) a b c by linarith+
  have "25 * b \<le> a" using a b abc by linarith
  have y0: "0 \<le> y" using y a c abc assms(1) by linarith
  have y4: "y < 400"
  proof (cases "doe < 146000")
    case True
    then show ?thesis using y \<open>25 * b \<le> a\<close> abc by linarith
  next
    case False
    then have "100 \<le> a" using a by linarith
    show ?thesis
    proof (cases "doe = 146096")
      case True
      then have "c = 1" using c by linarith
      then show ?thesis using y \<open>100 \<le> a\<close> abc True by linarith
    next
      case False
      then have "b \<le> 3" using b assms(2) by linarith
      then show ?thesis using y \<open>100 \<le> a\<close> abc assms(2) False by linarith
    qed
  qed
  have kl: "k \<le> 25 * l + 24" "25 * l \<le> k" using k l by linarith+
  have lo: "0 \<le> doy"
  proof (rule ccontr)
    assume "\<not> 0 \<le> doy"
    then have "b \<le> l" using d b l kl by linarith
    moreover have "k \<le> a" using y k a abc \<open>25 * b \<le> a\<close> by linarith
    ultimately show False using y abc d \<open>\<not> 0 \<le> doy\<close> by linarith
  qed
  have hi: "doy \<le> 366"
  proof (rule ccontr)
    assume "\<not> doy \<le> 366"
    then have "l \<le> b" using d b l kl by linarith
    moreover have "a \<le> k + 1" using y k a abc y4 by linarith
    ultimately show False using y abc d \<open>\<not> doy \<le> 366\<close> by linarith
  qed
  from y0 y4 lo hi show ?thesis by simp
qed
lemma div_bounds: "0 < n \<Longrightarrow> n * (x div n) \<le> x" "0 < n \<Longrightarrow> x < n * (x div n) + n" for x n :: int
  using pos_mod_sign [of n x] pos_mod_bound [of n x] mult_div_mod_eq [of n x] by linarith+

lemma days_of_civil_date:
  assumes c: "civil_date z = (y, m, d)"
  shows "days_of_civil y m d = z \<and> 1 \<le> m \<and> m \<le> 12 \<and> 1 \<le> d \<and> d \<le> 31 \<and>
    400 * ((z + 719468) div 146097) \<le> y \<and> y \<le> 400 * ((z + 719468) div 146097) + 400"
proof -
  define era where era: "era = (z + 719468) div 146097" 
  define doe where doe: "doe = (z + 719468) mod 146097"
  define yoe where yoe: "yoe = (doe - doe div 1460 + doe div 36524 - doe div 146096) div 365"
  define doy where doy: "doy = doe - (365 * yoe + yoe div 4 - yoe div 100)"
  define mp where mp: "mp = (5 * doy + 2) div 153"
  define m' where m': "m' = (if mp < 10 then mp + 3 else mp - 9)"
  have z: "z = era * 146097 + doe - 719468" unfolding era doe by (simp add: div_mult_mod_eq)
  have "civil_date z = (if m' \<le> 2 then yoe + era * 400 + 1 else yoe + era * 400, m', doy - (153 * mp + 2) div 5 + 1)"
    unfolding civil_date_def Let_def m' mp doy yoe doe era by (rule refl)
  then have dd: "d = doy - (153 * mp + 2) div 5 + 1" and mm: "m = m'"
    and yy: "y = (if m' \<le> 2 then yoe + era * 400 + 1 else yoe + era * 400)" unfolding c by blast+
  have b: "0 \<le> yoe \<and> yoe < 400 \<and> 0 \<le> doy \<and> doy \<le> 366"
  proof (rule era_bounds [OF _ _ div_bounds div_bounds div_bounds _ _ _ _ _ _ doy])
    show "0 \<le> doe" "doe < 146097" unfolding doe by simp_all
    show "365 * yoe \<le> doe - doe div 1460 + doe div 36524 - doe div 146096" 
      unfolding yoe by (rule div_bounds) simp
    show "doe - doe div 1460 + doe div 36524 - doe div 146096 \<le> 365 * yoe + 364"
      using div_bounds(2) [of 365 "doe - doe div 1460 + doe div 36524 - doe div 146096"] unfolding yoe by simp
    show "4 * (yoe div 4) \<le> yoe" "100 * (yoe div 100) \<le> yoe" by (rule div_bounds, simp)+
    show "yoe \<le> 4 * (yoe div 4) + 3" "yoe \<le> 100 * (yoe div 100) + 99" using div_bounds(2) [of 4 yoe] div_bounds(2) [of 100 yoe] by linarith+
  qed simp_all
  have m11: "0 \<le> mp" "mp \<le> 11" using b unfolding mp by linarith+
  have mb: "(if 2 < m then m - 3 else m + 9) = mp" "1 \<le> m" "m \<le> 12" using m11 unfolding mm m' by auto
  have y1: "(if m \<le> 2 then y - 1 else y) = yoe + era * 400" unfolding yy mm by simp
  have y2: "(yoe + era * 400) div 400 = era" "(yoe + era * 400) mod 400 = yoe" using b by auto
  have "days_of_civil y m d = z"
    unfolding days_of_civil_def y1 Let_def y2 mb(1) using dd doy z by linarith
  moreover have "1 \<le> d \<and> d \<le> 31" using dd div_bounds [of 153 "5 * doy + 2"] div_bounds [of 5 "153 * mp + 2"] unfolding mp [symmetric] by linarith
  moreover have "400 * era \<le> y \<and> y \<le> 400 * era + 400" using b yy by auto
  ultimately show ?thesis using mb unfolding era by simp
qed

text \<open>The hours of every time whose nanoseconds fit an int64 (years 1677 to 2262) are in this range.\<close>

definition hour_range :: "int \<Rightarrow> bool" where
  "hour_range h \<longleftrightarrow> \<bar>h\<bar> \<le> 3000000"

lemma parse_hour_path:
  assumes "hour_range h"
  shows "parse_path (hour_path h) = Some h"
proof -
  obtain y m d where c: "civil_date (h div 24) = (y, m, d)" by (cases "civil_date (h div 24)")
  note f = days_of_civil_date [OF c]
  have "- 125000 \<le> h div 24 \<and> h div 24 \<le> 125000" using assms using div_bounds [of 24 h] unfolding hour_range_def by linarith
  then have "3 \<le> (h div 24 + 719468) div 146097 \<and> (h div 24 + 719468) div 146097 \<le> 6"
    using div_bounds [of 146097 "h div 24 + 719468"] by linarith
  then have y: "1200 \<le> y" "y \<le> 2800" using f by linarith+
  let ?Y = "zpad 4 (nat y)" and ?M = "zpad 2 (nat m)" and ?D = "zpad 2 (nat d)" and ?H = "zpad 2 (nat (h mod 24))"
  have n: "nat y < 10 ^ 4" "nat m < 10 ^ 2" "nat d < 10 ^ 2" "nat (h mod 24) < 10 ^ 2"
    using f y pos_mod_bound [of 24 h] by (simp_all add: nat_less_iff)
  have len: "length ?Y = 4" "length ?M = 2" "length ?D = 2" "length ?H = 2"
    by (rule length_zpad [OF n(1)] length_zpad [OF n(2)] length_zpad [OF n(3)] length_zpad [OF n(4)], simp)+
  have r: "read_dec ?Y = Some y" "read_dec ?M = Some m" "read_dec ?D = Some d" "read_dec ?H = Some (h mod 24)"
    using n f y by (simp_all add: read_dec_zpad)
  have p: "hour_path h = ?Y @ ''/'' @ ?M @ ''/'' @ ?D @ ''/'' @ ?H"
    using y by (simp add: hour_path_def c year_str_def)
  have hh: "h mod 24 \<le> 23" "24 * (h div 24) + h mod 24 = h" using pos_mod_bound [of 24 h] by simp_all
  have shape: "length (hour_path h) = 13" "hour_path h ! 4 = CHR ''/''" "hour_path h ! 7 = CHR ''/''" "hour_path h ! 10 = CHR ''/''"
      "take 4 (hour_path h) = ?Y" "take 2 (drop 5 (hour_path h)) = ?M" "take 2 (drop 8 (hour_path h)) = ?D" "drop 11 (hour_path h) = ?H"
    unfolding p using len by (simp_all add: nth_append)
  show ?thesis
    unfolding parse_path_def shape r using f hh c by simp
qed

lemma read_dec_padded: "read_dec (replicate k CHR ''0'' @ dec n) = Some (int n)"
proof (induction n arbitrary: k rule: dec.induct)
  case (1 n)
  have zeros: "read_dec (replicate (Suc j) CHR ''0'') = Some 0" for j
    by (induction j) (simp_all add: read_dec_def split: if_splits)
  show ?case
  proof (cases "n < 10")
    case True
    show ?thesis
    proof (cases k)
      case 0
      then show ?thesis using True read_dec_zpad [of 1 n] by (simp add: zpad_def dec_small)
    next
      case (Suc j)
      then show ?thesis using read_dec_snoc [OF zeros [of j] True] True by (simp add: dec_small)
    qed
  next
    case False
    have "10 * int (n div 10) + int (n mod 10) = int (10 * (n div 10) + n mod 10)" by (simp only: of_nat_add of_nat_mult of_nat_numeral)
    then have "10 * int (n div 10) + int (n mod 10) = int n" by (simp only: mult_div_mod_eq)
    with False show ?thesis
      using read_dec_snoc [OF "1.IH" [OF False, of k], of "n mod 10"] by (simp add: dec_big)
  qed
qed

lemma zpad_inject: "zpad w m = zpad w n \<Longrightarrow> m = n"
  using read_dec_padded by (metis of_nat_eq_iff option.inject zpad_def)

lemma zpad_not_minus: "zpad w m \<noteq> CHR ''-'' # xs"
proof
  assume "zpad w m = CHR ''-'' # xs"
  then have "read_dec (CHR ''-'' # xs) = Some (int m)" using read_dec_padded by (metis zpad_def)
  then show False by (simp add: read_dec_def)
qed

lemma year_str_inject: "year_str y = year_str y' \<Longrightarrow> y = y'"
  by (cases "y < 0"; cases "y' < 0")
    (auto simp: year_str_def zpad_not_minus zpad_not_minus [symmetric] dest!: zpad_inject)

text \<open>The names are different for any two hours, years outside 0 to 9999 included.\<close>

lemma hour_path_inj: "inj hour_path"
proof (rule injI)
  fix h k
  assume eq: "hour_path h = hour_path k"
  obtain y m d where c: "civil_date (h div 24) = (y, m, d)" by (cases "civil_date (h div 24)")
  obtain y' m' d' where c': "civil_date (k div 24) = (y', m', d')" by (cases "civil_date (k div 24)")
  note f = days_of_civil_date [OF c] and f' = days_of_civil_date [OF c']
  have n: "nat m < 10 ^ 2" "nat d < 10 ^ 2" "nat (h mod 24) < 10 ^ 2" "nat m' < 10 ^ 2" "nat d' < 10 ^ 2" "nat (k mod 24) < 10 ^ 2"
    using f f' pos_mod_bound [of 24 h] pos_mod_bound [of 24 k] by (simp_all add: nat_less_iff)
  then have len: "length (zpad 2 (nat m)) = length (zpad 2 (nat m'))" "length (zpad 2 (nat d)) = length (zpad 2 (nat d'))"
    "length (zpad 2 (nat (h mod 24))) = length (zpad 2 (nat (k mod 24)))" by (simp_all add: length_zpad)
  have eqs: "year_str y = year_str y'" "zpad 2 (nat m) = zpad 2 (nat m')" "zpad 2 (nat d) = zpad 2 (nat d')"
    "zpad 2 (nat (h mod 24)) = zpad 2 (nat (k mod 24))"
    using eq unfolding hour_path_def c c' prod.case by (simp_all add: append_eq_append_conv len append_eq_append_conv [of "_ # _" "_ # _"] flip: append_Cons append_assoc)
  have "y = y'" using eqs(1) by (rule year_str_inject)
  moreover have "m = m'" "d = d'" "h mod 24 = k mod 24"
    using zpad_inject [OF eqs(2)] zpad_inject [OF eqs(3)] zpad_inject [OF eqs(4)] f f' pos_mod_sign [of 24 h] pos_mod_sign [of 24 k]
    by (simp_all add: eq_nat_nat_iff)
  ultimately have "h div 24 = k div 24" using f f' by simp
  with \<open>h mod 24 = k mod 24\<close> show "h = k" by (metis div_mult_mod_eq)
qed

section \<open>Candidate partitions\<close>

lemma hours_until_set: "set (hours_until h n) = {k. h \<le> k \<and> k * hour_ns \<le> n}"
proof (induction h n rule: hours_until.induct)
  case (1 h n)
  have le: "h * hour_ns \<le> k * hour_ns" if "h \<le> k" for k using that by (simp add: hour_ns_def)
  show ?case
  proof (cases "h * hour_ns \<le> n")
    case True
    then have "set (hours_until h n) = insert h {k. h + 1 \<le> k \<and> k * hour_ns \<le> n}"
      using 1 by (subst hours_until.simps) simp
    also have "\<dots> = {k. h \<le> k \<and> k * hour_ns \<le> n}" using True by auto
    finally show ?thesis .
  next
    case False
    then have "hours_until h n = []" by (subst hours_until.simps) simp
    with False le show ?thesis by force
  qed
qed

lemma hours_until_distinct: "distinct (hours_until h n)"
proof (induction h n rule: hours_until.induct)
  case (1 h n)
  then show ?case by (subst hours_until.simps) (simp add: hours_until_set)
qed

lemma instant_hour: "instant t div hour_ns * hour_ns \<le> instant t" "instant t < (instant t div hour_ns + 1) * hour_ns"
  using div_bounds [of hour_ns "instant t"] by (simp_all add: hour_ns_def algebra_simps)

lemma nano_hour_range: "nano_range t \<Longrightarrow> hour_range (instant t div hour_ns)"
  using div_bounds [of hour_ns "instant t"] unfolding nano_range_def hour_range_def hour_ns_def by (simp add: abs_le_iff)

text \<open>
  The entries for which the time bounds of a query select the right partitions: those that the
  store filed under their UTC hour.
\<close>

definition time_bounded :: "log_query \<Rightarrow> bool" where
  "time_bounded q \<longleftrightarrow> \<not> IsZero (q_StartTime q) \<or> \<not> IsZero (q_EndTime q)"

lemma candidate_complete:
  assumes dirs: "collectCandidateDirs flt q s = Inr dirs" and m: "Matches e q" and ok: "times_ok q e"
    and utc: "time_bounded q \<Longrightarrow> zone (Timestamp e) = 0" and dir: "map_of (fs_disk s) (partition_dir (Timestamp e)) \<noteq> None"
  shows "partition_dir (Timestamp e) \<in> set dirs"
proof -
  let ?h = "instant (Timestamp e) div hour_ns"
  have mem: "partition_dir (Timestamp e) \<in> fst ` set (fs_disk s)"
    using dir by (metis map_of_eq_None_iff)
  have nr: "hour_range ?h" using ok by (intro nano_hour_range) (simp add: times_ok_def)
  have path: "partition_dir (Timestamp e) = hour_path ?h" if "time_bounded q"
    using utc [OF that] by (simp add: partition_dir_def local_hour_def)
  have st: "instant (q_StartTime q) \<le> instant (Timestamp e)" if "\<not> IsZero (q_StartTime q)" by (rule Matches_Start [OF m that])
  have en: "instant (Timestamp e) \<le> instant (q_EndTime q)" if "\<not> IsZero (q_EndTime q)" by (rule Matches_End [OF m that])
  consider (both) "\<not> IsZero (q_StartTime q)" "\<not> IsZero (q_EndTime q)"
    | (one) "\<not> (\<not> IsZero (q_StartTime q) \<and> \<not> IsZero (q_EndTime q))" "time_bounded q" | (none) "\<not> time_bounded q"
    by (auto simp: time_bounded_def)
  then show ?thesis
  proof cases
    case both
    have "?h \<in> set (hours_until (instant (q_StartTime q) div hour_ns) (instant (q_EndTime q)))"
      unfolding hours_until_set using st [OF both(1)] en [OF both(2)] instant_hour(1) [of "Timestamp e"]
      by (auto simp: hour_ns_def zdiv_mono1)
    with both dirs path dir show ?thesis
      by (auto simp: collectCandidateDirs_def generateCandidateDirs_def sort_desc_def time_bounded_def)
  next
    case one
    have "dir_candidate q (hour_path ?h)"
      unfolding dir_candidate_def parse_hour_path [OF nr]
      using st en instant_hour [of "Timestamp e"] by fastforce
    moreover have "dirs = filter (dir_candidate q) (rev (sort (map fst (fs_disk s))))"
      using one dirs by (auto simp: collectCandidateDirs_def walkAndFilterDirs_def walkAllDirs_def sort_desc_def
          time_bounded_def split: if_splits)
    ultimately show ?thesis using mem path [OF one(2)] by simp
  next
    case none
    then have "dirs = rev (sort (map fst (fs_disk s)))"
      using dirs by (auto simp: collectCandidateDirs_def walkAllDirs_def sort_desc_def time_bounded_def split: if_splits)
    with mem show ?thesis by simp
  qed
qed

lemma candidate_distinct:
  assumes dirs: "collectCandidateDirs flt q s = Inr dirs" and wf: "wf_map (fs_disk s)"
  shows "distinct dirs" and "set dirs \<subseteq> fst ` set (fs_disk s)"
proof -
  have "distinct (map hour_path (hours_until h n))" for h n
    using hour_path_inj by (auto simp: distinct_map hours_until_distinct intro: inj_on_subset)
  with dirs wf show "distinct dirs"
    by (auto simp: collectCandidateDirs_def generateCandidateDirs_def walkAndFilterDirs_def walkAllDirs_def sort_desc_def
        split: if_splits)
  show "set dirs \<subseteq> fst ` set (fs_disk s)"
    using dirs by (auto simp: collectCandidateDirs_def generateCandidateDirs_def walkAndFilterDirs_def walkAllDirs_def
        sort_desc_def map_of_eq_None_iff split: if_splits)
qed

section \<open>Query\<close>

lemma take_matching_take:
  assumes "int (length m) \<le> q_Limit q"
  shows "take_matching q es m = take (nat (q_Limit q)) (m @ filter (\<lambda>e. Matches e q) (rev es))"
proof -
  have "foldl (\<lambda>m e. if q_Limit q \<le> int (length m) then m else if Matches e q then m @ [e] else m) m xs =
      take (nat (q_Limit q)) (m @ filter (\<lambda>e. Matches e q) xs)" for xs
    using assms
  proof (induction xs arbitrary: m)
    case Nil
    then show ?case by simp
  next
    case (Cons x xs)
    show ?case
    proof (cases "q_Limit q \<le> int (length m)")
      case True
      with Cons.prems have eq: "q_Limit q = int (length m)" by simp
      show ?thesis unfolding foldl_Cons using Cons.IH [OF Cons.prems] True eq by simp
    next
      case False
      then show ?thesis
        using Cons.IH [of "if Matches x q then m @ [x] else m"] by (simp del: take_append)
    qed
  qed
  from this [of "rev es"] show ?thesis by (simp add: take_matching_def)
qed

lemma covered_header_matches:
  assumes "header_covers h e" and "Matches e q" and "times_ok q e"
  shows "MatchesQuery h q"
proof (rule covered_matches [OF _ assms(2,3)])
  let ?a = "\<lparr>ba_min = bh_MinTimestampNano h, ba_max = bh_MaxTimestampNano h, ba_mask = bh_LevelMask h,
      ba_hosts = bh_Hosts h, ba_sources = bh_Sources h, ba_raw = []\<rparr>"
  have "\<not> IsZero (Timestamp e)" using assms(3) nano_range_not_zero by (auto simp: times_ok_def)
  then show "covers zero_time ?a e" using assms(1) by (simp add: covers_def header_covers_def Let_def)
qed simp_all

lemma take_append_take: "take n (take n xs @ ys) = take n (xs @ ys)"
  by (simp add: min_def)

text \<open>The entries of a partition that a query looks at and that match: those of the blocks its headers do not rule out.\<close>

definition block_hits :: "block_codec \<Rightarrow> log_query \<Rightarrow> partition \<Rightarrow> block_header list \<Rightarrow> log_entry list" where
  "block_hits cd q p hs =
     filter (\<lambda>e. Matches e q) (concat (map (\<lambda>h. rev (block_entries cd p h)) (filter (\<lambda>h. MatchesQuery h q) hs)))"

lemma query_blocks_hits:
  assumes "\<forall>h\<in>set hs. block_ok cd dir p h" and "int (length m) \<le> q_Limit q"
  shows "query_blocks cd no_faults q dir p hs m = Inr (take (nat (q_Limit q)) (m @ block_hits cd q p hs))"
  using assms
proof (induction hs arbitrary: m)
  case Nil
  then show ?case by (simp add: block_hits_def)
next
  case (Cons h hs)
  obtain bf es where b: "map_of (p_blocks p) (bh_FileName h) = Some bf" "DecodeBlock cd (bf_data bf) = Inr es"
    using Cons.prems(1) by (auto simp: block_ok_def)
  then have es: "block_entries cd p h = es" by (simp add: block_entries_def)
  consider (full) "q_Limit q \<le> int (length m)" | (skip) "\<not> q_Limit q \<le> int (length m)" "\<not> MatchesQuery h q"
    | (read) "\<not> q_Limit q \<le> int (length m)" "MatchesQuery h q" by blast
  then show ?case
  proof cases
    case full
    with Cons.prems(2) have "q_Limit q = int (length m)" by simp
    with full show ?thesis by simp
  next
    case skip
    with Cons show ?thesis by (simp add: block_hits_def)
  next
    case read
    have len: "int (length (take_matching q es m)) \<le> q_Limit q"
      using Cons.prems(2) by (simp add: take_matching_take)
    have "query_blocks cd no_faults q dir p (h # hs) m = query_blocks cd no_faults q dir p hs (take_matching q es m)"
      using read b by simp
    also have "\<dots> = Inr (take (nat (q_Limit q)) (take_matching q es m @ block_hits cd q p hs))"
      using Cons.IH [OF _ len] Cons.prems(1) by simp
    finally show ?thesis using read(2)
      by (simp del: take_append add: take_matching_take [OF Cons.prems(2)] take_append_take es block_hits_def)
  qed
qed

lemma getPartitionHeaders_ok:
  assumes "store_ok cd s"
  shows "getPartitionHeaders no_faults dir s = (cached s dir, s)"
proof (cases "map_of (fs_cache s) dir")
  case None
  then have c: "cached s dir = []" by (simp add: cached_def)
  show ?thesis
  proof (cases "map_of (fs_disk s) dir")
    case None
    with \<open>map_of (fs_cache s) dir = None\<close> c show ?thesis by (simp add: getPartitionHeaders_def)
  next
    case (Some p)
    then have po: "partition_ok cd s dir p" using assms by (simp add: store_ok_def')
    then have "index_headers p = []" using c by (simp add: partition_ok_def')
    then have "LoadPartitionIndex no_faults dir p = Inr []" using LoadPartitionIndex_ok [OF po] by simp
    with None Some c show ?thesis by (simp add: getPartitionHeaders_def)
  qed
qed (simp add: getPartitionHeaders_def cached_def)

definition dir_hits :: "block_codec \<Rightarrow> log_query \<Rightarrow> file_store \<Rightarrow> string \<Rightarrow> log_entry list" where
  "dir_hits cd q s dir =
     (case (map_of (fs_summaries s) dir, map_of (fs_disk s) dir) of
        (Some ps, Some p) \<Rightarrow> if summary_matches ps q then block_hits cd q p (rev (cached s dir)) else []
      | (None, Some p) \<Rightarrow> block_hits cd q p (rev (cached s dir))
      | (_, None) \<Rightarrow> [])"

text \<open>
  The entries a query is sure to find. The store keeps the bounds of a block in nanoseconds, it
  compares host and source exactly when it prunes a partition and case-insensitively everywhere
  else, and it looks for a time range in the UTC hours while it files an entry under the hour of
  its own zone.
\<close>

definition query_suits :: "log_query \<Rightarrow> log_entry \<Rightarrow> bool" where
  "query_suits q e \<longleftrightarrow> times_ok q e \<and>
     (Matches e q \<longrightarrow> (q_Host q \<noteq> '''' \<longrightarrow> Host e = q_Host q) \<and> (q_Source q \<noteq> '''' \<longrightarrow> Source e = q_Source q) \<and>
        (time_bounded q \<longrightarrow> zone (Timestamp e) = 0))"

lemma mset_concat_rev: "mset (concat (map f (rev xs))) = mset (concat (map f xs))"
  by (induction xs) (simp_all add: union_commute)

lemma block_hits_sub: "mset (block_hits cd q p hs) \<subseteq># filter_mset (\<lambda>e. Matches e q) (mset (concat (map (block_entries cd p) hs)))"
proof (induction hs)
  case (Cons h hs)
  have "mset (block_hits cd q p (h # hs)) \<subseteq># filter_mset (\<lambda>e. Matches e q) (mset (block_entries cd p h)) + mset (block_hits cd q p hs)"
    by (simp add: block_hits_def)
  also have "\<dots> \<subseteq># filter_mset (\<lambda>e. Matches e q) (mset (block_entries cd p h)) +
      filter_mset (\<lambda>e. Matches e q) (mset (concat (map (block_entries cd p) hs)))"
    using Cons.IH by (rule subset_mset.add_left_mono)
  finally show ?case by simp
qed (simp add: block_hits_def)

lemma block_hits_complete:
  assumes "\<forall>h\<in>set hs. block_ok cd dir p h"
  shows "filter_mset (\<lambda>e. Matches e q \<and> times_ok q e) (mset (concat (map (block_entries cd p) hs))) \<subseteq># mset (block_hits cd q p hs)"
  using assms
proof (induction hs)
  case (Cons h hs)
  let ?f = "\<lambda>e. Matches e q \<and> times_ok q e"
  have cov: "\<forall>e\<in>set (block_entries cd p h). header_covers h e" using Cons.prems by (simp add: block_ok_def)
  have "filter_mset ?f (mset (block_entries cd p h)) + mset (block_hits cd q p hs) \<subseteq># mset (block_hits cd q p (h # hs))"
  proof (cases "MatchesQuery h q")
    case True
    have "filter_mset ?f M \<subseteq># filter_mset (\<lambda>e. Matches e q) M" for M :: "log_entry multiset"
      by (rule filter_mset_mono_strong) simp_all
    with True show ?thesis by (simp add: block_hits_def)
  next
    case False
    then have "filter_mset ?f (mset (block_entries cd p h)) = {#}"
      using cov covered_header_matches by (auto simp: filter_mset_eq_mempty_iff)
    with False show ?thesis by (simp add: block_hits_def)
  qed
  moreover have "filter_mset ?f (mset (block_entries cd p h)) + filter_mset ?f (mset (concat (map (block_entries cd p) hs))) \<subseteq>#
      filter_mset ?f (mset (block_entries cd p h)) + mset (block_hits cd q p hs)"
    using Cons.IH Cons.prems by (intro subset_mset.add_left_mono) simp
  ultimately have "filter_mset ?f (mset (block_entries cd p h)) + filter_mset ?f (mset (concat (map (block_entries cd p) hs))) \<subseteq>#
      mset (block_hits cd q p (h # hs))" by (rule subset_mset.order_trans [rotated])
  then show ?case by simp
qed (simp add: block_hits_def)

lemma dir_hits_sub: "mset (dir_hits cd q s dir) \<subseteq># filter_mset (\<lambda>e. Matches e q) (mset (dir_stored cd s dir))"
  using block_hits_sub [of cd q _ "rev (cached s dir)"]
  by (cases "map_of (fs_disk s) dir"; cases "map_of (fs_summaries s) dir")
    (simp_all add: dir_hits_def dir_stored_def mset_concat_rev)

lemma summary_pruned_dir:
  assumes po: "partition_ok cd s dir p" and p: "map_of (fs_disk s) dir = Some p"
    and ps: "map_of (fs_summaries s) dir = Some ps" "\<not> summary_matches ps q"
    and e: "e \<in> set (dir_stored cd s dir)" and m: "Matches e q"
  shows "\<not> query_suits q e"
proof
  assume "query_suits q e"
  then have su: "times_ok q e" "q_Host q \<noteq> '''' \<Longrightarrow> Host e = q_Host q" "q_Source q \<noteq> '''' \<Longrightarrow> Source e = q_Source q"
    using m by (auto simp: query_suits_def)
  obtain h where h: "h \<in> set (cached s dir)" "e \<in> set (block_entries cd p h)"
    using e p by (auto simp: dir_stored_def)
  have cov: "header_covers h e" and sc: "summary_covers ps h" using po h ps(1) by (auto simp: partition_ok_def' block_ok_def)
  have "summary_matches ps q"
    by (rule summary_match [OF sc covered_header_matches [OF cov m su(1)] su(1)])
      (use cov su in \<open>auto simp: header_covers_def\<close>)
  with ps(2) show False ..
qed

lemma dir_hits_complete:
  assumes ok: "store_ok cd s"
  shows "filter_mset (\<lambda>e. Matches e q \<and> query_suits q e) (mset (dir_stored cd s dir)) \<subseteq># mset (dir_hits cd q s dir)"
proof (cases "map_of (fs_disk s) dir")
  case None
  then show ?thesis by (simp add: dir_stored_def)
next
  case (Some p)
  then have po: "partition_ok cd s dir p" using ok by (simp add: store_ok_def')
  show ?thesis
  proof (cases "\<exists>ps. map_of (fs_summaries s) dir = Some ps \<and> \<not> summary_matches ps q")
    case True
    with summary_pruned_dir [OF po Some] have "filter_mset (\<lambda>e. Matches e q \<and> query_suits q e) (mset (dir_stored cd s dir)) = {#}"
      by (auto simp: filter_mset_eq_mempty_iff)
    then show ?thesis by (metis subset_mset.bot_least)
  next
    case False
    then have "dir_hits cd q s dir = block_hits cd q p (rev (cached s dir))"
      using Some by (auto simp: dir_hits_def split: option.splits)
    moreover have "filter_mset (\<lambda>e. Matches e q \<and> query_suits q e) M \<subseteq># filter_mset (\<lambda>e. Matches e q \<and> times_ok q e) M" for M
      by (rule filter_mset_mono_strong) (simp_all add: query_suits_def)
    moreover have "filter_mset (\<lambda>e. Matches e q \<and> times_ok q e) (mset (dir_stored cd s dir)) \<subseteq># mset (block_hits cd q p (rev (cached s dir)))"
      using block_hits_complete [of "rev (cached s dir)" cd dir p q] po Some
      by (simp add: partition_ok_def' dir_stored_def mset_concat_rev)
    ultimately show ?thesis unfolding \<open>dir_hits cd q s dir = _\<close> using subset_mset.order_trans by blast
  qed
qed

lemma query_dirs_hits:
  assumes ok: "store_ok cd s" and "int (length m) \<le> q_Limit q" and "set dirs \<subseteq> fst ` set (fs_disk s)"
  shows "query_dirs cd no_faults q dirs m s =
    (Inr (take (nat (q_Limit q)) (m @ concat (map (dir_hits cd q s) dirs))), s)"
  using assms(2-)
proof (induction dirs arbitrary: m)
  case Nil
  then show ?case by simp
next
  case (Cons dir dirs)
  let ?n = "nat (q_Limit q)"
  obtain p where p: "map_of (fs_disk s) dir = Some p"
    using Cons.prems(2) by (metis list.set_intros(1) map_of_eq_None_iff not_None_eq subsetD)
  have po: "partition_ok cd s dir p" using ok p by (simp add: store_ok_def')
  have lg: "p_logs p = []" using po by (simp add: partition_ok_def')
  consider (full) "q_Limit q \<le> int (length m)"
    | (pruned) ps where "\<not> q_Limit q \<le> int (length m)" "map_of (fs_summaries s) dir = Some ps" "\<not> summary_matches ps q"
    | (read) "\<not> q_Limit q \<le> int (length m)" "\<not> (case map_of (fs_summaries s) dir of None \<Rightarrow> False | Some ps \<Rightarrow> \<not> summary_matches ps q)"
    by (cases "map_of (fs_summaries s) dir") auto
  then show ?case
  proof cases
    case full
    with Cons.prems(1) have "q_Limit q = int (length m)" by simp
    with full show ?thesis by simp
  next
    case pruned
    then have "dir_hits cd q s dir = []" using p by (simp add: dir_hits_def)
    with pruned Cons show ?thesis by simp
  next
    case read
    have blocks: "\<forall>h\<in>set (rev (cached s dir)). block_ok cd dir p h" using po by (simp add: partition_ok_def')
    have res: "dir_hits cd q s dir = block_hits cd q p (rev (cached s dir))"
      using read(2) p by (auto simp: dir_hits_def split: option.splits)
    have qb: "query_blocks cd no_faults q dir p (rev (cached s dir)) m = Inr (take ?n (m @ dir_hits cd q s dir))"
      using query_blocks_hits [OF blocks Cons.prems(1)] unfolding res .
    have "query_dirs cd no_faults q (dir # dirs) m s = query_dirs cd no_faults q dirs (take ?n (m @ dir_hits cd q s dir)) s"
      using read qb
      by (simp add: getPartitionHeaders_ok [OF ok] p queryLegacyFilesInDir_def lg)
    also have "\<dots> = (Inr (take ?n (take ?n (m @ dir_hits cd q s dir) @ concat (map (dir_hits cd q s) dirs))), s)"
      using Cons.prems by (intro Cons.IH) auto
    finally show ?thesis by (simp del: take_append add: take_append_take)
  qed
qed

section \<open>Properties\<close>

lemma dir_in_disk: "e \<in> set (dir_stored cd s dir) \<Longrightarrow> dir \<in> fst ` set (fs_disk s)"
  by (cases "map_of (fs_disk s) dir") (auto simp: dir_stored_def intro: rev_image_eqI dest: map_of_SomeD)

lemma in_sum_list_mset: "e \<in># (\<Sum>x\<leftarrow>xs. f x) \<longleftrightarrow> (\<exists>x\<in>set xs. e \<in># f x)"
  by (induction xs) auto

lemma stored_mem: "e \<in># stored cd s \<longleftrightarrow> (\<exists>dir. e \<in> set (dir_stored cd s dir))"
  unfolding stored_def in_sum_list_mset using dir_in_disk by fastforce

lemma dir_stored_dir: "store_ok cd s \<Longrightarrow> e \<in> set (dir_stored cd s dir) \<Longrightarrow> partition_dir (Timestamp e) = dir"
  by (fastforce simp: dir_stored_def store_ok_def' partition_ok_def' block_ok_def split: option.splits)

lemma mset_concat_sum: "mset (concat xss) = (\<Sum>xs\<leftarrow>xss. mset xs)"
  by (induction xss) simp_all

lemma sum_list_sub:
  fixes f :: "'k \<Rightarrow> 'b multiset"
  assumes "distinct ks" and "distinct ds" and "set ds \<subseteq> set ks"
  shows "(\<Sum>k\<leftarrow>ds. f k) \<subseteq># (\<Sum>k\<leftarrow>ks. f k)"
proof -
  have "(\<Sum>k\<leftarrow>ks. f k) = (\<Sum>k\<in>set ds. f k) + (\<Sum>k\<in>set ks - set ds. f k)"
    using assms(1,3) by (simp add: sum_list_distinct_conv_sum_set sum.subset_diff add.commute)
  then show ?thesis using assms(2) by (simp add: sum_list_distinct_conv_sum_set)
qed

lemma sum_list_superset:
  fixes f :: "'k \<Rightarrow> 'b::comm_monoid_add"
  assumes "distinct ks" and "distinct ds" and "set ds \<subseteq> set ks" and "\<And>k. k \<in> set ks \<Longrightarrow> k \<notin> set ds \<Longrightarrow> f k = 0"
  shows "(\<Sum>k\<leftarrow>ks. f k) = (\<Sum>k\<leftarrow>ds. f k)"
proof -
  have "(\<Sum>k\<leftarrow>ks. f k) = (\<Sum>k\<in>set ks. f k)" using assms(1) by (simp add: sum_list_distinct_conv_sum_set)
  also have "\<dots> = (\<Sum>k\<in>set ds. f k)" using assms(3,4) by (intro sum.mono_neutral_right) auto
  finally show ?thesis using assms(2) by (simp add: sum_list_distinct_conv_sum_set)
qed

lemma sum_list_mono_mset: "(\<And>k. k \<in> set ks \<Longrightarrow> f k \<subseteq># g k) \<Longrightarrow> (\<Sum>k\<leftarrow>ks. f k) \<subseteq># (\<Sum>k\<leftarrow>ks. g k)"
  by (induction ks) (auto intro: subset_mset.add_mono)

lemma filter_sum_list: "filter_mset P (\<Sum>x\<leftarrow>xs. f x) = (\<Sum>x\<leftarrow>xs. filter_mset P (f x))"
  by (induction xs) simp_all

lemma candidate_hits_sub:
  assumes ok: "store_ok cd s" and dirs: "collectCandidateDirs flt q s = Inr dirs"
  shows "mset (concat (map (dir_hits cd q s) dirs)) \<subseteq># filter_mset (\<lambda>e. Matches e q) (stored cd s)"
proof -
  let ?f = "\<lambda>dir. filter_mset (\<lambda>e. Matches e q) (mset (dir_stored cd s dir))"
  have wf: "wf_map (fs_disk s)" using ok by (simp add: store_ok_def')
  have "(\<Sum>dir\<leftarrow>dirs. mset (dir_hits cd q s dir)) \<subseteq># (\<Sum>dir\<leftarrow>dirs. ?f dir)"
    by (rule sum_list_mono_mset) (rule dir_hits_sub)
  also have "\<dots> \<subseteq># (\<Sum>dir\<leftarrow>map fst (fs_disk s). ?f dir)"
    using candidate_distinct [OF dirs wf] wf by (intro sum_list_sub) auto
  finally show ?thesis by (simp add: mset_concat_sum stored_def filter_sum_list comp_def)
qed

lemma candidate_hits_complete:
  assumes ok: "store_ok cd s" and dirs: "collectCandidateDirs flt q s = Inr dirs"
  shows "filter_mset (\<lambda>e. Matches e q \<and> query_suits q e) (stored cd s) \<subseteq># mset (concat (map (dir_hits cd q s) dirs))"
proof -
  let ?f = "\<lambda>dir. filter_mset (\<lambda>e. Matches e q \<and> query_suits q e) (mset (dir_stored cd s dir))"
  have wf: "wf_map (fs_disk s)" using ok by (simp add: store_ok_def')
  have none: "?f dir = {#}" if "dir \<notin> set dirs" for dir
  proof -
    have "\<not> query_suits q e" if e: "e \<in> set (dir_stored cd s dir)" and m: "Matches e q" for e
    proof
      assume "query_suits q e"
      then have "times_ok q e" "time_bounded q \<Longrightarrow> zone (Timestamp e) = 0" using m by (auto simp: query_suits_def)
      moreover have "map_of (fs_disk s) (partition_dir (Timestamp e)) \<noteq> None"
        using dir_in_disk [OF e] dir_stored_dir [OF ok e] by (simp add: map_of_eq_None_iff)
      ultimately have "dir \<in> set dirs"
        using candidate_complete [OF dirs m] dir_stored_dir [OF ok e] by simp
      with \<open>dir \<notin> set dirs\<close> show False ..
    qed
    then show ?thesis by (auto simp: filter_mset_eq_mempty_iff)
  qed
  have "filter_mset (\<lambda>e. Matches e q \<and> query_suits q e) (stored cd s) = (\<Sum>dir\<leftarrow>map fst (fs_disk s). ?f dir)"
    by (simp add: stored_def filter_sum_list comp_def)
  also have "\<dots> = (\<Sum>dir\<leftarrow>dirs. ?f dir)"
    using candidate_distinct [OF dirs wf] wf none by (intro sum_list_superset) auto
  also have "\<dots> \<subseteq># (\<Sum>dir\<leftarrow>dirs. mset (dir_hits cd q s dir))"
    by (rule sum_list_mono_mset) (rule dir_hits_complete [OF ok])
  finally show ?thesis by (simp add: mset_concat_sum comp_def)
qed

lemma Normalize_limit: "1 \<le> q_Limit (Normalize q)" "q_Limit (Normalize q) \<le> MaxQueryLimit"
  by (simp_all add: Normalize_def Let_def DefaultQueryLimit_def MaxQueryLimit_def)

lemma Query_hits:
  assumes ok: "store_ok cd s" and opn: "\<not> fs_closed s"
  obtains hits where
    "Query cd no_faults q s = (Inr (take (nat (q_Limit (Normalize q))) hits), s)"
    "mset hits \<subseteq># filter_mset (\<lambda>e. Matches e (Normalize q)) (stored cd s)"
    "filter_mset (\<lambda>e. Matches e (Normalize q) \<and> query_suits (Normalize q) e) (stored cd s) \<subseteq># mset hits"
proof -
  obtain dirs where dirs: "collectCandidateDirs no_faults (Normalize q) s = Inr dirs"
    by (cases "collectCandidateDirs no_faults (Normalize q) s")
      (auto simp: collectCandidateDirs_def walkAndFilterDirs_def walkAllDirs_def split: if_splits)
  have "set dirs \<subseteq> fst ` set (fs_disk s)" using candidate_distinct(2) [OF dirs] ok by (simp add: store_ok_def')
  from query_dirs_hits [OF ok _ this, of "[]"] Normalize_limit [of q] opn dirs
  have "Query cd no_faults q s = (Inr (take (nat (q_Limit (Normalize q))) (concat (map (dir_hits cd (Normalize q) s) dirs))), s)"
    by (simp add: Query_def Let_def)
  then show thesis using candidate_hits_sub [OF ok dirs] candidate_hits_complete [OF ok dirs] by (rule that)
qed

lemma Query_sound_complete:
  assumes ok: "store_ok cd s" and opn: "\<not> fs_closed s"
  shows "\<exists>res. Query cd no_faults q s = (Inr res, s) \<and> int (length res) \<le> q_Limit (Normalize q) \<and>
    mset res \<subseteq># filter_mset (\<lambda>e. Matches e (Normalize q)) (stored cd s) \<and>
    (int (length res) < q_Limit (Normalize q) \<longrightarrow>
       filter_mset (\<lambda>e. Matches e (Normalize q) \<and> query_suits (Normalize q) e) (stored cd s) \<subseteq># mset res)"
proof -
  let ?n = "nat (q_Limit (Normalize q))"
  obtain hits where h: "Query cd no_faults q s = (Inr (take ?n hits), s)"
    "mset hits \<subseteq># filter_mset (\<lambda>e. Matches e (Normalize q)) (stored cd s)"
    "filter_mset (\<lambda>e. Matches e (Normalize q) \<and> query_suits (Normalize q) e) (stored cd s) \<subseteq># mset hits"
    by (rule Query_hits [OF ok opn])
  have sub: "mset (take ?n hits) \<subseteq># mset hits" by (metis append_take_drop_id mset_append mset_subset_eq_add_left)
  have all: "take ?n hits = hits" if "int (length (take ?n hits)) < q_Limit (Normalize q)" using that by auto
  show ?thesis
  proof (intro exI conjI impI)
    show "Query cd no_faults q s = (Inr (take ?n hits), s)" by (rule h)
    show "int (length (take ?n hits)) \<le> q_Limit (Normalize q)" using Normalize_limit [of q] by auto
    show "mset (take ?n hits) \<subseteq># filter_mset (\<lambda>e. Matches e (Normalize q)) (stored cd s)" using sub h(2) by (rule subset_mset.order_trans)
    show "filter_mset (\<lambda>e. Matches e (Normalize q) \<and> query_suits (Normalize q) e) (stored cd s) \<subseteq># mset (take ?n hits)"
      if "int (length (take ?n hits)) < q_Limit (Normalize q)" using h(3) all [OF that] by simp
  qed
qed

lemma Query_matches:
  assumes ok: "store_ok cd s" and opn: "\<not> fs_closed s" and suits: "\<forall>e\<in>#stored cd s. query_suits (Normalize q) e"
  shows "\<exists>res. Query cd no_faults q s = (Inr res, s) \<and>
    int (length res) = min (q_Limit (Normalize q)) (int (size (filter_mset (\<lambda>e. Matches e (Normalize q)) (stored cd s)))) \<and>
    mset res \<subseteq># filter_mset (\<lambda>e. Matches e (Normalize q)) (stored cd s)"
proof -
  let ?M = "filter_mset (\<lambda>e. Matches e (Normalize q)) (stored cd s)" and ?l = "q_Limit (Normalize q)"
  have eq: "filter_mset (\<lambda>e. Matches e (Normalize q) \<and> query_suits (Normalize q) e) (stored cd s) = ?M"
    using suits by (intro filter_mset_cong) auto
  obtain res where r: "Query cd no_faults q s = (Inr res, s)" "int (length res) \<le> ?l" "mset res \<subseteq># ?M"
    "int (length res) < ?l \<Longrightarrow> ?M \<subseteq># mset res"
    using Query_sound_complete [OF ok opn, of q] unfolding eq by blast
  have "int (length res) = min ?l (int (size ?M))"
    using r(2) size_mset_mono [OF r(3)] size_mset_mono [OF r(4)] by (cases "int (length res) < ?l") auto
  with r(1,3) show ?thesis by blast
qed


text \<open>A store with two entries, for the examples.\<close>

definition ex_line :: "block_header \<Rightarrow> index_line" where
  "ex_line h = \<lparr>il_size = 1, il_header = Some h, il_open = False\<rparr>"

definition ex_store0 :: file_store where
  "ex_store0 = \<lparr>fs_disk = [], fs_closed = False, fs_totalBytes = 0, fs_knownHosts = [], fs_knownSrcs = [],
     fs_cache = [], fs_summaries = []\<rparr>"

definition ex_now :: gotime where
  "ex_now = unix_utc 1700000000000000000"

definition ex_store1 :: file_store where
  "ex_store1 = snd (Append letter_codec ex_line no_faults (\<lambda>dir. ''01234567-89'') ex_now (map letter_entry ''ab'') ex_store0)"

lemma ex_line_faithful: "index_faithful ex_line"
  by (simp add: index_faithful_def ex_line_def short_line_def)

lemma ex_store0_ok: "store_ok cd ex_store0" "stored cd ex_store0 = {#}" "uuid_fresh uuid ex_store0"
  by (simp_all add: store_ok_def' ex_store0_def stored_def uuid_fresh_def part_at_def empty_partition_def)

lemma letter_stamped: "stamped (letter_entry c)"
  by (cases c) (simp add: stamped_def IsZero_def letter_entry_def zero_time_def)

lemma ex_append:
  "Append letter_codec ex_line no_faults (\<lambda>dir. ''01234567-89'') ex_now (map letter_entry ''ab'') ex_store0 = (None, ex_store1)"
  "\<not> fs_closed ex_store1"
proof -
  have "codec_faithful letter_codec (map letter_entry ''ab'')" by (rule letter_codec_faithful) simp
  moreover have "\<forall>e\<in>set (map letter_entry ''ab''). stamped e" by (simp add: letter_stamped)
  moreover have "\<not> fs_closed ex_store0" by (simp add: ex_store0_def)
  ultimately show "Append letter_codec ex_line no_faults (\<lambda>dir. ''01234567-89'') ex_now (map letter_entry ''ab'') ex_store0 = (None, ex_store1)"
    and "\<not> fs_closed ex_store1"
    unfolding ex_store1_def prod_eq_iff using Append_total by auto
qed

lemma ex_store1_ok:
  "store_ok letter_codec ex_store1" "stored letter_codec ex_store1 = mset (map letter_entry ''ab'')" "\<not> fs_closed ex_store1"
proof -
  from Append_spec [OF ex_append(1) ex_store0_ok(1) ex_line_faithful letter_codec_faithful _ ex_store0_ok(3)]
  have "store_ok letter_codec ex_store1 \<and> stored letter_codec ex_store1 = mset (map letter_entry ''ab'')"
    by (simp add: ex_store0_ok letter_stamped)
  then show "store_ok letter_codec ex_store1" "stored letter_codec ex_store1 = mset (map letter_entry ''ab'')" by simp_all
  show "\<not> fs_closed ex_store1" by (rule ex_append)
qed

definition ex_find :: log_query where
  "ex_find = \<lparr>q_Host = ''web'', q_Source = '''', q_Level = ''info'', q_StartTime = ex_now, q_EndTime = zero_time,
     q_Search = '''', q_Limit = 10\<rparr>"

lemma ex_find_suits:
  "\<forall>e\<in>#stored letter_codec ex_store1. query_suits (Normalize ex_find) e" "q_Limit (Normalize ex_find) = 10"
proof -
  have "query_suits (Normalize ex_find) (letter_entry CHR ''a'')" "query_suits (Normalize ex_find) (letter_entry CHR ''b'')"
    by code_simp+
  then show "\<forall>e\<in>#stored letter_codec ex_store1. query_suits (Normalize ex_find) e" by (simp add: ex_store1_ok(2))
  show "q_Limit (Normalize ex_find) = 10" by code_simp
qed


end
