(* ===== verification/LogStore.thy ===== *)
theory LogStore
  imports LogEntry
begin

text \<open>
  The contract of a storage backend, the interface \<open>LogStore\<close> of \<open>internal/store/store.go\<close>, as
  far as its writers rely on it: what a store holds, and what \<open>Append\<close> does to it. \<open>env\<close>
  stands for what one call finds around it (context, clock, faults), and \<open>suits\<close> for the
  conditions on the call. \<open>ok\<close> is the consistency of a running store, \<open>durable\<close> that in addition its
  medium agrees with it, and \<open>clean\<close> an environment whose failures leave nothing half done there. The ingest handler and the cluster router are clients of this contract;
  the filesystem store provides it.
\<close>

locale log_store =
  fixes ok :: "'s \<Rightarrow> bool"
    and durable :: "'s \<Rightarrow> bool"
    and held :: "'s \<Rightarrow> log_entry multiset"
    and append :: "'env \<Rightarrow> log_entry list \<Rightarrow> 's \<Rightarrow> 'err option \<times> 's"
    and suits :: "'env \<Rightarrow> log_entry list \<Rightarrow> 's \<Rightarrow> bool"
    and clean :: "'env \<Rightarrow> bool"
  assumes append_ok: "ok s \<Longrightarrow> suits env es s \<Longrightarrow> ok (snd (append env es s))"
    and append_keeps: "ok s \<Longrightarrow> suits env es s \<Longrightarrow> held s \<subseteq># held (snd (append env es s))"
    and append_bounded: "ok s \<Longrightarrow> suits env es s \<Longrightarrow> held (snd (append env es s)) \<subseteq># held s + mset es"
    and append_stores: "ok s \<Longrightarrow> suits env es s \<Longrightarrow> fst (append env es s) = None \<Longrightarrow> held (snd (append env es s)) = held s + mset es"
    and durable_ok: "durable s \<Longrightarrow> ok s"
    and append_durable: "durable s \<Longrightarrow> suits env es s \<Longrightarrow> fst (append env es s) = None \<or> clean env \<Longrightarrow> durable (snd (append env es s))"
begin

text \<open>Any number of appends in a row: what was acknowledged is held, what is held was sent.\<close>

fun appends :: "('env \<times> log_entry list) list \<Rightarrow> 's \<Rightarrow> log_entry multiset \<times> 's" where
  "appends [] s = ({#}, s)"
| "appends ((env, es) # calls) s =
     (let (r, t) = append env es s; (acked, u) = appends calls t
      in (if r = None then mset es + acked else acked, u))"

fun all_suit :: "('env \<times> log_entry list) list \<Rightarrow> 's \<Rightarrow> bool" where
  "all_suit [] s \<longleftrightarrow> True"
| "all_suit ((env, es) # calls) s \<longleftrightarrow> suits env es s \<and> all_suit calls (snd (append env es s))"

lemma appends_spec:
  assumes "ok s" and "all_suit calls s"
  shows "ok (snd (appends calls s)) \<and> held s + fst (appends calls s) \<subseteq># held (snd (appends calls s)) \<and>
    held (snd (appends calls s)) \<subseteq># held s + (\<Sum>c\<leftarrow>calls. mset (snd c))"
  using assms
proof (induction calls arbitrary: s)
  case (Cons c calls)
  obtain env es where c: "c = (env, es)" by fastforce
  obtain r t where a: "append env es s = (r, t)" by fastforce
  obtain acked u where u: "appends calls t = (acked, u)" by fastforce
  have suits: "suits env es s" and rest: "all_suit calls t" using Cons.prems(2) c a by simp_all
  have t: "ok t" "held s \<subseteq># held t" "held t \<subseteq># held s + mset es" "r = None \<Longrightarrow> held t = held s + mset es"
    using append_ok [OF Cons.prems(1) suits] append_keeps [OF Cons.prems(1) suits] append_bounded [OF Cons.prems(1) suits]
      append_stores [OF Cons.prems(1) suits] a by simp_all
  have ih: "ok u" "held t + acked \<subseteq># held u" "held u \<subseteq># held t + (\<Sum>c\<leftarrow>calls. mset (snd c))"
    using Cons.IH [OF t(1) rest] u by simp_all
  have low: "held s + (if r = None then mset es + acked else acked) \<subseteq># held t + acked"
    using t(2,4) by (cases r) (auto simp: add.assoc)
  have high: "held t + (\<Sum>c\<leftarrow>calls. mset (snd c)) \<subseteq># held s + mset es + (\<Sum>c\<leftarrow>calls. mset (snd c))"
    using t(3) by simp
  show ?case
    using ih(1) subset_mset.order_trans [OF low ih(2)] subset_mset.order_trans [OF ih(3) high]
    by (simp add: c a u add.assoc)
qed simp

end

end
