(* ===== verification/StoreDurable.thy ===== *)
theory StoreDurable
  imports StoreQuery LogStore
begin

text \<open>
  What the filesystem store keeps: an accepted batch is stored completely, a restart on the same
  directory and a compaction, under any faults, keep every entry. The incremental partition summaries
  equal those rebuilt from the index.
\<close>

section \<open>Reopening\<close>

lemma mset_concat_map_cong: "mset xs = mset ys \<Longrightarrow> mset (concat (map f xs)) = mset (concat (map f ys))"
  by (metis mset_concat_sum mset_map sum_mset_sum_list)

lemma fold_covers:
  assumes "\<not> IsZero (ps_MinTime ps)" and "\<not> IsZero (ps_MaxTime ps)" and "list_all header_typed hs"
  defines "t \<equiv> fold (\<lambda>h p. update_summary h (Some p)) hs ps"
  shows "\<not> IsZero (ps_MinTime t) \<and> \<not> IsZero (ps_MaxTime t) \<and>
    (\<forall>g. g \<in> set hs \<or> summary_covers ps g \<longrightarrow> summary_covers t g)"
  using assms(1-3) unfolding t_def
proof (induction hs arbitrary: ps)
  case (Cons h hs)
  have nz: "\<not> IsZero (ps_MinTime (update_summary h (Some ps)))" "\<not> IsZero (ps_MaxTime (update_summary h (Some ps)))"
    using Cons.prems(3) update_summary_Some [of h "Some ps"] by simp_all
  from Cons.IH [OF nz] Cons.prems show ?case
    using update_covers_new [of h "Some ps"] update_covers_old by (simp add: list_all_iff)
qed simp

lemma build_covers:
  assumes "hs \<noteq> []" and "list_all header_typed hs"
  obtains ps where "buildPartitionSummaryLocked hs = Some ps" and "\<not> IsZero (ps_MinTime ps)" and "\<not> IsZero (ps_MaxTime ps)"
    and "\<forall>h\<in>set hs. summary_covers ps h"
proof -
  obtain h gs where hs: "hs = h # gs" using assms(1) by (cases hs) auto
  let ?t = "fold (\<lambda>h p. update_summary h (Some p)) gs (update_summary h None)"
  have nz: "\<not> IsZero (ps_MinTime (update_summary h None))" "\<not> IsZero (ps_MaxTime (update_summary h None))"
    using assms(2) hs update_summary_Some [of h None] by simp_all
  have t: "\<not> IsZero (ps_MinTime ?t) \<and> \<not> IsZero (ps_MaxTime ?t) \<and>
      (\<forall>g. g \<in> set gs \<or> summary_covers (update_summary h None) g \<longrightarrow> summary_covers ?t g)"
    using fold_covers [OF nz, of gs] assms(2) hs by simp
  show thesis
    using that [of ?t] build_as_updates [of h gs] assms(2) hs t update_covers_new [of h None] by auto
qed

definition load_headers :: "partition \<Rightarrow> block_header list" where
  "load_headers p = (case LoadPartitionIndex no_faults '''' p of Inl e \<Rightarrow> [] | Inr hs \<Rightarrow> hs)"

lemma LoadPartitionIndex_load: "LoadPartitionIndex no_faults dir p = Inr (load_headers p)"
  by (simp add: load_headers_def LoadPartitionIndex_def Let_def split: option.splits)

definition indexed :: "partition \<Rightarrow> bool" where
  "indexed p \<longleftrightarrow> \<not> (p_index p = None \<and> p_legacy p = None)"

lemma learn_frame [simp]:
  "fs_disk (fold learn_header hs s) = fs_disk s" "fs_closed (fold learn_header hs s) = fs_closed s"
  "fs_cache (fold learn_header hs s) = fs_cache s" "fs_summaries (fold learn_header hs s) = fs_summaries s"
  by (induction hs arbitrary: s) (simp_all add: learn_header_def)

lemma scan_partitions_fold:
  fixes s :: file_store
  assumes "wf_map xs"
  defines "t \<equiv> fold (scan_partition no_faults) xs s"
  shows "fs_disk t = fs_disk s \<and> fs_closed t = fs_closed s \<and> (wf_map (fs_cache s) \<longrightarrow> wf_map (fs_cache t)) \<and>
    map_of (fs_cache t) = (\<lambda>dir. case map_of xs dir of None \<Rightarrow> map_of (fs_cache s) dir
       | Some p \<Rightarrow> if indexed p then Some (load_headers p) else map_of (fs_cache s) dir) \<and>
    map_of (fs_summaries t) = (\<lambda>dir. case map_of xs dir of None \<Rightarrow> map_of (fs_summaries s) dir
       | Some p \<Rightarrow> if indexed p then buildPartitionSummaryLocked (load_headers p) else map_of (fs_summaries s) dir)"
  using assms(1) unfolding t_def
proof (induction xs arbitrary: s)
  case (Cons x xs)
  obtain dir p where x: "x = (dir, p)" by fastforce
  let ?s = "scan_partition no_faults x s"
  have s1: "fs_disk ?s = fs_disk s" "fs_closed ?s = fs_closed s" "wf_map (fs_cache s) \<Longrightarrow> wf_map (fs_cache ?s)"
    "map_of (fs_cache ?s) = (if indexed p then (map_of (fs_cache s))(dir \<mapsto> load_headers p) else map_of (fs_cache s))"
    "map_of (fs_summaries ?s) = (if indexed p then (map_of (fs_summaries s))(dir := buildPartitionSummaryLocked (load_headers p)) else map_of (fs_summaries s))"
    by (auto simp: x scan_partition_def LoadPartitionIndex_load indexed_def set_summary_def Let_def update_conv' delete_conv'
        fun_eq_iff split: option.splits)
  have "map_of xs dir = None" using Cons.prems x by (simp add: map_of_eq_None_iff)
  with Cons.IH [of ?s] Cons.prems x s1 show ?case
    by (auto simp: fun_eq_iff split: option.splits)
qed auto

lemma partition_ok_reload:
  assumes po: "partition_ok cd s dir p" and c: "cached t dir = sort_key bh_MinTimestampNano (index_headers p)"
    and ps: "map_of (fs_summaries t) dir = buildPartitionSummaryLocked (cached t dir)"
  shows "partition_ok cd t dir p" and "mset (concat (map (block_entries cd p) (cached t dir))) = mset (concat (map (block_entries cd p) (cached s dir)))"
proof -
  have m: "mset (cached t dir) = mset (cached s dir)" using po c by (simp add: partition_ok_def')
  then have sets: "set (cached t dir) = set (cached s dir)" by (metis set_mset_mset)
  have typed: "list_all header_typed (cached t dir)"
    using po sets by (simp add: partition_ok_def' block_ok_def list_all_iff)
  have dist: "distinct (map bh_FileName (cached t dir))"
    using mset_eq_imp_distinct_iff [of "map bh_FileName (cached t dir)" "map bh_FileName (index_headers p)"]
      index_names_distinct [OF po] by (simp add: c)
  have "case map_of (fs_summaries t) dir of None \<Rightarrow> cached t dir = []
      | Some ps \<Rightarrow> \<not> IsZero (ps_MinTime ps) \<and> \<not> IsZero (ps_MaxTime ps) \<and> (\<forall>h\<in>set (cached t dir). summary_covers ps h)"
  proof (cases "cached t dir = []")
    case True
    then show ?thesis by (simp add: ps buildPartitionSummaryLocked_def)
  next
    case False
    obtain q where "buildPartitionSummaryLocked (cached t dir) = Some q" "\<not> IsZero (ps_MinTime q)" "\<not> IsZero (ps_MaxTime q)"
      "\<forall>h\<in>set (cached t dir). summary_covers q h"
      by (rule build_covers [OF False typed])
    then show ?thesis by (simp add: ps)
  qed
  then show "partition_ok cd t dir p"
    using po m sets dist by (simp add: partition_ok_def')
  show "mset (concat (map (block_entries cd p) (cached t dir))) = mset (concat (map (block_entries cd p) (cached s dir)))"
    by (rule mset_concat_map_cong [OF m])
qed

lemma stored_cong:
  assumes "fs_disk t = fs_disk s" and "\<And>dir p. map_of (fs_disk s) dir = Some p \<Longrightarrow>
    mset (concat (map (block_entries cd p) (cached t dir))) = mset (concat (map (block_entries cd p) (cached s dir)))"
  shows "stored cd t = stored cd s"
  unfolding stored_def assms(1)
  using assms by (intro arg_cong [where f = sum_list] map_cong) (auto simp: dir_stored_def split: option.splits)

lemma NewFileStore_reopens:
  assumes ok: "store_ok cd s" and new: "NewFileStore no_faults directory (fs_disk s) = Inr t"
  shows "store_ok cd t" and "stored cd t = stored cd s" and "\<not> fs_closed t"
proof -
  let ?s0 = "\<lparr>fs_disk = fs_disk s, fs_closed = False, fs_totalBytes = 0, fs_knownHosts = [], fs_knownSrcs = [],
      fs_cache = [], fs_summaries = []\<rparr>"
  have wf: "wf_map (fs_disk s)" using ok by (simp add: store_ok_def')
  have "t = fold (scan_partition no_faults) (fs_disk s) ?s0"
    using new by (simp add: NewFileStore_def split: if_splits)
  with scan_partitions_fold [OF wf, of ?s0]
  have t: "fs_disk t = fs_disk s" "\<not> fs_closed t \<and> wf_map (fs_cache t)"
    "map_of (fs_cache t) dir = (case map_of (fs_disk s) dir of None \<Rightarrow> None | Some p \<Rightarrow> if indexed p then Some (load_headers p) else None)"
    "map_of (fs_summaries t) dir = (case map_of (fs_disk s) dir of None \<Rightarrow> None
       | Some p \<Rightarrow> if indexed p then buildPartitionSummaryLocked (load_headers p) else None)" for dir
    by (auto simp: fun_eq_iff split: option.splits)
  have part: "partition_ok cd s dir p" "cached t dir = sort_key bh_MinTimestampNano (index_headers p)"
      "map_of (fs_summaries t) dir = buildPartitionSummaryLocked (cached t dir)"
    if p: "map_of (fs_disk s) dir = Some p" for dir p
  proof -
    show po: "partition_ok cd s dir p" using ok p by (simp add: store_ok_def')
    have l: "load_headers p = sort_key bh_MinTimestampNano (index_headers p)"
      using LoadPartitionIndex_ok [OF po] LoadPartitionIndex_load [of dir p] by simp
    have n: "index_headers p = []" if "\<not> indexed p" using that by (simp add: indexed_def index_headers_def)
    show c: "cached t dir = sort_key bh_MinTimestampNano (index_headers p)"
      by (cases "indexed p") (simp_all add: cached_def t(3) p l n)
    show "map_of (fs_summaries t) dir = buildPartitionSummaryLocked (cached t dir)"
      unfolding c by (cases "indexed p") (simp_all add: t(4) p l n buildPartitionSummaryLocked_def)
  qed
  show "store_ok cd t"
    unfolding store_ok_def' t(1) using wf part partition_ok_reload(1) [OF part] t(2-4) by simp
  show "stored cd t = stored cd s"
    by (rule stored_cong [OF t(1)]) (rule partition_ok_reload(2) [OF part])
  show "\<not> fs_closed t" using t(2) by simp
qed

section \<open>Compaction\<close>

definition compact_name :: "(nat \<Rightarrow> string) \<Rightarrow> nat \<Rightarrow> string" where
  "compact_name uuid i = ''compact_'' @ take 8 (uuid i) @ ''_'' @ sprintf_0d 4 (int i) @ ''.zst''"

lemma compact_name_inj:
  assumes "\<forall>i. 8 \<le> length (uuid i)" and "compact_name uuid i = compact_name uuid j"
  shows "i = j"
proof -
  have "length (take 8 (uuid i)) = length (take 8 (uuid j))" using assms(1) by simp
  with assms(2) have "zpad 4 i = zpad 4 j" by (simp add: compact_name_def sprintf_0d_def)
  then show ?thesis by (rule zpad_inj)
qed

lemma read_blocks_entries:
  "read_blocks cd flt dir p hs = Inr es \<Longrightarrow> es = concat (map (block_entries cd p) hs)"
  by (induction hs arbitrary: es) (auto simp: block_entries_def split: option.splits sum.splits if_splits)

lemma chunks_spec:
  "0 < n \<Longrightarrow> concat (chunks n xs) = xs \<and> (\<forall>c\<in>set (chunks n xs). c \<noteq> [] \<and> set c \<subseteq> set xs)"
proof (induction n xs rule: chunks.induct)
  case (1 n xs)
  then show ?case
    by (subst (1 2) chunks.simps) (auto dest: in_set_takeD in_set_dropD)
qed

text \<open>What a written block must satisfy, given that its entries belong in the partition.\<close>

definition chunk_ok :: "block_codec \<Rightarrow> string \<Rightarrow> log_entry list \<Rightarrow> bool" where
  "chunk_ok cd dir c \<longleftrightarrow> c \<noteq> [] \<and> codec_faithful cd c \<and> (\<forall>e\<in>set c. stamped e \<and> partition_dir (Timestamp e) = dir)"

lemma chunk_block_ok:
  assumes enc: "EncodeBlock cd u now c = Inr (h, z)" and c: "chunk_ok cd dir c"
    and b: "map_of (p_blocks p) n = Some \<lparr>bf_data = z, bf_mod = now\<rparr>"
  shows "block_ok cd dir p (h\<lparr>bh_FileName := n\<rparr>)" and "block_entries cd p (h\<lparr>bh_FileName := n\<rparr>) = c"
proof -
  have "DecodeBlock cd z = Inr c" using DecodeBlock_EncodeBlock [OF _ enc] c by (simp add: chunk_ok_def)
  then show ent: "block_entries cd p (h\<lparr>bh_FileName := n\<rparr>) = c" by (simp add: block_entries_def b)
  have "header_typed h" using EncodeBlock_typed [OF enc] c by (simp add: chunk_ok_def)
  moreover have "\<forall>e\<in>set c. header_covers h e" using EncodeBlock_covers [OF enc] c by (simp add: chunk_ok_def)
  ultimately show "block_ok cd dir p (h\<lparr>bh_FileName := n\<rparr>)"
    using c ent \<open>DecodeBlock cd z = Inr c\<close> b
    by (simp add: block_ok_def header_typed_def header_covers_def chunk_ok_def)
qed

lemma write_chunks_spec:
  assumes "write_chunks cd flt uuid now dir i cs p = Inr (hs, p')" and "\<forall>c\<in>set cs. chunk_ok cd dir c"
    and "\<forall>j. 8 \<le> length (uuid j)"
  shows "map bh_FileName hs = map (compact_name uuid) [i..<i + length cs] \<and>
    (\<forall>q. (\<forall>h\<in>set hs. map_of (p_blocks q) (bh_FileName h) = map_of (p_blocks p') (bh_FileName h)) \<longrightarrow>
       map (block_entries cd q) hs = cs \<and> (\<forall>h\<in>set hs. block_ok cd dir q h)) \<and>
    (\<forall>n. n \<notin> bh_FileName ` set hs \<longrightarrow> map_of (p_blocks p') n = map_of (p_blocks p) n) \<and>
    p_index p' = p_index p \<and> p_legacy p' = p_legacy p \<and> p_logs p' = p_logs p"
  using assms
proof (induction cs arbitrary: i p hs)
  case Nil
  then show ?case by simp
next
  case (Cons c cs)
  obtain h z where enc: "EncodeBlock cd (uuid i) now c = Inr (h, z)"
    using Cons.prems(1) by (auto split: sum.splits prod.splits)
  have c: "chunk_ok cd dir c" using Cons.prems(2) by simp
  have hid: "bh_ID h = uuid i" using enc c by (auto simp: EncodeBlock_def chunk_ok_def Let_def split: option.splits)
  let ?n = "compact_name uuid i"
  let ?p1 = "p\<lparr>p_blocks := AList.update ?n \<lparr>bf_data = z, bf_mod = now\<rparr> (p_blocks p)\<rparr>" and ?h = "h\<lparr>bh_FileName := ?n\<rparr>"
  obtain gs where w: "write_chunks cd flt uuid now dir (Suc i) cs ?p1 = Inr (gs, p')" and hs: "hs = ?h # gs"
    using Cons.prems(1) by (auto simp: enc hid compact_name_def Let_def split: sum.splits prod.splits if_splits)
  note ih = Cons.IH [OF w _ Cons.prems(3)]
  have names: "map bh_FileName gs = map (compact_name uuid) [Suc i..<Suc i + length cs]" using ih Cons.prems(2) by simp
  have fresh: "?n \<notin> bh_FileName ` set gs"
  proof
    assume "?n \<in> bh_FileName ` set gs"
    then have "?n \<in> set (map bh_FileName gs)" by simp
    then obtain j where "j \<in> set [Suc i..<Suc i + length cs]" "?n = compact_name uuid j"
      unfolding names set_map by (metis imageE)
    with compact_name_inj [OF Cons.prems(3)] show False by fastforce
  qed
  have at: "map_of (p_blocks p') ?n = Some \<lparr>bf_data = z, bf_mod = now\<rparr>"
    using ih Cons.prems(2) fresh by (simp add: update_conv')
  have 1: "map bh_FileName hs = map (compact_name uuid) [i..<i + length (c # cs)]"
    using names by (simp add: hs upt_rec)
  have 2: "map (block_entries cd q) hs = c # cs \<and> (\<forall>h\<in>set hs. block_ok cd dir q h)"
    if q: "\<forall>h\<in>set hs. map_of (p_blocks q) (bh_FileName h) = map_of (p_blocks p') (bh_FileName h)" for q
  proof -
    have "map_of (p_blocks q) ?n = Some \<lparr>bf_data = z, bf_mod = now\<rparr>" using q at by (simp add: hs)
    note this' = chunk_block_ok [OF enc c this]
    moreover have "map (block_entries cd q) gs = cs \<and> (\<forall>h\<in>set gs. block_ok cd dir q h)"
      using ih Cons.prems(2) q by (simp add: hs)
    ultimately show ?thesis by (simp add: hs)
  qed
  show ?case
    using 1 2 ih Cons.prems(2) by (auto simp: hs update_conv')
qed

lemma remove_old_frame:
  "n \<notin> bh_FileName ` set hs \<Longrightarrow> map_of (p_blocks (remove_old_blocks flt dir hs p)) n = map_of (p_blocks p) n"
  "p_index (remove_old_blocks flt dir hs p) = p_index p" "p_legacy (remove_old_blocks flt dir hs p) = p_legacy p"
  "p_logs (remove_old_blocks flt dir hs p) = p_logs p"
  unfolding remove_old_blocks_def by (induction hs arbitrary: p) (auto simp: delete_conv')

lemma codec_faithful_list: "\<forall>e\<in>set es. codec_faithful cd [e] \<Longrightarrow> es \<noteq> [] \<Longrightarrow> codec_faithful cd es"
  unfolding codec_faithful_def by (cases es) auto

text \<open>The UUIDs of compacted blocks are long enough and give names that are not taken.\<close>

definition compact_fresh :: "(nat \<Rightarrow> string) \<Rightarrow> string \<Rightarrow> file_store \<Rightarrow> bool" where
  "compact_fresh uuid dir s \<longleftrightarrow> (\<forall>i. 8 \<le> length (uuid i) \<and> compact_name uuid i \<notin> fst ` set (p_blocks (part_at s dir)))"

lemma index_headers_map: "index_faithful hjson \<Longrightarrow> p_index p = Some (map hjson hs) \<Longrightarrow> index_headers p = hs \<and> lines_short p"
proof -
  assume hj: "index_faithful hjson" and p: "p_index p = Some (map hjson hs)"
  have "List.map_filter il_header (map hjson hs) = hs"
    using hj by (induction hs) (auto simp: index_faithful_def List.map_filter_simps)
  with hj p show ?thesis by (simp add: index_headers_def lines_short_def index_faithful_def list_all_iff)
qed

lemma store_replace:
  assumes ok: "store_ok cd s" and "p_logs p = []" and "p_legacy p = None" and "lines_short p" and "index_headers p = hs"
    and "distinct (map bh_FileName hs)" and bl: "\<forall>h\<in>set hs. block_ok cd dir p h" and ne: "hs \<noteq> []"
    and same: "concat (map (block_entries cd p) hs) = concat (map (block_entries cd (part_at s dir)) (cached s dir))"
    and t: "fs_disk t = AList.update dir p (fs_disk s)" "fs_cache t = AList.update dir hs (fs_cache s)"
      "fs_summaries t = fs_summaries (set_summary dir (buildPartitionSummaryLocked hs) s)"
  shows "store_ok cd t" and "stored cd t = stored cd s"
proof -
  have typed: "list_all header_typed hs" using bl by (simp add: block_ok_def list_all_iff)
  obtain q where q: "buildPartitionSummaryLocked hs = Some q" "\<not> IsZero (ps_MinTime q)" "\<not> IsZero (ps_MaxTime q)"
    "\<forall>h\<in>set hs. summary_covers q h"
    by (rule build_covers [OF ne typed])
  have c: "cached t dir = hs" "d \<noteq> dir \<Longrightarrow> cached t d = cached s d" for d
    by (simp_all add: cached_def t update_conv')
  have summ: "fs_summaries t = AList.update dir q (fs_summaries s)" by (simp add: t set_summary_def q)
  have "partition_ok cd t dir p"
    unfolding partition_ok_def' c(1) using assms(2-7) q by (simp add: summ update_conv')
  moreover have "partition_ok cd t d r = partition_ok cd s d r" if "d \<noteq> dir" for d r
    unfolding partition_ok_def' c(2) [OF that] using that by (simp add: summ update_conv')
  ultimately show "store_ok cd t"
    using ok by (auto simp: store_ok_def' t(1,2) summ update_conv')
  have "stored cd t = stored cd s + {#}"
  proof (rule stored_update [OF _ t(1)])
    show "wf_map (fs_disk s)" using ok by (simp add: store_ok_def')
    have "dir_stored cd s dir = concat (map (block_entries cd (part_at s dir)) (cached s dir))"
      using ok by (cases "map_of (fs_disk s) dir") (auto simp: dir_stored_def part_at_def store_ok_def' cached_def)
    then show "mset (dir_stored cd t dir) = mset (dir_stored cd s dir) + {#}"
      by (simp add: dir_stored_def t c same update_conv')
    show "dir_stored cd t d = dir_stored cd s d" if "d \<noteq> dir" for d
      unfolding dir_stored_def c(2) [OF that] using that by (simp add: t update_conv')
  qed
  then show "stored cd t = stored cd s" by simp
qed

lemma load_few:
  assumes "partition_ok cd s dir p" and "length (cached s dir) < 2"
  shows "length (case LoadPartitionIndex flt dir p of Inl e \<Rightarrow> [] | Inr hs \<Rightarrow> hs) < 2"
proof (cases "LoadPartitionIndex flt dir p")
  case (Inr hs)
  have "p_legacy p = None" using assms(1) by (simp add: partition_ok_def')
  then have "LoadPartitionIndex no_faults dir p = Inr hs"
    using Inr by (auto simp: LoadPartitionIndex_def Let_def split: option.splits if_splits)
  then have "hs = sort_key bh_MinTimestampNano (index_headers p)" using LoadPartitionIndex_ok [OF assms(1)] by simp
  moreover have "size (mset (cached s dir)) = size (mset (index_headers p))" using assms(1) by (simp add: partition_ok_def')
  ultimately show ?thesis using Inr assms(2) by simp
qed simp

lemma CompactPartition_cases:
  assumes cp: "CompactPartition cd hjson flt uuid now dir m s = (r, t)" and ok: "store_ok cd s"
  obtains (same) "t = s"
  | (done_) es newHeaders p1 p2 n where "0 < n" "read_blocks cd flt dir (part_at s dir) (cached s dir) = Inr es" "es \<noteq> []"
      "write_chunks cd flt uuid now dir 0 (chunks n es) (part_at s dir) = Inr (newHeaders, p1)"
      "RewritePartitionIndex hjson flt dir newHeaders p1 = Inr p2"
      "fs_disk t = AList.update dir (remove_old_blocks flt dir (cached s dir) p2) (fs_disk s)"
      "fs_cache t = AList.update dir newHeaders (fs_cache s)"
      "fs_summaries t = fs_summaries (set_summary dir (buildPartitionSummaryLocked newHeaders) s)"
      "fs_closed t = fs_closed s"
proof -
  let ?n = "nat (if m \<le> 0 then 5000 else m)"
  have eqs: "(case map_of (fs_disk s) dir of None \<Rightarrow> empty_partition | Some p \<Rightarrow> p) = part_at s dir"
    "(case map_of (fs_cache s) dir of None \<Rightarrow> [] | Some hs \<Rightarrow> hs) = cached s dir"
    by (simp_all add: part_at_def cached_def)
  show thesis
  proof (cases "fs_closed s \<or> length (cached s dir) < 2")
    case True
    with cp load_few [OF part_at_ok [OF ok], of dir flt] have "t = s"
      by (cases "fs_closed s") (auto simp: CompactPartition_def eqs Let_def)
    then show thesis by (rule same)
  next
    case False
    show thesis
    proof (cases "read_blocks cd flt dir (part_at s dir) (cached s dir)")
      case (Inl e)
      with cp False have "t = s" by (auto simp: CompactPartition_def eqs Let_def)
      then show thesis by (rule same)
    next
      case rb: (Inr es)
      show thesis
      proof (cases "es = []")
        case True
        with cp rb False have "t = s" by (auto simp: CompactPartition_def eqs Let_def)
        then show thesis by (rule same)
      next
        case ne: False
        have es: "\<exists>x xs. es = x # xs" using ne by (cases es) auto
        show thesis
        proof (cases "write_chunks cd flt uuid now dir 0 (chunks ?n es) (part_at s dir)")
          case (Inl e)
          with cp rb False es have "t = s" by (auto simp: CompactPartition_def eqs Let_def)
          then show thesis by (rule same)
        next
          case wc: (Inr hp)
          obtain hs p1 where hp: "hp = (hs, p1)" by fastforce
          show thesis
          proof (cases "RewritePartitionIndex hjson flt dir hs p1")
            case (Inl e)
            with cp rb False es wc hp have "t = s" by (auto simp: CompactPartition_def eqs Let_def)
            then show thesis by (rule same)
          next
            case rw: (Inr p2)
            have "fs_disk t = AList.update dir (remove_old_blocks flt dir (cached s dir) p2) (fs_disk s) \<and>
                fs_cache t = AList.update dir hs (fs_cache s) \<and>
                fs_summaries t = fs_summaries (set_summary dir (buildPartitionSummaryLocked hs) s) \<and> fs_closed t = fs_closed s"
              using cp rb False es wc hp rw by (auto simp: CompactPartition_def eqs Let_def set_summary_def)
            with done_ [of ?n es hs p1 p2] rb ne wc hp rw show thesis by (simp split: if_splits)
          qed
        qed
      qed
    qed
  qed
qed

lemma cached_entry_stored:
  assumes ok: "store_ok cd s" and h: "h \<in> set (cached s dir)" "e \<in> set (block_entries cd (part_at s dir) h)"
  shows "e \<in># stored cd s \<and> stamped e \<and> partition_dir (Timestamp e) = dir"
proof -
  have "map_of (fs_disk s) dir \<noteq> None"
  proof
    assume "map_of (fs_disk s) dir = None"
    then have "cached s dir = []" using ok by (simp add: store_ok_def' cached_def)
    with h(1) show False by simp
  qed
  then have "e \<in> set (dir_stored cd s dir)" using h by (auto simp: dir_stored_def part_at_def)
  then show ?thesis using h part_at_ok [OF ok, of dir] by (auto simp: stored_mem partition_ok_def' block_ok_def)
qed

lemma cached_on_disk:
  assumes "store_ok cd s" and "g \<in> set (cached s dir)"
  shows "bh_FileName g \<in> fst ` set (p_blocks (part_at s dir))"
proof -
  have "block_ok cd dir (part_at s dir) g" using part_at_ok [OF assms(1), of dir] assms(2) by (simp add: partition_ok_def')
  then show ?thesis unfolding block_ok_def by (force dest: map_of_SomeD)
qed

lemma CompactPartition_spec:
  assumes cp: "CompactPartition cd hjson flt uuid now dir m s = (r, t)" and ok: "store_ok cd s" and hj: "index_faithful hjson"
    and codec: "\<forall>e\<in>#stored cd s. codec_faithful cd [e]" and fresh: "compact_fresh uuid dir s"
  shows "store_ok cd t \<and> stored cd t = stored cd s \<and> fs_closed t = fs_closed s \<and> (\<forall>d. d \<noteq> dir \<longrightarrow> part_at t d = part_at s d)"
  using cp ok
proof (cases rule: CompactPartition_cases)
  case same
  with ok show ?thesis by simp
next
  case (done_ es hs p1 p2 n)
  let ?p = "part_at s dir" and ?q = "remove_old_blocks flt dir (cached s dir) p2"
  have po: "partition_ok cd s dir ?p" by (rule part_at_ok [OF ok])
  have es: "es = concat (map (block_entries cd ?p) (cached s dir))" by (rule read_blocks_entries [OF done_(2)])
  have mem: "e \<in># stored cd s \<and> stamped e \<and> partition_dir (Timestamp e) = dir" if "e \<in> set es" for e
    using that cached_entry_stored [OF ok] unfolding es set_concat set_map by blast
  have ch: "concat (chunks n es) = es" using chunks_spec [OF done_(1), of es] by simp
  have ck: "\<forall>c\<in>set (chunks n es). chunk_ok cd dir c"
  proof
    fix c
    assume "c \<in> set (chunks n es)"
    with chunks_spec [OF done_(1), of es] have c: "c \<noteq> []" "set c \<subseteq> set es" by simp_all
    then have "\<forall>e\<in>set c. codec_faithful cd [e]" using mem codec by blast
    from codec_faithful_list [OF this c(1)] c mem show "chunk_ok cd dir c" unfolding chunk_ok_def by blast
  qed
  have len: "\<forall>i. 8 \<le> length (uuid i)" using fresh by (simp add: compact_fresh_def)
  have w1: "map bh_FileName hs = map (compact_name uuid) [0..<0 + length (chunks n es)]"
    and w2: "\<And>q. \<forall>h\<in>set hs. map_of (p_blocks q) (bh_FileName h) = map_of (p_blocks p1) (bh_FileName h) \<Longrightarrow>
       map (block_entries cd q) hs = chunks n es \<and> (\<forall>h\<in>set hs. block_ok cd dir q h)"
    and w3: "p_legacy p1 = p_legacy ?p" "p_logs p1 = p_logs ?p"
    using write_chunks_spec [OF done_(4) ck len] by blast+
  have none: "p_legacy ?p = None" "p_logs ?p = []" using po by (simp_all add: partition_ok_def')
  have p2: "p2 = p1\<lparr>p_index := Some (map hjson hs), p_legacy := None\<rparr>"
    using done_(5) unfolding RewritePartitionIndex_def w3(1) none(1) by (simp split: if_splits)
  have new: "bh_FileName h \<notin> bh_FileName ` set (cached s dir)" if "h \<in> set hs" for h
  proof
    assume "bh_FileName h \<in> bh_FileName ` set (cached s dir)"
    with cached_on_disk [OF ok] have "bh_FileName h \<in> fst ` set (p_blocks ?p)" by (metis imageE)
    moreover have "bh_FileName h \<in> set (map bh_FileName hs)" using that by simp
    then obtain i where "bh_FileName h = compact_name uuid i" unfolding w1 by auto
    ultimately show False using fresh unfolding compact_fresh_def by metis
  qed
  have q: "\<forall>h\<in>set hs. map_of (p_blocks ?q) (bh_FileName h) = map_of (p_blocks p1) (bh_FileName h)"
    using new by (simp add: remove_old_frame p2)
  have blocks: "map (block_entries cd ?q) hs = chunks n es" "\<forall>h\<in>set hs. block_ok cd dir ?q h" using w2 [OF q] by simp_all
  have ne: "hs \<noteq> []" using blocks(1) ch done_(3) by auto
  have dist: "distinct (map bh_FileName hs)"
    unfolding w1 distinct_map using compact_name_inj [OF len] by (simp add: inj_on_def)
  have ih: "index_headers ?q = hs" "lines_short ?q"
    using index_headers_map [OF hj, of ?q hs] by (simp_all add: remove_old_frame p2)
  have lg: "p_logs ?q = []" "p_legacy ?q = None" by (simp_all add: remove_old_frame p2 w3 none)
  have "concat (map (block_entries cd ?q) hs) = concat (map (block_entries cd ?p) (cached s dir))"
    unfolding blocks(1) ch by (rule es)
  from store_replace [OF ok lg ih(2,1) dist blocks(2) ne this done_(6-8)] done_(6,9) show ?thesis
    by (simp add: part_at_def update_conv')
qed

definition compact_all_fresh :: "(string \<Rightarrow> nat \<Rightarrow> string) \<Rightarrow> string list \<Rightarrow> file_store \<Rightarrow> bool" where
  "compact_all_fresh uuid dirs s \<longleftrightarrow> (\<forall>dir\<in>set dirs. compact_fresh (uuid dir) dir s)"

lemma compact_dirs_spec:
  assumes "compact_dirs cd hjson flt uuid now dirs r f s = (e, r', f', t)" and "store_ok cd s" and hj: "index_faithful hjson"
    and "\<forall>e\<in>#stored cd s. codec_faithful cd [e]" and "compact_all_fresh uuid dirs s" and "distinct dirs"
  shows "store_ok cd t \<and> stored cd t = stored cd s \<and> fs_closed t = fs_closed s"
  using assms(1,2,4-)
proof (induction dirs arbitrary: r f s)
  case (Cons dir dirs)
  obtain o1 s1 where s1: "CompactPartition cd hjson flt (uuid dir) now dir 5000 s = (o1, s1)" by fastforce
  have one: "store_ok cd s1 \<and> stored cd s1 = stored cd s \<and> fs_closed s1 = fs_closed s \<and> (\<forall>d. d \<noteq> dir \<longrightarrow> part_at s1 d = part_at s d)"
    using CompactPartition_spec [OF s1 Cons.prems(2) hj Cons.prems(3)] Cons.prems(4) by (simp add: compact_all_fresh_def)
  show ?case
  proof (cases "flt (SCtxDir dir)")
    case True
    with Cons.prems show ?thesis by simp
  next
    case False
    show ?thesis
    proof (cases o1)
      case (Inl e1)
      with Cons.prems(1) False s1 one show ?thesis by simp
    next
      case (Inr rf)
      obtain r1 f1 where rf: "rf = (r1, f1)" by fastforce
      have rest: "compact_dirs cd hjson flt uuid now dirs (r + r1) (f + f1) s1 = (e, r', f', t)"
        using Cons.prems(1) False s1 Inr rf by simp
      have "compact_all_fresh uuid dirs s1"
        unfolding compact_all_fresh_def compact_fresh_def
      proof (intro ballI allI)
        fix d i
        assume d: "d \<in> set dirs"
        then have "part_at s1 d = part_at s d" using one Cons.prems(5) by auto
        with d Cons.prems(4) show "8 \<le> length (uuid d i) \<and> compact_name (uuid d) i \<notin> fst ` set (p_blocks (part_at s1 d))"
          by (simp add: compact_all_fresh_def compact_fresh_def)
      qed
      from Cons.IH [OF rest _ _ this] one Cons.prems(3,5) show ?thesis by simp
    qed
  qed
qed simp

section \<open>The store contract\<close>

text \<open>What one call of \<open>Append\<close> finds: the header encoding, the faults, fresh UUIDs and the clock.\<close>

record append_env =
  ae_hjson :: "block_header \<Rightarrow> index_line"
  ae_faults :: store_faults
  ae_uuid :: "string \<Rightarrow> string"
  ae_now :: gotime

definition fs_append :: "block_codec \<Rightarrow> append_env \<Rightarrow> log_entry list \<Rightarrow> file_store \<Rightarrow> store_error option \<times> file_store" where
  "fs_append cd env es s = Append cd (ae_hjson env) (ae_faults env) (ae_uuid env) (ae_now env) es s"

definition fs_suits :: "block_codec \<Rightarrow> append_env \<Rightarrow> log_entry list \<Rightarrow> file_store \<Rightarrow> bool" where
  "fs_suits cd env es s \<longleftrightarrow> index_faithful (ae_hjson env) \<and> codec_faithful cd es \<and> (\<forall>e\<in>set es. stamped e) \<and> uuid_fresh (ae_uuid env) s"

interpretation fs: log_store "store_live cd" "store_ok cd" "stored cd" "fs_append cd" "fs_suits cd" "\<lambda>env. index_whole (ae_faults env)" for cd
proof
  show "store_live cd s" if "store_ok cd s" for s by (rule store_ok_live [OF that])
next
  fix s env es
  assume ok: "store_live cd s" and suits: "fs_suits cd env es s"
  have "Append cd (ae_hjson env) (ae_faults env) (ae_uuid env) (ae_now env) es s = (fst (fs_append cd env es s), snd (fs_append cd env es s))"
    by (simp add: fs_append_def)
  note sp = Append_live [OF this ok]
  show "store_live cd (snd (fs_append cd env es s))" using sp suits unfolding fs_suits_def by blast
  show "stored cd s \<subseteq># stored cd (snd (fs_append cd env es s))" using sp suits unfolding fs_suits_def by blast
  show "stored cd (snd (fs_append cd env es s)) \<subseteq># stored cd s + mset es" using sp suits unfolding fs_suits_def by blast
  show "stored cd (snd (fs_append cd env es s)) = stored cd s + mset es" if "fst (fs_append cd env es s) = None"
    using sp suits that unfolding fs_suits_def by blast
next
  fix s env es
  assume ok: "store_ok cd s" and suits: "fs_suits cd env es s" and c: "fst (fs_append cd env es s) = None \<or> index_whole (ae_faults env)"
  have "Append cd (ae_hjson env) (ae_faults env) (ae_uuid env) (ae_now env) es s = (fst (fs_append cd env es s), snd (fs_append cd env es s))"
    by (simp add: fs_append_def)
  from Append_live [OF this store_ok_live [OF ok]] suits c ok show "store_ok cd (snd (fs_append cd env es s))"
    unfolding fs_suits_def by blast
qed

section \<open>A restart after an append\<close>

text \<open>What a restart on a directory finds: the entries of the blocks that the indices list.\<close>

definition disk_entries :: "block_codec \<Rightarrow> disk \<Rightarrow> log_entry multiset" where
  "disk_entries cd d =
     (\<Sum>(dir, p)\<leftarrow>d. mset (concat (map (block_entries cd p) (if indexed p then load_headers p else []))))"

lemma NewFileStore_entries:
  assumes wf: "wf_map d" and new: "NewFileStore no_faults directory d = Inr u"
  shows "stored cd u = disk_entries cd d"
proof -
  let ?s0 = "\<lparr>fs_disk = d, fs_closed = False, fs_totalBytes = 0, fs_knownHosts = [], fs_knownSrcs = [], fs_cache = [], fs_summaries = []\<rparr>"
  have "u = fold (scan_partition no_faults) d ?s0" using new by (simp add: NewFileStore_def split: if_splits)
  with scan_partitions_fold [OF wf, of ?s0]
  have u: "fs_disk u = d" "map_of (fs_cache u) dir = (case map_of d dir of None \<Rightarrow> None | Some p \<Rightarrow> if indexed p then Some (load_headers p) else None)" for dir
    by (auto simp: fun_eq_iff split: option.splits)
  have "mset (dir_stored cd u dir) = mset (concat (map (block_entries cd p) (if indexed p then load_headers p else [])))"
    if "(dir, p) \<in> set d" for dir p
    using map_of_is_SomeI [OF wf that] by (simp add: dir_stored_def cached_def u)
  then have "map (\<lambda>dir. mset (dir_stored cd u dir)) (map fst d) =
      map (\<lambda>(dir, p). mset (concat (map (block_entries cd p) (if indexed p then load_headers p else [])))) d"
    by (auto simp: comp_def)
  then show ?thesis by (simp only: stored_def u(1) disk_entries_def)
qed

lemma store_ok_disk_entries: "store_ok cd s \<Longrightarrow> disk_entries cd (fs_disk s) = stored cd s"
proof -
  assume ok: "store_ok cd s"
  have "TrimSpace ''d'' \<noteq> ''''" by code_simp
  then obtain u where u: "NewFileStore no_faults ''d'' (fs_disk s) = Inr u" by (simp add: NewFileStore_def)
  have "wf_map (fs_disk s)" using ok by (simp add: store_ok_def')
  from NewFileStore_entries [OF this u, of cd] NewFileStore_reopens(2) [OF ok u] show ?thesis by simp
qed

text \<open>The scanner does not see whether the last line ends in a newline.\<close>

definition close_line :: "index_line \<Rightarrow> index_line" where
  "close_line l = l\<lparr>il_open := False\<rparr>"

definition close_part :: "partition \<Rightarrow> partition" where
  "close_part p = p\<lparr>p_index := map_option (map close_line) (p_index p)\<rparr>"

definition close_disk :: "disk \<Rightarrow> disk" where
  "close_disk d = map (\<lambda>(dir, p). (dir, close_part p)) d"

lemma close_part_loads: "load_headers (close_part p) = load_headers p" "indexed (close_part p) = indexed p"
  "block_entries cd (close_part p) h = block_entries cd p h"
proof -
  have "short_line \<circ> close_line = short_line" by (simp add: fun_eq_iff short_line_def close_line_def)
  then have "scan_index (map close_line ls) = scan_index ls" for ls
    by (simp add: scan_index_def List.map_filter_def takeWhile_map filter_map close_line_def comp_def)
  then show "load_headers (close_part p) = load_headers p"
    by (simp add: load_headers_def LoadPartitionIndex_def close_part_def Let_def split: option.splits)
qed (simp_all add: close_part_def indexed_def block_entries_def)

lemma disk_entries_close: "disk_entries cd (close_disk d) = disk_entries cd d"
  unfolding disk_entries_def close_disk_def map_map
  by (intro arg_cong [where f = sum_list] map_cong) (auto simp: close_part_loads cong: map_cong)

lemma close_part_whole: "lines_short p \<Longrightarrow> close_part p = p"
  by (cases "p_index p") (simp_all add: close_part_def lines_short_def close_line_def list_all_iff map_idI)

lemma close_disk_update: "close_disk (AList.update dir p d) = AList.update dir (close_part p) (close_disk d)"
  by (induction d) (auto simp: close_disk_def)

lemma close_disk_ok:
  assumes "store_ok cd s"
  shows "close_disk (fs_disk s) = fs_disk s"
proof -
  have "close_part p = p" if "(dir, p) \<in> set (fs_disk s)" for dir p
  proof (rule close_part_whole)
    have "map_of (fs_disk s) dir = Some p" using assms that by (intro map_of_is_SomeI) (simp_all add: store_ok_def')
    then show "lines_short p" using assms by (simp add: store_ok_def index_agrees_def)
  qed
  then show ?thesis unfolding close_disk_def by (intro map_idI) auto
qed

lemma AppendBlock_reopen:
  assumes ok: "store_ok cd s" and hj: "index_faithful hjson" and enc: "EncodeBlock cd (uuid dir) now es = Inr (h, z)"
    and es: "es \<noteq> []" "codec_faithful cd es" "\<forall>e\<in>set es. stamped e \<and> partition_dir (Timestamp e) = dir"
    and fresh: "fresh_block s dir h" and fail: "AppendBlockToPartition hjson flt now dir h z (fs_disk s) = (Some e, d)"
  shows "disk_entries cd d = stored cd s \<or> disk_entries cd d = stored cd s + mset es"
proof -
  let ?p = "part_at s dir" and ?ls = "case p_index (part_at s dir) of None \<Rightarrow> [] | Some ls \<Rightarrow> ls"
  let ?p1 = "?p\<lparr>p_blocks := AList.update (bh_FileName h) \<lparr>bf_data = z, bf_mod = now\<rparr> (p_blocks ?p)\<rparr>"
  let ?s = "\<lambda>p. s\<lparr>fs_disk := AList.update dir p (fs_disk s)\<rparr>"
  have po: "partition_ok cd s dir ?p" by (rule part_at_ok [OF ok])
  then have whole: "list_all (\<lambda>l. short_line l \<and> \<not> il_open l) ?ls" by (simp add: partition_ok_def' lines_short_def split: option.splits)
  have live: "store_live cd (?s p)" "stored cd (?s p) = stored cd s" if "p = ?p \<or> p = ?p1 \<or> (\<exists>ix. p = ?p1\<lparr>p_index := ix\<rparr>)" for p
    using that store_live_disk [OF store_ok_live [OF ok], of dir p] po fresh_block_cached [OF store_ok_live [OF ok] fresh]
    by (auto simp: partition_ok_def' block_ok_update block_entries_update)
  note kept = store_ok_block(1) [OF ok fresh] store_ok_block(2,3) [OF ok fresh, where bf = "\<lparr>bf_data = z, bf_mod = now\<rparr>"]
  have closed: "disk_entries cd (AList.update dir q (fs_disk s)) = stored cd s"
    if "close_part q = ?p1\<lparr>p_index := ix\<rparr>" "store_ok cd (?s (?p1\<lparr>p_index := ix\<rparr>))" for q ix
  proof -
    have "close_disk (AList.update dir q (fs_disk s)) = fs_disk (?s (?p1\<lparr>p_index := ix\<rparr>))"
      by (simp add: close_disk_update close_disk_ok [OF ok] that(1))
    then show ?thesis using store_ok_disk_entries [OF that(2)] live(2) [of "?p1\<lparr>p_index := ix\<rparr>"] disk_entries_close by metis
  qed
  have listed: "disk_entries cd (AList.update dir q (fs_disk s)) = stored cd s + mset es"
    if q: "close_part q = ?p1\<lparr>p_index := Some (?ls @ [l])\<rparr>" and l: "il_header l = Some h" "\<not> il_open l" "short_line l" for q l
  proof -
    let ?t = "catalogued (\<lambda>h. l) now dir h z s"
    note t = catalogued_live [where uuid = uuid and dir = dir and hjson = "\<lambda>h. l", OF store_ok_live [OF ok] enc es fresh]
    have "store_ok cd ?t" by (rule catalogued_ok [OF ok _ _ _ t(1)]) (use l in simp_all)
    moreover have "close_disk (AList.update dir q (fs_disk s)) = fs_disk ?t"
      using put_line_closed [OF whole] by (simp add: close_disk_update close_disk_ok [OF ok] q catalogued_def Let_def)
    ultimately show ?thesis using store_ok_disk_entries t(2) disk_entries_close by metis
  qed
  have cl: "map close_line ?ls = ?ls" using whole by (auto simp: list_all_iff close_line_def intro!: map_idI)
  have cp: "close_part (?p1\<lparr>p_index := Some xs\<rparr>) = ?p1\<lparr>p_index := Some (map close_line xs)\<rparr>" for xs by (simp add: close_part_def)
  have hl: "il_header (hjson h) = Some h" "\<not> il_open (hjson h)" "short_line (hjson h)" "close_line (hjson h) = hjson h"
    using hj by (simp_all add: index_faithful_def close_line_def)
  have ih: "index_headers (?p1\<lparr>p_index := Some ?ls\<rparr>) = index_headers ?p" by (simp add: index_headers_def split: option.splits)
  from fail show ?thesis
  proof (cases rule: AppendBlock_left)
    case 1
    then show ?thesis using store_ok_disk_entries [OF ok] by simp
  next
    case 2
    then show ?thesis using store_ok_disk_entries [OF kept(1)] live(2) by simp
  next
    case 3
    then show ?thesis using store_ok_disk_entries [OF kept(2)] live(2) by simp
  next
    case (4 n)
    let ?torn = "close_line (torn_line (hjson h) n)"
    have short: "short_line ?torn" "\<not> il_open ?torn" if "n \<noteq> 0"
      using 4(2) that hl(3) by (simp_all add: close_line_def torn_line_def short_line_def)
    consider "n = 0" | "n \<noteq> 0" "il_header ?torn = None" | "n \<noteq> 0" "il_header ?torn = Some h"
      by (cases "int n + 1 = il_size (hjson h)") (auto simp: torn_line_def close_line_def hl(1))
    then show ?thesis
    proof cases
      case 1
      have "store_ok cd (?s (?p1\<lparr>p_index := Some ?ls\<rparr>))"
        by (rule kept(3)) (use whole ih in \<open>simp_all add: lines_short_def\<close>)
      then show ?thesis using closed [of "?p1\<lparr>p_index := Some ?ls\<rparr>"] 4(3) 1 cl by (simp add: cp)
    next
      case 2
      have "store_ok cd (?s (?p1\<lparr>p_index := Some (?ls @ [?torn])\<rparr>))"
      proof (rule kept(3))
        show "lines_short (?p1\<lparr>p_index := Some (?ls @ [?torn])\<rparr>)" using whole short [OF 2(1)] by (simp add: lines_short_def)
        show "index_headers (?p1\<lparr>p_index := Some (?ls @ [?torn])\<rparr>) = index_headers ?p"
          using ih 2(2) by (simp add: index_headers_def List.map_filter_def)
      qed
      then show ?thesis
        using closed [of "?p1\<lparr>p_index := Some (?ls @ [torn_line (hjson h) n])\<rparr>"] 4(3) 2(1) cl by (simp add: cp put_line_closed [OF whole])
    next
      case 3
      then show ?thesis
        using listed [of "?p1\<lparr>p_index := Some (?ls @ [torn_line (hjson h) n])\<rparr>" ?torn] 4(3) cl short by (simp add: cp put_line_closed [OF whole])
    qed
  next
    case 5
    then show ?thesis
      using listed [of "?p1\<lparr>p_index := Some (?ls @ [hjson h])\<rparr>" "hjson h"] cl hl by (simp add: cp put_line_closed [OF whole])
  qed
qed

lemma append_groups_reopen:
  assumes "append_groups cd hjson flt uuid now g s = (r, t)" and "store_ok cd s" and "index_faithful hjson"
    and "groups_ok g" and "\<forall>p\<in>set g. codec_faithful cd (snd p) \<and> (\<forall>e\<in>set (snd p). stamped e)"
    and "\<forall>p\<in>set g. \<forall>n\<in>fst ` set (p_blocks (part_at s (fst p))). \<not> HasSuffix n (take 8 (uuid (fst p)) @ ''.zst'')"
  shows "stored cd s \<subseteq># disk_entries cd (fs_disk t) \<and> disk_entries cd (fs_disk t) \<subseteq># stored cd s + group_entries_of g"
  using assms
proof (induction g arbitrary: s)
  case Nil
  then show ?case by (simp add: store_ok_disk_entries group_entries_of_def)
next
  case (Cons p g)
  obtain dir es where p: "p = (dir, es)" by fastforce
  have tot: "group_entries_of (p # g) = mset es + group_entries_of g" by (simp add: p group_entries_of_def)
  show ?case
  proof (cases "flt (SCtxDir dir)")
    case True
    with Cons.prems p show ?thesis by (auto simp: store_ok_disk_entries)
  next
    case False
    obtain r1 s1 where s1: "append_group cd hjson flt uuid now dir es s = (r1, s1)" by fastforce
    have es: "es \<noteq> []" "codec_faithful cd es" "\<forall>e\<in>set es. stamped e \<and> partition_dir (Timestamp e) = dir"
      and g: "groups_ok g" and dirs: "dir \<notin> fst ` set g"
      using Cons.prems(4,5) p by (auto simp: groups_ok_def split: if_splits)
        (metis map_of_SomeD option.simps(3) fst_conv imageI map_of_eq_None_iff not_None_eq)+
    have fresh: "\<forall>n\<in>fst ` set (p_blocks (part_at s dir)). \<not> HasSuffix n (take 8 (uuid dir) @ ''.zst'')"
      using Cons.prems(6) p by simp
    note one = append_group_spec [OF s1 store_ok_live [OF Cons.prems(2)] es fresh]
    show ?thesis
    proof (cases r1)
      case None
      have "part_at s1 (fst q) = part_at s (fst q)" if "q \<in> set g" for q
        by (rule append_group_other [OF s1]) (use dirs that in auto)
      then have fr: "\<forall>q\<in>set g. \<forall>n\<in>fst ` set (p_blocks (part_at s1 (fst q))). \<not> HasSuffix n (take 8 (uuid (fst q)) @ ''.zst'')"
        using Cons.prems(6) by simp
      have "append_groups cd hjson flt uuid now g s1 = (r, t)" using Cons.prems(1) False s1 None p by simp
      from Cons.IH [OF this _ Cons.prems(3) g _ fr] one None Cons.prems(2,3,5)
      have ih: "stored cd s1 \<subseteq># disk_entries cd (fs_disk t)" "disk_entries cd (fs_disk t) \<subseteq># stored cd s1 + group_entries_of g" by simp_all
      have s1': "stored cd s1 = stored cd s + mset es" using one(1) None by simp
      have "stored cd s \<subseteq># stored cd s1" by (simp add: s1')
      from subset_mset.order_trans [OF this ih(1)] ih(2) show ?thesis unfolding tot s1' by (simp add: add.assoc)
    next
      case (Some e)
      then have t: "t = s1" using Cons.prems(1) False s1 p by auto
      from s1 show ?thesis
      proof (cases rule: append_group_cases)
        case (encode e)
        then show ?thesis by (simp add: t store_ok_disk_entries [OF Cons.prems(2)])
      next
        case (failed h z e d)
        have "disk_entries cd d = stored cd s \<or> disk_entries cd d = stored cd s + mset es"
          by (rule AppendBlock_reopen [where uuid = uuid, OF Cons.prems(2,3) failed(1) es EncodeBlock_fresh [OF failed(1) es(1) fresh] failed(3)])
        then show ?thesis unfolding tot by (auto simp: t failed(4) add.assoc)
      next
        case (success h z)
        with Some show ?thesis by simp
      qed
    qed
  qed
qed

lemma Append_reopen:
  assumes ap: "Append cd hjson flt uuid now es s = (r, t)" and ok: "store_ok cd s" and hj: "index_faithful hjson"
    and es: "codec_faithful cd es" "\<forall>e\<in>set es. stamped e" and fresh: "uuid_fresh uuid s"
    and new: "NewFileStore no_faults directory (fs_disk t) = Inr u"
  shows "stored cd s \<subseteq># stored cd u \<and> stored cd u \<subseteq># stored cd s + mset es"
proof -
  have "wf_map (fs_disk t)"
    using Append_live [OF ap store_ok_live [OF ok] es fresh] by (simp add: store_live_def)
  note u = NewFileStore_entries [OF this new, of cd]
  show ?thesis
  proof (cases "es = [] \<or> fs_closed s")
    case True
    with ap have "t = s" by (auto simp: Append_def split: if_splits)
    then show ?thesis by (simp add: u store_ok_disk_entries [OF ok])
  next
    case False
    obtain r1 g s1 where g: "group_entries flt now 0 es ([], s) = (r1, g, s1)" by (metis prod_cases3)
    have spec: "groups_ok g" "fs_disk s1 = fs_disk s" "fs_cache s1 = fs_cache s" "fs_summaries s1 = fs_summaries s"
        "group_entries_of g \<subseteq># mset es"
      using group_entries_spec [OF g _ es(2)] by (auto simp: groups_ok_def group_entries_of_def)
    note fr = store_frame [OF spec(2-4), of cd]
    show ?thesis
    proof (cases r1)
      case (Some e)
      with ap False g have "t = s1" by (auto simp: Append_def)
      then show ?thesis by (simp add: u spec(2) store_ok_disk_entries [OF ok])
    next
      case None
      have sub: "set (snd p) \<subseteq> set es" if "p \<in> set g" for p by (rule group_mset_sub [OF spec(1,5) that])
      have "append_groups cd hjson flt uuid now g s1 = (r, t)" using ap False g None by (simp add: Append_def)
      then have "stored cd s1 \<subseteq># disk_entries cd (fs_disk t) \<and> disk_entries cd (fs_disk t) \<subseteq># stored cd s1 + group_entries_of g"
      proof (rule append_groups_reopen [OF _ _ hj spec(1)])
        show "store_ok cd s1" using fr ok by simp
        show "\<forall>p\<in>set g. codec_faithful cd (snd p) \<and> (\<forall>e\<in>set (snd p). stamped e)" using sub es codec_faithful_mono by blast
        show "\<forall>p\<in>set g. \<forall>n\<in>fst ` set (p_blocks (part_at s1 (fst p))). \<not> HasSuffix n (take 8 (uuid (fst p)) @ ''.zst'')"
          using fresh spec(2) by (simp add: uuid_fresh_def part_at_def)
      qed
      then have a: "stored cd s \<subseteq># stored cd u" "stored cd u \<subseteq># stored cd s + group_entries_of g" using fr(3) u by simp_all
      moreover have "stored cd s + group_entries_of g \<subseteq># stored cd s + mset es" using spec(5) by simp
      ultimately show ?thesis using subset_mset.order_trans by blast
    qed
  qed
qed

section \<open>Properties\<close>

text \<open>
  C13. \<open>Append\<close> under every combination of I/O errors and cancellation, short writes and failing closes
  of the index included. The running store stays consistent: the blocks in its catalogue are on
  disk and its headers and summaries cover them. Nothing it held is lost, nothing is added that was
  not in the batch, and when \<open>Append\<close> returns no error every entry of the batch is held exactly once
  more. The index on disk lists the catalogue, in whole lines, when there was no error or when no
  write and no close of an index failed. And whatever failed, a restart on the directory finds all
  that was held before and nothing but it and entries of the batch.
\<close>

theorem Append_keeps_entries:
  assumes "Append cd hjson flt uuid now es s = (r, t)" and "store_ok cd s" and "index_faithful hjson"
    and "codec_faithful cd es" and "\<forall>e\<in>set es. stamped e" and "uuid_fresh uuid s"
  shows "store_live cd t \<and> stored cd s \<subseteq># stored cd t \<and> stored cd t \<subseteq># stored cd s + mset es \<and>
    (r = None \<longrightarrow> stored cd t = stored cd s + mset es) \<and> (r = None \<or> index_whole flt \<longrightarrow> store_ok cd t) \<and>
    (\<forall>directory u. NewFileStore no_faults directory (fs_disk t) = Inr u \<longrightarrow>
       stored cd s \<subseteq># stored cd u \<and> stored cd u \<subseteq># stored cd s + mset es)"
  using Append_live [OF assms(1) store_ok_live [OF assms(2)] assms(4-6)] Append_reopen [OF assms] assms(2,3) by blast

theorem Append_keeps_entries_witness:
  "store_ok letter_codec ex_store1 \<and> stored letter_codec ex_store0 \<subseteq># stored letter_codec ex_store1 \<and>
   stored letter_codec ex_store1 = stored letter_codec ex_store0 + mset (map letter_entry ''ab'')"
  using Append_keeps_entries [OF ex_append(1) ex_store0_ok(1) ex_line_faithful letter_codec_faithful _ ex_store0_ok(3)]
  by (simp add: letter_stamped)

text \<open>
  The summary that \<open>Append\<close> maintains block by block is the one that a restart or a compaction
  rebuilds from the list of headers: same bounds, level mask, hosts, sources, block count and
  bytes, and no summary at all exactly for the empty list.
\<close>

lemma summary_incremental:
  assumes "list_all header_typed hs"
  shows "buildPartitionSummaryLocked hs =
    fold (\<lambda>h old. Some (update_summary h old)) hs None"
proof (cases hs)
  case Nil
  then show ?thesis by (simp add: buildPartitionSummaryLocked_def)
next
  case (Cons h gs)
  have "fold (\<lambda>h old. Some (update_summary h old)) gs (Some ps) = Some (fold (\<lambda>h p. update_summary h (Some p)) gs ps)" for ps
    by (induction gs arbitrary: ps) simp_all
  with build_as_updates [of h gs] assms Cons show ?thesis by simp
qed

definition ex_header :: "int \<Rightarrow> string \<Rightarrow> block_header" where
  "ex_header n host = zero_header\<lparr>bh_FileName := host, bh_MinTimestampNano := n, bh_MaxTimestampNano := n + 5,
     bh_LevelMask := LevelInfo, bh_Hosts := [host]\<rparr>"

lemma summary_incremental_witness:
  "buildPartitionSummaryLocked [ex_header 7 ''a'', ex_header 3 ''b''] =
     fold (\<lambda>h old. Some (update_summary h old)) [ex_header 7 ''a'', ex_header 3 ''b''] None"
  by (rule summary_incremental) (simp add: header_typed_def ex_header_def)

text \<open>
  C14. A restart loses nothing: opening a store on the directory left behind by a consistent store
  (closed or crashed between operations) gives a consistent open store with exactly the same
  entries.
\<close>

theorem reopen_keeps_entries:
  assumes "store_ok cd s" and "TrimSpace directory \<noteq> ''''"
  shows "\<exists>t. NewFileStore no_faults directory (fs_disk s) = Inr t \<and> store_ok cd t \<and> stored cd t = stored cd s \<and> \<not> fs_closed t"
proof -
  obtain t where t: "NewFileStore no_faults directory (fs_disk s) = Inr t"
    using assms(2) by (simp add: NewFileStore_def)
  with NewFileStore_reopens [OF assms(1) t] show ?thesis by blast
qed

theorem reopen_keeps_entries_witness:
  "\<exists>t. NewFileStore no_faults ''/var/lib'' (fs_disk ex_store1) = Inr t \<and> store_ok letter_codec t \<and>
     stored letter_codec t = stored letter_codec ex_store1 \<and> \<not> fs_closed t"
proof (rule reopen_keeps_entries [OF ex_store1_ok(1)])
  show "TrimSpace ''/var/lib'' \<noteq> ''''" by code_simp
qed

text \<open>
  C15. Compaction changes the blocks and never the entries: under any faults, whether it succeeds
  or stops half-way, the store stays consistent and holds the same entries as before.
\<close>

theorem Compact_keeps_entries:
  assumes "Compact cd hjson flt uuid now minBlocks s = (e, reduced, freed, t)" and "store_ok cd s" and "index_faithful hjson"
    and "\<forall>e\<in>#stored cd s. codec_faithful cd [e]" and "compact_all_fresh uuid (map fst (fs_cache s)) s"
  shows "store_ok cd t \<and> stored cd t = stored cd s"
proof (cases "fs_closed s")
  case True
  with assms(1,2) show ?thesis by (simp add: Compact_def Let_def)
next
  case False
  let ?dirs = "map fst (filter (\<lambda>dh. (if minBlocks < 2 then 2 else minBlocks) \<le> int (length (snd dh))) (fs_cache s))"
  have run: "compact_dirs cd hjson flt uuid now ?dirs 0 0 s = (e, reduced, freed, t)"
    using assms(1) False by (simp add: Compact_def Let_def)
  have "distinct ?dirs" using assms(2) by (simp add: store_ok_def' distinct_map_filter)
  moreover have "compact_all_fresh uuid ?dirs s" using assms(5) by (auto simp: compact_all_fresh_def)
  ultimately show ?thesis using compact_dirs_spec [OF run assms(2-4)] by simp
qed

lemma update_key_cases: "(a, b) \<in> set (AList.update k v xs) \<Longrightarrow> a \<notin> fst ` set xs \<Longrightarrow> a = k"
  using dom_update [of k v xs] by force

lemma AppendBlock_names:
  assumes "AppendBlockToPartition hjson flt now dir h z (fs_disk s) = (e, d')"
  shows "fst ` set (p_blocks (case map_of d' d of None \<Rightarrow> empty_partition | Some p \<Rightarrow> p)) \<subseteq>
    fst ` set (p_blocks (part_at s d)) \<union> (if d = dir then {bh_FileName h} else {})"
proof -
  have "d' = fs_disk s \<or> (\<exists>p. d' = AList.update dir p (fs_disk s) \<and>
      fst ` set (p_blocks p) \<subseteq> fst ` set (p_blocks (part_at s dir)) \<union> {bh_FileName h})"
    using assms unfolding AppendBlockToPartition_def Let_def part_at_def [symmetric]
    by (auto dest: update_key_cases split: if_splits intro!: exI)
  then show ?thesis
    by (elim disjE exE conjE) (simp_all add: part_at_def update_conv' subset_insertI)
qed

lemma append_group_names:
  assumes "append_group cd hjson flt uuid now dir es s = (r, t)" and "es \<noteq> []"
    and "n \<in> fst ` set (p_blocks (part_at t d))"
  shows "n \<in> fst ` set (p_blocks (part_at s d)) \<or> (\<exists>k. n = ''block_'' @ sprintf_0d 20 k @ ''_'' @ take 8 (uuid d) @ ''.zst'')"
  using assms(1)
proof (cases rule: append_group_cases)
  case (encode e)
  with assms(3) show ?thesis by simp
next
  case (failed h z e d')
  then have "n \<in> fst ` set (p_blocks (part_at s d)) \<union> (if d = dir then {bh_FileName h} else {})"
    using AppendBlock_names [OF failed(3), of d] assms(3) by (auto simp: part_at_def)
  then show ?thesis using EncodeBlock_ok(9) [OF failed(1) assms(2)] by (auto split: if_splits)
next
  case (success h z)
  then have "n \<in> fst ` set (p_blocks (part_at s d)) \<union> (if d = dir then {bh_FileName h} else {})"
    using assms(3) by (cases "d = dir") (simp_all add: catalogued_def part_at_def Let_def update_conv' dom_update)
  then show ?thesis using EncodeBlock_ok(9) [OF success(1) assms(2)] by (auto split: if_splits)
qed

lemma append_groups_names:
  assumes "append_groups cd hjson flt uuid now g s = (r, t)" and "\<forall>p\<in>set g. snd p \<noteq> []"
    and "n \<in> fst ` set (p_blocks (part_at t d))"
  shows "n \<in> fst ` set (p_blocks (part_at s d)) \<or> (\<exists>k. n = ''block_'' @ sprintf_0d 20 k @ ''_'' @ take 8 (uuid d) @ ''.zst'')"
  using assms(1,2)
proof (induction g arbitrary: s)
  case Nil
  then show ?case using assms(3) by simp
next
  case (Cons p g)
  obtain dir es where p: "p = (dir, es)" by fastforce
  obtain r1 s1 where s1: "append_group cd hjson flt uuid now dir es s = (r1, s1)" by fastforce
  have one: "n \<in> fst ` set (p_blocks (part_at s d)) \<or> (\<exists>k. n = ''block_'' @ sprintf_0d 20 k @ ''_'' @ take 8 (uuid d) @ ''.zst'')"
    if "n \<in> fst ` set (p_blocks (part_at s1 d))"
    using append_group_names [OF s1 _ that] Cons.prems(2) p by simp
  show ?case
  proof (cases "flt (SCtxDir dir) \<or> r1 \<noteq> None")
    case True
    then have "t = s \<or> t = s1" using Cons.prems(1) s1 p by (auto split: option.splits if_splits)
    with assms(3) one show ?thesis by blast
  next
    case False
    then have "append_groups cd hjson flt uuid now g s1 = (r, t)" using Cons.prems(1) s1 p by simp
    from Cons.IH [OF this] Cons.prems(2) one show ?thesis by auto
  qed
qed

lemma Append_names:
  assumes ap: "Append cd hjson flt uuid now es s = (r, t)" and es: "\<forall>e\<in>set es. stamped e"
    and n: "n \<in> fst ` set (p_blocks (part_at t d))"
  shows "n \<in> fst ` set (p_blocks (part_at s d)) \<or> (\<exists>k. n = ''block_'' @ sprintf_0d 20 k @ ''_'' @ take 8 (uuid d) @ ''.zst'')"
proof (cases "es = [] \<or> fs_closed s")
  case True
  then have "t = s" using ap by (auto simp: Append_def split: if_splits)
  with n show ?thesis by simp
next
  case False
  obtain r1 g s1 where g: "group_entries flt now 0 es ([], s) = (r1, g, s1)" by (metis prod_cases3)
  have ok: "groups_ok g" "fs_disk s1 = fs_disk s"
    using group_entries_spec [OF g _ es] by (auto simp: groups_ok_def)
  have ne: "\<forall>p\<in>set g. snd p \<noteq> []" using ok(1) by (auto simp: groups_ok_def)
  have same: "part_at s1 d = part_at s d" by (simp add: part_at_def ok)
  show ?thesis
  proof (cases r1)
    case None
    then have "append_groups cd hjson flt uuid now g s1 = (r, t)" using ap False g by (simp add: Append_def)
    from append_groups_names [OF this ne n] same show ?thesis by simp
  next
    case (Some e)
    then have "t = s1" using ap False g by (simp add: Append_def)
    with n same show ?thesis by simp
  qed
qed

text \<open>A store with two blocks in one partition.\<close>

definition ex_store2 :: file_store where
  "ex_store2 = snd (Append letter_codec ex_line no_faults (\<lambda>dir. ''abcdefgh-89'') ex_now (map letter_entry ''cd'') ex_store1)"

lemma ex_store1_names:
  assumes "n \<in> fst ` set (p_blocks (part_at ex_store1 d))"
  shows "\<exists>k. n = ''block_'' @ sprintf_0d 20 k @ ''_'' @ ''01234567'' @ ''.zst''"
  using Append_names [OF ex_append(1) _ assms] by (auto simp: letter_stamped ex_store0_def part_at_def empty_partition_def)

lemma ex_append2:
  "Append letter_codec ex_line no_faults (\<lambda>dir. ''abcdefgh-89'') ex_now (map letter_entry ''cd'') ex_store1 = (None, ex_store2)"
  "\<not> fs_closed ex_store2"
proof -
  have "codec_faithful letter_codec (map letter_entry ''cd'')" by (rule letter_codec_faithful) simp
  moreover have "\<forall>e\<in>set (map letter_entry ''cd''). stamped e" by (simp add: letter_stamped)
  ultimately show "Append letter_codec ex_line no_faults (\<lambda>dir. ''abcdefgh-89'') ex_now (map letter_entry ''cd'') ex_store1 = (None, ex_store2)"
    and "\<not> fs_closed ex_store2"
    unfolding ex_store2_def prod_eq_iff using Append_total ex_store1_ok(3) by auto
qed

lemma ex_store2_names:
  assumes "n \<in> fst ` set (p_blocks (part_at ex_store2 d))"
  shows "hd n = CHR ''b''"
proof -
  have "n \<in> fst ` set (p_blocks (part_at ex_store1 d)) \<or> (\<exists>k. n = ''block_'' @ sprintf_0d 20 k @ ''_'' @ take 8 ''abcdefgh-89'' @ ''.zst'')"
    using Append_names [OF ex_append2(1) _ assms] by (simp add: letter_stamped)
  then show ?thesis using ex_store1_names [of n d] by fastforce
qed

lemma ex_store2_ok: "store_ok letter_codec ex_store2" "stored letter_codec ex_store2 = mset (map letter_entry ''abcd'')"
proof -
  have "uuid_fresh (\<lambda>dir. ''abcdefgh-89'') ex_store1"
    unfolding uuid_fresh_def using ex_store1_names by (fastforce simp: HasSuffix_iff)
  from Append_spec [OF ex_append2(1) ex_store1_ok(1) ex_line_faithful letter_codec_faithful _ this]
  show "store_ok letter_codec ex_store2" "stored letter_codec ex_store2 = mset (map letter_entry ''abcd'')"
    by (simp_all add: ex_store1_ok(2) letter_stamped)
qed

theorem Compact_keeps_entries_witness:
  "let r = Compact letter_codec ex_line no_faults (\<lambda>dir i. ''fedcba98'') ex_now 2 ex_store2
   in store_ok letter_codec (snd (snd (snd r))) \<and> stored letter_codec (snd (snd (snd r))) = stored letter_codec ex_store2"
proof -
  obtain e a b t where r: "Compact letter_codec ex_line no_faults (\<lambda>dir i. ''fedcba98'') ex_now 2 ex_store2 = (e, a, b, t)"
    by (metis prod_cases4)
  have "store_ok letter_codec t \<and> stored letter_codec t = stored letter_codec ex_store2"
  proof (rule Compact_keeps_entries [OF r ex_store2_ok(1) ex_line_faithful])
    have "codec_faithful letter_codec [letter_entry c]" if "c \<noteq> CHR ''\<newline>''" for c
      using letter_codec_faithful [of "[c]"] that by simp
    then show "\<forall>e\<in>#stored letter_codec ex_store2. codec_faithful letter_codec [e]" by (simp add: ex_store2_ok(2))
    show "compact_all_fresh (\<lambda>dir i. ''fedcba98'') (map fst (fs_cache ex_store2)) ex_store2"
      using ex_store2_names by (fastforce simp: compact_all_fresh_def compact_fresh_def compact_name_def)
  qed
  then show ?thesis by (simp add: r)
qed

end
