(* ===== verification/StoreFindings.thy ===== *)
theory StoreFindings
  imports StoreDurable
begin

text \<open>
  Where the filesystem store does not do what it means to: the size limit of \<open>Prune\<close>, the cache
  after \<open>Prune\<close>, the byte count, and two ways in which a partition is skipped although it holds
  matching entries.
\<close>

section \<open>The size limit of Prune\<close>

lemma prune_files_half:
  assumes "prune_files flt now maxAge maxSize fs deleted freed s = (e, deleted', freed', t)" and "maxAge \<le> 0"
    and "\<forall>f\<in>set fs. 0 \<le> df_size f \<and> df_size f \<le> b" and "0 \<le> freed" and "fs_totalBytes s = T0 - freed"
    and "0 < freed \<Longrightarrow> 2 * freed < T0 - maxSize + 2 * b"
  shows "fs_totalBytes t = T0 - freed' \<and> 0 \<le> freed' \<and> (0 < freed' \<longrightarrow> 2 * freed' < T0 - maxSize + 2 * b)"
  using assms(1,3-)
proof (induction fs arbitrary: deleted freed s)
  case (Cons f fs)
  show ?case
  proof (cases "\<not> flt (SCtxFile (df_dir f) (df_name f)) \<and> \<not> flt (SStat (df_dir f) (df_name f)) \<and>
      should_delete now maxAge maxSize freed s f \<and> \<not> flt (SRemove (df_dir f) (df_name f))")
    case True
    let ?s = "s\<lparr>fs_disk := remove_data_file f (fs_disk s), fs_totalBytes := fs_totalBytes s - df_size f\<rparr>"
    have run: "prune_files flt now maxAge maxSize fs (deleted + 1) (freed + df_size f) ?s = (e, deleted', freed', t)"
      using Cons.prems(1) True by simp
    have "maxSize < T0 - 2 * freed" using True assms(2) Cons.prems(4) by (auto simp: should_delete_def)
    then have "2 * (freed + df_size f) < T0 - maxSize + 2 * b" using Cons.prems(2) by auto
    then show ?thesis
      using Cons.IH [OF run] Cons.prems by simp
  next
    case False
    with Cons.prems(1) have "e = Some ErrCanceled \<and> freed' = freed \<and> t = s \<or>
        prune_files flt now maxAge maxSize fs deleted freed s = (e, deleted', freed', t)" by (auto split: if_splits)
    then show ?thesis using Cons.IH [of deleted freed s] Cons.prems by auto
  qed
qed auto

lemma Prune_run:
  assumes "Prune flt now maxAge maxSizeBytes s = (e, deleted, freed, t)" and "\<not> fs_closed s"
  obtains e1 s1 where "prune_files flt now maxAge maxSizeBytes (all_data_files (fs_disk s)) 0 0 s = (e1, deleted, freed, s1)"
    and "e = e1" and "t = (if e1 = None \<and> 0 < deleted then cleanEmptyPartitionsLocked flt (s1\<lparr>fs_cache := []\<rparr>) else s1)"
proof -
  obtain e1 d1 f1 s1 where run: "prune_files flt now maxAge maxSizeBytes (all_data_files (fs_disk s)) 0 0 s = (e1, d1, f1, s1)"
    by (metis prod_cases4)
  have "d1 = deleted \<and> f1 = freed \<and> e = e1 \<and>
      t = (if e1 = None \<and> 0 < deleted then cleanEmptyPartitionsLocked flt (s1\<lparr>fs_cache := []\<rparr>) else s1)"
    using assms unfolding Prune_def run by (cases e1) auto
  with run that show thesis by blast
qed

text \<open>
  The size limit of \<open>Prune\<close> is missed: the loop compares \<open>s.totalBytes - freed\<close> with the limit
  although \<open>s.totalBytes\<close> has been decremented already, so every freed byte counts twice. With
  no age limit, a run frees less than half of the excess plus the size of one file.
\<close>

lemma Prune_frees_half:
  assumes "Prune flt now 0 maxSizeBytes s = (e, deleted, freed, t)" and "\<not> fs_closed s" and "0 < freed"
    and "\<forall>f\<in>set (all_data_files (fs_disk s)). 0 \<le> df_size f \<and> df_size f \<le> b"
  shows "2 * freed < DiskUsage s - maxSizeBytes + 2 * b"
proof -
  obtain e1 s1 where "prune_files flt now 0 maxSizeBytes (all_data_files (fs_disk s)) 0 0 s = (e1, deleted, freed, s1)"
    by (rule Prune_run [OF assms(1,2)])
  from prune_files_half [OF this _ assms(4), of "fs_totalBytes s"] assms(3) show ?thesis by (simp add: DiskUsage_def)
qed

definition ex_block_file :: block_file where
  "ex_block_file = \<lparr>bf_data = replicate 10 CHR ''z'', bf_mod = zero_time\<rparr>"

text \<open>Three blocks of ten bytes, and their bytes counted as \<open>Append\<close> counts them.\<close>

definition ex_full :: file_store where
  "ex_full = ex_store0\<lparr>fs_totalBytes := 30,
     fs_disk := [(''2023/11/14/22'', empty_partition\<lparr>p_blocks := map (\<lambda>n. (n, ex_block_file)) [''a.zst'', ''b.zst'', ''c.zst''],
       p_index := Some (map ex_line [zero_header\<lparr>bh_FileName := ''a.zst''\<rparr>, zero_header\<lparr>bh_FileName := ''b.zst''\<rparr>, zero_header\<lparr>bh_FileName := ''c.zst''\<rparr>])\<rparr>)]\<rparr>"

lemma Prune_frees_half_witness:
  "2 * fst (snd (snd (Prune no_faults ex_now 0 5 ex_full))) < DiskUsage ex_full - 5 + 2 * 10"
proof -
  obtain e d f t where r: "Prune no_faults ex_now 0 5 ex_full = (e, d, f, t)" by (metis prod_cases4)
  have "fst (snd (snd (Prune no_faults ex_now 0 5 ex_full))) = 20" by code_simp
  then have f: "f = 20" by (simp add: r)
  have c: "\<not> fs_closed ex_full" by (simp add: ex_full_def ex_store0_def)
  have "list_all (\<lambda>f. 0 \<le> df_size f \<and> df_size f \<le> 10) (all_data_files (fs_disk ex_full))" by code_simp
  then have b: "\<forall>f\<in>set (all_data_files (fs_disk ex_full)). 0 \<le> df_size f \<and> df_size f \<le> 10" by (simp add: list_all_iff)
  from Prune_frees_half [OF r c _ b] f show ?thesis by (simp add: r)
qed

section \<open>The cache after Prune\<close>

lemma clean_frame: "fs_cache (clean_partition flt dp s) = fs_cache s" "fs_closed (clean_partition flt dp s) = fs_closed s"
  by (cases dp; simp add: clean_partition_def Let_def)+

lemma clean_cache: "fs_cache (cleanEmptyPartitionsLocked flt s) = fs_cache s"
proof -
  have "fs_cache (fold (clean_partition flt) xs u) = fs_cache u" for xs u
    by (induction xs arbitrary: u) (simp_all add: clean_frame)
  then show ?thesis by (simp add: cleanEmptyPartitionsLocked_def)
qed

text \<open>
  C24. Blocks that survive a \<open>Prune\<close> disappear from queries with the next append to their hour:
  \<open>Prune\<close> empties the partition cache, \<open>Append\<close> then starts a new cache entry with its own
  header only, and a cache entry is never completed from the index. Queries see one block, while
  the index on disk, if it was in whole lines, lists the surviving blocks too.
\<close>

theorem append_after_Prune_hides_blocks:
  assumes prune: "Prune flt now maxAge maxSizeBytes s = (None, deleted, freed, t)" and "0 < deleted"
    and append: "append_group cd hjson flt uuid now dir es t = (None, u)" and hj: "index_faithful hjson" and whole: "lines_short (part_at t dir)"
  shows "\<exists>h. getPartitionHeaders flt dir u = ([h], u) \<and> index_headers (part_at u dir) = index_headers (part_at t dir) @ [h]"
proof -
  have "\<not> fs_closed s" using prune by (auto simp: Prune_def split: if_splits)
  from Prune_run [OF prune this] have "\<exists>s1. t = cleanEmptyPartitionsLocked flt (s1\<lparr>fs_cache := []\<rparr>)"
    using assms(2) by (metis (mono_tags))
  then have c: "cached t dir = []" by (auto simp: cached_def clean_cache)
  from append show ?thesis
  proof (cases rule: append_group_cases)
    case (success h z)
    let ?old = "case p_index (part_at t dir) of None \<Rightarrow> [] | Some ls \<Rightarrow> ls"
    have "list_all (\<lambda>l. short_line l \<and> \<not> il_open l) ?old" using whole by (simp add: lines_short_def split: option.splits)
    then have u: "map_of (fs_cache u) dir = Some [h]" "p_index (part_at u dir) = Some (?old @ [hjson h])"
      using success put_line_closed by (simp_all add: catalogued_def c part_at_def Let_def update_conv')
    have "index_headers (part_at u dir) = index_headers (part_at t dir) @ [h]"
      using hj u(2) by (auto simp: index_headers_def index_faithful_def List.map_filter_def split: option.splits)
    with u(1) show ?thesis by (simp add: getPartitionHeaders_def)
  qed simp_all
qed

theorem append_after_Prune_hides_blocks_witness:
  "\<exists>t u h. Prune no_faults ex_now 0 25 ex_full = (None, 1, 10, t) \<and>
     append_group letter_codec ex_line no_faults (\<lambda>dir. ''01234567'') ex_now ''2023/11/14/22'' (map letter_entry ''a'') t = (None, u) \<and>
     getPartitionHeaders no_faults ''2023/11/14/22'' u = ([h], u) \<and>
     index_headers (part_at u ''2023/11/14/22'') = index_headers (part_at t ''2023/11/14/22'') @ [h]"
proof -
  obtain e d f t where r: "Prune no_faults ex_now 0 25 ex_full = (e, d, f, t)" by (metis prod_cases4)
  have "fst (Prune no_faults ex_now 0 25 ex_full) = None" "fst (snd (Prune no_faults ex_now 0 25 ex_full)) = 1"
    "fst (snd (snd (Prune no_faults ex_now 0 25 ex_full))) = 10" by code_simp+
  then have r': "Prune no_faults ex_now 0 25 ex_full = (None, 1, 10, t)" using r by simp
  have cf: "codec_faithful letter_codec (map letter_entry ''a'')" by (rule letter_codec_faithful) simp
  obtain u where u: "append_group letter_codec ex_line no_faults (\<lambda>dir. ''01234567'') ex_now ''2023/11/14/22'' (map letter_entry ''a'') t = (None, u)"
    using append_group_total(1) [OF cf] by (metis prod.collapse)
  have "lines_short (part_at (snd (snd (snd (Prune no_faults ex_now 0 25 ex_full)))) ''2023/11/14/22'')" by code_simp
  then have "lines_short (part_at t ''2023/11/14/22'')" by (simp add: r')
  from append_after_Prune_hides_blocks [OF r' _ u ex_line_faithful this] r' u show ?thesis by auto
qed

section \<open>A torn index\<close>

text \<open>
  \<open>AppendBlockToPartition\<close> leaves what a short write has put into the index and appends the next
  header to it: that header is not in a line of its own and cannot be read back, although
  its append succeeds.
\<close>

lemma append_after_torn_line_unlisted:
  assumes "append_group cd hjson flt uuid now dir es s = (None, u)"
    and "p_index (part_at s dir) = Some (ls @ [l])" and "il_open l"
  shows "\<exists>h. cached u dir = cached s dir @ [h] \<and> index_headers (part_at u dir) = List.map_filter il_header ls"
  using assms(1)
proof (cases rule: append_group_cases)
  case (success h z)
  then have "cached u dir = cached s dir @ [h]" "p_index (part_at u dir) = Some (put_line (ls @ [l]) (hjson h))"
    using assms(2) by (simp_all add: catalogued_def cached_def part_at_def Let_def update_conv')
  with assms(3) show ?thesis by (intro exI [of _ h]) (simp add: put_line_def index_headers_def List.map_filter_def)
qed simp_all

text \<open>Such a line comes from a short write in an append that fails.\<close>

lemma short_write_tears:
  assumes "EncodeBlock cd (uuid dir) now es = Inr (h, z)" and "flt (SIndexWrite dir (bh_FileName h))"
    and "\<not> flt (SMkdir dir)" and "\<not> flt (SWriteBlock dir (bh_FileName h))" and "\<not> flt (SAppendIndex dir (bh_FileName h))"
    and "0 < short_write flt dir (bh_FileName h) (hjson h)"
  shows "\<exists>t ls l. append_group cd hjson flt uuid now dir es s = (Some ErrAppendIndex, t) \<and>
    p_index (part_at t dir) = Some (ls @ [l]) \<and> il_open l"
proof -
  let ?p = "part_at s dir" and ?l = "torn_line (hjson h) (short_write flt dir (bh_FileName h) (hjson h))"
  have "\<exists>ls l. put_line xs ?l = ls @ [l] \<and> il_open l" for xs
    by (cases "xs \<noteq> [] \<and> il_open (last xs)") (auto simp: put_line_def torn_line_def)
  then obtain ls l where l: "put_line (case p_index ?p of None \<Rightarrow> [] | Some ls \<Rightarrow> ls) ?l = ls @ [l]" "il_open l" by blast
  have "AppendBlockToPartition hjson flt now dir h z (fs_disk s) = (Some ErrAppendIndex,
      AList.update dir (?p\<lparr>p_blocks := AList.update (bh_FileName h) \<lparr>bf_data = z, bf_mod = now\<rparr> (p_blocks ?p), p_index := Some (ls @ [l])\<rparr>) (fs_disk s))"
    using assms(2-) l(1) unfolding AppendBlockToPartition_def Let_def part_at_def [symmetric] by simp
  with assms(1) l(2) show ?thesis by (simp add: append_group_def part_at_def update_conv')
qed

text \<open>
  With a failing \<open>Close\<close> it is the other way round: the append is refused, so the agent sends the
  batch again, while its block is listed and a restart finds it.
\<close>

lemma failed_close_lists_refused:
  assumes "EncodeBlock cd (uuid dir) now es = Inr (h, z)" and "flt (SIndexClose dir (bh_FileName h))"
    and "\<not> flt (SMkdir dir)" and "\<not> flt (SWriteBlock dir (bh_FileName h))" and "\<not> flt (SAppendIndex dir (bh_FileName h))"
    and "\<not> flt (SIndexWrite dir (bh_FileName h))" and whole: "lines_short (part_at s dir)" and hj: "index_faithful hjson"
  shows "\<exists>t. append_group cd hjson flt uuid now dir es s = (Some ErrAppendIndex, t) \<and> cached t dir = cached s dir \<and>
    index_headers (part_at t dir) = index_headers (part_at s dir) @ [h]"
proof -
  let ?p = "part_at s dir"
  let ?old = "case p_index ?p of None \<Rightarrow> [] | Some ls \<Rightarrow> ls"
  let ?q = "?p\<lparr>p_blocks := AList.update (bh_FileName h) \<lparr>bf_data = z, bf_mod = now\<rparr> (p_blocks ?p), p_index := Some (?old @ [hjson h])\<rparr>"
  have "list_all (\<lambda>l. short_line l \<and> \<not> il_open l) ?old" using whole by (simp add: lines_short_def split: option.splits)
  then have "AppendBlockToPartition hjson flt now dir h z (fs_disk s) = (Some ErrAppendIndex, AList.update dir ?q (fs_disk s))"
    using assms(2-6) put_line_closed unfolding AppendBlockToPartition_def Let_def part_at_def [symmetric] by simp
  moreover have "index_headers ?q = index_headers ?p @ [h]"
    using hj by (auto simp: index_headers_def index_faithful_def List.map_filter_def split: option.splits)
  ultimately show ?thesis using assms(1) by (simp add: append_group_def part_at_def [of _ dir] update_conv' cached_def)
qed

section \<open>Smaller deviations\<close>

text \<open>
  \<open>Append\<close> adds the size of a block to \<open>totalBytes\<close> but not that of its index line, and \<open>Prune\<close>
  subtracts both: the disk usage becomes negative.
\<close>

definition ex_one :: file_store where
  "ex_one = ex_store0\<lparr>fs_totalBytes := 10,
     fs_disk := [(''2023/11/14/22'', empty_partition\<lparr>p_blocks := [(''a.zst'', ex_block_file)],
       p_index := Some [ex_line (zero_header\<lparr>bh_FileName := ''a.zst'', bh_CompressedBytes := 10\<rparr>)]\<rparr>)]\<rparr>"

lemma DiskUsage_negative: "DiskUsage (snd (snd (snd (Prune no_faults ex_now 3600 0 ex_one)))) = - 1"
  by code_simp

text \<open>
  A partition is skipped when its summary does not list the host with the case of the query,
  although entry and block match the query.
\<close>

definition ex_case_query :: log_query where
  "ex_case_query = \<lparr>q_Host = ''WEB'', q_Source = '''', q_Level = '''', q_StartTime = zero_time, q_EndTime = zero_time,
     q_Search = '''', q_Limit = 10\<rparr>"

lemma summary_case_gap:
  "Matches (letter_entry CHR ''a'') ex_case_query \<and> MatchesQuery (ex_header 7 ''web'') ex_case_query \<and>
   \<not> summary_matches (update_summary (ex_header 7 ''web'') None) ex_case_query"
  by code_simp

text \<open>
  An entry with a zone offset is filed under its local hour, and a query bounded on both sides
  looks only at the UTC hours of its range.
\<close>

definition ex_zoned :: gotime where
  "ex_zoned = \<lparr>instant = 1700000000000000000, zone = 19800\<rparr>"

lemma zone_gap:
  "partition_dir ex_zoned = ''2023/11/15/03'' \<and>
   generateCandidateDirs ex_zoned ex_zoned (ex_store0\<lparr>fs_disk := [(''2023/11/15/03'', empty_partition)]\<rparr>) = []"
  by code_simp

end
