(* ===== verification/Protobuf.thy ===== *)
theory Protobuf
  imports LogEntry
begin

text \<open>
  The binary wire format of \<open>internal/protocol/protobuf.go\<close>: marshalling and unmarshalling of
  entries, ingest requests and ingest responses. The package \<open>protowire\<close> is the argument \<open>pw\<close>:
  what each \<open>Append\<close> function appends, and what each \<open>Consume\<close> function reads from the front
  (the value and the number of bytes, or \<open>None\<close> for a negative count). Strings and byte
  slices have the same encoding. The four unmarshalling loops have one shape, \<open>fields_loop\<close>; as
  \<open>protowire\<close> is not modelled the loop is a partial function, in which not returning is \<open>None\<close>.

  A struct being decoded starts as Go's zero value; on an error the caller discards it.
\<close>

section \<open>Wire primitives\<close>

record protowire =
  pw_Tag :: "nat \<Rightarrow> nat \<Rightarrow> string"
  pw_Bytes :: "string \<Rightarrow> string"
  pw_Varint :: "64 word \<Rightarrow> string"
  pw_ConsumeTag :: "string \<Rightarrow> (nat \<times> nat \<times> nat) option"
  pw_ConsumeBytes :: "string \<Rightarrow> (string \<times> nat) option"
  pw_ConsumeVarint :: "string \<Rightarrow> (64 word \<times> nat) option"
  pw_ConsumeFieldValue :: "nat \<Rightarrow> nat \<Rightarrow> string \<Rightarrow> nat option"

definition VarintType :: nat where "VarintType = 0"
definition BytesType :: nat where "BytesType = 2"

datatype proto_error = ErrParse

definition ContentTypeProtobuf :: string where
  "ContentTypeProtobuf = ''application/x-protobuf''"

definition ContentTypeOctetStream :: string where
  "ContentTypeOctetStream = ''application/octet-stream''"

definition IsProtobufContentType :: "string \<Rightarrow> bool" where
  "IsProtobufContentType contentType \<longleftrightarrow>
     (let ct = ToLower (TrimSpace contentType)
      in HasPrefix ct ContentTypeProtobuf \<or> HasPrefix ct ContentTypeOctetStream)"

section \<open>Marshalling\<close>

definition string_field :: "protowire \<Rightarrow> nat \<Rightarrow> string \<Rightarrow> string" where
  "string_field pw num s = (if s \<noteq> '''' then pw_Tag pw num BytesType @ pw_Bytes pw s else [])"

definition map_entry :: "protowire \<Rightarrow> string \<times> string \<Rightarrow> string" where
  "map_entry pw kv = string_field pw 1 (fst kv) @ string_field pw 2 (snd kv)"

definition AppendLogEntry :: "protowire \<Rightarrow> string \<Rightarrow> log_entry \<Rightarrow> string" where
  "AppendLogEntry pw dst e =
     dst @ string_field pw 1 (ID e) @
     (if \<not> IsZero (Timestamp e) then pw_Tag pw 2 VarintType @ pw_Varint pw (word_of_int (UnixNano (Timestamp e))) else []) @
     string_field pw 3 (Host e) @ string_field pw 4 (Source e) @ string_field pw 5 (Level e) @ string_field pw 6 (Message e) @
     concat (map (\<lambda>kv. pw_Tag pw 7 BytesType @ pw_Bytes pw (map_entry pw kv)) (Fields e))"

definition MarshalLogEntry :: "protowire \<Rightarrow> log_entry \<Rightarrow> string" where
  "MarshalLogEntry pw e = AppendLogEntry pw [] e"

definition MarshalIngestRequest :: "protowire \<Rightarrow> ingest_request \<Rightarrow> string" where
  "MarshalIngestRequest pw req =
     string_field pw 1 (AgentID req) @
     concat (map (\<lambda>e. pw_Tag pw 2 BytesType @ pw_Bytes pw (MarshalLogEntry pw e)) (Events req))"

definition int_field :: "protowire \<Rightarrow> nat \<Rightarrow> int \<Rightarrow> string" where
  "int_field pw num v = (if v \<noteq> 0 then pw_Tag pw num VarintType @ pw_Varint pw (word_of_int v) else [])"

definition MarshalIngestResponse :: "protowire \<Rightarrow> ingest_response \<Rightarrow> string" where
  "MarshalIngestResponse pw resp =
     string_field pw 1 (Status resp) @ int_field pw 2 (Accepted resp) @ int_field pw 3 (Duplicates resp) @
     concat (map (\<lambda>m. pw_Tag pw 4 BytesType @ pw_Bytes pw m) (Errors resp))"

section \<open>Unmarshalling\<close>

type_synonym 'x field_step = "nat \<Rightarrow> nat \<Rightarrow> string \<Rightarrow> 'x \<Rightarrow> (proto_error, string \<times> 'x) result option"

partial_function (option) fields_loop ::
  "protowire \<Rightarrow> (nat \<Rightarrow> nat \<Rightarrow> string \<Rightarrow> 'x \<Rightarrow> (proto_error, string \<times> 'x) result option) \<Rightarrow> string \<Rightarrow> 'x
     \<Rightarrow> (proto_error, 'x) result option" where
  "fields_loop pw step b x =
     (if b = [] then Some (Inr x)
      else
        case pw_ConsumeTag pw b of
          None \<Rightarrow> Some (Inl ErrParse)
        | Some (num, typ, n) \<Rightarrow>
            Option.bind (step num typ (drop n b) x)
              (\<lambda>r. case r of Inl e \<Rightarrow> Some (Inl e) | Inr bx \<Rightarrow> fields_loop pw step (fst bx) (snd bx)))"

definition string_step :: "protowire \<Rightarrow> (string \<Rightarrow> 'x) \<Rightarrow> string \<Rightarrow> (proto_error, string \<times> 'x) result option" where
  "string_step pw upd b =
     (case pw_ConsumeBytes pw b of None \<Rightarrow> Some (Inl ErrParse) | Some (v, n) \<Rightarrow> Some (Inr (drop n b, upd v)))"

definition varint_step :: "protowire \<Rightarrow> (64 word \<Rightarrow> 'x) \<Rightarrow> string \<Rightarrow> (proto_error, string \<times> 'x) result option" where
  "varint_step pw upd b =
     (case pw_ConsumeVarint pw b of None \<Rightarrow> Some (Inl ErrParse) | Some (v, n) \<Rightarrow> Some (Inr (drop n b, upd v)))"

definition skip_step :: "protowire \<Rightarrow> nat \<Rightarrow> nat \<Rightarrow> 'x \<Rightarrow> string \<Rightarrow> (proto_error, string \<times> 'x) result option" where
  "skip_step pw num typ x b =
     (case pw_ConsumeFieldValue pw num typ b of None \<Rightarrow> Some (Inl ErrParse) | Some n \<Rightarrow> Some (Inr (drop n b, x)))"

definition map_entry_step :: "protowire \<Rightarrow> (string \<times> string) field_step" where
  "map_entry_step pw num typ b kv =
     (if num = 1 then string_step pw (\<lambda>v. (v, snd kv)) b
      else if num = 2 then string_step pw (\<lambda>v. (fst kv, v)) b
      else skip_step pw num typ kv b)"

definition unmarshalMapEntry :: "protowire \<Rightarrow> string \<Rightarrow> (proto_error, string \<times> string) result option" where
  "unmarshalMapEntry pw b = fields_loop pw (map_entry_step pw) b ('''', '''')"

definition log_entry_step :: "protowire \<Rightarrow> log_entry field_step" where
  "log_entry_step pw num typ b e =
     (if num = 1 then string_step pw (\<lambda>v. e\<lparr>ID := v\<rparr>) b
      else if num = 2 then varint_step pw (\<lambda>v. if v \<noteq> 0 then e\<lparr>Timestamp := unix_utc (sint v)\<rparr> else e) b
      else if num = 3 then string_step pw (\<lambda>v. e\<lparr>Host := v\<rparr>) b
      else if num = 4 then string_step pw (\<lambda>v. e\<lparr>Source := v\<rparr>) b
      else if num = 5 then string_step pw (\<lambda>v. e\<lparr>Level := v\<rparr>) b
      else if num = 6 then string_step pw (\<lambda>v. e\<lparr>Message := v\<rparr>) b
      else if num = 7 then
        (case pw_ConsumeBytes pw b of
           None \<Rightarrow> Some (Inl ErrParse)
         | Some (entryBytes, n) \<Rightarrow>
             Option.bind (unmarshalMapEntry pw entryBytes)
               (\<lambda>r. case r of
                      Inl err \<Rightarrow> Some (Inl err)
                    | Inr (k, v) \<Rightarrow> Some (Inr (drop n b, e\<lparr>Fields := AList.update k v (Fields e)\<rparr>))))
      else skip_step pw num typ e b)"

definition UnmarshalLogEntry :: "protowire \<Rightarrow> string \<Rightarrow> log_entry \<Rightarrow> (proto_error, log_entry) result option" where
  "UnmarshalLogEntry pw b e = fields_loop pw (log_entry_step pw) b e"

definition empty_entry :: log_entry where
  "empty_entry = \<lparr>ID = '''', Timestamp = zero_time, Host = '''', Source = '''', Level = '''', Message = '''', Fields = []\<rparr>"

definition request_step :: "protowire \<Rightarrow> ingest_request field_step" where
  "request_step pw num typ b req =
     (if num = 1 then string_step pw (\<lambda>v. req\<lparr>AgentID := v\<rparr>) b
      else if num = 2 then
        (case pw_ConsumeBytes pw b of
           None \<Rightarrow> Some (Inl ErrParse)
         | Some (eventBytes, n) \<Rightarrow>
             Option.bind (UnmarshalLogEntry pw eventBytes empty_entry)
               (\<lambda>r. case r of
                      Inl err \<Rightarrow> Some (Inl err)
                    | Inr entry \<Rightarrow> Some (Inr (drop n b, req\<lparr>Events := Events req @ [entry]\<rparr>))))
      else skip_step pw num typ req b)"

definition UnmarshalIngestRequest :: "protowire \<Rightarrow> string \<Rightarrow> ingest_request \<Rightarrow> (proto_error, ingest_request) result option" where
  "UnmarshalIngestRequest pw b req = fields_loop pw (request_step pw) b req"

definition response_step :: "protowire \<Rightarrow> ingest_response field_step" where
  "response_step pw num typ b resp =
     (if num = 1 then string_step pw (\<lambda>v. resp\<lparr>Status := v\<rparr>) b
      else if num = 2 then varint_step pw (\<lambda>v. resp\<lparr>Accepted := sint v\<rparr>) b
      else if num = 3 then varint_step pw (\<lambda>v. resp\<lparr>Duplicates := sint v\<rparr>) b
      else if num = 4 then string_step pw (\<lambda>v. resp\<lparr>Errors := Errors resp @ [v]\<rparr>) b
      else skip_step pw num typ resp b)"

definition UnmarshalIngestResponse :: "protowire \<Rightarrow> string \<Rightarrow> ingest_response \<Rightarrow> (proto_error, ingest_response) result option" where
  "UnmarshalIngestResponse pw b resp = fields_loop pw (response_step pw) b resp"

section \<open>Facts\<close>

text \<open>What the code relies on of \<open>protowire\<close>: each \<open>Consume\<close> reads what the \<open>Append\<close> wrote.\<close>

definition pw_faithful :: "protowire \<Rightarrow> bool" where
  "pw_faithful pw \<longleftrightarrow>
     (\<forall>num typ rest. 1 \<le> num \<and> num \<le> 7 \<and> typ \<in> {VarintType, BytesType} \<longrightarrow>
        pw_Tag pw num typ \<noteq> [] \<and>
        pw_ConsumeTag pw (pw_Tag pw num typ @ rest) = Some (num, typ, length (pw_Tag pw num typ))) \<and>
     (\<forall>s rest. pw_ConsumeBytes pw (pw_Bytes pw s @ rest) = Some (s, length (pw_Bytes pw s))) \<and>
     (\<forall>v rest. pw_ConsumeVarint pw (pw_Varint pw v @ rest) = Some (v, length (pw_Varint pw v)))"

lemma fields_loop_Nil [simp]: "fields_loop pw step [] x = Some (Inr x)"
  by (subst fields_loop.simps) simp

lemma fields_loop_tag:
  assumes "pw_faithful pw" and "1 \<le> num" and "num \<le> 7" and "typ \<in> {VarintType, BytesType}"
  shows "fields_loop pw step (pw_Tag pw num typ @ rest) x =
    Option.bind (step num typ rest x) (\<lambda>r. case r of Inl e \<Rightarrow> Some (Inl e) | Inr bx \<Rightarrow> fields_loop pw step (fst bx) (snd bx))"
  using assms unfolding pw_faithful_def by (subst fields_loop.simps) auto

lemma string_step_bytes: "pw_faithful pw \<Longrightarrow> string_step pw upd (pw_Bytes pw s @ rest) = Some (Inr (rest, upd s))"
  by (simp add: string_step_def pw_faithful_def)

lemma varint_step_varint: "pw_faithful pw \<Longrightarrow> varint_step pw upd (pw_Varint pw v @ rest) = Some (Inr (rest, upd v))"
  by (simp add: varint_step_def pw_faithful_def)

lemma loop_string_field:
  assumes "pw_faithful pw" and "1 \<le> num" and "num \<le> 7" and "\<And>b. step num BytesType b x = string_step pw upd b" and "s = '''' \<Longrightarrow> upd '''' = x"
  shows "fields_loop pw step (string_field pw num s @ rest) x = fields_loop pw step rest (upd s)"
  using assms by (auto simp: string_field_def fields_loop_tag string_step_bytes)

lemma sint_word64: "- (2 ^ 63) \<le> v \<Longrightarrow> v < 2 ^ 63 \<Longrightarrow> sint (word_of_int v :: 64 word) = v"
  by (simp add: sint_sbintrunc' signed_take_bit_int_eq_self)

lemma loop_int_field:
  assumes "pw_faithful pw" and "1 \<le> num" and "num \<le> 7" and "\<And>b. step num VarintType b x = varint_step pw (\<lambda>v. upd (sint v)) b"
    and "v = 0 \<Longrightarrow> upd 0 = x" and "- (2 ^ 63) \<le> v" and "v < 2 ^ 63"
  shows "fields_loop pw step (int_field pw num v @ rest) x = fields_loop pw step rest (upd v)"
proof -
  have "sint (word_of_int v :: 64 word) = v" using assms(6,7) by (rule sint_word64)
  then show ?thesis using assms(1-5) by (auto simp: int_field_def fields_loop_tag varint_step_varint)
qed

lemma loop_repeated:
  assumes "pw_faithful pw" and "1 \<le> num" and "num \<le> 7"
    and "\<And>v rest x. v \<in> set vs \<Longrightarrow> step num BytesType (pw_Bytes pw (enc v) @ rest) x = Some (Inr (rest, add v x))"
  shows "fields_loop pw step (concat (map (\<lambda>v. pw_Tag pw num BytesType @ pw_Bytes pw (enc v)) vs)) x = Some (Inr (fold add vs x))"
  using assms(4) by (induction vs arbitrary: x) (simp_all add: fields_loop_tag [OF assms(1-3)])

lemma unmarshal_map_entry: "pw_faithful pw \<Longrightarrow> unmarshalMapEntry pw (map_entry pw kv) = Some (Inr kv)"
proof -
  assume pw: "pw_faithful pw"
  have "fields_loop pw (map_entry_step pw) (string_field pw 1 (fst kv) @ string_field pw 2 (snd kv) @ []) ('''', '''') =
      fields_loop pw (map_entry_step pw) (string_field pw 2 (snd kv) @ []) (fst kv, '''')"
    by (rule loop_string_field [OF pw, where upd = "\<lambda>v. (v, '''')", simplified]) (simp_all add: map_entry_step_def)
  also have "\<dots> = fields_loop pw (map_entry_step pw) [] (fst kv, snd kv)"
    by (rule loop_string_field [OF pw, where upd = "\<lambda>v. (fst kv, v)", simplified]) (simp_all add: map_entry_step_def)
  finally show ?thesis by (simp add: unmarshalMapEntry_def map_entry_def)
qed

text \<open>
  What a timestamp becomes on the wire: nanoseconds since the epoch in UTC; the zero time and the
  epoch itself both come back as the zero time.
\<close>

definition wire_time :: "gotime \<Rightarrow> gotime" where
  "wire_time t = (if IsZero t \<or> UnixNano t = 0 then zero_time else unix_utc (UnixNano t))"

definition wire_entry :: "log_entry \<Rightarrow> log_entry" where
  "wire_entry e = e\<lparr>Timestamp := wire_time (Timestamp e)\<rparr>"

lemma fold_update_distinct:
  "wf_map (xs @ kvs) \<Longrightarrow> fold (\<lambda>kv m. AList.update (fst kv) (snd kv) m) kvs xs = xs @ kvs"
proof (induction kvs arbitrary: xs)
  case (Cons kv kvs)
  have "AList.update (fst kv) (snd kv) xs = xs @ [kv]"
    using Cons.prems by (induction xs) auto
  with Cons show ?case by simp
qed simp

lemma fold_fields: "fold (\<lambda>kv e. e\<lparr>Fields := AList.update (fst kv) (snd kv) (Fields e)\<rparr>) kvs e =
    e\<lparr>Fields := fold (\<lambda>kv m. AList.update (fst kv) (snd kv) m) kvs (Fields e)\<rparr>"
  by (induction kvs arbitrary: e) simp_all

lemma UnmarshalLogEntry_Marshal:
  assumes pw: "pw_faithful pw" and wf: "wf_map (Fields e)"
  shows "UnmarshalLogEntry pw (MarshalLogEntry pw e) empty_entry = Some (Inr (wire_entry e))"
proof -
  let ?L = "fields_loop pw (log_entry_step pw)"
  let ?F = "concat (map (\<lambda>kv. pw_Tag pw 7 BytesType @ pw_Bytes pw (map_entry pw kv)) (Fields e))"
  let ?T = "if \<not> IsZero (Timestamp e) then pw_Tag pw 2 VarintType @ pw_Varint pw (word_of_int (UnixNano (Timestamp e))) else []"
  note str = loop_string_field [OF pw, where step = "log_entry_step pw"]
  have t: "?L (?T @ r) x = ?L r (x\<lparr>Timestamp := wire_time (Timestamp e)\<rparr>)" if "Timestamp x = zero_time" for r x
  proof -
    have range: "- (2 ^ 63) \<le> UnixNano (Timestamp e) \<and> UnixNano (Timestamp e) < 2 ^ 63" unfolding UnixNano_def by (rule int64_range)
    then have s: "sint (word_of_int (UnixNano (Timestamp e)) :: 64 word) = UnixNano (Timestamp e)" by (intro sint_word64) auto
    have z: "(word_of_int (UnixNano (Timestamp e)) :: 64 word) = 0 \<longleftrightarrow> UnixNano (Timestamp e) = 0" using s by force
    have id: "x = x\<lparr>Timestamp := zero_time\<rparr>" using that by simp
    show ?thesis
      using id by (auto simp: fields_loop_tag [OF pw] log_entry_step_def varint_step_varint [OF pw] s z wire_time_def)
  qed
  have f: "?L ?F x = Some (Inr (x\<lparr>Fields := fold (\<lambda>kv m. AList.update (fst kv) (snd kv) m) (Fields e) (Fields x)\<rparr>))" for x
    unfolding fold_fields [symmetric]
    by (rule loop_repeated [OF pw]) (use pw in \<open>simp_all add: log_entry_step_def unmarshal_map_entry pw_faithful_def case_prod_beta\<close>)
  have "?L (string_field pw 1 (ID e) @ ?T @ string_field pw 3 (Host e) @ string_field pw 4 (Source e) @
      string_field pw 5 (Level e) @ string_field pw 6 (Message e) @ ?F) empty_entry = Some (Inr (wire_entry e))"
    using wf
    by (simp add: str [where upd = "\<lambda>v. empty_entry\<lparr>ID := v\<rparr>"] log_entry_step_def t empty_entry_def
        str [where upd = "\<lambda>v. \<lparr>ID = ID e, Timestamp = wire_time (Timestamp e), Host = v, Source = '''', Level = '''', Message = '''', Fields = []\<rparr>"]
        str [where upd = "\<lambda>v. \<lparr>ID = ID e, Timestamp = wire_time (Timestamp e), Host = Host e, Source = v, Level = '''', Message = '''', Fields = []\<rparr>"]
        str [where upd = "\<lambda>v. \<lparr>ID = ID e, Timestamp = wire_time (Timestamp e), Host = Host e, Source = Source e, Level = v, Message = '''', Fields = []\<rparr>"]
        str [where upd = "\<lambda>v. \<lparr>ID = ID e, Timestamp = wire_time (Timestamp e), Host = Host e, Source = Source e, Level = Level e, Message = v, Fields = []\<rparr>"]
        f fold_update_distinct wire_entry_def)
  then show ?thesis by (simp add: UnmarshalLogEntry_def MarshalLogEntry_def AppendLogEntry_def)
qed

section \<open>The loops return\<close>

text \<open>What the loops rely on to return: a tag that is read takes at least one byte.\<close>

definition pw_progress :: "protowire \<Rightarrow> bool" where
  "pw_progress pw \<longleftrightarrow> (\<forall>b num typ n. pw_ConsumeTag pw b = Some (num, typ, n) \<longrightarrow> 0 < n)"

text \<open>One field is handled: the step returns, and what is left of the input is not longer than before.\<close>

definition field_done :: "string \<Rightarrow> (proto_error, string \<times> 'x) result option \<Rightarrow> bool" where
  "field_done b q \<longleftrightarrow> (\<exists>r. q = Some r \<and> (\<forall>bx. r = Inr bx \<longrightarrow> length (fst bx) \<le> length b))"

definition step_returns :: "'x field_step \<Rightarrow> bool" where
  "step_returns step \<longleftrightarrow> (\<forall>num typ b x. field_done b (step num typ b x))"

lemma fields_loop_returns:
  assumes "pw_progress pw" and "step_returns step"
  shows "\<exists>r. fields_loop pw step b x = Some r"
proof (induction b arbitrary: x rule: length_induct)
  case (1 b)
  show ?case
  proof (cases "b = [] \<or> pw_ConsumeTag pw b = None")
    case True
    then show ?thesis by (subst fields_loop.simps) auto
  next
    case False
    then obtain num ty n where tag: "pw_ConsumeTag pw b = Some (num, ty, n)" by (metis option.exhaust prod_cases3)
    then have n: "length (drop n b) < length b" using assms(1) False by (auto simp: pw_progress_def)
    obtain r where r: "step num ty (drop n b) x = Some r" "\<And>bx. r = Inr bx \<Longrightarrow> length (fst bx) \<le> length (drop n b)"
      using assms(2) unfolding step_returns_def field_done_def by metis
    have "\<exists>q. (case r of Inl e \<Rightarrow> Some (Inl e) | Inr bx \<Rightarrow> fields_loop pw step (fst bx) (snd bx)) = Some q"
      using 1 r(2) n by (cases r) (simp, metis le_less_trans sum.simps(6))
    then show ?thesis using False tag r(1) by (subst fields_loop.simps) simp
  qed
qed

lemma simple_steps_return [simp]:
  "field_done b (string_step pw upd b)" "field_done b (varint_step pw upd' b)" "field_done b (skip_step pw num typ x b)"
  by (auto simp: field_done_def string_step_def varint_step_def skip_step_def split: option.splits)

lemma nested_step_returns:
  assumes "\<And>v. \<exists>r. decode v = Some r" and "\<And>n y. \<exists>z. cont n y = Some (Inr (drop n b, z))"
  shows "field_done b (case pw_ConsumeBytes pw b of None \<Rightarrow> Some (Inl ErrParse)
      | Some (v, n) \<Rightarrow> Option.bind (decode v) (\<lambda>r. case r of Inl e \<Rightarrow> Some (Inl e) | Inr y \<Rightarrow> cont n y))"
proof (cases "pw_ConsumeBytes pw b")
  case (Some vn)
  obtain r where r: "decode (fst vn) = Some r" using assms(1) by blast
  show ?thesis
  proof (cases r)
    case (Inr y)
    obtain z where "cont (snd vn) y = Some (Inr (drop (snd vn) b, z))" using assms(2) by blast
    with Some r Inr show ?thesis by (simp add: field_done_def case_prod_beta)
  qed (use Some r in \<open>simp add: field_done_def case_prod_beta\<close>)
qed (simp add: field_done_def)

lemma map_entry_step_returns: "step_returns (map_entry_step pw)"
  by (simp add: step_returns_def map_entry_step_def)

lemma log_entry_step_returns:
  assumes "pw_progress pw"
  shows "step_returns (log_entry_step pw)"
proof -
  have "\<exists>r. unmarshalMapEntry pw v = Some r" for v
    unfolding unmarshalMapEntry_def by (rule fields_loop_returns [OF assms map_entry_step_returns])
  then show ?thesis by (auto simp: step_returns_def log_entry_step_def intro!: nested_step_returns)
qed

lemma request_step_returns:
  assumes "pw_progress pw"
  shows "step_returns (request_step pw)"
proof -
  have "\<exists>r. UnmarshalLogEntry pw v empty_entry = Some r" for v
    unfolding UnmarshalLogEntry_def by (rule fields_loop_returns [OF assms log_entry_step_returns [OF assms]])
  then show ?thesis by (auto simp: step_returns_def request_step_def intro!: nested_step_returns)
qed

lemma response_step_returns: "step_returns (response_step pw)"
  by (simp add: step_returns_def response_step_def)

section \<open>Properties\<close>

definition empty_request :: ingest_request where
  "empty_request = \<lparr>AgentID = '''', Events = []\<rparr>"

definition empty_response :: ingest_response where
  "empty_response = \<lparr>Status = '''', Accepted = 0, Duplicates = 0, Errors = []\<rparr>"

lemma fold_Events: "fold (\<lambda>e req. req\<lparr>Events := Events req @ [f e]\<rparr>) es req = req\<lparr>Events := Events req @ map f es\<rparr>"
  by (induction es arbitrary: req) simp_all

lemma fold_Errors: "fold (\<lambda>m r. r\<lparr>Errors := Errors r @ [m]\<rparr>) ms r = r\<lparr>Errors := Errors r @ ms\<rparr>"
  by (induction ms arbitrary: r) simp_all

text \<open>Decoding inverts encoding, for requests and for responses; both loops return.\<close>

lemma request_wire:
  assumes pw: "pw_faithful pw" and wf: "\<forall>e\<in>set (Events req). wf_map (Fields e)"
  shows "UnmarshalIngestRequest pw (MarshalIngestRequest pw req) empty_request =
    Some (Inr (req\<lparr>Events := map wire_entry (Events req)\<rparr>))"
proof -
  let ?L = "fields_loop pw (request_step pw)"
  let ?E = "concat (map (\<lambda>e. pw_Tag pw 2 BytesType @ pw_Bytes pw (MarshalLogEntry pw e)) (Events req))"
  have "?L (string_field pw 1 (AgentID req) @ ?E) empty_request = ?L ?E (empty_request\<lparr>AgentID := AgentID req\<rparr>)"
    by (rule loop_string_field [OF pw, where upd = "\<lambda>v. empty_request\<lparr>AgentID := v\<rparr>"])
      (simp_all add: request_step_def empty_request_def)
  also have "\<dots> = Some (Inr (fold (\<lambda>e req. req\<lparr>Events := Events req @ [wire_entry e]\<rparr>) (Events req) (empty_request\<lparr>AgentID := AgentID req\<rparr>)))"
  proof (rule loop_repeated [OF pw])
    fix e rest x
    assume "e \<in> set (Events req)"
    then show "request_step pw 2 BytesType (pw_Bytes pw (MarshalLogEntry pw e) @ rest) x = Some (Inr (rest, x\<lparr>Events := Events x @ [wire_entry e]\<rparr>))"
      using pw wf by (simp add: request_step_def UnmarshalLogEntry_Marshal pw_faithful_def)
  qed simp_all
  finally show ?thesis
    by (simp add: UnmarshalIngestRequest_def MarshalIngestRequest_def fold_Events empty_request_def)
qed

lemma response_wire:
  assumes pw: "pw_faithful pw" and "- (2 ^ 63) \<le> Accepted resp" "Accepted resp < 2 ^ 63" "- (2 ^ 63) \<le> Duplicates resp" "Duplicates resp < 2 ^ 63"
  shows "UnmarshalIngestResponse pw (MarshalIngestResponse pw resp) empty_response = Some (Inr resp)"
proof -
  let ?L = "fields_loop pw (response_step pw)"
  let ?E = "concat (map (\<lambda>m. pw_Tag pw 4 BytesType @ pw_Bytes pw m) (Errors resp))"
  have "?L (string_field pw 1 (Status resp) @ int_field pw 2 (Accepted resp) @ int_field pw 3 (Duplicates resp) @ ?E) empty_response =
      ?L (int_field pw 2 (Accepted resp) @ int_field pw 3 (Duplicates resp) @ ?E) (empty_response\<lparr>Status := Status resp\<rparr>)"
    by (rule loop_string_field [OF pw, where upd = "\<lambda>v. empty_response\<lparr>Status := v\<rparr>"])
      (simp_all add: response_step_def empty_response_def)
  also have "\<dots> = ?L (int_field pw 3 (Duplicates resp) @ ?E) (empty_response\<lparr>Status := Status resp, Accepted := Accepted resp\<rparr>)"
    by (rule loop_int_field [OF pw, where upd = "\<lambda>v. empty_response\<lparr>Status := Status resp, Accepted := v\<rparr>"])
      (use assms(2,3) in \<open>simp_all add: response_step_def empty_response_def\<close>)
  also have "\<dots> = ?L ?E (empty_response\<lparr>Status := Status resp, Accepted := Accepted resp, Duplicates := Duplicates resp\<rparr>)"
    by (rule loop_int_field [OF pw, where upd = "\<lambda>v. empty_response\<lparr>Status := Status resp, Accepted := Accepted resp, Duplicates := v\<rparr>"])
      (use assms(4,5) in \<open>simp_all add: response_step_def empty_response_def\<close>)
  also have "\<dots> = Some (Inr (fold (\<lambda>m r. r\<lparr>Errors := Errors r @ [m]\<rparr>) (Errors resp)
      (empty_response\<lparr>Status := Status resp, Accepted := Accepted resp, Duplicates := Duplicates resp\<rparr>)))"
    using loop_repeated [OF pw, where step = "response_step pw" and enc = "\<lambda>m. m" and num = 4 and vs = "Errors resp"
        and add = "\<lambda>m r. r\<lparr>Errors := Errors r @ [m]\<rparr>"]
    by (simp add: response_step_def string_step_bytes [OF pw])
  finally show ?thesis
    by (simp add: UnmarshalIngestResponse_def MarshalIngestResponse_def fold_Errors empty_response_def)
qed

text \<open>
  C23. The agent's binary encoding of a batch is decoded by the server, always (the loop returns), to
  the same batch: agent ID, events in order, and every field of an event, the map of fields
  included; timestamps keep their instant to the nanosecond and become UTC, except that the
  epoch becomes the zero time.
\<close>

theorem proto_request_roundtrip:
  assumes "pw_faithful pw" and "\<forall>e\<in>set (Events req). wf_map (Fields e)"
  shows "UnmarshalIngestRequest pw (MarshalIngestRequest pw req) empty_request =
    Some (Inr (req\<lparr>Events := map wire_entry (Events req)\<rparr>))"
  by (rule request_wire [OF assms])

text \<open>An instance of the wire primitives: lengths and integers in unary.\<close>

definition unary :: "nat \<Rightarrow> string" where
  "unary n = replicate n CHR ''i'' @ ''.''"

definition read_unary :: "string \<Rightarrow> nat" where
  "read_unary b = length (takeWhile (\<lambda>c. c = CHR ''i'') b)"

definition unary_wire :: protowire where
  "unary_wire =
     \<lparr>pw_Tag = (\<lambda>num typ. unary num @ unary typ),
      pw_Bytes = (\<lambda>s. unary (length s) @ s),
      pw_Varint = (\<lambda>v. unary (unat v)),
      pw_ConsumeTag = (\<lambda>b. let n = read_unary b; t = read_unary (drop (Suc n) b) in Some (n, t, n + t + 2)),
      pw_ConsumeBytes = (\<lambda>b. let n = read_unary b in Some (take n (drop (Suc n) b), Suc n + n)),
      pw_ConsumeVarint = (\<lambda>b. let n = read_unary b in Some (word_of_nat n, Suc n)),
      pw_ConsumeFieldValue = (\<lambda>num typ b. None)\<rparr>"

lemma read_unary_unary [simp]: "read_unary (unary n @ rest) = n" "length (unary n) = Suc n" "drop (Suc n) (unary n @ rest) = rest"
proof -
  have "takeWhile (\<lambda>c. c = CHR ''i'') (replicate n CHR ''i'' @ CHR ''.'' # rest) = replicate n CHR ''i''"
    by (induction n) simp_all
  then show "read_unary (unary n @ rest) = n" by (simp add: read_unary_def unary_def)
qed (simp_all add: unary_def)

lemma unary_wire_faithful: "pw_faithful unary_wire"
  unfolding pw_faithful_def
  by (simp add: unary_wire_def Let_def) (simp add: unary_def)

definition ex_request :: ingest_request where
  "ex_request = \<lparr>AgentID = ''agent-1'', Events = [empty_entry\<lparr>ID := ''x'', Timestamp := \<lparr>instant = 5, zone = 3600\<rparr>, Message := ''hello'', Fields := [(''k'', ''v''), ('''', ''w'')]\<rparr>]\<rparr>"

theorem proto_request_roundtrip_witness:
  "UnmarshalIngestRequest unary_wire (MarshalIngestRequest unary_wire ex_request) empty_request =
     Some (Inr (ex_request\<lparr>Events := map wire_entry (Events ex_request)\<rparr>))"
  by (rule proto_request_roundtrip [OF unary_wire_faithful]) (simp add: ex_request_def empty_entry_def)

text \<open>
  C40. Decoding always ends: whatever bytes arrive, as long as reading a tag consumes something, the loops that
  decode a request and a response return, with the decoded value or with an error.
\<close>

theorem unmarshal_terminates:
  assumes "pw_progress pw"
  shows "\<exists>r r'. UnmarshalIngestRequest pw b req = Some r \<and> UnmarshalIngestResponse pw b resp = Some r'"
  unfolding UnmarshalIngestRequest_def UnmarshalIngestResponse_def
  using fields_loop_returns [OF assms request_step_returns [OF assms]] fields_loop_returns [OF assms response_step_returns] by blast

theorem unmarshal_terminates_witness:
  "\<exists>r r'. UnmarshalIngestRequest unary_wire ''not protobuf'' empty_request = Some r \<and>
    UnmarshalIngestResponse unary_wire ''not protobuf'' empty_response = Some r'"
  by (rule unmarshal_terminates) (auto simp: pw_progress_def unary_wire_def Let_def)

text \<open>An entry stamped with the epoch loses its timestamp on the wire.\<close>

lemma epoch_lost_on_wire: "wire_time (unix_utc 0) = zero_time"
  by code_simp

end
