(* ===== verification/Sender.thy ===== *)
theory Sender
  imports Complex_Main Protobuf
begin

text \<open>
  The agent's HTTP client, \<open>internal/sender/sender.go\<close>: construction, one transmission with the
  classification of its failures, and the retry delay.

  \<open>url.Parse\<close>, \<open>encoding/json\<close>, the compressors and the network are arguments (\<open>sender_libs\<close>, and \<open>do\<close>
  for \<open>httpClient.Do\<close>); what the transport is configured with is not modelled. A \<open>float64\<close> is a real
  number and \<open>fl\<close> the rounding of each operation; a \<open>time.Duration\<close> is an \<open>int\<close>.
\<close>

section \<open>Data\<close>

text \<open>
  An error by what \<open>errors.Is\<close> and \<open>errors.As\<close> see of it: it wraps \<open>ErrPermanent\<close> or \<open>ErrTemporary\<close>, or it
  is another error, which is or is not a \<open>net.Error\<close>.
\<close>

datatype send_error = ErrPermanent string | ErrTemporary string | OtherError bool string

record sender_config =
  sc_URL :: string
  sc_Token :: string
  sc_Timeout :: int
  sc_Compression :: string
  sc_Format :: string

record sender =
  sd_targetURL :: string
  sd_token :: string
  sd_compression :: string
  sd_format :: string
  sd_timeout :: int

record client_request =
  cr_URL :: string
  cr_ContentType :: string
  cr_Accept :: string
  cr_ContentEncoding :: string
  cr_Authorization :: string
  cr_Body :: string

record client_response =
  ck_StatusCode :: int
  ck_ContentType :: string
  ck_Body :: string

record sender_libs =
  sl_parseURL :: "string \<Rightarrow> (string, string) result"
  sl_newRequest :: "string \<Rightarrow> string option"
  sl_pw :: protowire
  sl_marshalJSON :: "ingest_request \<Rightarrow> (string, string) result"
  sl_unmarshalJSON :: "string \<Rightarrow> ingest_response option"
  sl_zstd :: "string \<Rightarrow> string option"
  sl_gzip :: "string \<Rightarrow> string option"
  sl_itoa :: "int \<Rightarrow> string"

section \<open>Construction\<close>

definition TrimRight_slash :: "string \<Rightarrow> string" where
  "TrimRight_slash s = rev (dropWhile (\<lambda>c. c = CHR ''/'') (rev s))"

definition ingest_url :: "string \<Rightarrow> string" where
  "ingest_url parsed =
     (let u = TrimRight_slash parsed
      in if \<not> HasSuffix u ''/api/v1/ingest'' then u @ ''/api/v1/ingest'' else u)"

definition New_sender :: "sender_libs \<Rightarrow> sender_config \<Rightarrow> (string, sender) result" where
  "New_sender lib cfg =
     (if TrimSpace (sc_URL cfg) = '''' then Inl ''server URL cannot be empty''
      else
        case sl_parseURL lib (sc_URL cfg) of
          Inl err \<Rightarrow> Inl (''invalid server URL: '' @ err)
        | Inr parsed \<Rightarrow>
            let format = ToLower (TrimSpace (sc_Format cfg))
            in Inr \<lparr>sd_targetURL = ingest_url parsed, sd_token = sc_Token cfg,
                    sd_compression = ToLower (TrimSpace (sc_Compression cfg)),
                    sd_format = (if format = '''' then ''json'' else format),
                    sd_timeout = (if sc_Timeout cfg \<le> 0 then 10 * 1000000000 else sc_Timeout cfg)\<rparr>)"

section \<open>Sending\<close>

definition ContentTypeJSON :: string where
  "ContentTypeJSON = ''application/json''"

text \<open>The encoded payload and its content type.\<close>

definition encode_payload :: "sender_libs \<Rightarrow> sender \<Rightarrow> ingest_request \<Rightarrow> (send_error, string \<times> string) result" where
  "encode_payload lib s req =
     (if sd_format s = ''protobuf'' then Inr (MarshalIngestRequest (sl_pw lib) req, ContentTypeProtobuf)
      else
        case sl_marshalJSON lib req of
          Inl err \<Rightarrow> Inl (ErrPermanent (''marshal request payload: '' @ err))
        | Inr body \<Rightarrow> Inr (body, ContentTypeJSON))"

text \<open>The body and its content encoding; a compressor that fails leaves the body as it is.\<close>

definition compress_body :: "sender_libs \<Rightarrow> sender \<Rightarrow> string \<Rightarrow> string \<times> string" where
  "compress_body lib s body =
     (if sd_compression s = ''zstd'' then (case sl_zstd lib body of None \<Rightarrow> (body, '''') | Some z \<Rightarrow> (z, ''zstd''))
      else if sd_compression s = ''gzip'' then (case sl_gzip lib body of None \<Rightarrow> (body, '''') | Some z \<Rightarrow> (z, ''gzip''))
      else (body, ''''))"

definition accepted_all :: "nat \<Rightarrow> ingest_response" where
  "accepted_all n = \<lparr>Status = ''ok'', Accepted = int n, Duplicates = 0, Errors = []\<rparr>"

text \<open>The answer of the server; \<open>None\<close> when the protobuf loop does not return.\<close>

definition read_answer :: "sender_libs \<Rightarrow> nat \<Rightarrow> client_response \<Rightarrow> (send_error, ingest_response) result option" where
  "read_answer lib n resp =
     (let respBody = take (1024 * 1024) (ck_Body resp); st = ck_StatusCode resp
      in if st = 200 \<or> st = 202 then
           if IsProtobufContentType (ck_ContentType resp) then
             map_option (\<lambda>u. case u of Inl _ \<Rightarrow> Inr (accepted_all n) | Inr r \<Rightarrow> Inr r)
               (UnmarshalIngestResponse (sl_pw lib) respBody empty_response)
           else Some (case sl_unmarshalJSON lib respBody of None \<Rightarrow> Inr (accepted_all n) | Some r \<Rightarrow> Inr r)
         else if st = 429 \<or> 500 \<le> st then
           Some (Inl (ErrTemporary (''server returned status '' @ sl_itoa lib st @ '': '' @ respBody)))
         else Some (Inl (ErrPermanent (''client error '' @ sl_itoa lib st @ '': '' @ respBody))))"

text \<open>Everything before the request is sent: encoding, compression and headers.\<close>

definition build_request :: "sender_libs \<Rightarrow> sender \<Rightarrow> string \<Rightarrow> log_entry list \<Rightarrow> (send_error, client_request) result" where
  "build_request lib s agentID events =
     (case encode_payload lib s \<lparr>AgentID = agentID, Events = events\<rparr> of
        Inl err \<Rightarrow> Inl err
      | Inr (body, contentType) \<Rightarrow>
          let (reqBody, contentEncoding) = compress_body lib s body
          in case sl_newRequest lib (sd_targetURL s) of
               Some err \<Rightarrow> Inl (ErrPermanent (''create http request: '' @ err))
             | None \<Rightarrow>
                 Inr \<lparr>cr_URL = sd_targetURL s, cr_ContentType = contentType,
                      cr_Accept = (if sd_format s = ''protobuf'' then ContentTypeProtobuf else []),
                      cr_ContentEncoding = contentEncoding,
                      cr_Authorization = (if sd_token s \<noteq> [] then ''Bearer '' @ sd_token s else []),
                      cr_Body = reqBody\<rparr>)"

definition Send ::
  "sender_libs \<Rightarrow> (client_request \<Rightarrow> (string, client_response) result) \<Rightarrow> sender \<Rightarrow> string \<Rightarrow> log_entry list
     \<Rightarrow> (send_error, ingest_response) result option" where
  "Send lib do s agentID events =
     (if events = [] then Some (Inr (accepted_all 0))
      else
        case build_request lib s agentID events of
          Inl err \<Rightarrow> Some (Inl err)
        | Inr req \<Rightarrow>
            (case do req of
               Inl err \<Rightarrow> Some (Inl (ErrTemporary (''http post failed: '' @ err)))
             | Inr resp \<Rightarrow> read_answer lib (length events) resp))"

definition IsRetryable :: "send_error option \<Rightarrow> bool" where
  "IsRetryable err =
     (case err of
        None \<Rightarrow> False
      | Some (ErrPermanent _) \<Rightarrow> False
      | Some (ErrTemporary _) \<Rightarrow> True
      | Some (OtherError isNetError _) \<Rightarrow> isNetError)"

section \<open>Backoff\<close>

fun backoff_loop :: "(real \<Rightarrow> real) \<Rightarrow> nat \<Rightarrow> real \<Rightarrow> real \<Rightarrow> real \<Rightarrow> real" where
  "backoff_loop fl 0 multiplier mx dur = dur"
| "backoff_loop fl (Suc n) multiplier mx dur =
     (let dur = fl (dur * multiplier) in if mx \<le> dur then mx else backoff_loop fl n multiplier mx dur)"

text \<open>The conversion of a \<open>float64\<close> to a \<open>time.Duration\<close>; out of range it gives the least \<open>int64\<close>.\<close>

definition Duration_of :: "real \<Rightarrow> int" where
  "Duration_of x =
     (let n = (if 0 \<le> x then \<lfloor>x\<rfloor> else \<lceil>x\<rceil>)
      in if - (2 ^ 63) \<le> n \<and> n < 2 ^ 63 then n else - (2 ^ 63))"

text \<open>\<open>rnd\<close> is the result of \<open>rand.Float64()\<close>.\<close>

definition CalculateBackoff :: "(real \<Rightarrow> real) \<Rightarrow> real \<Rightarrow> int \<Rightarrow> int \<Rightarrow> int \<Rightarrow> real \<Rightarrow> int" where
  "CalculateBackoff fl rnd attempt initial mx multiplier =
     (let attempt = (if attempt \<le> 0 then 0 else attempt);
          multiplier = (if multiplier \<le> 1 then 2 else multiplier);
          initial = (if initial \<le> 0 then 1000000000 else initial);
          mx = (if mx \<le> 0 then 30 * 1000000000 else mx);
          dur = backoff_loop fl (nat attempt) multiplier (fl (of_int mx)) (fl (of_int initial));
          jitter = fl (1 / 2 + rnd);
          jittered = Duration_of (fl (dur * jitter));
          jittered = (if mx < jittered then mx else jittered)
      in if jittered < initial div 2 then initial div 2 else jittered)"

section \<open>Facts\<close>

lemma read_answer_class:
  assumes "read_answer lib n resp = Some (Inl err)"
  shows "(\<exists>msg. err = ErrPermanent msg) \<or> (\<exists>msg. err = ErrTemporary msg)"
proof -
  have "(case u of Inl _ \<Rightarrow> Inr r | Inr x \<Rightarrow> Inr x) \<noteq> Inl err" for u :: "(proto_error, ingest_response) result" and r
    by (cases u) simp_all
  with assms show ?thesis by (auto simp: read_answer_def Let_def split: if_splits option.splits)
qed

text \<open>Every failure of \<open>Send\<close> wraps one of the two sentinels, so \<open>IsRetryable\<close> decides it.\<close>

lemma Send_failure_class:
  assumes "Send lib do s agentID events = Some (Inl err)"
  shows "(\<exists>msg. err = ErrPermanent msg) \<or> (\<exists>msg. err = ErrTemporary msg)"
  using assms
  by (auto simp: Send_def build_request_def encode_payload_def split: if_splits sum.splits prod.splits option.splits dest: read_answer_class)

lemma IsRetryable_status:
  assumes "read_answer lib n resp = Some (Inl err)"
  shows "IsRetryable (Some err) \<longleftrightarrow> ck_StatusCode resp = 429 \<or> 500 \<le> ck_StatusCode resp"
proof -
  have "(case u of Inl _ \<Rightarrow> Inr r | Inr x \<Rightarrow> Inr x) \<noteq> Inl err" for u :: "(proto_error, ingest_response) result" and r
    by (cases u) simp_all
  with assms show ?thesis by (auto simp: read_answer_def Let_def IsRetryable_def split: if_splits option.splits)
qed

lemma backoff_loop_exact:
  assumes "1 \<le> multiplier" and "0 \<le> dur" and "dur \<le> mx"
  shows "backoff_loop (\<lambda>x. x) n multiplier mx dur = min mx (dur * multiplier ^ n)"
  using assms
proof (induction n arbitrary: dur)
  case (Suc n)
  have grow: "dur * multiplier \<le> dur * multiplier ^ Suc n"
    using Suc.prems by (intro mult_left_mono) (auto simp: one_le_power)
  show ?case
  proof (cases "mx \<le> dur * multiplier")
    case True
    with grow show ?thesis by (simp add: min_def)
  next
    case False
    have "0 \<le> dur * multiplier" using Suc.prems by simp
    with False Suc show ?thesis by (simp add: mult.assoc)
  qed
qed simp

text \<open>The clamps hold for any rounding, any draw and any configuration.\<close>

lemma backoff_bounds:
  fixes initial mx :: int
  defines "i \<equiv> (if initial \<le> 0 then 1000000000 else initial)" and "m \<equiv> (if mx \<le> 0 then 30000000000 else mx)"
  shows "i div 2 \<le> CalculateBackoff fl rnd attempt initial mx multiplier \<and>
    CalculateBackoff fl rnd attempt initial mx multiplier \<le> max m (i div 2)"
  by (auto simp: CalculateBackoff_def Let_def i_def m_def)

text \<open>A concrete environment, for examples.\<close>

definition ex_sl :: sender_libs where
  "ex_sl = \<lparr>sl_parseURL = Inr, sl_newRequest = (\<lambda>u. None), sl_pw = unary_wire, sl_marshalJSON = (\<lambda>r. Inl []),
     sl_unmarshalJSON = (\<lambda>s. None), sl_zstd = (\<lambda>s. Some (CHR ''Z'' # s)), sl_gzip = (\<lambda>s. None), sl_itoa = (\<lambda>n. [])\<rparr>"

section \<open>Properties\<close>

text \<open>
  C28. The retry delay is exponential backoff with jitter: in exact arithmetic, for a configuration with
  a positive initial delay not above the maximum and a multiplier above 1, it is the initial delay
  times the multiplier to the power of the attempt, cut at the maximum, times the jitter factor
  in [0.5, 1.5), cut again at the maximum and never below half the initial delay; the loop that
  stops early at the maximum does not show.
\<close>

theorem backoff_exponential:
  assumes "0 \<le> attempt" and "0 < initial" and "initial \<le> mx" and "mx < 2 ^ 62" and "1 < multiplier" and "0 \<le> rnd" and "rnd < 1"
  shows "CalculateBackoff (\<lambda>x. x) rnd attempt initial mx multiplier =
    max (initial div 2) (min mx \<lfloor>min (of_int mx) (of_int initial * multiplier ^ nat attempt) * (1 / 2 + rnd)\<rfloor>)"
proof -
  define d where "d = min (of_int mx) (of_int initial * multiplier ^ nat attempt)"
  have loop: "backoff_loop (\<lambda>x. x) (nat attempt) multiplier (of_int mx) (of_int initial) = d"
    unfolding d_def using assms by (intro backoff_loop_exact) auto
  have d: "0 \<le> d" "d \<le> of_int mx" unfolding d_def using assms by auto
  have up: "d * (1 / 2 + rnd) \<le> of_int mx * 2" using d assms(6,7) by (intro mult_mono) auto
  have pos: "0 \<le> d * (1 / 2 + rnd)" using d assms(6) by simp
  have "\<lfloor>d * (1 / 2 + rnd)\<rfloor> \<le> mx * 2" using up by linarith
  moreover have "mx * 2 < 2 ^ 63" using assms(4) by simp
  ultimately have "\<lfloor>d * (1 / 2 + rnd)\<rfloor> < 2 ^ 63" by (rule le_less_trans)
  moreover have "0 \<le> \<lfloor>d * (1 / 2 + rnd)\<rfloor>" using pos by simp
  ultimately have dur: "Duration_of (d * (1 / 2 + rnd)) = \<lfloor>d * (1 / 2 + rnd)\<rfloor>"
    using pos by (simp add: Duration_of_def Let_def)
  have half: "initial div 2 \<le> mx" using assms(2,3) by linarith
  show ?thesis
    using assms(1-3,5) half unfolding d_def [symmetric]
    by (auto simp: CalculateBackoff_def Let_def loop dur not_le max_def min_def)
qed

theorem backoff_exponential_witness:
  "CalculateBackoff (\<lambda>x. x) (1 / 4) 3 1000 30000 2 = 6000 \<and> CalculateBackoff (\<lambda>x. x) (1 / 4) 9 1000 30000 2 = 22500"
  using backoff_exponential [of 3 1000 30000 2 "1 / 4"] backoff_exponential [of 9 1000 30000 2 "1 / 4"] by simp

end
