(* ===== verification/Router.thy ===== *)
theory Router
  imports HashRing StoreDurable Sender
begin

text \<open>
  The ingest router of a cluster, \<open>internal/cluster/router.go\<close>: a batch is split by the owner of each
  entry's partition key, and each part is written to the local store or forwarded to its node.

  The goroutines of one call touch disjoint state (one part is local, the others are forwarded;
  the map of clients is under its lock), so a call handles the parts one after the other in the
  order \<open>order\<close>, which stands for the order of the scheduler and of the results channel. A client
  set with \<open>SetPeerClient\<close> is the type variable \<open>'c\<close>; \<open>send\<close> is what a client's \<open>Send\<close> answers and
  \<open>put\<close> a call of the local store's \<open>Append\<close>.
\<close>

section \<open>Data\<close>

datatype 'c remote_client = Custom 'c | SenderClient sender

record router_config =
  rt_LocalNodeID :: string
  rt_PartitionKeyFn :: "(log_entry \<Rightarrow> string) option"
  rt_SenderTimeout :: int
  rt_WireFormat :: string

record ('s, 'c) ingest_router =
  ir_LocalNodeID :: string
  ir_PartitionKeyFn :: "log_entry \<Rightarrow> string"
  ir_SenderTimeout :: int
  ir_WireFormat :: string
  ir_ring :: hash_ring
  ir_localStore :: "'s option"
  ir_peerClients :: "(string, 'c remote_client) gomap"

record batch_result =
  br_nodeID :: string
  br_accepted :: int
  br_duplicates :: int
  br_errors :: "string list"
  br_err :: "string option"

section \<open>Operations\<close>

definition DefaultPartitionKey :: "log_entry \<Rightarrow> string" where
  "DefaultPartitionKey e = Host e @ ''/'' @ Source e"

definition NewIngestRouter :: "router_config \<Rightarrow> hash_ring \<Rightarrow> 's option \<Rightarrow> ('s, 'c) ingest_router" where
  "NewIngestRouter cfg ring st =
     \<lparr>ir_LocalNodeID = rt_LocalNodeID cfg,
      ir_PartitionKeyFn = (case rt_PartitionKeyFn cfg of None \<Rightarrow> DefaultPartitionKey | Some f \<Rightarrow> f),
      ir_SenderTimeout = (if rt_SenderTimeout cfg \<le> 0 then 5 * 1000000000 else rt_SenderTimeout cfg),
      ir_WireFormat = (if rt_WireFormat cfg = '''' then ''protobuf'' else rt_WireFormat cfg),
      ir_ring = ring, ir_localStore = st, ir_peerClients = []\<rparr>"

definition SetPeerClient :: "string \<Rightarrow> 'c \<Rightarrow> ('s, 'c) ingest_router \<Rightarrow> ('s, 'c) ingest_router" where
  "SetPeerClient nodeID client r = r\<lparr>ir_peerClients := AList.update nodeID (Custom client) (ir_peerClients r)\<rparr>"

definition quoted :: "string \<Rightarrow> string" where
  "quoted s = ''\"'' @ s @ ''\"''"

definition getClient :: "sender_libs \<Rightarrow> node \<Rightarrow> ('s, 'c) ingest_router \<Rightarrow> (string, 'c remote_client) result \<times> ('s, 'c) ingest_router" where
  "getClient lib n r =
     (case map_of (ir_peerClients r) (n_ID n) of
        Some client \<Rightarrow> (Inr client, r)
      | None \<Rightarrow>
          (case New_sender lib \<lparr>sc_URL = n_Address n, sc_Token = '''', sc_Timeout = ir_SenderTimeout r,
                                sc_Compression = ''zstd'', sc_Format = ir_WireFormat r\<rparr> of
             Inl err \<Rightarrow> (Inl (''create sender for node '' @ quoted (n_ID n) @ '' at '' @ n_Address n @ '': '' @ err), r)
           | Inr sn \<Rightarrow> (Inr (SenderClient sn), r\<lparr>ir_peerClients := AList.update (n_ID n) (SenderClient sn) (ir_peerClients r)\<rparr>)))"

text \<open>The node an entry goes to; an empty ring routes to the local node.\<close>

definition target_node :: "hash_fn \<Rightarrow> ('s, 'c) ingest_router \<Rightarrow> log_entry \<Rightarrow> node" where
  "target_node hash r e =
     (case GetNode hash (ir_PartitionKeyFn r e) (ir_ring r) of
        Inl _ \<Rightarrow> zero_node\<lparr>n_ID := ir_LocalNodeID r\<rparr>
      | Inr n \<Rightarrow> n)"

definition add_to_bucket :: "node \<Rightarrow> log_entry \<Rightarrow> (string, log_entry list) gomap \<times> (string, node) gomap \<Rightarrow> (string, log_entry list) gomap \<times> (string, node) gomap" where
  "add_to_bucket n e bm =
     (AList.update (n_ID n) ((case map_of (fst bm) (n_ID n) of None \<Rightarrow> [] | Some b \<Rightarrow> b) @ [e]) (fst bm),
      AList.update (n_ID n) n (snd bm))"

definition group_by_node :: "hash_fn \<Rightarrow> ('s, 'c) ingest_router \<Rightarrow> log_entry list \<Rightarrow> (string, log_entry list) gomap \<times> (string, node) gomap" where
  "group_by_node hash r entries = fold (\<lambda>e. add_to_bucket (target_node hash r e) e) entries ([], [])"

definition dispatch ::
  "sender_libs \<Rightarrow> (log_entry list \<Rightarrow> 's \<Rightarrow> string option \<times> 's) \<Rightarrow> ('c remote_client \<Rightarrow> log_entry list \<Rightarrow> (string, ingest_response) result)
     \<Rightarrow> string \<Rightarrow> log_entry list \<Rightarrow> node \<Rightarrow> ('s, 'c) ingest_router \<Rightarrow> batch_result \<times> ('s, 'c) ingest_router" where
  "dispatch lib put send nid b n r =
     (let failed = (\<lambda>msg err. \<lparr>br_nodeID = nid, br_accepted = 0, br_duplicates = 0, br_errors = [msg], br_err = Some err\<rparr>)
      in case (if nid = ir_LocalNodeID r then ir_localStore r else None) of
           Some s \<Rightarrow>
             (case put b s of
                (Some err, s') \<Rightarrow> (failed (''local append error: '' @ err) err, r\<lparr>ir_localStore := Some s'\<rparr>)
              | (None, s') \<Rightarrow>
                  (\<lparr>br_nodeID = nid, br_accepted = int (length b), br_duplicates = 0, br_errors = [], br_err = None\<rparr>,
                   r\<lparr>ir_localStore := Some s'\<rparr>))
         | None \<Rightarrow>
             (case getClient lib n r of
                (Inl err, r') \<Rightarrow> (failed err err, r')
              | (Inr client, r') \<Rightarrow>
                  (case send client b of
                     Inl err \<Rightarrow> (failed (''forward to '' @ nid @ '' failed: '' @ err) err, r')
                   | Inr resp \<Rightarrow>
                       (\<lparr>br_nodeID = nid, br_accepted = Accepted resp, br_duplicates = Duplicates resp,
                         br_errors = Errors resp, br_err = None\<rparr>, r'))))"

fun dispatch_all ::
  "sender_libs \<Rightarrow> (log_entry list \<Rightarrow> 's \<Rightarrow> string option \<times> 's) \<Rightarrow> ('c remote_client \<Rightarrow> log_entry list \<Rightarrow> (string, ingest_response) result)
     \<Rightarrow> (string, node) gomap \<Rightarrow> (string \<times> log_entry list) list \<Rightarrow> ('s, 'c) ingest_router \<Rightarrow> batch_result list \<times> ('s, 'c) ingest_router" where
  "dispatch_all lib put send nodes [] r = ([], r)"
| "dispatch_all lib put send nodes ((nid, b) # rest) r =
     (let (res, r) = dispatch lib put send nid b (case map_of nodes nid of None \<Rightarrow> zero_node | Some n \<Rightarrow> n) r;
          (results, r) = dispatch_all lib put send nodes rest r
      in (res # results, r))"

definition add_result :: "batch_result \<Rightarrow> ingest_response \<times> string option \<Rightarrow> ingest_response \<times> string option" where
  "add_result res acc =
     ((fst acc)\<lparr>Accepted := Accepted (fst acc) + br_accepted res, Duplicates := Duplicates (fst acc) + br_duplicates res,
                Errors := Errors (fst acc) @ br_errors res\<rparr>,
      (if br_err res \<noteq> None \<and> snd acc = None then br_err res else snd acc))"

definition final_response :: "batch_result list \<Rightarrow> ingest_response \<times> string option" where
  "final_response results =
     (let (resp, firstErr) = fold add_result results (\<lparr>Status = ''ok'', Accepted = 0, Duplicates = 0, Errors = []\<rparr>, None)
      in if Errors resp \<noteq> [] \<and> Accepted resp = 0 then (resp\<lparr>Status := ''error''\<rparr>, firstErr) else (resp, None))"

text \<open>\<open>order\<close> permutes the buckets: the order in which they are handled and their results read.\<close>

definition RouteBatch ::
  "hash_fn \<Rightarrow> sender_libs \<Rightarrow> (log_entry list \<Rightarrow> 's \<Rightarrow> string option \<times> 's) \<Rightarrow> ('c remote_client \<Rightarrow> log_entry list \<Rightarrow> (string, ingest_response) result)
     \<Rightarrow> ((string \<times> log_entry list) list \<Rightarrow> (string \<times> log_entry list) list) \<Rightarrow> log_entry list \<Rightarrow> ('s, 'c) ingest_router
     \<Rightarrow> (ingest_response \<times> string option) \<times> ('s, 'c) ingest_router" where
  "RouteBatch hash lib put send order entries r =
     (if entries = [] then ((\<lparr>Status = ''ok'', Accepted = 0, Duplicates = 0, Errors = []\<rparr>, None), r)
      else
        let (buckets, nodes) = group_by_node hash r entries;
            (results, r) = dispatch_all lib put send nodes (order buckets) r
        in (final_response results, r))"

section \<open>Facts\<close>

abbreviation owner_id :: "hash_fn \<Rightarrow> ('s, 'c) ingest_router \<Rightarrow> log_entry \<Rightarrow> string" where
  "owner_id hash r e \<equiv> n_ID (target_node hash r e)"

lemma group_by_node_buckets:
  "map_of (fst (group_by_node hash r entries)) nid =
     (let b = filter (\<lambda>e. owner_id hash r e = nid) entries in if b = [] then None else Some b)"
proof (induction entries rule: rev_induct)
  case Nil
  show ?case by (simp add: group_by_node_def)
next
  case (snoc e es)
  have "group_by_node hash r (es @ [e]) = add_to_bucket (target_node hash r e) e (group_by_node hash r es)"
    by (simp add: group_by_node_def)
  with snoc show ?case by (auto simp: add_to_bucket_def update_conv' Let_def)
qed

lemma group_by_node_wf: "wf_map (fst (group_by_node hash r entries))"
  by (induction entries rule: rev_induct) (simp_all add: group_by_node_def add_to_bucket_def wf_map_update)

text \<open>The buckets partition the batch.\<close>

lemma sum_list_single_key: "distinct ks \<Longrightarrow> k0 \<in> set ks \<Longrightarrow> (\<Sum>k\<leftarrow>ks. if k = k0 then m else {#}) = m"
proof (induction ks)
  case (Cons k ks)
  have "(\<Sum>k\<leftarrow>ks. if k = k0 then m else {#}) = {#}" if "k0 \<notin> set ks" using that by (induction ks) auto
  with Cons show ?case by (cases "k = k0") auto
qed simp

lemma mset_filter_partition:
  assumes "distinct ks" and "f ` set xs \<subseteq> set ks"
  shows "(\<Sum>k\<leftarrow>ks. mset (filter (\<lambda>x. f x = k) xs)) = mset xs"
  using assms
proof (induction xs)
  case (Cons x xs)
  have "(\<Sum>k\<leftarrow>ks. mset (filter (\<lambda>y. f y = k) (x # xs))) = (\<Sum>k\<leftarrow>ks. (if k = f x then {#x#} else {#}) + mset (filter (\<lambda>y. f y = k) xs))"
    by (intro arg_cong [of _ _ sum_list] map_cong) auto
  also have "\<dots> = (\<Sum>k\<leftarrow>ks. if k = f x then {#x#} else {#}) + mset xs"
    using Cons by (simp add: sum_list_addf)
  also have "(\<Sum>k\<leftarrow>ks. if k = f x then {#x#} else {#}) = {#x#}"
    using Cons.prems by (simp add: sum_list_single_key)
  finally show ?case by simp
qed simp

lemma dispatch_frame:
  assumes "dispatch lib put send nid b n r = (res, r')"
  shows "ir_LocalNodeID r' = ir_LocalNodeID r" and "nid \<noteq> ir_LocalNodeID r \<Longrightarrow> ir_localStore r' = ir_localStore r"
    and "nid = ir_LocalNodeID r \<Longrightarrow> ir_localStore r = Some s \<Longrightarrow>
      ir_localStore r' = Some (snd (put b s)) \<and> (fst (put b s) \<noteq> None \<longrightarrow> br_errors res \<noteq> [])"
  using assms by (auto simp: dispatch_def getClient_def Let_def split: if_splits option.splits prod.splits sum.splits)

lemma dispatch_all_store:
  assumes "dispatch_all lib put send nodes bs r = (results, r')" and "distinct (map fst bs)" and "ir_localStore r = Some s"
  shows "case map_of bs (ir_LocalNodeID r) of
      None \<Rightarrow> ir_localStore r' = Some s
    | Some b \<Rightarrow> ir_localStore r' = Some (snd (put b s)) \<and> (fst (put b s) \<noteq> None \<longrightarrow> (\<exists>res\<in>set results. br_errors res \<noteq> []))"
  using assms
proof (induction bs arbitrary: r results s)
  case (Cons p bs)
  obtain nid b where p: "p = (nid, b)" by fastforce
  let ?n = "case map_of nodes nid of None \<Rightarrow> zero_node | Some n \<Rightarrow> n"
  obtain res r1 where d: "dispatch lib put send nid b ?n r = (res, r1)" by fastforce
  obtain rs where rest: "dispatch_all lib put send nodes bs r1 = (rs, r')" and results: "results = res # rs"
    using Cons.prems(1) by (auto simp: p d Let_def split: prod.splits)
  note f = dispatch_frame [OF d]
  show ?case
  proof (cases "nid = ir_LocalNodeID r")
    case True
    note st = f(3) [OF True Cons.prems(3)]
    have none: "map_of bs (ir_LocalNodeID r1) = None"
      using Cons.prems(2) by (simp add: p f(1) True [symmetric] map_of_eq_None_iff)
    have "distinct (map fst bs)" using Cons.prems(2) by simp
    from Cons.IH [OF rest this] st none have "ir_localStore r' = Some (snd (put b s))" by fastforce
    with st True show ?thesis by (auto simp: p results)
  next
    case False
    have "distinct (map fst bs)" using Cons.prems(2) by simp
    from Cons.IH [OF rest this, of s] f(2) [OF False] Cons.prems(3) False f(1)
    show ?thesis by (auto simp: p results split: option.splits)
  qed
qed simp

lemma final_errors:
  "Errors (fst (final_response results)) = concat (map br_errors results)"
proof -
  have "Errors (fst (fold add_result results acc)) = Errors (fst acc) @ concat (map br_errors results)" for acc
    by (induction results arbitrary: acc) (simp_all add: add_result_def)
  then show ?thesis by (simp add: final_response_def case_prod_beta Let_def)
qed

lemma map_of_mset_eq: "distinct (map fst xs) \<Longrightarrow> mset ys = mset xs \<Longrightarrow> map_of ys = map_of xs"
  by (rule ext) (metis distinct_map map_of_inject_set mset_eq_setD mset_map distinct_count_atmost_1 mset_eq_imp_distinct_iff)

context log_store
begin

text \<open>The router as a client of the store: the local part of a batch, and only it, is stored.\<close>

lemma route_local:
  assumes call: "RouteBatch hash lib (\<lambda>es s. (map_option errText (fst (append env es s)), snd (append env es s))) send order entries r = ((resp, err), r')"
    and order: "\<forall>xs. mset (order xs) = mset xs" and st: "ir_localStore r = Some s" and okay: "ok s"
    and suits: "suits env (filter (\<lambda>e. owner_id hash r e = ir_LocalNodeID r) entries) s"
  defines "mine \<equiv> filter (\<lambda>e. owner_id hash r e = ir_LocalNodeID r) entries"
  shows "\<exists>s'. ir_localStore r' = Some s' \<and> ok s' \<and> held s \<subseteq># held s' \<and> held s' \<subseteq># held s + mset mine \<and>
    (Errors resp = [] \<longrightarrow> held s' = held s + mset mine) \<and> (durable s \<longrightarrow> Errors resp = [] \<or> clean env \<longrightarrow> durable s')"
proof (cases "entries = []")
  case True
  with call st okay show ?thesis by (auto simp: RouteBatch_def mine_def)
next
  case False
  let ?put = "\<lambda>es s. (map_option errText (fst (append env es s)), snd (append env es s))"
  obtain buckets nodes where g: "group_by_node hash r entries = (buckets, nodes)" by fastforce
  obtain results where d: "dispatch_all lib ?put send nodes (order buckets) r = (results, r')" and resp: "(resp, err) = final_response results"
    using call False by (auto simp: RouteBatch_def g split: prod.splits)
  have wf: "distinct (map fst buckets)" using group_by_node_wf [of hash r entries] by (simp add: g)
  have m: "mset (order buckets) = mset buckets" using order by simp
  have "distinct (map fst (order buckets))" using wf m by (metis mset_eq_imp_distinct_iff mset_map)
  note ds = dispatch_all_store [OF d this st]
  have mo: "map_of (order buckets) (ir_LocalNodeID r) = (if mine = [] then None else Some mine)"
    using map_of_mset_eq [OF wf m] group_by_node_buckets [of hash r entries "ir_LocalNodeID r"] by (simp add: g mine_def Let_def)
  note laws = append_ok [OF okay suits] append_keeps [OF okay suits] append_bounded [OF okay suits] append_stores [OF okay suits] append_durable [OF _ suits]
  show ?thesis
  proof (cases "mine = []")
    case True
    with ds mo okay show ?thesis by simp
  next
    case False
    have st': "ir_localStore r' = Some (snd (append env mine s))"
      and er: "fst (append env mine s) \<noteq> None \<longrightarrow> (\<exists>res\<in>set results. br_errors res \<noteq> [])"
      using ds mo False by simp_all
    have "Errors resp = [] \<Longrightarrow> fst (append env mine s) = None"
      using er arg_cong [OF resp, of fst] final_errors [of results] by auto
    with st' laws show ?thesis by (simp add: mine_def)
  qed
qed

end

section \<open>Properties\<close>

text \<open>
  A batch is routed completely and consistently: every entry of the batch is in exactly one
  bucket, the bucket of the node that owns its partition key (the local node when the ring is
  empty), in the order of the batch, and no bucket is empty; so what is dispatched is the batch.
\<close>

lemma route_buckets_partition:
  fixes hash :: hash_fn and r :: "('s, 'c) ingest_router"
  defines "buckets \<equiv> (\<lambda>entries. fst (group_by_node hash r entries))"
  shows "(\<forall>nid b. map_of (buckets entries) nid = Some b \<longleftrightarrow> b \<noteq> [] \<and> b = filter (\<lambda>e. owner_id hash r e = nid) entries) \<and>
    (\<Sum>p\<leftarrow>buckets entries. mset (snd p)) = mset entries"
proof
  have wf: "wf_map (buckets entries)" unfolding buckets_def by (rule group_by_node_wf)
  have look: "map_of (buckets entries) nid = (let b = filter (\<lambda>e. owner_id hash r e = nid) entries in if b = [] then None else Some b)" for nid
    unfolding buckets_def by (rule group_by_node_buckets)
  then show all: "\<forall>nid b. map_of (buckets entries) nid = Some b \<longleftrightarrow> b \<noteq> [] \<and> b = filter (\<lambda>e. owner_id hash r e = nid) entries"
    by (auto simp: Let_def)
  have "owner_id hash r e \<in> set (map fst (buckets entries))" if "e \<in> set entries" for e
  proof -
    have "map_of (buckets entries) (owner_id hash r e) \<noteq> None" using that look by (auto simp: Let_def filter_empty_conv)
    then show ?thesis by (auto simp: map_of_eq_None_iff)
  qed
  then have sub: "owner_id hash r ` set entries \<subseteq> set (map fst (buckets entries))" by blast
  have "mset (snd p) = mset (filter (\<lambda>e. owner_id hash r e = fst p) entries)" if "p \<in> set (buckets entries)" for p
  proof -
    have "map_of (buckets entries) (fst p) = Some (snd p)" using that wf by (simp add: map_of_is_SomeI)
    with all show ?thesis by simp
  qed
  then have "(\<Sum>p\<leftarrow>buckets entries. mset (snd p)) = (\<Sum>k\<leftarrow>map fst (buckets entries). mset (filter (\<lambda>e. owner_id hash r e = k) entries))"
    by (auto simp: comp_def intro!: arg_cong [of _ _ sum_list])
  then show "(\<Sum>p\<leftarrow>buckets entries. mset (snd p)) = mset entries"
    using mset_filter_partition [OF _ sub] wf by simp
qed

text \<open>
  A batch of which only a part was stored is acknowledged: as soon as one node accepts an entry,
  \<open>RouteBatch\<close> reports status \<open>ok\<close> and no error, even when the store or a peer refused the entries
  of another node.
\<close>

lemma route_partial_failure_acknowledged:
  assumes "RouteBatch hash lib put send order entries r = ((resp, err), r')" and "Accepted resp \<noteq> 0"
  shows "err = None \<and> Status resp = ''ok''"
proof -
  have "Status (fst (fold add_result results acc)) = Status (fst acc)" for results acc
    by (induction results arbitrary: acc) (simp_all add: add_result_def)
  then have "err = None \<and> Status resp = ''ok''" if "final_response results = (resp, err)" for results
    using that assms(2) by (auto simp: final_response_def case_prod_beta Let_def split: if_splits)
  with assms(1) show ?thesis by (auto simp: RouteBatch_def split: if_splits prod.splits)
qed

definition ex_router :: "(log_entry list, unit) ingest_router" where
  "ex_router = SetPeerClient ''b'' () (NewIngestRouter \<lparr>rt_LocalNodeID = ''a'', rt_PartitionKeyFn = None, rt_SenderTimeout = 0, rt_WireFormat = ''''\<rparr> ex_ring2 (Some []))"

text \<open>Two nodes, the second of which refuses: its entry is gone, and the batch is acknowledged.\<close>

definition ex_keyed :: "string \<Rightarrow> string \<Rightarrow> log_entry" where
  "ex_keyed host source = \<lparr>ID = host, Timestamp = zero_time, Host = host, Source = source, Level = [], Message = ''m'', Fields = []\<rparr>"

abbreviation ex_route :: "(ingest_response \<times> string option) \<times> (log_entry list, unit) ingest_router" where
  "ex_route \<equiv> RouteBatch ex_hash ex_sl (\<lambda>es s. (None, s @ es)) (\<lambda>c es. Inl ''refused'') (\<lambda>bs. bs)
     [ex_keyed ''web'' ''app'', ex_keyed ''a'' ''0''] ex_router"

lemma ex_route_result:
  "Accepted (fst (fst ex_route)) = 1 \<and> Errors (fst (fst ex_route)) = [''forward to b failed: refused''] \<and>
   ir_localStore (snd ex_route) = Some [ex_keyed ''web'' ''app'']"
  by code_simp

lemma route_partial_failure_acknowledged_witness:
  "snd (fst ex_route) = None \<and> Status (fst (fst ex_route)) = ''ok'' \<and> Errors (fst (fst ex_route)) = [''forward to b failed: refused'']"
proof -
  obtain resp err r' where call: "ex_route = ((resp, err), r')" by (metis prod.collapse)
  from route_partial_failure_acknowledged [OF call] ex_route_result show ?thesis unfolding call by simp
qed

text \<open>
  C25. On the filesystem store the router keeps its part of the bargain: whatever happens to the
  other nodes, the local store receives exactly the entries the local node owns or a part of
  them, nothing held before is lost, and a response without errors means that all of them
  are stored. The running store stays consistent, and so does its directory when there were no
  errors or no write or close of an index failed.
\<close>

theorem route_local_stored:
  assumes "RouteBatch hash lib (\<lambda>es s. (map_option errText (fst (fs_append cd env es s)), snd (fs_append cd env es s))) send order entries r = ((resp, err), r')"
    and "\<forall>xs. mset (order xs) = mset xs" and "ir_localStore r = Some s" and "store_live cd s"
    and "fs_suits cd env (filter (\<lambda>e. owner_id hash r e = ir_LocalNodeID r) entries) s"
  shows "\<exists>s'. ir_localStore r' = Some s' \<and> store_live cd s' \<and> stored cd s \<subseteq># stored cd s' \<and>
    stored cd s' \<subseteq># stored cd s + mset (filter (\<lambda>e. owner_id hash r e = ir_LocalNodeID r) entries) \<and>
    (Errors resp = [] \<longrightarrow> stored cd s' = stored cd s + mset (filter (\<lambda>e. owner_id hash r e = ir_LocalNodeID r) entries)) \<and>
    (store_ok cd s \<longrightarrow> Errors resp = [] \<or> index_whole (ae_faults env) \<longrightarrow> store_ok cd s')"
  by (rule fs.route_local [OF assms])

definition ex_put_env :: append_env where
  "ex_put_env = \<lparr>ae_hjson = ex_line, ae_faults = no_faults, ae_uuid = (\<lambda>dir. ''01234567-89''), ae_now = ex_now\<rparr>"

definition ex_single :: "(file_store, unit) ingest_router" where
  "ex_single = NewIngestRouter \<lparr>rt_LocalNodeID = ''a'', rt_PartitionKeyFn = None, rt_SenderTimeout = 0, rt_WireFormat = []\<rparr> (NewHashRing 0) (Some ex_store0)"

theorem route_local_stored_witness:
  "\<exists>s'. ir_localStore (snd (RouteBatch ex_hash ex_sl
       (\<lambda>es s. (map_option (\<lambda>e. []) (fst (fs_append letter_codec ex_put_env es s)), snd (fs_append letter_codec ex_put_env es s)))
       (\<lambda>c es. Inl []) (\<lambda>bs. bs) (map letter_entry ''ab'') ex_single)) = Some s' \<and>
     stored letter_codec s' = mset (map letter_entry ''ab'')"
proof -
  let ?put = "\<lambda>es s. (map_option (\<lambda>e. []) (fst (fs_append letter_codec ex_put_env es s)), snd (fs_append letter_codec ex_put_env es s))"
  let ?es = "map letter_entry ''ab''"
  have own: "owner_id ex_hash ex_single e = ''a''" for e
    by (simp add: target_node_def ex_single_def NewIngestRouter_def GetNode_def NewHashRing_def)
  have mine: "filter (\<lambda>e. owner_id ex_hash ex_single e = ir_LocalNodeID ex_single) ?es = ?es"
    by (simp only: own) (simp add: ex_single_def NewIngestRouter_def)
  have put: "fs_append letter_codec ex_put_env ?es ex_store0 = (None, ex_store1)"
    using ex_append(1) by (simp add: fs_append_def ex_put_env_def)
  have suits: "fs_suits letter_codec ex_put_env ?es ex_store0"
    using letter_codec_faithful [of "''ab''"] by (simp add: fs_suits_def ex_put_env_def ex_line_faithful letter_stamped ex_store0_ok(3))
  obtain resp err r' where call: "RouteBatch ex_hash ex_sl ?put (\<lambda>c es. Inl []) (\<lambda>bs. bs) ?es ex_single = ((resp, err), r')"
    by (cases "RouteBatch ex_hash ex_sl ?put (\<lambda>c es. Inl []) (\<lambda>bs. bs) ?es ex_single") (metis surj_pair)
  have sel: "ir_localStore ex_single = Some ex_store0" "ir_LocalNodeID ex_single = ''a''" by (simp_all add: ex_single_def NewIngestRouter_def)
  have g: "fst (group_by_node ex_hash ex_single ?es) = [(''a'', ?es)]"
    by (simp add: group_by_node_def add_to_bucket_def own)
  have "fst (dispatch ex_sl ?put (\<lambda>c es. Inl []) ''a'' ?es n ex_single) =
      \<lparr>br_nodeID = ''a'', br_accepted = 2, br_duplicates = 0, br_errors = [], br_err = None\<rparr>" for n
    using put by (simp add: dispatch_def sel)
  then have "Errors (fst (fst (RouteBatch ex_hash ex_sl ?put (\<lambda>c es. Inl []) (\<lambda>bs. bs) ?es ex_single))) = []"
    using g by (simp add: RouteBatch_def case_prod_beta final_errors)
  then have "Errors resp = []" using call by simp
  then have "\<exists>s'. ir_localStore r' = Some s' \<and> stored letter_codec s' = mset ?es"
    using route_local_stored [OF call, of ex_store0, unfolded mine, OF _ sel(1) store_ok_live [OF ex_store0_ok(1)] suits] unfolding ex_store0_ok(2) by auto
  then show ?thesis unfolding call by simp
qed

end
