(* ===== verification/Coordinator.thy ===== *)
theory Coordinator
  imports Router
begin

text \<open>
  The scatter-gather query of a cluster, \<open>internal/cluster/coordinator.go\<close>.

  The goroutines of one query only send their result; \<open>ask\<close> gives what a node answers (the events and the error
  of the local store's \<open>Query\<close> or of the client's), \<open>took\<close> the time it took, and \<open>arrive\<close> the order in which the results
  are received. \<open>sort.Slice\<close> sorts without promising an order among equal timestamps: it is the
  argument \<open>srt\<close>, of which the properties assume that it sorts. The HTTP client is modelled up to
  the URL it asks for; the request itself is an argument.
\<close>

section \<open>Data\<close>

record node_query_stat =
  ns_Duration :: int
  ns_Count :: int
  ns_Error :: string

record query_result =
  qr_Events :: "log_entry list"
  qr_NodeStats :: "(string, node_query_stat) gomap"
  qr_Errors :: "string list"

record coordinator_config =
  cc_LocalNodeID :: string
  cc_QueryTimeout :: int
  cc_AllowPartial :: bool
  cc_PartitionKeyFn :: "(log_entry \<Rightarrow> string) option"

record coordinator =
  co_LocalNodeID :: string
  co_QueryTimeout :: int
  co_AllowPartial :: bool
  co_PartitionKeyFn :: "log_entry \<Rightarrow> string"
  co_ring :: hash_ring
  co_hasLocalStore :: bool

record node_result =
  nr_nodeID :: string
  nr_events :: "log_entry list"
  nr_duration :: int
  nr_err :: "string option"

section \<open>The HTTP client\<close>

text \<open>The parameters of the URL, by name; \<open>rfc3339\<close> is \<open>time.Format\<close> with that layout.\<close>

definition set_param :: "string \<Rightarrow> string \<Rightarrow> bool \<Rightarrow> (string, string) gomap \<Rightarrow> (string, string) gomap" where
  "set_param k v present vals = (if present then AList.update k v vals else vals)"

definition query_params :: "(gotime \<Rightarrow> string) \<Rightarrow> (string, string) gomap \<Rightarrow> log_query \<Rightarrow> (string, string) gomap" where
  "query_params rfc3339 vals q =
     set_param ''limit'' (Itoa (q_Limit q)) (0 < q_Limit q)
      (set_param ''end_time'' (rfc3339 (q_EndTime q)) (\<not> IsZero (q_EndTime q))
       (set_param ''start_time'' (rfc3339 (q_StartTime q)) (\<not> IsZero (q_StartTime q))
        (set_param ''search'' (q_Search q) (q_Search q \<noteq> '''')
         (set_param ''level'' (q_Level q) (q_Level q \<noteq> '''')
          (set_param ''source'' (q_Source q) (q_Source q \<noteq> '''')
           (set_param ''host'' (q_Host q) (q_Host q \<noteq> '''') vals))))))"

definition query_path :: string where
  "query_path = ''/api/v1/query''"

text \<open>
  \<open>parse\<close> gives the query values of the address, \<open>newReq\<close> an error of \<open>http.NewRequestWithContext\<close>, \<open>get\<close>
  the status and body of the answer, \<open>decode\<close> the events of a decoded body.
\<close>

definition HTTPQuery ::
  "(string \<Rightarrow> (string, (string, string) gomap) result) \<Rightarrow> (gotime \<Rightarrow> string) \<Rightarrow> (string \<times> string \<times> (string, string) gomap \<Rightarrow> string option)
     \<Rightarrow> (string \<times> string \<times> (string, string) gomap \<Rightarrow> (string, int \<times> string) result) \<Rightarrow> (string \<Rightarrow> (string, log_entry list) result)
     \<Rightarrow> string \<Rightarrow> log_query \<Rightarrow> (string, log_entry list) result" where
  "HTTPQuery parse rfc3339 newReq get decode address q =
     (case parse address of
        Inl err \<Rightarrow> Inl (''invalid node address '' @ quoted address @ '': '' @ err)
      | Inr vals \<Rightarrow>
          let u = (address, query_path, query_params rfc3339 vals q)
          in case newReq u of
               Some err \<Rightarrow> Inl (''create query request: '' @ err)
             | None \<Rightarrow>
                 (case get u of
                    Inl err \<Rightarrow> Inl (''query node '' @ address @ '': '' @ err)
                  | Inr (st, body) \<Rightarrow>
                      if st \<noteq> 200 then Inl (''node '' @ address @ '' returned status '' @ Itoa st)
                      else
                        (case decode body of
                           Inl err \<Rightarrow> Inl (''decode query response from '' @ address @ '': '' @ err)
                         | Inr es \<Rightarrow> Inr es)))"

section \<open>The coordinator\<close>

definition query_key :: "log_query \<Rightarrow> string" where
  "query_key q = q_Host q @ ''/'' @ q_Source q"

definition NewCoordinator :: "coordinator_config \<Rightarrow> hash_ring \<Rightarrow> bool \<Rightarrow> coordinator" where
  "NewCoordinator cfg ring hasStore =
     \<lparr>co_LocalNodeID = cc_LocalNodeID cfg,
      co_QueryTimeout = (if cc_QueryTimeout cfg \<le> 0 then 10 * 1000000000 else cc_QueryTimeout cfg),
      co_AllowPartial = cc_AllowPartial cfg,
      co_PartitionKeyFn = (case cc_PartitionKeyFn cfg of None \<Rightarrow> DefaultPartitionKey | Some f \<Rightarrow> f),
      co_ring = ring, co_hasLocalStore = hasStore\<rparr>"

text \<open>The nodes asked: the owner of host and source when both are given, otherwise all.\<close>

definition target_nodes :: "hash_fn \<Rightarrow> log_query \<Rightarrow> coordinator \<Rightarrow> node list" where
  "target_nodes hash q c =
     (let pruned = (if q_Host q \<noteq> '''' \<and> q_Source q \<noteq> '''' then
                      (case GetNode hash (query_key q) (co_ring c) of Inl _ \<Rightarrow> [] | Inr n \<Rightarrow> [n])
                    else [])
      in if pruned = [] then Nodes (co_ring c) else pruned)"

text \<open>\<open>ask None\<close> is the local store, \<open>ask (Some address)\<close> the client.\<close>

definition ask_node ::
  "(string option \<Rightarrow> log_entry list \<times> string option) \<Rightarrow> (node \<Rightarrow> int) \<Rightarrow> coordinator \<Rightarrow> node \<Rightarrow> node_result" where
  "ask_node ask took c n =
     (let (events, err) = ask (if n_ID n = co_LocalNodeID c \<and> co_hasLocalStore c then None else Some (n_Address n))
      in \<lparr>nr_nodeID = n_ID n, nr_events = events, nr_duration = took n, nr_err = err\<rparr>)"

record gathered =
  ga_events :: "log_entry list"
  ga_errors :: "string list"
  ga_seen :: "string list"
  ga_stats :: "(string, node_query_stat) gomap"

definition gather_event :: "log_entry \<Rightarrow> gathered \<Rightarrow> gathered" where
  "gather_event e g =
     (if ID e \<notin> set (ga_seen g) then g\<lparr>ga_seen := ID e # ga_seen g, ga_events := ga_events g @ [e]\<rparr> else g)"

definition gather_result :: "node_result \<Rightarrow> gathered \<Rightarrow> gathered" where
  "gather_result res g =
     (let st = \<lparr>ns_Duration = nr_duration res, ns_Count = int (length (nr_events res)), ns_Error = ''''\<rparr>
      in case nr_err res of
           Some err \<Rightarrow>
             let msg = ''node '' @ nr_nodeID res @ '': '' @ err
             in g\<lparr>ga_errors := ga_errors g @ [msg],
                  ga_stats := AList.update (nr_nodeID res) (st\<lparr>ns_Error := msg\<rparr>) (ga_stats g)\<rparr>
         | None \<Rightarrow>
             let g = fold gather_event (nr_events res) g
             in g\<lparr>ga_stats := AList.update (nr_nodeID res) st (ga_stats g)\<rparr>)"

definition gather :: "node_result list \<Rightarrow> gathered" where
  "gather results = fold gather_result results \<lparr>ga_events = [], ga_errors = [], ga_seen = [], ga_stats = []\<rparr>"

definition Query_cluster ::
  "hash_fn \<Rightarrow> (log_query \<Rightarrow> string option \<Rightarrow> log_entry list \<times> string option) \<Rightarrow> (node \<Rightarrow> int)
     \<Rightarrow> (node_result list \<Rightarrow> node_result list) \<Rightarrow> (log_entry list \<Rightarrow> log_entry list) \<Rightarrow> log_query \<Rightarrow> coordinator
     \<Rightarrow> query_result \<times> string option" where
  "Query_cluster hash ask took arrive srt q0 c =
     (let q = Normalize q0; targetNodes = target_nodes hash q c
      in if targetNodes = [] then
           if co_hasLocalStore c then
             (case ask q None of
                (_, Some err) \<Rightarrow> (\<lparr>qr_Events = [], qr_NodeStats = [], qr_Errors = [err]\<rparr>, Some err)
              | (events, None) \<Rightarrow>
                  (\<lparr>qr_Events = events,
                    qr_NodeStats = [(co_LocalNodeID c, \<lparr>ns_Duration = 0, ns_Count = int (length events), ns_Error = ''''\<rparr>)],
                    qr_Errors = []\<rparr>, None))
           else
             (\<lparr>qr_Events = [], qr_NodeStats = [], qr_Errors = [''hash ring contains no active nodes'']\<rparr>, Some ''hash ring contains no active nodes'')
         else
           let g = gather (arrive (map (ask_node (ask q) took c) targetNodes))
           in if ga_errors g \<noteq> [] \<and> \<not> co_AllowPartial c \<and> ga_events g = [] then
                (\<lparr>qr_Events = [], qr_NodeStats = ga_stats g, qr_Errors = ga_errors g\<rparr>,
                 Some (''scatter query failed: '' @ hd (ga_errors g)))
              else
                let allEvents = srt (ga_events g);
                    allEvents = (if 0 < q_Limit q \<and> q_Limit q < int (length allEvents) then take (nat (q_Limit q)) allEvents else allEvents)
                in (\<lparr>qr_Events = allEvents, qr_NodeStats = ga_stats g, qr_Errors = ga_errors g\<rparr>, None))"

section \<open>Facts\<close>

text \<open>What \<open>sort.Slice\<close> promises: a permutation, the newest first.\<close>

definition sorts_newest :: "(log_entry list \<Rightarrow> log_entry list) \<Rightarrow> bool" where
  "sorts_newest srt \<longleftrightarrow>
     (\<forall>es. mset (srt es) = mset es \<and> sorted_wrt (\<lambda>a b. \<not> After (Timestamp b) (Timestamp a)) (srt es))"

definition answered_events :: "node_result list \<Rightarrow> log_entry set" where
  "answered_events results = {e. \<exists>res\<in>set results. nr_err res = None \<and> e \<in> set (nr_events res)}"

definition gather_ok :: "log_entry set \<Rightarrow> gathered \<Rightarrow> bool" where
  "gather_ok A g \<longleftrightarrow> distinct (map ID (ga_events g)) \<and> set (ga_seen g) = ID ` set (ga_events g) \<and>
     set (ga_events g) \<subseteq> A \<and> ID ` A = ID ` set (ga_events g)"

lemma gather_event_ok: "gather_ok A g \<Longrightarrow> gather_ok (insert e A) (gather_event e g)"
  by (auto simp: gather_ok_def gather_event_def)

lemma gather_events_ok: "gather_ok A g \<Longrightarrow> gather_ok (A \<union> set es) (fold gather_event es g)"
proof (induction es arbitrary: A g)
  case (Cons e es)
  from Cons.IH [OF gather_event_ok [OF Cons.prems, of e]] show ?case by simp
qed simp

lemma gather_result_ok:
  assumes "gather_ok A g"
  shows "gather_ok (A \<union> answered_events [res]) (gather_result res g)"
proof (cases "nr_err res")
  case None
  with gather_events_ok [OF assms, of "nr_events res"] show ?thesis
    by (simp add: gather_result_def Let_def gather_ok_def answered_events_def)
next
  case (Some err)
  with assms show ?thesis by (simp add: gather_result_def Let_def gather_ok_def answered_events_def)
qed

lemma gather_spec: "gather_ok (answered_events results) (gather results)"
proof -
  have "gather_ok (A \<union> answered_events results) (fold gather_result results g)" if "gather_ok A g" for A g
    using that
  proof (induction results arbitrary: A g)
    case Nil
    then show ?case by (simp add: answered_events_def)
  next
    case (Cons res results)
    have "A \<union> answered_events [res] \<union> answered_events results = A \<union> answered_events (res # results)"
      by (auto simp: answered_events_def)
    with Cons.IH [OF gather_result_ok [OF Cons.prems, of res]] show ?case by simp
  qed
  from this [of "{}"] show ?thesis by (simp add: gather_def gather_ok_def)
qed

lemma answered_events_perm: "mset ys = mset xs \<Longrightarrow> answered_events ys = answered_events xs"
  by (auto simp: answered_events_def dest: mset_eq_setD)

lemma sorted_take_newest:
  assumes "sorted_wrt P xs" and "x \<in> set xs" and "x \<notin> set (take n xs)" and "k \<in> set (take n xs)"
  shows "P k x"
proof -
  have "x \<in> set (drop n xs)" using assms(2,3) by (metis append_take_drop_id UnE set_append)
  with assms(1,4) show ?thesis by (metis append_take_drop_id sorted_wrt_append)
qed

section \<open>Properties\<close>

text \<open>
  C26. The answers of the nodes are merged correctly, in whatever order they arrive: a successful
  query returns at most the limit, no two events with one ID, the newest first, only events that a
  node answered without error; and every such event is in the result by its ID, unless the limit
  is reached by events that are not older than it.
\<close>

theorem cluster_query_merges:
  assumes call: "Query_cluster hash ask took arrive srt q0 c = (res, None)" and srt: "sorts_newest srt"
    and arrive: "\<forall>rs. mset (arrive rs) = mset rs" and nodes: "target_nodes hash (Normalize q0) c \<noteq> []"
  defines "A \<equiv> answered_events (map (ask_node (ask (Normalize q0)) took c) (target_nodes hash (Normalize q0) c))"
  shows "int (length (qr_Events res)) \<le> q_Limit (Normalize q0) \<and> distinct (map ID (qr_Events res)) \<and>
    sorted_wrt (\<lambda>a b. instant (Timestamp b) \<le> instant (Timestamp a)) (qr_Events res) \<and> set (qr_Events res) \<subseteq> A \<and>
    (\<forall>e\<in>A. ID e \<in> ID ` set (qr_Events res) \<or>
       int (length (qr_Events res)) = q_Limit (Normalize q0) \<and>
       (\<exists>e'\<in>A. ID e' = ID e \<and> (\<forall>k\<in>set (qr_Events res). instant (Timestamp e') \<le> instant (Timestamp k))))"
proof -
  let ?q = "Normalize q0" and ?g = "gather (arrive (map (ask_node (ask (Normalize q0)) took c) (target_nodes hash (Normalize q0) c)))"
  let ?n = "nat (q_Limit ?q)"
  have lim: "1 \<le> q_Limit ?q" using Normalize_Limit by blast
  define all where "all = srt (ga_events ?g)"
  have "qr_Events res = (if 0 < q_Limit ?q \<and> q_Limit ?q < int (length all) then take ?n all else all)"
    using call nodes unfolding all_def Query_cluster_def Let_def by (simp only: if_False split: if_splits) force+
  then have ev: "qr_Events res = take ?n all" using lim by simp
  have "answered_events (arrive rs) = answered_events rs" for rs using arrive answered_events_perm by blast
  then have g: "gather_ok A ?g" using gather_spec unfolding A_def by metis
  have perm: "mset all = mset (ga_events ?g)" and srtd: "sorted_wrt (\<lambda>a b. \<not> After (Timestamp b) (Timestamp a)) all"
    using srt unfolding all_def sorts_newest_def by blast+
  have set: "set all = set (ga_events ?g)" using perm by (rule mset_eq_setD)
  have "mset (map ID all) = mset (map ID (ga_events ?g))" using perm by (metis mset_map)
  then have dist: "distinct (map ID all)" using g mset_eq_imp_distinct_iff unfolding gather_ok_def by blast
  have "distinct (map ID (take ?n all))" using dist by (metis distinct_take take_map)
  moreover have newest: "sorted_wrt (\<lambda>a b. instant (Timestamp b) \<le> instant (Timestamp a)) all"
    using srtd by (simp add: After_def not_less)
  then have "sorted_wrt (\<lambda>a b. instant (Timestamp b) \<le> instant (Timestamp a)) (take ?n all)" by (rule sorted_wrt_take)
  moreover have "set (take ?n all) \<subseteq> A" using g set set_take_subset [of ?n all] unfolding gather_ok_def by blast
  moreover have "int (length (take ?n all)) \<le> q_Limit ?q" using lim by simp
  moreover have "ID e \<in> ID ` set (take ?n all) \<or> int (length (take ?n all)) = q_Limit ?q \<and>
      (\<exists>e'\<in>A. ID e' = ID e \<and> (\<forall>k\<in>set (take ?n all). instant (Timestamp e') \<le> instant (Timestamp k)))" if "e \<in> A" for e
  proof -
    have "ID e \<in> ID ` set all" using that g set unfolding gather_ok_def by blast
    then obtain e' where e': "e' \<in> set all" "ID e' = ID e" by auto
    then have "e' \<in> A" using g set unfolding gather_ok_def by blast
    show ?thesis
    proof (cases "e' \<in> set (take ?n all)")
      case True
      with e'(2) show ?thesis by (metis imageI)
    next
      case False
      then have "?n < length all" using e'(1) by (metis not_le take_all)
      then have "int (length (take ?n all)) = q_Limit ?q" using lim by simp
      with sorted_take_newest [OF newest e'(1) False] e' \<open>e' \<in> A\<close> show ?thesis by blast
    qed
  qed
  ultimately show ?thesis unfolding ev by blast
qed

definition newest_first :: "log_entry list \<Rightarrow> log_entry list" where
  "newest_first = sort_key (\<lambda>e. - instant (Timestamp e))"

lemma newest_first_sorts: "sorts_newest newest_first"
proof -
  have "sorted_wrt (\<lambda>a b. - instant (Timestamp a) \<le> - instant (Timestamp b)) (newest_first es)" for es
    using sorted_sort_key [of "\<lambda>e. - instant (Timestamp e)" es] by (simp add: newest_first_def sorted_map)
  then show ?thesis by (simp add: sorts_newest_def newest_first_def After_def not_less)
qed

definition ex_coordinator :: coordinator where
  "ex_coordinator = NewCoordinator \<lparr>cc_LocalNodeID = ''a'', cc_QueryTimeout = 0, cc_AllowPartial = False, cc_PartitionKeyFn = None\<rparr> ex_ring2 True"

definition ex_stamped :: "string \<Rightarrow> int \<Rightarrow> log_entry" where
  "ex_stamped i t = (ex_keyed ''web'' ''app'')\<lparr>ID := i, Timestamp := unix_utc t\<rparr>"

text \<open>The local node answers two events, the other one of them again and a newer one.\<close>

definition ex_ask :: "log_query \<Rightarrow> string option \<Rightarrow> log_entry list \<times> string option" where
  "ex_ask q who = (case who of None \<Rightarrow> ([ex_stamped ''x'' 5, ex_stamped ''y'' 1], None) | Some _ \<Rightarrow> ([ex_stamped ''x'' 5, ex_stamped ''z'' 9], None))"

definition ex_all :: log_query where
  "ex_all = \<lparr>q_Host = [], q_Source = [], q_Level = [], q_StartTime = zero_time, q_EndTime = zero_time, q_Search = [], q_Limit = 2\<rparr>"

abbreviation ex_gathered :: "query_result \<times> string option" where
  "ex_gathered \<equiv> Query_cluster ex_hash ex_ask (\<lambda>n. 0) rev newest_first ex_all ex_coordinator"

theorem cluster_query_merges_witness:
  "qr_Events (fst ex_gathered) = [ex_stamped ''z'' 9, ex_stamped ''x'' 5] \<and> int (length (qr_Events (fst ex_gathered))) \<le> 2 \<and>
   distinct (map ID (qr_Events (fst ex_gathered)))"
proof -
  have r: "snd ex_gathered = None \<and> qr_Events (fst ex_gathered) = [ex_stamped ''z'' 9, ex_stamped ''x'' 5]" by code_simp
  then have call: "ex_gathered = (fst ex_gathered, None)" by (metis prod.collapse)
  have nodes: "target_nodes ex_hash (Normalize ex_all) ex_coordinator \<noteq> []" by code_simp
  have "q_Limit (Normalize ex_all) = 2" by code_simp
  with r cluster_query_merges [OF call newest_first_sorts _ nodes] show ?thesis by simp
qed

text \<open>
  Partition pruning asks the node that owns the text of the query, while matching folds case and
  the router may use another key: an entry that matches can be on a node that is not asked.
\<close>

lemma prune_case_gap:
  defines "q \<equiv> ex_all\<lparr>q_Host := ''A'', q_Source := ''0''\<rparr>"
  shows "Matches (ex_keyed ''a'' ''0'') (Normalize q) \<and> map n_ID (target_nodes ex_hash (Normalize q) ex_coordinator) = [''a''] \<and>
    owner_id ex_hash ex_router (ex_keyed ''a'' ''0'') = ''b''"
  unfolding q_def by code_simp

end
