(* ===== verification/Checkpoint.thy ===== *)
theory Checkpoint
  imports Prelude
begin

text \<open>
  The registry of read positions, \<open>internal/tailer/checkpoint.go\<close>: a map from file identities to offsets,
  written to one file by way of a temporary file. The files of the directory are a map from names
  to contents; \<open>encoding/json\<close> is the pair of arguments \<open>marshal\<close> and \<open>unmarshal\<close>, any call of the
  operating system may fail.
\<close>

section \<open>Data\<close>

record checkpoint =
  cp_DeviceID :: "64 word"
  cp_FileIdentity :: "64 word"
  cp_FilePath :: string
  cp_ByteOffset :: int
  cp_LastSeenTimestamp :: gotime

type_synonym checkpoints = "(string, checkpoint) gomap"

record checkpoint_registry =
  cr_path :: string
  cr_entries :: checkpoints
  cr_dirty :: bool
  cr_closed :: bool

type_synonym file_map = "(string, string) gomap"

datatype ckpt_error =
  ErrEmptyPath | ErrMkdir | ErrLoad | ErrUnmarshalCheckpoints | ErrMarshalCheckpoints | ErrCreateTempCheckpoint
  | ErrWriteCheckpoint | ErrFsyncCheckpoint | ErrCloseCheckpoint | ErrRenameCheckpoint

datatype ckpt_call = CkMkdir | CkRead | CkOpen | CkWrite | CkSync | CkClose | CkRename | CkRemove

type_synonym ckpt_faults = "ckpt_call \<Rightarrow> bool"

section \<open>Operations\<close>

definition makeKey :: "64 word \<Rightarrow> 64 word \<Rightarrow> string" where
  "makeKey deviceID fileIdentity = Itoa (uint deviceID) @ '':'' @ Itoa (uint fileIdentity)"

text \<open>\<open>None\<close> is \<open>os.ErrNotExist\<close>.\<close>

definition load_checkpoints :: "(string \<Rightarrow> checkpoints option) \<Rightarrow> ckpt_faults \<Rightarrow> file_map \<Rightarrow> string \<Rightarrow> (ckpt_error, checkpoints) result option" where
  "load_checkpoints unmarshal flt files path =
     (if flt CkRead then Some (Inl ErrLoad)
      else
        case map_of files path of
          None \<Rightarrow> None
        | Some data \<Rightarrow>
            Some (case unmarshal data of None \<Rightarrow> Inl ErrUnmarshalCheckpoints | Some stored \<Rightarrow> Inr stored))"

definition NewCheckpointRegistry ::
  "(string \<Rightarrow> checkpoints option) \<Rightarrow> ckpt_faults \<Rightarrow> string \<Rightarrow> file_map \<Rightarrow> (ckpt_error, checkpoint_registry) result" where
  "NewCheckpointRegistry unmarshal flt path files =
     (if path = '''' then Inl ErrEmptyPath
      else if flt CkMkdir then Inl ErrMkdir
      else
        let r = \<lparr>cr_path = path, cr_entries = [], cr_dirty = False, cr_closed = False\<rparr>
        in case load_checkpoints unmarshal flt files path of
             None \<Rightarrow> Inr r
           | Some (Inl e) \<Rightarrow> Inl e
           | Some (Inr stored) \<Rightarrow> Inr (r\<lparr>cr_entries := stored\<rparr>))"

definition Get_checkpoint :: "64 word \<Rightarrow> 64 word \<Rightarrow> checkpoint_registry \<Rightarrow> checkpoint option" where
  "Get_checkpoint deviceID fileIdentity r = map_of (cr_entries r) (makeKey deviceID fileIdentity)"

definition GetByPath :: "string \<Rightarrow> checkpoint_registry \<Rightarrow> checkpoint option" where
  "GetByPath path r = find (\<lambda>cp. cp_FilePath cp = path) (map snd (cr_entries r))"

definition Set_checkpoint :: "gotime \<Rightarrow> checkpoint \<Rightarrow> checkpoint_registry \<Rightarrow> checkpoint_registry" where
  "Set_checkpoint now cp r =
     (let cp = (if IsZero (cp_LastSeenTimestamp cp) then cp\<lparr>cp_LastSeenTimestamp := now\<rparr> else cp)
      in r\<lparr>cr_entries := AList.update (makeKey (cp_DeviceID cp) (cp_FileIdentity cp)) cp (cr_entries r), cr_dirty := True\<rparr>)"

definition ck_Remove :: "ckpt_faults \<Rightarrow> string \<Rightarrow> file_map \<Rightarrow> file_map" where
  "ck_Remove flt p files = (if flt CkRemove then files else AList.delete p files)"

text \<open>\<open>tmp\<close> is the name of the temporary file, made from the clock. A failed write leaves part of the data.\<close>

definition Save ::
  "(checkpoints \<Rightarrow> string option) \<Rightarrow> ckpt_faults \<Rightarrow> string \<Rightarrow> string \<Rightarrow> checkpoint_registry \<Rightarrow> file_map
     \<Rightarrow> ckpt_error option \<times> checkpoint_registry \<times> file_map" where
  "Save marshal flt tmp part r files =
     (if \<not> cr_dirty r \<and> 0 < length (cr_entries r) then (None, r, files)
      else
        case marshal (cr_entries r) of
          None \<Rightarrow> (Some ErrMarshalCheckpoints, r, files)
        | Some data \<Rightarrow>
            if flt CkOpen then (Some ErrCreateTempCheckpoint, r, files)
            else if flt CkWrite then (Some ErrWriteCheckpoint, r, ck_Remove flt tmp (AList.update tmp part files))
            else
              let written = AList.update tmp data files
              in if flt CkSync then (Some ErrFsyncCheckpoint, r, ck_Remove flt tmp written)
                 else if flt CkClose then (Some ErrCloseCheckpoint, r, ck_Remove flt tmp written)
                 else if flt CkRename then (Some ErrRenameCheckpoint, r, ck_Remove flt tmp written)
                 else (None, r\<lparr>cr_dirty := False\<rparr>, AList.update (cr_path r) data (AList.delete tmp written)))"

definition Count_checkpoints :: "checkpoint_registry \<Rightarrow> nat" where
  "Count_checkpoints r = length (cr_entries r)"

text \<open>
  The flusher, as the calls of \<open>Save\<close> it makes, one for every tick and one when it is stopped; their errors are ignored.
  \<open>Close\<close> waits for the calls that the flusher still makes, and saves once more.
\<close>

type_synonym save_call = "ckpt_faults \<times> string \<times> string"

fun flusher :: "(checkpoints \<Rightarrow> string option) \<Rightarrow> save_call list \<Rightarrow> checkpoint_registry \<Rightarrow> file_map \<Rightarrow> checkpoint_registry \<times> file_map" where
  "flusher marshal [] r files = (r, files)"
| "flusher marshal ((flt, tmp, part) # saves) r files =
     (case Save marshal flt tmp part r files of (_, r', files') \<Rightarrow> flusher marshal saves r' files')"

definition Close_registry ::
  "(checkpoints \<Rightarrow> string option) \<Rightarrow> save_call list \<Rightarrow> ckpt_faults \<Rightarrow> string \<Rightarrow> string \<Rightarrow> checkpoint_registry \<Rightarrow> file_map
     \<Rightarrow> ckpt_error option \<times> checkpoint_registry \<times> file_map" where
  "Close_registry marshal saves flt tmp part r files =
     (if cr_closed r then (None, r, files)
      else
        case flusher marshal saves (r\<lparr>cr_closed := True\<rparr>) files of
          (r', files') \<Rightarrow> Save marshal flt tmp part r' files')"

section \<open>Facts\<close>

lemma dec_no_colon: "CHR '':'' \<notin> set (dec n)"
proof (induction n rule: dec.induct)
  case (1 n)
  have d: "CHR '':'' \<noteq> digit k" if "k < 10" for k
  proof
    assume "CHR '':'' = digit k"
    then have "digit k = CHR '':''" ..
    with code_digit [OF that] that show False by simp
  qed
  show ?case
  proof (cases "n < 10")
    case True
    then show ?thesis using d by (simp add: dec_small)
  next
    case False
    with 1 d [of "n mod 10"] show ?thesis by (simp add: dec_big)
  qed
qed

lemma Itoa_uint: "Itoa (uint (w :: 64 word)) = dec (unat w)"
  by (simp add: Itoa_def not_less)

lemma dec_inj:
  assumes "dec m = dec n"
  shows "m = n"
proof -
  have "Some (int m) = Some (int n)" unfolding read_dec_dec [symmetric] assms ..
  then show ?thesis by simp
qed

lemma makeKey_inj: "makeKey d i = makeKey d' i' \<Longrightarrow> d = d' \<and> i = i'"
proof -
  assume eq: "makeKey d i = makeKey d' i'"
  have split: "takeWhile (\<lambda>c. c \<noteq> CHR '':'') (dec m @ '':'' @ xs) = dec m" for m xs
    using dec_no_colon [of m] by (subst takeWhile_append2) auto
  have "dec (unat d) = dec (unat d')" using arg_cong [OF eq, of "takeWhile (\<lambda>c. c \<noteq> CHR '':'')"] split by (simp add: makeKey_def Itoa_uint)
  moreover from this have "dec (unat i) = dec (unat i')" using eq by (simp add: makeKey_def Itoa_uint)
  ultimately have "unat d = unat d'" "unat i = unat i'" using dec_inj by blast+
  then show ?thesis by (simp add: word_unat_eq_iff)
qed

text \<open>What the tailer relies on: a registry remembers the last position set for a file, and nothing else.\<close>

locale positions =
  fixes get :: "'k \<Rightarrow> 'r \<Rightarrow> 'p option" and set :: "'k \<Rightarrow> 'p \<Rightarrow> 'r \<Rightarrow> 'r"
  assumes get_set: "get k (set k p r) = Some p" and get_set_other: "k' \<noteq> k \<Longrightarrow> get k' (set k p r) = get k' r"
begin

lemma get_last:
  "get k (fold (\<lambda>(k, p). set k p) kps r) = (case find (\<lambda>kp. fst kp = k) (rev kps) of None \<Rightarrow> get k r | Some kp \<Rightarrow> Some (snd kp))"
proof (induction kps arbitrary: r rule: rev_induct)
  case (snoc kp kps)
  then show ?case by (cases "fst kp = k") (auto simp: case_prod_beta get_set get_set_other)
qed simp

end

type_synonym file_id = "64 word \<times> 64 word"

definition get_position :: "file_id \<Rightarrow> checkpoint_registry \<Rightarrow> int option" where
  "get_position k r = map_option cp_ByteOffset (Get_checkpoint (fst k) (snd k) r)"

definition set_position :: "gotime \<Rightarrow> string \<Rightarrow> file_id \<Rightarrow> int \<Rightarrow> checkpoint_registry \<Rightarrow> checkpoint_registry" where
  "set_position now path k off r =
     Set_checkpoint now \<lparr>cp_DeviceID = fst k, cp_FileIdentity = snd k, cp_FilePath = path, cp_ByteOffset = off, cp_LastSeenTimestamp = now\<rparr> r"

interpretation cp: positions get_position "set_position now path" for now path
proof
  fix k p r
  show "get_position k (set_position now path k p r) = Some p"
    by (simp add: get_position_def set_position_def Get_checkpoint_def Set_checkpoint_def Let_def update_conv')
next
  fix k k' :: file_id and p r
  assume "k' \<noteq> k"
  then have "makeKey (fst k') (snd k') \<noteq> makeKey (fst k) (snd k)" using makeKey_inj by (metis prod.collapse)
  then show "get_position k' (set_position now path k p r) = get_position k' r"
    by (simp add: get_position_def set_position_def Get_checkpoint_def Set_checkpoint_def Let_def update_conv')
qed

text \<open>JSON gives back the map it was given, up to the order of its keys.\<close>

definition ck_faithful :: "(checkpoints \<Rightarrow> string option) \<Rightarrow> (string \<Rightarrow> checkpoints option) \<Rightarrow> bool" where
  "ck_faithful marshal unmarshal \<longleftrightarrow>
     (\<forall>m data. marshal m = Some data \<longrightarrow> (\<exists>m'. unmarshal data = Some m' \<and> map_of m' = map_of m))"

text \<open>A registry that is not dirty agrees with its file.\<close>

definition ck_synced :: "(string \<Rightarrow> checkpoints option) \<Rightarrow> checkpoint_registry \<Rightarrow> file_map \<Rightarrow> bool" where
  "ck_synced unmarshal r files \<longleftrightarrow> cr_path r \<noteq> '''' \<and>
     (\<not> cr_dirty r \<and> cr_entries r \<noteq> [] \<longrightarrow>
        (\<exists>data m. map_of files (cr_path r) = Some data \<and> unmarshal data = Some m \<and> map_of m = map_of (cr_entries r)))"

lemma ck_synced_New:
  "NewCheckpointRegistry unmarshal flt path files = Inr r \<Longrightarrow> ck_synced unmarshal r files"
  by (auto simp: NewCheckpointRegistry_def load_checkpoints_def ck_synced_def Let_def split: if_splits option.splits sum.splits)

lemma ck_synced_Set: "ck_synced unmarshal r files \<Longrightarrow> ck_synced unmarshal (Set_checkpoint now cp r) files"
  by (simp add: ck_synced_def Set_checkpoint_def Let_def)

lemma Save_cases:
  assumes "Save marshal flt tmp part r files = (e, r', files')" and "tmp \<noteq> cr_path r"
  obtains (clean) "e = None" "\<not> cr_dirty r" "cr_entries r \<noteq> []" "r' = r" "files' = files"
  | (failed) err where "e = Some err" "r' = r" "map_of files' (cr_path r) = map_of files (cr_path r)"
  | (written) data where "e = None" "marshal (cr_entries r) = Some data" "r' = r\<lparr>cr_dirty := False\<rparr>"
      "map_of files' (cr_path r) = Some data"
proof -
  have rm: "map_of (ck_Remove flt tmp (AList.update tmp x files)) (cr_path r) = map_of files (cr_path r)" for x
    using assms(2) by (simp add: ck_Remove_def update_conv' delete_conv')
  consider "\<not> cr_dirty r \<and> cr_entries r \<noteq> []" | "cr_dirty r \<or> cr_entries r = []" "marshal (cr_entries r) = None"
    | data where "cr_dirty r \<or> cr_entries r = []" "marshal (cr_entries r) = Some data" by fastforce
  then show thesis
  proof cases
    case 1
    then show ?thesis using assms(1) by (intro clean) (simp_all add: Save_def)
  next
    case 2
    then show ?thesis using assms(1) by (intro failed [of ErrMarshalCheckpoints]) (auto simp: Save_def)
  next
    case (3 data)
    have go: "\<not> (\<not> cr_dirty r \<and> 0 < length (cr_entries r))" using 3(1) by auto
    note save = assms(1) [unfolded Save_def if_not_P [OF go] 3(2) option.case Let_def]
    show ?thesis
    proof (cases "flt CkOpen \<or> flt CkWrite \<or> flt CkSync \<or> flt CkClose \<or> flt CkRename")
      case True
      with save rm obtain err where "e = Some err" "r' = r" "map_of files' (cr_path r) = map_of files (cr_path r)"
        by (auto split: if_splits)
      then show ?thesis by (rule failed)
    next
      case False
      with save have "e = None" "r' = r\<lparr>cr_dirty := False\<rparr>" "map_of files' (cr_path r) = Some data"
        by (auto simp: update_conv')
      with 3(2) show ?thesis by (intro written)
    qed
  qed
qed

lemma Save_durable:
  assumes "Save marshal flt tmp part r files = (e, r', files')" and "tmp \<noteq> cr_path r" and "ck_faithful marshal unmarshal"
    and "ck_synced unmarshal r files"
  shows "ck_synced unmarshal r' files' \<and>
    (case e of
       None \<Rightarrow> \<exists>n. NewCheckpointRegistry unmarshal (\<lambda>c. False) (cr_path r) files' = Inr n \<and>
         (\<forall>d i. Get_checkpoint d i n = Get_checkpoint d i r)
     | Some err \<Rightarrow> map_of files' (cr_path r) = map_of files (cr_path r) \<and> cr_dirty r' = cr_dirty r \<and> cr_entries r' = cr_entries r)"
proof -
  have path: "cr_path r \<noteq> ''''" using assms(4) by (simp add: ck_synced_def)
  have reopen: "\<exists>n. NewCheckpointRegistry unmarshal (\<lambda>c. False) (cr_path r) files' = Inr n \<and> (\<forall>d i. Get_checkpoint d i n = Get_checkpoint d i r)"
    if "map_of files' (cr_path r) = Some data" "unmarshal data = Some m" "map_of m = map_of (cr_entries r)" for data m
    using that path by (simp add: NewCheckpointRegistry_def load_checkpoints_def Let_def Get_checkpoint_def)
  from assms(1,2) show ?thesis
  proof (cases rule: Save_cases)
    case clean
    with assms(4) obtain data m where "map_of files' (cr_path r) = Some data" "unmarshal data = Some m" "map_of m = map_of (cr_entries r)"
      by (auto simp: ck_synced_def)
    with reopen clean assms(4) show ?thesis by simp
  next
    case (failed err)
    with assms(4) show ?thesis by (simp add: ck_synced_def)
  next
    case (written data)
    with assms(3) obtain m where m: "unmarshal data = Some m" "map_of m = map_of (cr_entries r)" by (auto simp: ck_faithful_def)
    with reopen [OF written(4)] written path show ?thesis by (simp add: ck_synced_def)
  qed
qed

lemma Save_keeps:
  assumes "Save marshal flt tmp part r files = (e, r', files')" and "tmp \<noteq> cr_path r"
  shows "cr_path r' = cr_path r \<and> cr_entries r' = cr_entries r"
  using assms by (cases rule: Save_cases) simp_all

lemma flusher_keeps:
  assumes "flusher marshal saves r files = (r', files')" and "\<forall>(flt, tmp, part)\<in>set saves. tmp \<noteq> cr_path r"
    and "ck_faithful marshal unmarshal" and "ck_synced unmarshal r files"
  shows "ck_synced unmarshal r' files' \<and> cr_path r' = cr_path r \<and> cr_entries r' = cr_entries r"
  using assms
proof (induction marshal saves r files rule: flusher.induct)
  case (2 marshal flt tmp part saves r files)
  obtain e r1 files1 where s: "Save marshal flt tmp part r files = (e, r1, files1)" by (metis surj_pair)
  have tmp: "tmp \<noteq> cr_path r" using "2.prems"(2) by simp
  note k = Save_keeps [OF s tmp]
  have "ck_synced unmarshal r1 files1" using Save_durable [OF s tmp "2.prems"(3,4)] by blast
  with 2 s k show ?case by auto
qed simp

text \<open>
  After an orderly end the positions are on disk, whatever the calls of the flusher did: when \<open>Close\<close> returns no
  error, a new registry has every position.
\<close>

lemma Close_durable:
  assumes "Close_registry marshal saves flt tmp part r files = (None, r', files')" and "\<not> cr_closed r" and "tmp \<noteq> cr_path r"
    and "\<forall>(flt, tmp, part)\<in>set saves. tmp \<noteq> cr_path r" and "ck_faithful marshal unmarshal" and "ck_synced unmarshal r files"
  shows "\<exists>n. NewCheckpointRegistry unmarshal (\<lambda>c. False) (cr_path r) files' = Inr n \<and> (\<forall>d i. Get_checkpoint d i n = Get_checkpoint d i r)"
proof -
  let ?r = "r\<lparr>cr_closed := True\<rparr>"
  obtain r1 files1 where f: "flusher marshal saves ?r files = (r1, files1)" by fastforce
  have sync: "ck_synced unmarshal ?r files" using assms(6) by (simp add: ck_synced_def)
  have k: "ck_synced unmarshal r1 files1 \<and> cr_path r1 = cr_path r \<and> cr_entries r1 = cr_entries r"
    using flusher_keeps [OF f _ assms(5) sync] assms(4) by simp
  have s: "Save marshal flt tmp part r1 files1 = (None, r', files')" using assms(1,2) f by (simp add: Close_registry_def)
  from Save_durable [OF s _ assms(5)] k assms(3) show ?thesis by (auto simp: Get_checkpoint_def)
qed

section \<open>Properties\<close>

text \<open>
  C33. Read positions are durable: when \<open>Save\<close> returns no error, a registry opened on the directory
  afterwards returns for every file exactly the position this one would; when it fails, at
  whatever call, the previous file is untouched and the positions stay marked for the next
  attempt, so a crash never leaves less than the last successful save.
\<close>

theorem checkpoint_durable:
  assumes "Save marshal flt tmp part r files = (e, r', files')" and "tmp \<noteq> cr_path r" and "ck_faithful marshal unmarshal"
    and "ck_synced unmarshal r files"
  shows "ck_synced unmarshal r' files' \<and>
    (case e of
       None \<Rightarrow> \<exists>n. NewCheckpointRegistry unmarshal (\<lambda>c. False) (cr_path r) files' = Inr n \<and>
         (\<forall>d i. Get_checkpoint d i n = Get_checkpoint d i r)
     | Some err \<Rightarrow> map_of files' (cr_path r) = map_of files (cr_path r) \<and> cr_dirty r' = cr_dirty r \<and> cr_entries r' = cr_entries r)"
  using assms by (rule Save_durable)

text \<open>An instance of the codec, for the empty map and one with a single checkpoint.\<close>

definition ex_cp :: checkpoint where
  "ex_cp = \<lparr>cp_DeviceID = 1, cp_FileIdentity = 2, cp_FilePath = ''/log'', cp_ByteOffset = 7, cp_LastSeenTimestamp = unix_utc 5\<rparr>"

definition ex_marshal_cp :: "checkpoints \<Rightarrow> string option" where
  "ex_marshal_cp m = (if m = [] then Some ''{}'' else if m = [(makeKey 1 2, ex_cp)] then Some ''x'' else None)"

definition ex_unmarshal_cp :: "string \<Rightarrow> checkpoints option" where
  "ex_unmarshal_cp s = (if s = ''{}'' then Some [] else if s = ''x'' then Some [(makeKey 1 2, ex_cp)] else None)"

theorem checkpoint_durable_witness:
  "\<exists>n. NewCheckpointRegistry ex_unmarshal_cp (\<lambda>c. False) ''cp.json''
         (snd (snd (Save ex_marshal_cp (\<lambda>c. False) ''tmp'' [] (Set_checkpoint zero_time ex_cp \<lparr>cr_path = ''cp.json'', cr_entries = [], cr_dirty = False, cr_closed = False\<rparr>) []))) = Inr n \<and>
     Get_checkpoint 1 2 n = Some ex_cp"
proof -
  let ?r = "Set_checkpoint zero_time ex_cp \<lparr>cr_path = ''cp.json'', cr_entries = [], cr_dirty = False, cr_closed = False\<rparr>"
  obtain e r' files' where save: "Save ex_marshal_cp (\<lambda>c. False) ''tmp'' [] ?r [] = (e, r', files')" by (metis surj_pair)
  have e: "fst (Save ex_marshal_cp (\<lambda>c. False) ''tmp'' [] ?r []) = None" by code_simp
  have g: "Get_checkpoint 1 2 ?r = Some ex_cp" and p: "cr_path ?r = ''cp.json''" by code_simp+
  have f: "ck_faithful ex_marshal_cp ex_unmarshal_cp" by (auto simp: ck_faithful_def ex_marshal_cp_def ex_unmarshal_cp_def)
  have s: "ck_synced ex_unmarshal_cp ?r []" by (simp add: ck_synced_def Set_checkpoint_def Let_def)
  from checkpoint_durable [OF save _ f s] e g p show ?thesis by (auto simp: save)
qed

end
