(* ===== verification/Tailer.thy ===== *)
theory Tailer
  imports Checkpoint
begin

text \<open>
  Following a log file, \<open>internal/tailer/tailer.go\<close> (with \<open>identity_other.go\<close> and \<open>open_other.go\<close>): partial lines,
  rotation, truncation, and positions kept in the checkpoint registry.

  One iteration of the worker's loop is \<open>tail_poll\<close>; what it finds of the operating system is a
  \<open>poll_env\<close>: the results of opening and of \<open>os.Stat\<close>, the contents of the open file, reads that
  stop early, and for each attempt to send a line whether the channel took it or the context was found
  cancelled (the channel takes every line after the end of that list). A file is identified by device and inode, which is also what \<open>os.SameFile\<close> compares.
  \<open>Seek\<close> is left out: all reads are \<open>ReadAt\<close>. Sending an error never blocks and may drop it.
\<close>

section \<open>Data\<close>

datatype tail_error = ErrLineTooLong | ErrOpenFile | ErrReadChunk

definition defaultPollInterval :: int where
  "defaultPollInterval = 50 * 1000000"

definition defaultMaxLineBytes :: int where
  "defaultMaxLineBytes = 1024 * 1024"

record tailer_config =
  tc_Path :: string
  tc_StartPosition :: string
  tc_PollInterval :: int
  tc_MaxLineBytes :: int

text \<open>The tailer with the variables of \<open>run\<close>.\<close>

record tailer =
  tl_cfg :: tailer_config
  tl_registry :: "checkpoint_registry option"
  tl_file :: "file_id option"
  tl_offset :: int
  tl_lineBuf :: string
  tl_isInitial :: bool

record poll_env =
  pe_open :: "(file_id \<times> int) option"
  pe_stat :: "(file_id \<times> int) option"
  pe_content :: "file_id \<Rightarrow> string"
  pe_short :: "int \<Rightarrow> nat option"
  pe_sends :: "bool list"
  pe_now :: gotime

text \<open>What a worker hands out: lines, and errors (any of which may be dropped); and the
  outcomes of the sends to come.\<close>

record tail_out =
  to_lines :: "string list"
  to_errors :: "tail_error list"
  to_sends :: "bool list"

section \<open>Operations\<close>

definition New_tailer :: "tailer_config \<Rightarrow> checkpoint_registry option \<Rightarrow> (string, tailer) result" where
  "New_tailer cfg reg =
     (if tc_Path cfg = '''' then Inl ''file path cannot be empty''
      else
        let cfg = (if tc_PollInterval cfg \<le> 0 then cfg\<lparr>tc_PollInterval := defaultPollInterval\<rparr> else cfg);
            cfg = (if tc_MaxLineBytes cfg \<le> 0 then cfg\<lparr>tc_MaxLineBytes := defaultMaxLineBytes\<rparr> else cfg)
        in Inr \<lparr>tl_cfg = cfg, tl_registry = reg, tl_file = None, tl_offset = 0, tl_lineBuf = [], tl_isInitial = True\<rparr>)"

definition emitError :: "tail_error \<Rightarrow> tail_out \<Rightarrow> tail_out" where
  "emitError e out = out\<lparr>to_errors := to_errors out @ [e]\<rparr>"

text \<open>The \<open>select\<close> between the channel and the cancelled context; \<open>False\<close> when cancelled.\<close>

definition send_line :: "string \<Rightarrow> tail_out \<Rightarrow> bool \<times> tail_out" where
  "send_line line out =
     (case to_sends out of
        [] \<Rightarrow> (True, out\<lparr>to_lines := to_lines out @ [line]\<rparr>)
      | True # oks \<Rightarrow> (True, out\<lparr>to_lines := to_lines out @ [line], to_sends := oks\<rparr>)
      | False # oks \<Rightarrow> (False, out\<lparr>to_sends := oks\<rparr>))"

definition recordCheckpoint :: "gotime \<Rightarrow> file_id \<Rightarrow> int \<Rightarrow> tailer \<Rightarrow> tailer" where
  "recordCheckpoint now k off t =
     (case tl_registry t of
        Some r \<Rightarrow>
          if fst k \<noteq> 0 \<or> snd k \<noteq> 0 then t\<lparr>tl_registry := Some (set_position now (tc_Path (tl_cfg t)) k off r)\<rparr> else t
      | None \<Rightarrow> t)"

definition trim_cr :: "string \<Rightarrow> string" where
  "trim_cr line = (if line \<noteq> [] \<and> last line = CHR 0x0D then butlast line else line)"

fun processBytes :: "int \<Rightarrow> string \<Rightarrow> string \<times> tail_out \<Rightarrow> string \<times> tail_out" where
  "processBytes m [] (buf, out) = (buf, out)"
| "processBytes m (b # data) (buf, out) =
     (if b = CHR ''\<newline>'' then
        let line = trim_cr buf
        in if line \<noteq> [] then
             (case send_line line out of (ok, out') \<Rightarrow> if ok then processBytes m data ([], out') else ([], out'))
           else processBytes m data ([], out)
      else if m \<le> int (length buf) then processBytes m data ([], emitError ErrLineTooLong out)
      else processBytes m data (buf @ [b], out))"

definition chunk_size :: nat where
  "chunk_size = 32 * 1024"

text \<open>\<open>ReadAt\<close>: the bytes read, and whether it failed for another reason than the end of the file.\<close>

definition ReadAt :: "(int \<Rightarrow> nat option) \<Rightarrow> string \<Rightarrow> int \<Rightarrow> string \<times> bool" where
  "ReadAt short content off =
     (if off < 0 then ([], True)
      else
        let data = take chunk_size (drop (nat off) content)
        in case short off of None \<Rightarrow> (data, False) | Some k \<Rightarrow> (take k data, True))"

definition readChunk ::
  "int \<Rightarrow> (int \<Rightarrow> nat option) \<Rightarrow> string \<Rightarrow> int \<times> string \<times> tail_out \<Rightarrow> nat \<times> int \<times> string \<times> tail_out" where
  "readChunk m short content st =
     (case st of
        (off, buf, out) \<Rightarrow>
          let (data, failed) = ReadAt short content off;
              n = length data;
              (buf, out) = (if 0 < n then processBytes m data (buf, out) else (buf, out));
              out = (if failed then emitError ErrReadChunk out else out)
          in (n, off + int n, buf, out))"

lemma ReadAt_progress: "fst (ReadAt short content off) \<noteq> [] \<Longrightarrow> 0 \<le> off \<and> nat off < length content"
  by (auto simp: ReadAt_def Let_def split: if_splits option.splits)

lemma readChunk_sel:
  "fst (readChunk m short content (off, buf, out)) = length (fst (ReadAt short content off))"
  "fst (snd (readChunk m short content (off, buf, out))) = off + int (length (fst (ReadAt short content off)))"
  by (simp_all add: readChunk_def case_prod_beta Let_def)

function readAvailable :: "int \<Rightarrow> (int \<Rightarrow> nat option) \<Rightarrow> string \<Rightarrow> int \<times> string \<times> tail_out \<Rightarrow> int \<times> string \<times> tail_out" where
  "readAvailable m short content st =
     (case readChunk m short content st of
        (n, st') \<Rightarrow> if n = 0 then st' else readAvailable m short content st')"
  by pat_completeness auto
termination
proof (relation "measure (\<lambda>(m, short, content, st). nat (int (length content) - fst st))")
  fix m :: int and short :: "int \<Rightarrow> nat option" and content and st st' :: "int \<times> string \<times> tail_out" and n :: nat
  assume x: "(n, st') = readChunk m short content st" and n: "n \<noteq> 0"
  obtain off buf out where st: "st = (off, buf, out)" by (cases st)
  have "n = length (fst (ReadAt short content off))" "fst st' = off + int n"
    using x readChunk_sel [of m short content off buf out] unfolding st by (metis fst_conv snd_conv)+
  with n ReadAt_progress [of short content off]
  show "((m, short, content, st'), m, short, content, st) \<in> measure (\<lambda>(m, short, content, st). nat (int (length content) - fst st))"
    by (auto simp: st)
qed simp

declare readAvailable.simps [simp del]

definition drainFile :: "int \<Rightarrow> (int \<Rightarrow> nat option) \<Rightarrow> string \<Rightarrow> int \<times> string \<times> tail_out \<Rightarrow> int \<times> string \<times> tail_out" where
  "drainFile m short content st =
     (case readAvailable m short content st of
        (off, buf, out) \<Rightarrow>
          if buf \<noteq> [] then (off, [], snd (send_line buf out)) else (off, buf, out))"

text \<open>The position at which a file is first read.\<close>

definition initial_offset :: "file_id \<Rightarrow> int \<Rightarrow> tailer \<Rightarrow> int" where
  "initial_offset k sz t =
     (let fallback = (if tc_StartPosition (tl_cfg t) = ''end'' then sz else 0)
      in case tl_registry t of
           None \<Rightarrow> fallback
         | Some r \<Rightarrow>
             if fst k \<noteq> 0 \<and> snd k \<noteq> 0 then
               (case get_position k r of Some off \<Rightarrow> if off \<le> sz then off else 0 | None \<Rightarrow> fallback)
             else
               (case GetByPath (tc_Path (tl_cfg t)) r of
                  Some cp \<Rightarrow> if cp_ByteOffset cp \<le> sz then cp_ByteOffset cp else fallback
                | None \<Rightarrow> fallback))"

definition open_step :: "poll_env \<Rightarrow> file_id \<Rightarrow> int \<Rightarrow> tailer \<Rightarrow> tailer" where
  "open_step env k sz t =
     (let off = (if tl_isInitial t then initial_offset k sz t else 0)
      in recordCheckpoint (pe_now env) k off (t\<lparr>tl_file := Some k, tl_isInitial := False, tl_offset := off\<rparr>))"

definition follow_step :: "poll_env \<Rightarrow> file_id \<Rightarrow> tailer \<Rightarrow> tail_out \<Rightarrow> tail_out \<times> tailer" where
  "follow_step env k t out =
     (let m = tc_MaxLineBytes (tl_cfg t); content = pe_content env k
      in if (case pe_stat env of Some (k', _) \<Rightarrow> k' \<noteq> k | None \<Rightarrow> False) then
           (case drainFile m (pe_short env) content (tl_offset t, tl_lineBuf t, out) of
              (off, buf, out') \<Rightarrow>
                (out', (recordCheckpoint (pe_now env) k off t)\<lparr>tl_file := None, tl_offset := off, tl_lineBuf := buf\<rparr>))
         else
           let t = (case pe_stat env of
                      Some (_, sz) \<Rightarrow>
                        if sz < tl_offset t then recordCheckpoint (pe_now env) k 0 (t\<lparr>tl_offset := 0\<rparr>) else t
                    | None \<Rightarrow> t)
           in case readAvailable m (pe_short env) content (tl_offset t, tl_lineBuf t, out) of
                (off, buf, out') \<Rightarrow>
                  (out', (if off \<noteq> tl_offset t then recordCheckpoint (pe_now env) k off t else t)\<lparr>tl_offset := off, tl_lineBuf := buf\<rparr>))"

definition tail_poll :: "poll_env \<Rightarrow> tailer \<Rightarrow> tail_out \<times> tailer" where
  "tail_poll env t =
     (let out = \<lparr>to_lines = [], to_errors = [], to_sends = pe_sends env\<rparr>
      in case tl_file t of
           Some k \<Rightarrow> follow_step env k t out
         | None \<Rightarrow>
             (case pe_open env of
                None \<Rightarrow> (emitError ErrOpenFile out, t)
              | Some (k, sz) \<Rightarrow> follow_step env k (open_step env k sz t) out))"

text \<open>The deferred function of \<open>run\<close> when the context is cancelled.\<close>

definition tail_stop :: "gotime \<Rightarrow> tailer \<Rightarrow> tailer" where
  "tail_stop now t = (case tl_file t of Some k \<Rightarrow> (recordCheckpoint now k (tl_offset t) t)\<lparr>tl_file := None\<rparr> | None \<Rightarrow> t)"

section \<open>Lines of a text\<close>

text \<open>The reference: split at newlines, drop a final carriage return, ignore empty lines.\<close>

abbreviation segments :: "string \<Rightarrow> string list" where
  "segments \<equiv> Split CHR ''\<newline>''"

definition complete_lines :: "string \<Rightarrow> string list" where
  "complete_lines s = filter (\<lambda>l. l \<noteq> []) (map trim_cr (butlast (segments s)))"

definition partial_line :: "string \<Rightarrow> string" where
  "partial_line s = last (segments s)"

definition short_lines :: "int \<Rightarrow> string \<Rightarrow> bool" where
  "short_lines m s \<longleftrightarrow> list_all (\<lambda>l. int (length l) \<le> m) (segments s)"

lemma partial_no_newline: "CHR ''\<newline>'' \<notin> set (partial_line s)"
  using Split_free [of "CHR ''\<newline>''" s] by (simp add: partial_line_def list_all_iff)

lemma split_append:
  "complete_lines (s @ t) = complete_lines s @ complete_lines (partial_line s @ t)"
  "partial_line (s @ t) = partial_line (partial_line s @ t)"
  "short_lines m (s @ t) \<Longrightarrow> short_lines m (partial_line s @ t)"
  "short_lines m (s @ t) \<Longrightarrow> short_lines m s"
proof -
  have p: "segments (partial_line s @ t) = (partial_line s @ hd (segments t)) # tl (segments t)"
    using Split_append [of "CHR ''\<newline>''" "partial_line s" t] Split_no_sep [OF partial_no_newline] by simp
  have st: "segments (s @ t) = butlast (segments s) @ segments (partial_line s @ t)"
    using Split_append [of "CHR ''\<newline>''" s t] unfolding p unfolding partial_line_def .
  show "complete_lines (s @ t) = complete_lines s @ complete_lines (partial_line s @ t)"
    by (simp add: complete_lines_def st butlast_append)
  show "partial_line (s @ t) = partial_line (partial_line s @ t)"
    unfolding partial_line_def [of "s @ t"] partial_line_def [of "partial_line s @ t"] st by simp
  show "short_lines m (s @ t) \<Longrightarrow> short_lines m (partial_line s @ t)" by (simp add: short_lines_def st)
  have "list_all P (segments s) \<longleftrightarrow> list_all P (butlast (segments s)) \<and> P (partial_line s)" for P
    using append_butlast_last_id [OF Split_ne [of "CHR ''\<newline>''" s]] unfolding partial_line_def by (metis list_all_append list.pred_inject(1,2))
  then show "short_lines m (s @ t) \<Longrightarrow> short_lines m s" by (simp add: short_lines_def st p)
qed

lemma split_simps [simp]: "complete_lines [] = []" "partial_line [] = []"
  by (simp_all add: complete_lines_def partial_line_def)

lemma split_no_newline: "CHR ''\<newline>'' \<notin> set s \<Longrightarrow> complete_lines s = [] \<and> partial_line s = s"
  by (simp add: complete_lines_def partial_line_def Split_no_sep)

section \<open>Reading\<close>

lemma processBytes_lines:
  assumes "CHR ''\<newline>'' \<notin> set buf" and "short_lines m (buf @ data)" and "to_sends out = []"
  shows "processBytes m data (buf, out) = (partial_line (buf @ data), out\<lparr>to_lines := to_lines out @ complete_lines (buf @ data)\<rparr>)"
  using assms
proof (induction data arbitrary: buf out)
  case Nil
  then show ?case by (simp add: split_no_newline)
next
  case (Cons b data)
  have seg: "segments buf = [buf]" using Cons.prems(1) by (rule Split_no_sep)
  show ?case
  proof (cases "b = CHR ''\<newline>''")
    case True
    have s: "segments (buf @ b # data) = buf # segments data" using Split_append [of "CHR ''\<newline>''" buf "b # data"] seg True by simp
    have sh: "short_lines m ([] @ data)" using Cons.prems(2) by (simp add: short_lines_def s)
    have c: "complete_lines (buf @ b # data) = (if trim_cr buf = [] then [] else [trim_cr buf]) @ complete_lines data"
      "partial_line (buf @ b # data) = partial_line data"
      by (simp_all add: complete_lines_def partial_line_def s)
    show ?thesis
    proof (cases "trim_cr buf = []")
      case True
      with Cons.IH [OF _ sh Cons.prems(3)] \<open>b = _\<close> c show ?thesis by simp
    next
      case False
      let ?out = "out\<lparr>to_lines := to_lines out @ [trim_cr buf]\<rparr>"
      have "to_sends ?out = []" using Cons.prems(3) by simp
      from Cons.IH [OF _ sh this] False \<open>b = _\<close> c Cons.prems(3) show ?thesis by (simp add: send_line_def)
    qed
  next
    case False
    have "segments (buf @ b # data) = (buf @ b # hd (segments data)) # tl (segments data)"
      using Split_append [of "CHR ''\<newline>''" buf "b # data"] seg False by simp
    then have "int (length buf) < m" using Cons.prems(2) by (simp add: short_lines_def)
    moreover have "CHR ''\<newline>'' \<notin> set (buf @ [b])" using Cons.prems(1) False by auto
    ultimately show ?thesis using Cons.IH [of "buf @ [b]" out] Cons.prems(2,3) False by simp
  qed
qed

lemma readAvailable_lines:
  assumes "0 \<le> off" and "off \<le> int (length content)" and "CHR ''\<newline>'' \<notin> set buf"
    and "short_lines m (buf @ drop (nat off) content)" and "to_sends out = []"
  shows "readAvailable m (\<lambda>_. None) content (off, buf, out) =
    (int (length content), partial_line (buf @ drop (nat off) content),
     out\<lparr>to_lines := to_lines out @ complete_lines (buf @ drop (nat off) content)\<rparr>)"
  using assms
proof (induction "length content - nat off" arbitrary: off buf out rule: less_induct)
  case less
  let ?d = "take chunk_size (drop (nat off) content)" and ?rest = "drop (nat off) content"
  have read: "ReadAt (\<lambda>_. None) content off = (?d, False)" using less.prems(1) by (simp add: ReadAt_def Let_def)
  show ?case
  proof (cases "off = int (length content)")
    case True
    then have rc: "readChunk m (\<lambda>_. None) content (off, buf, out) = (0, off, buf, out)"
      using read by (simp add: readChunk_def)
    have "readAvailable m (\<lambda>_. None) content (off, buf, out) = (off, buf, out)"
      by (subst readAvailable.simps) (simp add: rc)
    then show ?thesis using True less.prems(3) by (simp add: split_no_newline)
  next
    case False
    then have lt: "nat off < length content" using less.prems(1,2) by linarith
    then have d: "?d \<noteq> []" by (simp add: chunk_size_def)
    have rest: "?rest = ?d @ drop (nat off + length ?d) content"
      by (metis add.commute append_take_drop_id drop_drop length_take min.absorb_iff2 min.commute nle_le take_all)
    have sh: "short_lines m ((buf @ ?d) @ drop (nat off + length ?d) content)" using less.prems(4) rest by (metis append.assoc)
    let ?buf = "partial_line (buf @ ?d)" and ?out = "out\<lparr>to_lines := to_lines out @ complete_lines (buf @ ?d)\<rparr>"
    have "processBytes m ?d (buf, out) = (?buf, ?out)"
      by (rule processBytes_lines [OF less.prems(3) split_append(4) [OF sh] less.prems(5)])
    then have rc: "readChunk m (\<lambda>_. None) content (off, buf, out) = (length ?d, off + int (length ?d), ?buf, ?out)"
      using d by (simp add: readChunk_def read Let_def)
    have n: "nat (off + int (length ?d)) = nat off + length ?d" using less.prems(1) by simp
    have "readAvailable m (\<lambda>_. None) content (off + int (length ?d), ?buf, ?out) =
        (int (length content), partial_line (?buf @ drop (nat off + length ?d) content),
         ?out\<lparr>to_lines := to_lines ?out @ complete_lines (?buf @ drop (nat off + length ?d) content)\<rparr>)"
      using less.hyps [of "off + int (length ?d)" ?buf ?out] lt d less.prems(1,5) split_append(3) [OF sh] partial_no_newline [of "buf @ ?d"]
      unfolding n by fastforce
    moreover have "complete_lines (buf @ ?rest) = complete_lines (buf @ ?d) @ complete_lines (?buf @ drop (nat off + length ?d) content)"
      "partial_line (buf @ ?rest) = partial_line (?buf @ drop (nat off + length ?d) content)"
      using split_append(1,2) [of "buf @ ?d" "drop (nat off + length ?d) content"] rest by (metis append.assoc)+
    moreover have "readAvailable m (\<lambda>_. None) content (off, buf, out) = readAvailable m (\<lambda>_. None) content (off + int (length ?d), ?buf, ?out)"
      by (subst readAvailable.simps, subst rc, subst prod.case, subst if_not_P) (use d in auto)
    ultimately show ?thesis by simp
  qed
qed

end
