(* ===== verification/TailerRuns.thy ===== *)
theory TailerRuns
  imports Tailer
begin

text \<open>
  What a worker hands out over many polls: of a file that only grows exactly its complete lines, of a
  file that is rotated away everything, and after a restart the lines from the recorded position on.
\<close>

section \<open>Runs\<close>

text \<open>The polls of a worker one after the other: the lines it handed out, and the tailer left.\<close>

fun tail_run :: "poll_env list \<Rightarrow> tailer \<Rightarrow> string list \<times> tailer" where
  "tail_run [] t = ([], t)"
| "tail_run (env # envs) t =
     (case tail_poll env t of
        (out, t') \<Rightarrow> (case tail_run envs t' of (ls, t'') \<Rightarrow> (to_lines out @ ls, t'')))"

text \<open>A poll that finds the file \<open>k\<close> at the path, reads it without faults and gets rid of every line.\<close>

definition sees :: "file_id \<Rightarrow> poll_env \<Rightarrow> bool" where
  "sees k env \<longleftrightarrow>
     pe_open env = Some (k, int (length (pe_content env k))) \<and> pe_stat env = Some (k, int (length (pe_content env k)))
     \<and> pe_short env = (\<lambda>_. None) \<and> pe_sends env = []"

text \<open>The file \<open>k\<close> is only appended to between the polls; its contents at the end.\<close>

fun grows :: "file_id \<Rightarrow> string \<Rightarrow> poll_env list \<Rightarrow> bool" where
  "grows k s [] \<longleftrightarrow> True"
| "grows k s (env # envs) \<longleftrightarrow> sees k env \<and> prefix s (pe_content env k) \<and> grows k (pe_content env k) envs"

fun grown :: "file_id \<Rightarrow> string \<Rightarrow> poll_env list \<Rightarrow> string" where
  "grown k s [] = s"
| "grown k s (env # envs) = grown k (pe_content env k) envs"

text \<open>A worker that started reading the file \<open>k\<close> at position \<open>b\<close> has read \<open>s\<close> of it to the end.\<close>

definition tail_at :: "file_id \<Rightarrow> nat \<Rightarrow> string \<Rightarrow> tailer \<Rightarrow> bool" where
  "tail_at k b s t \<longleftrightarrow> tl_file t = Some k \<and> \<not> tl_isInitial t \<and> tl_offset t = int (length s) \<and> b \<le> length s
     \<and> tl_lineBuf t = partial_line (drop b s)
     \<and> (case tl_registry t of None \<Rightarrow> True | Some r \<Rightarrow> get_position k r = Some (int (length s)))"

definition real_id :: "file_id \<Rightarrow> bool" where
  "real_id k \<longleftrightarrow> fst k \<noteq> 0 \<and> snd k \<noteq> 0"

definition max_line :: "tailer \<Rightarrow> int" where
  "max_line t = tc_MaxLineBytes (tl_cfg t)"

lemma recordCheckpoint_sel [simp]:
  "tl_cfg (recordCheckpoint now k off t) = tl_cfg t" "tl_file (recordCheckpoint now k off t) = tl_file t"
  "tl_offset (recordCheckpoint now k off t) = tl_offset t" "tl_lineBuf (recordCheckpoint now k off t) = tl_lineBuf t"
  "tl_isInitial (recordCheckpoint now k off t) = tl_isInitial t"
  by (simp_all add: recordCheckpoint_def split: option.splits)

lemma recordCheckpoint_position:
  "real_id k \<Longrightarrow> tl_registry (recordCheckpoint now k off t) = Some r \<Longrightarrow> get_position k r = Some off"
  by (auto simp: recordCheckpoint_def real_id_def cp.get_set split: option.splits if_splits)

lemma recordCheckpoint_registry [simp]: "tl_registry (recordCheckpoint now k off t) = None \<longleftrightarrow> tl_registry t = None"
  by (simp add: recordCheckpoint_def split: option.splits)

section \<open>One poll\<close>

lemma follow_reads:
  assumes "sees k env" and "0 \<le> tl_offset t" and "tl_offset t \<le> int (length (pe_content env k))"
    and "CHR ''\<newline>'' \<notin> set (tl_lineBuf t)" and "to_sends out = []"
    and "short_lines (max_line t) (tl_lineBuf t @ drop (nat (tl_offset t)) (pe_content env k))"
  shows "follow_step env k t out =
    (out\<lparr>to_lines := to_lines out @ complete_lines (tl_lineBuf t @ drop (nat (tl_offset t)) (pe_content env k))\<rparr>,
     (if int (length (pe_content env k)) \<noteq> tl_offset t then recordCheckpoint (pe_now env) k (int (length (pe_content env k))) t else t)
       \<lparr>tl_offset := int (length (pe_content env k)),
        tl_lineBuf := partial_line (tl_lineBuf t @ drop (nat (tl_offset t)) (pe_content env k))\<rparr>)"
  using assms readAvailable_lines [of "tl_offset t" "pe_content env k" "tl_lineBuf t" "max_line t" out]
  by (simp add: follow_step_def sees_def Let_def max_line_def)

lemma follow_at:
  assumes at: "tail_at k b s t" and sees: "sees k env" and grows: "prefix s (pe_content env k)" and real: "real_id k"
    and short: "short_lines (max_line t) (drop b (pe_content env k))" and sends: "to_sends out = []"
  defines "c \<equiv> pe_content env k"
  shows "fst (follow_step env k t out) = out\<lparr>to_lines := to_lines out @ complete_lines (partial_line (drop b s) @ drop (length s) c)\<rparr>
    \<and> tail_at k b c (snd (follow_step env k t out)) \<and> tl_cfg (snd (follow_step env k t out)) = tl_cfg t
    \<and> (tl_registry (snd (follow_step env k t out)) = None \<longleftrightarrow> tl_registry t = None)"
proof -
  obtain d where c: "c = s @ d" using grows by (auto simp: c_def prefix_def)
  have b: "b \<le> length s" and t: "tl_offset t = int (length s)" "tl_lineBuf t = partial_line (drop b s)"
    using at by (simp_all add: tail_at_def)
  have cd: "drop b c = drop b s @ d" using b by (simp add: c)
  have sh: "short_lines (max_line t) (partial_line (drop b s) @ d)"
    using split_append(3) [of "max_line t" "drop b s" d] short cd by (simp add: c_def)
  have nl: "CHR ''\<newline>'' \<notin> set (partial_line (drop b s))" by (rule partial_no_newline)
  have eq: "follow_step env k t out = (out\<lparr>to_lines := to_lines out @ complete_lines (partial_line (drop b s) @ d)\<rparr>,
     (if int (length c) \<noteq> tl_offset t then recordCheckpoint (pe_now env) k (int (length c)) t else t)
       \<lparr>tl_offset := int (length c), tl_lineBuf := partial_line (partial_line (drop b s) @ d)\<rparr>)"
    using follow_reads [OF sees, of t out] sh nl sends t c by (simp add: c_def)
  have "tail_at k b c (snd (follow_step env k t out))"
    using at recordCheckpoint_position [OF real, of "pe_now env" "int (length c)" t] split_append(2) [of "drop b s" d]
    unfolding eq by (auto simp: tail_at_def cd t c split: option.splits)
  then show ?thesis unfolding eq by (simp add: c)
qed

lemma poll_at:
  assumes "tail_at k b s t" and "sees k env" and "prefix s (pe_content env k)" and "real_id k"
    and "short_lines (max_line t) (drop b (pe_content env k))"
  shows "\<exists>out t'. tail_poll env t = (out, t') \<and> to_errors out = [] \<and> complete_lines (drop b (pe_content env k)) = complete_lines (drop b s) @ to_lines out
    \<and> tail_at k b (pe_content env k) t' \<and> tl_cfg t' = tl_cfg t \<and> (tl_registry t' = None \<longleftrightarrow> tl_registry t = None)"
proof -
  let ?out = "\<lparr>to_lines = [], to_errors = [], to_sends = pe_sends env\<rparr>"
  obtain d where c: "pe_content env k = s @ d" using assms(3) by (auto simp: prefix_def)
  have f: "tl_file t = Some k" and b: "b \<le> length s" using assms(1) by (simp_all add: tail_at_def)
  have sends: "to_sends ?out = []" using assms(2) by (simp add: sees_def)
  have poll: "tail_poll env t = follow_step env k t ?out" by (simp add: tail_poll_def f)
  obtain out t' where e: "follow_step env k t ?out = (out, t')" by (metis surj_pair)
  from follow_at [OF assms sends] show ?thesis unfolding poll e
    using split_append(1) [of "drop b s" d] b by (auto simp: c)
qed

lemma grows_prefix: "grows k c es \<Longrightarrow> prefix c (grown k c es)"
  by (induction k c es rule: grows.induct) (auto intro: prefix_order.trans)

lemma run_at:
  assumes "tail_at k b s t" and "grows k s envs" and "real_id k" and "short_lines (max_line t) (drop b (grown k s envs))"
  shows "\<exists>ls t'. tail_run envs t = (ls, t') \<and> complete_lines (drop b (grown k s envs)) = complete_lines (drop b s) @ ls
    \<and> tail_at k b (grown k s envs) t' \<and> tl_cfg t' = tl_cfg t \<and> (tl_registry t' = None \<longleftrightarrow> tl_registry t = None)"
  using assms
proof (induction envs arbitrary: s t)
  case (Cons env envs)
  let ?c = "pe_content env k"
  obtain d where d: "grown k ?c envs = ?c @ d" using grows_prefix [of k ?c envs] Cons.prems(2) by (auto simp: prefix_def)
  have len: "b \<le> length ?c" using Cons.prems(1,2) by (auto simp: tail_at_def prefix_def)
  have "short_lines (max_line t) (drop b ?c)" using Cons.prems(4) split_append(4) [of "max_line t" "drop b ?c" d] len by (simp add: d)
  with poll_at [of k b s t env] Cons.prems obtain out t1 where
    p: "tail_poll env t = (out, t1)" "complete_lines (drop b ?c) = complete_lines (drop b s) @ to_lines out" "tail_at k b ?c t1"
      "tl_cfg t1 = tl_cfg t" "tl_registry t1 = None \<longleftrightarrow> tl_registry t = None"
    by auto
  have "max_line t1 = max_line t" using p(4) by (simp add: max_line_def)
  with Cons.IH [OF p(3)] Cons.prems show ?case using p by auto
qed simp

section \<open>Opening, rotation, restart\<close>

lemma tail_run_append:
  "tail_run (es @ es') t = (case tail_run es t of (ls, t') \<Rightarrow> (case tail_run es' t' of (ls', t'') \<Rightarrow> (ls @ ls', t'')))"
  by (induction es arbitrary: t) (simp_all add: case_prod_beta)

lemma initial_offset_bounds:
  assumes "0 \<le> sz" and "\<And>r cp. tl_registry t = Some r \<Longrightarrow> get_position k r = Some cp \<Longrightarrow> 0 \<le> cp" and "real_id k"
  shows "0 \<le> initial_offset k sz t \<and> initial_offset k sz t \<le> sz"
  using assms by (auto simp: initial_offset_def real_id_def Let_def split: option.splits)

lemma open_at:
  assumes "tl_lineBuf t = []" and "real_id k" and "(if tl_isInitial t then initial_offset k sz t else 0) = int b" and "b \<le> length c"
  shows "tail_at k b (take b c) (open_step env k sz t) \<and> tl_cfg (open_step env k sz t) = tl_cfg t
    \<and> (tl_registry (open_step env k sz t) = None \<longleftrightarrow> tl_registry t = None)"
  using assms recordCheckpoint_position [OF assms(2), of "pe_now env" "int b" "t\<lparr>tl_file := Some k, tl_isInitial := False, tl_offset := int b\<rparr>"]
  by (auto simp: tail_at_def open_step_def Let_def split: option.splits)

lemma run_open:
  assumes "tl_file t = None" and "tl_lineBuf t = []" and "real_id k" and "grows k s (env # envs)"
    and "(if tl_isInitial t then initial_offset k (int (length (pe_content env k))) t else 0) = int b" and "b \<le> length s"
    and "short_lines (max_line t) (drop b (grown k s (env # envs)))"
  shows "\<exists>t'. tail_run (env # envs) t = (complete_lines (drop b (grown k s (env # envs))), t') \<and> tail_at k b (grown k s (env # envs)) t'
    \<and> tl_cfg t' = tl_cfg t \<and> (tl_registry t' = None \<longleftrightarrow> tl_registry t = None)"
proof -
  let ?c = "pe_content env k"
  let ?t = "open_step env k (int (length ?c)) t"
  have sees: "sees k env" and pre: "prefix s ?c" using assms(4) by simp_all
  then have len: "b \<le> length ?c" using assms(6) prefix_length_le le_trans by blast
  have op: "tail_at k b (take b ?c) ?t" "tl_cfg ?t = tl_cfg t" "tl_registry ?t = None \<longleftrightarrow> tl_registry t = None"
    using open_at [OF assms(2,3,5) len, of env] by auto
  have "tail_poll env t = tail_poll env ?t" using sees op(1) assms(1) by (simp add: tail_poll_def sees_def tail_at_def)
  then have run: "tail_run (env # envs) t = tail_run (env # envs) ?t" by simp
  have "grows k (take b ?c) (env # envs)" using assms(4) by (simp add: take_is_prefix)
  from run_at [OF op(1) this assms(3)] assms(7) op(2,3) show ?thesis unfolding run by (auto simp: max_line_def)
qed

text \<open>A file handed out completely: its lines, and what follows the last newline.\<close>

definition all_lines :: "string \<Rightarrow> string list" where
  "all_lines s = complete_lines s @ (if partial_line s = [] then [] else [partial_line s])"

text \<open>The poll at which another file is found at the path.\<close>

definition rotated :: "file_id \<Rightarrow> string \<Rightarrow> poll_env \<Rightarrow> bool" where
  "rotated k s env \<longleftrightarrow> (case pe_stat env of Some (k', _) \<Rightarrow> k' \<noteq> k | None \<Rightarrow> False) \<and> prefix s (pe_content env k)
     \<and> pe_short env = (\<lambda>_. None) \<and> pe_sends env = []"

lemma poll_rotated:
  assumes at: "tail_at k 0 s t" and rot: "rotated k s env" and short: "short_lines (max_line t) (pe_content env k)"
  shows "\<exists>out t'. tail_poll env t = (out, t') \<and> all_lines (pe_content env k) = complete_lines s @ to_lines out
    \<and> tl_file t' = None \<and> tl_lineBuf t' = [] \<and> \<not> tl_isInitial t' \<and> tl_cfg t' = tl_cfg t"
proof -
  let ?out = "\<lparr>to_lines = [], to_errors = [], to_sends = []\<rparr>" and ?c = "pe_content env k"
  obtain d where c: "?c = s @ d" using rot by (auto simp: rotated_def prefix_def)
  have t: "tl_file t = Some k" "tl_offset t = int (length s)" "tl_lineBuf t = partial_line s" "\<not> tl_isInitial t"
    using at by (simp_all add: tail_at_def)
  have sh: "short_lines (max_line t) (partial_line s @ d)" using split_append(3) [of "max_line t" s d] short by (simp add: c)
  have "readAvailable (max_line t) (\<lambda>_. None) ?c (tl_offset t, tl_lineBuf t, ?out) =
      (int (length ?c), partial_line (partial_line s @ d), ?out\<lparr>to_lines := complete_lines (partial_line s @ d)\<rparr>)"
    using readAvailable_lines [of "tl_offset t" ?c "tl_lineBuf t" "max_line t" ?out] sh t partial_no_newline [of s] by (simp add: c)
  then have "drainFile (max_line t) (\<lambda>_. None) ?c (tl_offset t, tl_lineBuf t, ?out) =
      (int (length ?c), [], ?out\<lparr>to_lines := all_lines (partial_line s @ d)\<rparr>)"
    by (simp add: drainFile_def all_lines_def send_line_def)
  moreover have "all_lines ?c = complete_lines s @ all_lines (partial_line s @ d)"
    using split_append(1,2) [of s d] by (simp add: all_lines_def c)
  ultimately show ?thesis using rot t by (simp add: tail_poll_def follow_step_def rotated_def Let_def max_line_def)
qed

lemma New_tailer_fresh:
  "New_tailer cfg reg = Inr t \<Longrightarrow> tl_file t = None \<and> tl_lineBuf t = [] \<and> tl_isInitial t \<and> tl_registry t = reg
     \<and> tc_StartPosition (tl_cfg t) = tc_StartPosition cfg \<and> tc_Path (tl_cfg t) = tc_Path cfg"
  by (auto simp: New_tailer_def Let_def split: if_splits)

text \<open>A tailer that starts at the beginning of the file: no position is recorded for it.\<close>

definition from_start :: "file_id \<Rightarrow> tailer_config \<Rightarrow> checkpoint_registry option \<Rightarrow> bool" where
  "from_start k cfg reg \<longleftrightarrow> tc_StartPosition cfg \<noteq> ''end'' \<and> (case reg of None \<Rightarrow> True | Some r \<Rightarrow> get_position k r = None)"

lemma run_from_start:
  assumes "New_tailer cfg reg = Inr t" and "from_start k cfg reg" and "real_id k" and "grows k [] (env # envs)"
    and "short_lines (max_line t) (grown k [] (env # envs))"
  shows "\<exists>t'. tail_run (env # envs) t = (complete_lines (grown k [] (env # envs)), t') \<and> tail_at k 0 (grown k [] (env # envs)) t'
    \<and> tl_cfg t' = tl_cfg t \<and> (tl_registry t' = None \<longleftrightarrow> reg = None)"
proof -
  note fresh = New_tailer_fresh [OF assms(1)]
  have "initial_offset k (int (length (pe_content env k))) t = int 0"
    using assms(2,3) fresh by (auto simp: initial_offset_def from_start_def real_id_def Let_def split: option.splits)
  with run_open [of t k "[]" env envs 0] assms fresh show ?thesis by simp
qed

lemma stop_position:
  assumes "tail_at k b s t" and "tl_registry t \<noteq> None" and "real_id k"
  shows "\<exists>r. tl_registry (tail_stop now t) = Some r \<and> get_position k r = Some (int (length s))"
  using assms recordCheckpoint_position [OF assms(3), of now "int (length s)" t] recordCheckpoint_registry [of now k "int (length s)" t]
  by (cases "tl_registry (recordCheckpoint now k (int (length s)) t)") (auto simp: tail_stop_def tail_at_def)

section \<open>Properties\<close>

text \<open>
  C30. Tailing a file yields its lines: however the file grows between the polls, and wherever the chunks
  of 32 KiB and the polls cut it, a tailer started at its beginning hands out exactly the complete lines
  (split at newlines, without a final carriage return, empty ones left out), each once and in order,
  as long as no line exceeds \<open>MaxLineBytes\<close>; the bytes after the last newline wait in the buffer.
\<close>

theorem tail_lines_complete:
  assumes "New_tailer cfg reg = Inr t" and "from_start k cfg reg" and "real_id k" and "grows k [] (env # envs)"
    and "short_lines (max_line t) (grown k [] (env # envs))"
  shows "\<exists>t'. tail_run (env # envs) t = (complete_lines (grown k [] (env # envs)), t') \<and>
    tl_offset t' = int (length (grown k [] (env # envs))) \<and> tl_lineBuf t' = partial_line (grown k [] (env # envs))"
  using run_from_start [OF assms] by (auto simp: tail_at_def)

definition ex_tail_cfg :: tailer_config where
  "ex_tail_cfg = \<lparr>tc_Path = ''/l'', tc_StartPosition = ''beginning'', tc_PollInterval = 0, tc_MaxLineBytes = 8\<rparr>"

definition ex_tailer :: "checkpoint_registry option \<Rightarrow> tailer" where
  "ex_tailer reg = \<lparr>tl_cfg = ex_tail_cfg\<lparr>tc_PollInterval := defaultPollInterval\<rparr>, tl_registry = reg, tl_file = None, tl_offset = 0, tl_lineBuf = [], tl_isInitial = True\<rparr>"

definition ex_env :: "file_id \<Rightarrow> string \<Rightarrow> poll_env" where
  "ex_env k c = \<lparr>pe_open = Some (k, int (length c)), pe_stat = Some (k, int (length c)), pe_content = (\<lambda>_. c), pe_short = (\<lambda>_. None), pe_sends = [], pe_now = zero_time\<rparr>"

definition ex_registry :: checkpoint_registry where
  "ex_registry = \<lparr>cr_path = ''cp.json'', cr_entries = [], cr_dirty = False, cr_closed = False\<rparr>"

lemma ex_tailer_new: "New_tailer ex_tail_cfg reg = Inr (ex_tailer reg)"
  by (simp add: New_tailer_def ex_tail_cfg_def ex_tailer_def)

lemma sees_ex_env [simp]: "sees k (ex_env k c)" "pe_content (ex_env k c) k' = c"
  by (simp_all add: sees_def ex_env_def)

lemma ex_tailer_max [simp]: "max_line (ex_tailer reg) = 8"
  by (simp add: max_line_def ex_tailer_def ex_tail_cfg_def)

theorem tail_lines_complete_witness:
  "fst (tail_run [ex_env (1, 2) ''ab\<newline>c'', ex_env (1, 2) ''ab\<newline>cd\<newline>\<newline>e''] (ex_tailer None)) = [''ab'', ''cd'']"
proof -
  let ?e = "ex_env (1, 2) ''ab\<newline>c''" and ?es = "[ex_env (1, 2) ''ab\<newline>cd\<newline>\<newline>e'']"
  have g: "grown (1, 2) [] (?e # ?es) = ''ab\<newline>cd\<newline>\<newline>e''" by simp
  have "from_start (1, 2) ex_tail_cfg None" "real_id (1, 2)" by code_simp+
  moreover have "grows (1, 2) [] (?e # ?es)" by simp
  moreover have "short_lines 8 ''ab\<newline>cd\<newline>\<newline>e''" "complete_lines ''ab\<newline>cd\<newline>\<newline>e'' = [''ab'', ''cd'']" by code_simp+
  ultimately show ?thesis using tail_lines_complete [OF ex_tailer_new, of "(1, 2)" None ?e ?es] unfolding g by force
qed

text \<open>
  C31. Rotation loses nothing: when another file appears at the path, at whatever point of the writing, the
  old file is read to its end through the handle still open and all of it is handed out, an unfinished
  last line included; then the new file is read from its beginning, with nothing carried over.
\<close>

theorem tail_rotation_complete:
  assumes "New_tailer cfg reg = Inr t" and "from_start k cfg reg" and "real_id k" and "real_id k'"
    and "grows k [] (env # envs)" and "rotated k (grown k [] (env # envs)) rot" and "grows k' [] (env' # envs')"
    and "short_lines (max_line t) (pe_content rot k)" and "short_lines (max_line t) (grown k' [] (env' # envs'))"
  shows "fst (tail_run (env # envs @ rot # env' # envs') t) = all_lines (pe_content rot k) @ complete_lines (grown k' [] (env' # envs'))"
proof -
  obtain d where d: "pe_content rot k = grown k [] (env # envs) @ d" using assms(6) by (auto simp: rotated_def prefix_def)
  have "short_lines (max_line t) (grown k [] (env # envs))" using assms(8) split_append(4) d by metis
  from run_from_start [OF assms(1-3,5) this] obtain t1 where
    t1: "tail_run (env # envs) t = (complete_lines (grown k [] (env # envs)), t1)" "tail_at k 0 (grown k [] (env # envs)) t1" "tl_cfg t1 = tl_cfg t"
    by blast
  from poll_rotated [OF t1(2) assms(6)] assms(8) t1(3) obtain out t2 where
    t2: "tail_poll rot t1 = (out, t2)" "all_lines (pe_content rot k) = complete_lines (grown k [] (env # envs)) @ to_lines out"
      "tl_file t2 = None" "tl_lineBuf t2 = []" "\<not> tl_isInitial t2" "tl_cfg t2 = tl_cfg t"
    by (auto simp: max_line_def)
  from run_open [OF t2(3,4) assms(4,7), of 0] assms(9) t2(5,6) obtain t3 where
    t3: "tail_run (env' # envs') t2 = (complete_lines (grown k' [] (env' # envs')), t3)"
    by (auto simp: max_line_def)
  have "tail_run (rot # env' # envs') t1 = (to_lines out @ complete_lines (grown k' [] (env' # envs')), t3)"
    using tail_run.simps(2) [of rot "env' # envs'" t1] unfolding t2(1) prod.case t3 .
  then have "tail_run ((env # envs) @ rot # env' # envs') t =
      (complete_lines (grown k [] (env # envs)) @ to_lines out @ complete_lines (grown k' [] (env' # envs')), t3)"
    unfolding tail_run_append t1(1) prod.case by (simp only: prod.case)
  then show ?thesis using t2(2) by simp
qed

definition ex_rot :: poll_env where
  "ex_rot = (ex_env (1, 2) ''ab\<newline>cd'')\<lparr>pe_stat := Some ((1, 3), 0)\<rparr>"

theorem tail_rotation_complete_witness:
  "fst (tail_run [ex_env (1, 2) ''ab\<newline>'', ex_rot, ex_env (1, 3) ''x\<newline>''] (ex_tailer None)) = [''ab'', ''cd'', ''x'']"
proof -
  let ?e = "ex_env (1, 2) ''ab\<newline>''" and ?e' = "ex_env (1, 3) ''x\<newline>''"
  have g: "grown (1, 2) [] [?e] = ''ab\<newline>''" "grown (1, 3) [] [?e'] = ''x\<newline>''" "pe_content ex_rot (1, 2) = ''ab\<newline>cd''"
    by (simp_all add: ex_rot_def ex_env_def)
  have "from_start (1, 2) ex_tail_cfg None" "real_id (1, 2)" "real_id (1, 3)" by code_simp+
  moreover have "grows (1, 2) [] [?e]" "grows (1, 3) [] [?e']" by simp_all
  moreover have "rotated (1, 2) ''ab\<newline>'' ex_rot" by (simp add: rotated_def ex_rot_def ex_env_def)
  moreover have "short_lines 8 ''ab\<newline>cd''" "short_lines 8 ''x\<newline>''" "all_lines ''ab\<newline>cd'' @ complete_lines ''x\<newline>'' = [''ab'', ''cd'', ''x'']"
    by code_simp+
  ultimately show ?thesis
    using tail_rotation_complete [OF ex_tailer_new, of "(1, 2)" None "(1, 3)" ?e "[]" ex_rot ?e' "[]"] unfolding g by simp
qed


text \<open>The first poll of a tailer with an empty registry, in full.\<close>

definition ex_stored :: "nat \<Rightarrow> checkpoints" where
  "ex_stored n = [(makeKey 1 2, \<lparr>cp_DeviceID = 1, cp_FileIdentity = 2, cp_FilePath = ''/l'', cp_ByteOffset = int n, cp_LastSeenTimestamp = zero_time\<rparr>)]"

lemma ex_recordCheckpoint:
  assumes "tl_registry t = Some (ex_registry\<lparr>cr_entries := es, cr_dirty := d\<rparr>)" and "es = [] \<or> (\<exists>m. es = ex_stored m)" and "tc_Path (tl_cfg t) = ''/l''"
  shows "recordCheckpoint zero_time (1, 2) (int n) t = t\<lparr>tl_registry := Some (ex_registry\<lparr>cr_entries := ex_stored n, cr_dirty := True\<rparr>)\<rparr>"
  using assms by (auto simp: recordCheckpoint_def set_position_def Set_checkpoint_def Let_def ex_stored_def ex_registry_def)

lemma ex_first_poll:
  assumes "c \<noteq> []" and "short_lines 8 c"
  shows "tail_run [ex_env (1, 2) c] (ex_tailer (Some ex_registry)) =
    (complete_lines c,
     (ex_tailer (Some (ex_registry\<lparr>cr_entries := ex_stored (length c), cr_dirty := True\<rparr>)))
       \<lparr>tl_file := Some (1, 2), tl_isInitial := False, tl_offset := int (length c), tl_lineBuf := partial_line c\<rparr>)"
proof -
  let ?e = "ex_env (1, 2) c"
  let ?t = "(ex_tailer (Some (ex_registry\<lparr>cr_entries := ex_stored 0, cr_dirty := True\<rparr>)))\<lparr>tl_file := Some (1, 2), tl_isInitial := False\<rparr>"
  have i: "initial_offset (1, 2) (int (length c)) (ex_tailer (Some ex_registry)) = 0"
    by (simp add: initial_offset_def ex_tailer_def ex_registry_def ex_tail_cfg_def get_position_def Get_checkpoint_def)
  have o: "open_step ?e (1, 2) (int (length c)) (ex_tailer (Some ex_registry)) = ?t"
    using ex_recordCheckpoint [of "(ex_tailer (Some ex_registry))\<lparr>tl_file := Some (1, 2), tl_isInitial := False\<rparr>" False "[]" 0] i
    by (simp add: open_step_def ex_env_def ex_tailer_def ex_registry_def ex_tail_cfg_def)
  have "tail_poll ?e (ex_tailer (Some ex_registry)) = follow_step ?e (1, 2) ?t \<lparr>to_lines = [], to_errors = [], to_sends = []\<rparr>"
    using o by (simp add: tail_poll_def ex_tailer_def ex_env_def)
  also have "\<dots> = (\<lparr>to_lines = complete_lines c, to_errors = [], to_sends = []\<rparr>,
      (recordCheckpoint zero_time (1, 2) (int (length c)) ?t)\<lparr>tl_offset := int (length c), tl_lineBuf := partial_line c\<rparr>)"
    using follow_reads [of "(1, 2)" ?e ?t "\<lparr>to_lines = [], to_errors = [], to_sends = []\<rparr>"] assms
    by (simp add: ex_tailer_def max_line_def ex_tail_cfg_def) (simp add: ex_env_def)
  also have "recordCheckpoint zero_time (1, 2) (int (length c)) ?t =
      ?t\<lparr>tl_registry := Some (ex_registry\<lparr>cr_entries := ex_stored (length c), cr_dirty := True\<rparr>)\<rparr>"
    by (rule ex_recordCheckpoint [of _ True "ex_stored 0"]) (auto simp: ex_tailer_def ex_tail_cfg_def)
  finally show ?thesis by (simp add: ex_tailer_def)
qed

definition ex_marshal_at :: "nat \<Rightarrow> checkpoints \<Rightarrow> string option" where
  "ex_marshal_at n m = (if m = ex_stored n then Some ''x'' else None)"

definition ex_unmarshal_at :: "nat \<Rightarrow> string \<Rightarrow> checkpoints option" where
  "ex_unmarshal_at n s = (if s = ''x'' then Some (ex_stored n) else None)"

text \<open>What is left of a tailer stopped after the first poll, saved and loaded again.\<close>

lemma ex_stop:
  "tl_registry (tail_stop zero_time ((ex_tailer (Some (ex_registry\<lparr>cr_entries := ex_stored n, cr_dirty := True\<rparr>)))
       \<lparr>tl_file := Some (1, 2), tl_isInitial := False, tl_offset := int n, tl_lineBuf := b\<rparr>))
     = Some (ex_registry\<lparr>cr_entries := ex_stored n, cr_dirty := True\<rparr>)"
proof -
  let ?t = "(ex_tailer (Some (ex_registry\<lparr>cr_entries := ex_stored n, cr_dirty := True\<rparr>)))
       \<lparr>tl_file := Some (1, 2), tl_isInitial := False, tl_offset := int n, tl_lineBuf := b\<rparr>"
  have "recordCheckpoint zero_time (1, 2) (int n) ?t = ?t\<lparr>tl_registry := Some (ex_registry\<lparr>cr_entries := ex_stored n, cr_dirty := True\<rparr>)\<rparr>"
    by (rule ex_recordCheckpoint [of _ True "ex_stored n"]) (auto simp: ex_tailer_def ex_tail_cfg_def)
  moreover have "tl_file ?t = Some (1, 2)" "tl_offset ?t = int n" by simp_all
  ultimately show ?thesis unfolding tail_stop_def by (simp only: option.case) simp
qed

lemma ex_save:
  "Save (ex_marshal_at n) (\<lambda>_. False) ''tmp'' [] (ex_registry\<lparr>cr_entries := ex_stored n, cr_dirty := True\<rparr>) [] =
     (None, ex_registry\<lparr>cr_entries := ex_stored n, cr_dirty := False\<rparr>, [(''cp.json'', ''x'')])"
  "NewCheckpointRegistry (ex_unmarshal_at n) (\<lambda>_. False) ''cp.json'' [(''cp.json'', ''x'')] = Inr (ex_registry\<lparr>cr_entries := ex_stored n\<rparr>)"
  "ck_faithful (ex_marshal_at n) (ex_unmarshal_at n)"
  by (simp_all add: Save_def ex_registry_def ex_marshal_at_def Let_def NewCheckpointRegistry_def load_checkpoints_def
      ex_unmarshal_at_def ck_faithful_def)


section \<open>Where lines are torn\<close>

text \<open>
  The recorded position includes the bytes of an unfinished line, which are only in the buffer: after a
  restart the line is handed out without its beginning.
\<close>

lemma restart_tears_line:
  "fst (tail_run [ex_env (1, 2) ''ab\<newline>cd''] (ex_tailer (Some ex_registry))) = [''ab''] \<and>
   get_position (1, 2) (ex_registry\<lparr>cr_entries := ex_stored 5\<rparr>) = Some 5 \<and>
   tl_registry (snd (tail_run [ex_env (1, 2) ''ab\<newline>cd''] (ex_tailer (Some ex_registry)))) = Some (ex_registry\<lparr>cr_entries := ex_stored 5, cr_dirty := True\<rparr>) \<and>
   fst (tail_run [ex_env (1, 2) ''ab\<newline>cdef\<newline>''] (ex_tailer (Some (ex_registry\<lparr>cr_entries := ex_stored 5\<rparr>)))) = [''ef'']"
proof -
  let ?t = "ex_tailer (Some (ex_registry\<lparr>cr_entries := ex_stored 5\<rparr>))" and ?c = "''ab\<newline>cdef\<newline>''" and ?s = "''ab\<newline>cd''"
  have sh: "short_lines 8 ?s" "complete_lines ?s = [''ab'']" "short_lines 8 (drop 5 ?c)" "complete_lines (drop 5 ?c) = [''ef'']" by code_simp+
  have pos: "get_position (1, 2) (ex_registry\<lparr>cr_entries := ex_stored 5\<rparr>) = Some 5"
    by (simp add: get_position_def Get_checkpoint_def ex_stored_def ex_registry_def)
  have off: "initial_offset (1, 2) (int (length ?c)) ?t = int 5" using pos by (simp add: initial_offset_def ex_tailer_def)
  have "fst (tail_run [ex_env (1, 2) ?c] ?t) = complete_lines (drop 5 ?c)"
    using run_open [of ?t "(1, 2)" ?s "ex_env (1, 2) ?c" "[]" 5] off sh(3)
    by (simp add: ex_tailer_def real_id_def max_line_def ex_tail_cfg_def del: tail_run.simps) auto
  moreover have l: "length ?s = 5" by simp
  moreover note ex_first_poll [of ?s, OF _ sh(1), unfolded l sh(2)]
  ultimately show ?thesis using pos sh(4) by (simp add: ex_tailer_def del: tail_run.simps)
qed

text \<open>
  A line longer than the limit is not dropped as a whole: the buffer is emptied at the limit and
  the rest of the line is handed out as a line of its own.
\<close>

lemma long_line_remainder: "processBytes 3 ''abcdef\<newline>'' ([], \<lparr>to_lines = [], to_errors = [], to_sends = []\<rparr>) =
    ([], \<lparr>to_lines = [''ef''], to_errors = [ErrLineTooLong], to_sends = []\<rparr>)"
  by code_simp

text \<open>
  A truncated file is read from its beginning with the unfinished line of the old contents still in
  the buffer, so that its first line has bytes in front that are not in the file.
\<close>

lemma truncation_keeps_buffer:
  "to_lines (fst (follow_step (ex_env (1, 2) ''x\<newline>'') (1, 2)
     ((ex_tailer None)\<lparr>tl_file := Some (1, 2), tl_offset := 3, tl_lineBuf := ''abc''\<rparr>) \<lparr>to_lines = [], to_errors = [], to_sends = []\<rparr>)) = [''abcx'']"
proof -
  let ?o = "\<lparr>to_lines = [], to_errors = [], to_sends = []\<rparr> :: tail_out"
  have "short_lines 8 (''abc'' @ ''x\<newline>'')" "complete_lines (''abc'' @ ''x\<newline>'') = [''abcx'']" by code_simp+
  then have "to_lines (snd (snd (readAvailable 8 (\<lambda>_. None) ''x\<newline>'' (0, ''abc'', ?o)))) = [''abcx'']"
    using readAvailable_lines [of 0 "''x\<newline>''" "''abc''" 8 ?o] by simp
  then show ?thesis by (simp add: follow_step_def ex_env_def ex_tailer_def ex_tail_cfg_def recordCheckpoint_def case_prod_beta Let_def)
qed

text \<open>
  When the context is cancelled while a line is handed out, that line and the rest of the chunk are
  dropped, but the position is behind them.
\<close>

lemma cancelled_send_skips:
  "readChunk 8 (\<lambda>_. None) ''a\<newline>b\<newline>'' (0, [], \<lparr>to_lines = [], to_errors = [], to_sends = [False]\<rparr>) =
     (4, 4, [], \<lparr>to_lines = [], to_errors = [], to_sends = []\<rparr>)"
  by (simp add: readChunk_def ReadAt_def chunk_size_def send_line_def trim_cr_def)

end
