(* ===== verification/FileIdentity.thy ===== *)
theory FileIdentity
  imports Tailer
begin

unbundle bit_operations_syntax

text \<open>
  How a tailer opens its file and learns its identity, \<open>open_other.go\<close>, \<open>identity_other.go\<close>, \<open>open_windows.go\<close>
  and \<open>identity_windows.go\<close> of \<open>internal/tailer\<close>. The operating system is an argument: what opening
  a path and asking a handle give. \<open>opened\<close> is what a poll finds in \<open>pe_open\<close>.
\<close>

section \<open>Unix\<close>

text \<open>\<open>oi_Sys\<close> has the device and the inode of \<open>Stat_t\<close>, when that is what the file information has.\<close>

record os_info =
  oi_Size :: int
  oi_Sys :: "file_id option"

record os_file =
  of_Stat :: "os_info option"

datatype identity_error = ErrStat | ErrNoInfo | ErrNoStat_t | ErrInvalid | ErrFileInformation

definition getFileIdentity :: "os_file option \<Rightarrow> os_info option \<Rightarrow> (identity_error, file_id) result" where
  "getFileIdentity f info =
     (let info = (case info of
            Some i \<Rightarrow> Inr (Some i)
          | None \<Rightarrow> (case f of None \<Rightarrow> Inr None | Some h \<Rightarrow> (case of_Stat h of None \<Rightarrow> Inl ErrStat | Some i \<Rightarrow> Inr (Some i))))
      in case info of
           Inl e \<Rightarrow> Inl e
         | Inr None \<Rightarrow> Inl ErrNoInfo
         | Inr (Some i) \<Rightarrow> (case oi_Sys i of None \<Rightarrow> Inl ErrNoStat_t | Some k \<Rightarrow> Inr k))"

definition openForTailing :: "(string \<Rightarrow> os_file option) \<Rightarrow> string \<Rightarrow> (os_file \<times> os_info) option" where
  "openForTailing os_Open path =
     (case os_Open path of
        None \<Rightarrow> None
      | Some f \<Rightarrow> (case of_Stat f of None \<Rightarrow> None | Some info \<Rightarrow> Some (f, info)))"

section \<open>Windows\<close>

record handle_information =
  VolumeSerialNumber :: "32 word"
  FileIndexHigh :: "32 word"
  FileIndexLow :: "32 word"

record windows_file = os_file +
  wf_Information :: "handle_information option"

definition file_index :: "handle_information \<Rightarrow> 64 word" where
  "file_index d = push_bit 32 (ucast (FileIndexHigh d)) OR ucast (FileIndexLow d)"

definition getFileIdentity_windows :: "windows_file option \<Rightarrow> (identity_error, file_id) result" where
  "getFileIdentity_windows f =
     (case f of
        None \<Rightarrow> Inl ErrInvalid
      | Some h \<Rightarrow>
          (case wf_Information h of
             None \<Rightarrow> Inl ErrFileInformation
           | Some d \<Rightarrow> Inr (ucast (VolumeSerialNumber d), file_index d)))"

text \<open>A path with a NUL byte has no UTF-16 form.\<close>

definition openForTailing_windows :: "(string \<Rightarrow> windows_file option) \<Rightarrow> string \<Rightarrow> (windows_file \<times> os_info) option" where
  "openForTailing_windows CreateFile path =
     (if CHR 0x00 \<in> set path then None
      else
        case CreateFile path of
          None \<Rightarrow> None
        | Some f \<Rightarrow> (case of_Stat f of None \<Rightarrow> None | Some info \<Rightarrow> Some (f, info)))"

section \<open>What a poll finds\<close>

text \<open>An error of \<open>getFileIdentity\<close> is ignored: the identity is then 0 and 0.\<close>

definition identity_or_zero :: "(identity_error, file_id) result \<Rightarrow> file_id" where
  "identity_or_zero r = (case r of Inl _ \<Rightarrow> (0, 0) | Inr k \<Rightarrow> k)"

definition opened :: "(string \<Rightarrow> os_file option) \<Rightarrow> string \<Rightarrow> (file_id \<times> int) option" where
  "opened os_Open path =
     map_option (\<lambda>(f, info). (identity_or_zero (getFileIdentity (Some f) (Some info)), oi_Size info)) (openForTailing os_Open path)"

definition opened_windows :: "(string \<Rightarrow> windows_file option) \<Rightarrow> string \<Rightarrow> (file_id \<times> int) option" where
  "opened_windows CreateFile path =
     map_option (\<lambda>(f, info). (identity_or_zero (getFileIdentity_windows (Some f)), oi_Size info)) (openForTailing_windows CreateFile path)"

section \<open>Facts\<close>

lemma file_index_parts:
  "ucast (file_index d) = FileIndexLow d" "ucast (drop_bit 32 (file_index d)) = FileIndexHigh d"
  by (auto simp: file_index_def bit_eq_iff bit_simps dest: bit_imp_le_length)

text \<open>The two halves of a file index are kept: on one volume, files with different indexes have different identities.\<close>

lemma windows_identity_inj:
  assumes "getFileIdentity_windows (Some f) = Inr k" and "getFileIdentity_windows (Some g) = Inr k"
  shows "wf_Information f = wf_Information g"
proof -
  obtain d e where d: "wf_Information f = Some d" "wf_Information g = Some e" "file_index d = file_index e"
      "(ucast (VolumeSerialNumber d) :: 64 word) = ucast (VolumeSerialNumber e)"
    using assms by (auto simp: getFileIdentity_windows_def split: option.splits)
  have "bit (VolumeSerialNumber d) n = bit (VolumeSerialNumber e) n" for n
    using arg_cong [OF d(4), of "\<lambda>w. bit w n"] by (auto simp: bit_simps dest: bit_imp_le_length)
  then have "VolumeSerialNumber d = VolumeSerialNumber e" by (simp add: bit_eq_iff)
  moreover have "FileIndexLow d = FileIndexLow e" "FileIndexHigh d = FileIndexHigh e" using file_index_parts [of d] file_index_parts [of e] d(3) by simp_all
  ultimately show ?thesis using d(1,2) by simp
qed

text \<open>On both systems the identity of an opened file is the one the system reports, or zero, and its size is the one at the time of opening.\<close>

lemma opened_identity:
  "os_Open path = Some f \<Longrightarrow> of_Stat f = Some info \<Longrightarrow> oi_Sys info = Some k \<Longrightarrow> opened os_Open path = Some (k, oi_Size info)"
  "os_Open path = Some f \<Longrightarrow> of_Stat f = Some info \<Longrightarrow> oi_Sys info = None \<Longrightarrow> opened os_Open path = Some ((0, 0), oi_Size info)"
  by (simp_all add: opened_def openForTailing_def getFileIdentity_def identity_or_zero_def)

end
