(* ===== verification/Glob.thy ===== *)
theory Glob
  imports Prelude
begin

text \<open>
  Glob patterns, the function \<open>GlobToRegexp\<close> of \<open>internal/tailer/manager.go\<close>: a pattern is translated to the text of
  a regular expression. \<open>regexp.Compile\<close> is an argument, of which only the fragment of the syntax that
  the translation writes is relied on (\<open>re_parse\<close>, \<open>re_matches\<close>, with one byte as one character). Shown:
  the expression matches a path exactly when the components match.
\<close>

section \<open>Paths\<close>

definition slash :: char where
  "slash = CHR ''/''"

text \<open>\<open>filepath.Clean\<close> on a Unix system: one step of the elimination of \<open>.\<close> and \<open>..\<close> on the components kept so
  far, the last one first.\<close>

definition clean_step :: "bool \<Rightarrow> string \<Rightarrow> string list \<Rightarrow> string list" where
  "clean_step rooted c kept =
     (if c = '''' \<or> c = ''.'' then kept
      else if c = ''..'' then
        (case kept of
           k # ks \<Rightarrow> if k = ''..'' then c # kept else ks
         | [] \<Rightarrow> if rooted then [] else [c])
      else c # kept)"

definition Clean :: "string \<Rightarrow> string" where
  "Clean path =
     (let rooted = HasPrefix path ''/'';
          out = Join ''/'' (rev (fold (clean_step rooted) (Split slash path) []))
      in if rooted then ''/'' @ out else if out = '''' then ''.'' else out)"

section \<open>Glob patterns\<close>

text \<open>What the translation writes: a literal, \<open>[^/]*\<close>, \<open>[^/]\<close>, \<open>.*\<close>, \<open>(?:/.+)?\<close> and \<open>(?:/.*)?\<close>.\<close>

datatype glob_token = GLit char | GStar | GOne | GAny | GDirs | GTail

definition re_special :: "char \<Rightarrow> bool" where
  "re_special c \<longleftrightarrow> c \<in> set ''.+()|^$[]{}''"

fun re_text :: "glob_token \<Rightarrow> string" where
  "re_text (GLit c) = (if re_special c then [CHR 0x5C, c] else [c])"
| "re_text GStar = ''[^/]*''"
| "re_text GOne = ''[^/]''"
| "re_text GAny = ''.*''"
| "re_text GDirs = ''(?:/.+)?''"
| "re_text GTail = ''(?:/.*)?''"

function glob_tokens :: "string \<Rightarrow> glob_token list" where
  "glob_tokens norm =
     (case norm of
        [] \<Rightarrow> []
      | c # cs \<Rightarrow>
          if norm = ''/**'' then GTail # glob_tokens (drop 3 norm)
          else if HasPrefix norm ''/**/'' then GDirs # glob_tokens (drop 3 norm)
          else if HasPrefix norm ''**'' then GAny # glob_tokens (drop 2 norm)
          else (if c = CHR ''*'' then GStar else if c = CHR ''?'' then GOne else GLit c) # glob_tokens cs)"
  by pat_completeness auto
termination by (relation "measure length") auto

declare glob_tokens.simps [simp del]

definition regexp_of :: "glob_token list \<Rightarrow> string" where
  "regexp_of ts = ''^'' @ concat (map re_text ts) @ ''$''"

definition has_wildcard :: "string \<Rightarrow> bool" where
  "has_wildcard p \<longleftrightarrow> list_ex (\<lambda>c. c \<in> set ''*?[]{}'') p"

definition base_dir :: "string \<Rightarrow> string \<Rightarrow> string" where
  "base_dir pattern norm =
     (let baseDir = Join ''/'' (takeWhile (\<lambda>p. \<not> has_wildcard p) (Split slash norm));
          baseDir = (if baseDir = '''' then ''.'' else baseDir)
      in if HasPrefix pattern ''/'' \<and> \<not> HasPrefix baseDir ''/'' then ''/'' @ baseDir else baseDir)"

definition glob_norm :: "string \<Rightarrow> string" where
  "glob_norm pattern = TrimPrefix (Clean pattern) ''./''"

type_synonym compiler = "string \<Rightarrow> (string \<Rightarrow> bool) option"

definition GlobToRegexp :: "compiler \<Rightarrow> string \<Rightarrow> ((string \<Rightarrow> bool) \<times> string) option" where
  "GlobToRegexp compile pattern =
     (let norm = glob_norm pattern; baseDir = base_dir pattern norm
      in case compile (regexp_of (glob_tokens norm)) of None \<Rightarrow> None | Some re \<Rightarrow> Some (re, baseDir))"

section \<open>The expressions that are written\<close>

definition newline :: char where
  "newline = CHR ''\<newline>''"

text \<open>Matching a whole text: \<open>.\<close> is any character but a newline.\<close>

fun re_matches :: "glob_token list \<Rightarrow> string \<Rightarrow> bool" where
  "re_matches [] s \<longleftrightarrow> s = []"
| "re_matches (GLit c # ts) s \<longleftrightarrow> (case s of [] \<Rightarrow> False | d # s' \<Rightarrow> d = c \<and> re_matches ts s')"
| "re_matches (GOne # ts) s \<longleftrightarrow> (case s of [] \<Rightarrow> False | d # s' \<Rightarrow> d \<noteq> slash \<and> re_matches ts s')"
| "re_matches (GStar # ts) s \<longleftrightarrow> list_ex (\<lambda>n. slash \<notin> set (take n s) \<and> re_matches ts (drop n s)) [0..<Suc (length s)]"
| "re_matches (GAny # ts) s \<longleftrightarrow> list_ex (\<lambda>n. newline \<notin> set (take n s) \<and> re_matches ts (drop n s)) [0..<Suc (length s)]"
| "re_matches (GDirs # ts) s \<longleftrightarrow> re_matches ts s \<or>
     (case s of [] \<Rightarrow> False | d # s' \<Rightarrow> d = slash \<and> list_ex (\<lambda>n. newline \<notin> set (take n s') \<and> re_matches ts (drop n s')) [1..<Suc (length s')])"
| "re_matches (GTail # ts) s \<longleftrightarrow> re_matches ts s \<or>
     (case s of [] \<Rightarrow> False | d # s' \<Rightarrow> d = slash \<and> list_ex (\<lambda>n. newline \<notin> set (take n s') \<and> re_matches ts (drop n s')) [0..<Suc (length s')])"

text \<open>Reading the text of an expression back, as far as it is written by the translation.\<close>

function re_body :: "string \<Rightarrow> glob_token list option" where
  "re_body s =
     (if s = ''$'' then Some []
      else if HasPrefix s ''[^/]*'' then map_option (Cons GStar) (re_body (drop 5 s))
      else if HasPrefix s ''[^/]'' then map_option (Cons GOne) (re_body (drop 4 s))
      else if HasPrefix s ''(?:/.+)?'' then map_option (Cons GDirs) (re_body (drop 8 s))
      else if HasPrefix s ''(?:/.*)?'' then map_option (Cons GTail) (re_body (drop 8 s))
      else if HasPrefix s ''.*'' then map_option (Cons GAny) (re_body (drop 2 s))
      else
        case s of
          [] \<Rightarrow> None
        | [c] \<Rightarrow> None
        | c # d # r \<Rightarrow>
            if c = CHR 0x5C then (if re_special d then map_option (Cons (GLit d)) (re_body r) else None)
            else if re_special c \<or> c = CHR ''*'' \<or> c = CHR ''?'' then None
            else map_option (Cons (GLit c)) (re_body (d # r)))"
  by pat_completeness auto
termination by (relation "measure length") (auto simp: HasPrefix_iff)

declare re_body.simps [simp del]

definition re_parse :: "string \<Rightarrow> glob_token list option" where
  "re_parse s = (if HasPrefix s ''^'' then re_body (drop 1 s) else None)"

text \<open>What is relied on of \<open>regexp.Compile\<close>.\<close>

definition compiles_fragment :: "compiler \<Rightarrow> bool" where
  "compiles_fragment compile \<longleftrightarrow> (\<forall>s ts. re_parse s = Some ts \<longrightarrow> compile s = Some (re_matches ts))"

definition wf_token :: "glob_token \<Rightarrow> bool" where
  "wf_token t \<longleftrightarrow> t \<noteq> GLit CHR ''*'' \<and> t \<noteq> GLit CHR ''?'' \<and> t \<noteq> GLit CHR 0x5C"

lemma re_special_simps [simp]:
  "re_special CHR ''.''" "re_special CHR ''(''" "re_special CHR ''[''" "re_special CHR ''$''" "re_special CHR ''^''" "\<not> re_special CHR 0x5C"
  by code_simp+

lemma re_text_nonempty: "concat (map re_text ts) @ ''$'' \<noteq> []"
  by simp

lemma re_text_start:
  assumes "list_all wf_token ts"
  shows "hd (concat (map re_text ts) @ ''$'') \<noteq> CHR ''*'' \<and> hd (concat (map re_text ts) @ ''$'') \<noteq> CHR ''?''"
proof (cases ts)
  case (Cons t ts')
  with assms show ?thesis by (cases t) (auto simp: wf_token_def)
qed simp

lemma re_body_tokens:
  assumes "list_all wf_token ts"
  shows "re_body (concat (map re_text ts) @ ''$'') = Some ts"
  using assms
proof (induction ts)
  case Nil
  show ?case by (subst re_body.simps) simp
next
  case (Cons t ts)
  let ?r = "concat (map re_text ts) @ ''$''"
  have IH: "re_body ?r = Some ts" and hd: "hd ?r \<noteq> CHR ''*''" using Cons re_text_start [of ts] by auto
  obtain d r where r: "?r = d # r" by (cases ?r) auto
  have d: "d \<noteq> CHR ''*''" using hd r by simp
  show ?case
  proof (cases t)
    case (GLit c)
    then have c: "c \<noteq> CHR ''*''" "c \<noteq> CHR ''?''" "c \<noteq> CHR 0x5C" using Cons.prems by (auto simp: wf_token_def)
    show ?thesis
    proof (cases "re_special c")
      case True
      then have "concat (map re_text (t # ts)) @ ''$'' = CHR 0x5C # c # d # r" using GLit r by simp
      then show ?thesis using True IH r GLit by (subst re_body.simps) (simp add: HasPrefix_def)
    next
      case False
      then have "c \<noteq> CHR ''.''" "c \<noteq> CHR ''[''" "c \<noteq> CHR ''(''" "c \<noteq> CHR ''$''" by auto
      moreover have "concat (map re_text (t # ts)) @ ''$'' = c # d # r" using GLit False r by simp
      ultimately show ?thesis using False c IH r GLit by (subst re_body.simps) (simp add: HasPrefix_def)
    qed
  next
    case GOne
    then have "concat (map re_text (t # ts)) @ ''$'' = ''[^/]'' @ d # r" using r by simp
    then show ?thesis using GOne IH r d by (subst re_body.simps) (simp add: HasPrefix_def)
  qed (use IH r in \<open>subst re_body.simps, simp add: HasPrefix_def\<close>)+
qed

lemma re_parse_tokens: "list_all wf_token ts \<Longrightarrow> re_parse (regexp_of ts) = Some ts"
  using re_body_tokens by (simp add: re_parse_def regexp_of_def HasPrefix_def)

lemma list_ex_split:
  "list_ex (\<lambda>n. P (take n s) \<and> Q (drop n s)) [k..<Suc (length s)] \<longleftrightarrow> (\<exists>u v. s = u @ v \<and> k \<le> length u \<and> P u \<and> Q v)"
proof
  assume "list_ex (\<lambda>n. P (take n s) \<and> Q (drop n s)) [k..<Suc (length s)]"
  then obtain n where "k \<le> n" "n \<le> length s" "P (take n s)" "Q (drop n s)" by (auto simp: list_ex_iff)
  then show "\<exists>u v. s = u @ v \<and> k \<le> length u \<and> P u \<and> Q v" by (intro exI [of _ "take n s"] exI [of _ "drop n s"]) simp
next
  assume "\<exists>u v. s = u @ v \<and> k \<le> length u \<and> P u \<and> Q v"
  then obtain u v where "s = u @ v" "k \<le> length u" "P u" "Q v" by blast
  then show "list_ex (\<lambda>n. P (take n s) \<and> Q (drop n s)) [k..<Suc (length s)]"
    by (auto simp: list_ex_iff intro!: bexI [of _ "length u"])
qed

lemma re_matches_iff:
  "re_matches (GLit c # ts) s \<longleftrightarrow> (\<exists>s'. s = c # s' \<and> re_matches ts s')"
  "re_matches (GOne # ts) s \<longleftrightarrow> (\<exists>d s'. s = d # s' \<and> d \<noteq> slash \<and> re_matches ts s')"
  "re_matches (GStar # ts) s \<longleftrightarrow> (\<exists>u v. s = u @ v \<and> slash \<notin> set u \<and> re_matches ts v)"
  "re_matches (GAny # ts) s \<longleftrightarrow> (\<exists>u v. s = u @ v \<and> newline \<notin> set u \<and> re_matches ts v)"
  "re_matches (GDirs # ts) s \<longleftrightarrow> re_matches ts s \<or> (\<exists>u v. s = slash # u @ v \<and> u \<noteq> [] \<and> newline \<notin> set u \<and> re_matches ts v)"
  "re_matches (GTail # ts) s \<longleftrightarrow> re_matches ts s \<or> (\<exists>u v. s = slash # u @ v \<and> newline \<notin> set u \<and> re_matches ts v)"
proof -
  note sp = list_ex_split [where Q = "re_matches ts"]
  show "re_matches (GLit c # ts) s \<longleftrightarrow> (\<exists>s'. s = c # s' \<and> re_matches ts s')" by (auto split: list.splits)
  show "re_matches (GOne # ts) s \<longleftrightarrow> (\<exists>d s'. s = d # s' \<and> d \<noteq> slash \<and> re_matches ts s')" by (auto split: list.splits)
  show "re_matches (GStar # ts) s \<longleftrightarrow> (\<exists>u v. s = u @ v \<and> slash \<notin> set u \<and> re_matches ts v)"
    unfolding re_matches.simps by (simp only: sp [where P = "\<lambda>u. slash \<notin> set u"]) simp
  show "re_matches (GAny # ts) s \<longleftrightarrow> (\<exists>u v. s = u @ v \<and> newline \<notin> set u \<and> re_matches ts v)"
    unfolding re_matches.simps by (simp only: sp [where P = "\<lambda>u. newline \<notin> set u"]) simp
  show "re_matches (GDirs # ts) s \<longleftrightarrow> re_matches ts s \<or> (\<exists>u v. s = slash # u @ v \<and> u \<noteq> [] \<and> newline \<notin> set u \<and> re_matches ts v)"
    unfolding re_matches.simps
    by (cases s) (simp_all only: sp [where P = "\<lambda>u. newline \<notin> set u"] list.case, auto simp: Suc_le_length_iff neq_Nil_conv)
  show "re_matches (GTail # ts) s \<longleftrightarrow> re_matches ts s \<or> (\<exists>u v. s = slash # u @ v \<and> newline \<notin> set u \<and> re_matches ts v)"
    unfolding re_matches.simps
    by (cases s) (simp_all only: sp [where P = "\<lambda>u. newline \<notin> set u"] list.case, auto)
qed

declare re_matches.simps(2-7) [simp del]

section \<open>Patterns by components\<close>

text \<open>The reference: within a component \<open>*\<close> is any text and \<open>?\<close> any character; a component \<open>**\<close> is any number of
  components, none included.\<close>

fun seg_match :: "string \<Rightarrow> string \<Rightarrow> bool" where
  "seg_match [] x \<longleftrightarrow> x = []"
| "seg_match (c # p) x \<longleftrightarrow>
     (if c = CHR ''*'' then seg_match p x \<or> (case x of [] \<Rightarrow> False | d # x' \<Rightarrow> seg_match (c # p) x')
      else case x of [] \<Rightarrow> False | d # x' \<Rightarrow> (c = CHR ''?'' \<or> c = d) \<and> seg_match p x')"

fun comps_match :: "string list \<Rightarrow> string list \<Rightarrow> bool" where
  "comps_match [] xs \<longleftrightarrow> xs = []"
| "comps_match (p # ps) xs \<longleftrightarrow>
     (if p = ''**'' then comps_match ps xs \<or> (case xs of [] \<Rightarrow> False | x # xs' \<Rightarrow> comps_match (p # ps) xs')
      else case xs of [] \<Rightarrow> False | x # xs' \<Rightarrow> seg_match p x \<and> comps_match ps xs')"

declare seg_match.simps(2) [simp del] comps_match.simps(2) [simp del]

lemma seg_match_Cons:
  "seg_match (CHR ''*'' # p) x \<longleftrightarrow> (\<exists>u v. x = u @ v \<and> seg_match p v)"
  "c \<noteq> CHR ''*'' \<Longrightarrow> seg_match (c # p) x \<longleftrightarrow> (\<exists>d x'. x = d # x' \<and> (c = CHR ''?'' \<or> c = d) \<and> seg_match p x')"
proof -
  show "seg_match (CHR ''*'' # p) x \<longleftrightarrow> (\<exists>u v. x = u @ v \<and> seg_match p v)"
  proof (induction x)
    case (Cons d x)
    then show ?case by (subst seg_match.simps) (auto simp: Cons_eq_append_conv)
  qed (simp add: seg_match.simps)
  show "c \<noteq> CHR ''*'' \<Longrightarrow> seg_match (c # p) x \<longleftrightarrow> (\<exists>d x'. x = d # x' \<and> (c = CHR ''?'' \<or> c = d) \<and> seg_match p x')"
    by (subst seg_match.simps) (simp split: list.splits)
qed

lemma comps_match_Cons:
  "comps_match (''**'' # ps) xs \<longleftrightarrow> (\<exists>k\<le>length xs. comps_match ps (drop k xs))"
  "p \<noteq> ''**'' \<Longrightarrow> comps_match (p # ps) xs \<longleftrightarrow> (\<exists>x xs'. xs = x # xs' \<and> seg_match p x \<and> comps_match ps xs')"
proof -
  show "comps_match (''**'' # ps) xs \<longleftrightarrow> (\<exists>k\<le>length xs. comps_match ps (drop k xs))"
  proof (induction xs)
    case (Cons x xs)
    have "(\<exists>k\<le>length (x # xs). comps_match ps (drop k (x # xs))) \<longleftrightarrow>
        comps_match ps (x # xs) \<or> (\<exists>k\<le>length xs. comps_match ps (drop k xs))"
      by (metis Suc_le_mono drop0 drop_Suc_Cons length_Cons not0_implies_Suc zero_le)
    with Cons show ?case by (subst comps_match.simps) simp
  qed (simp add: comps_match.simps)
  show "p \<noteq> ''**'' \<Longrightarrow> comps_match (p # ps) xs \<longleftrightarrow> (\<exists>x xs'. xs = x # xs' \<and> seg_match p x \<and> comps_match ps xs')"
    by (subst comps_match.simps) (simp split: list.splits)
qed

definition comp_tokens :: "string \<Rightarrow> glob_token list" where
  "comp_tokens p = map (\<lambda>c. if c = CHR ''*'' then GStar else if c = CHR ''?'' then GOne else GLit c) p"

fun rest_tokens :: "string list \<Rightarrow> glob_token list" where
  "rest_tokens [] = []"
| "rest_tokens (p # ps) =
     (if p = ''**'' then (if ps = [] then [GTail] else GDirs # rest_tokens ps)
      else GLit slash # comp_tokens p @ rest_tokens ps)"

abbreviation joined :: "string list \<Rightarrow> string" where
  "joined xs \<equiv> concat (map (Cons slash) xs)"

definition plain_comp :: "string \<Rightarrow> bool" where
  "plain_comp p \<longleftrightarrow> slash \<notin> set p \<and> \<not> Contains p ''**''"

lemma Join_joined: "Join ''/'' (x # xs) = x @ joined xs"
  by (induction xs arbitrary: x) (simp_all add: slash_def)

lemma joined_start: "joined xs = [] \<or> hd (joined xs) = slash"
  by (cases xs) simp_all

lemma slash_star [simp]: "slash \<noteq> CHR ''*''" "slash \<noteq> CHR ''?''" "slash \<noteq> newline" "CHR ''*'' \<noteq> slash" "CHR ''?'' \<noteq> slash" "newline \<noteq> slash"
  by (simp_all add: slash_def newline_def)

lemma tokens_comp:
  assumes "plain_comp p" and "t = [] \<or> hd t = slash"
  shows "glob_tokens (p @ t) = comp_tokens p @ glob_tokens t"
  using assms(1)
proof (induction p)
  case (Cons c p)
  have c: "c \<noteq> slash" and p: "plain_comp p" and hp: "\<not> HasPrefix (c # p) ''**''" using Cons.prems by (auto simp: plain_comp_def)
  have "\<not> HasPrefix (c # p @ t) ''**''"
    using hp assms(2) by (cases p; cases t) (auto simp: HasPrefix_def)
  moreover have "(c # p @ t) \<noteq> ''/**''" "\<not> HasPrefix (c # p @ t) ''/**/''" using c by (auto simp: HasPrefix_def slash_def)
  ultimately show ?case using Cons.IH [OF p] by (subst glob_tokens.simps) (simp add: comp_tokens_def)
qed (simp add: comp_tokens_def)

lemma tokens_rest:
  assumes "list_all (\<lambda>p. p = ''**'' \<or> plain_comp p) ps"
  shows "glob_tokens (joined ps) = rest_tokens ps"
  using assms
proof (induction ps)
  case Nil
  show ?case by (subst glob_tokens.simps) simp
next
  case (Cons p ps)
  let ?t = "joined ps"
  have IH: "glob_tokens ?t = rest_tokens ps" using Cons by simp
  have t: "?t = [] \<or> hd ?t = slash" by (rule joined_start)
  consider "p = ''**''" "ps = []" | q qs where "p = ''**''" "ps = q # qs" | "p \<noteq> ''**''" "plain_comp p"
    using Cons.prems by (cases ps) auto
  then show ?case
  proof cases
    case 1
    then show ?thesis using IH by (subst glob_tokens.simps) (simp add: slash_def)
  next
    case 2
    then show ?thesis using IH by (subst glob_tokens.simps) (simp add: slash_def HasPrefix_def)
  next
    case 3
    have nd: "\<not> HasPrefix (p @ ?t) ''**''"
    proof
      assume "HasPrefix (p @ ?t) ''**''"
      then obtain r where r: "p @ ?t = CHR ''*'' # CHR ''*'' # r" by (auto simp: HasPrefix_iff)
      show False
      proof (cases p)
        case Nil
        with r t show False by auto
      next
        case (Cons a p')
        then show False using r t 3 by (cases p') (auto simp: plain_comp_def HasPrefix_def)
      qed
    qed
    have "slash # p @ ?t \<noteq> ''/**''" "\<not> HasPrefix (slash # p @ ?t) ''/**/''" "\<not> HasPrefix (slash # p @ ?t) ''**''"
      using nd by (auto simp: HasPrefix_iff slash_def)
    then show ?thesis using IH tokens_comp [OF 3(2) t] 3(1) by (subst glob_tokens.simps) simp
  qed
qed

lemma first_char:
  "(\<exists>d s'. s = d # s' \<and> d \<noteq> slash \<and> R d \<and> (\<exists>u v. s' = u @ v \<and> slash \<notin> set u \<and> S u \<and> T v)) \<longleftrightarrow>
   (\<exists>u v. s = u @ v \<and> slash \<notin> set u \<and> (\<exists>d x'. u = d # x' \<and> R d \<and> S x') \<and> T v)" (is "?l \<longleftrightarrow> ?r")
proof
  assume ?l
  then obtain d u v where "s = d # u @ v" "d \<noteq> slash" "R d" "slash \<notin> set u" "S u" "T v" by blast
  then show ?r by (intro exI [of _ "d # u"] exI [of _ v]) auto
next
  assume ?r
  then obtain d x' v where "s = d # x' @ v" "d \<noteq> slash" "R d" "slash \<notin> set x'" "S x'" "T v" by auto
  then show ?l by blast
qed

lemma comp_match:
  assumes "slash \<notin> set p"
  shows "re_matches (comp_tokens p @ ts) s \<longleftrightarrow> (\<exists>u v. s = u @ v \<and> slash \<notin> set u \<and> seg_match p u \<and> re_matches ts v)"
  using assms
proof (induction p arbitrary: s)
  case Nil
  show ?case by (auto simp: comp_tokens_def)
next
  case (Cons c p)
  have IH: "re_matches (comp_tokens p @ ts) s \<longleftrightarrow> (\<exists>u v. s = u @ v \<and> slash \<notin> set u \<and> seg_match p u \<and> re_matches ts v)" for s
    using Cons by simp
  consider "c = CHR ''*''" | "c = CHR ''?''" | "c \<noteq> CHR ''*''" "c \<noteq> CHR ''?''" by blast
  then show ?case
  proof cases
    case 1
    have "re_matches (comp_tokens (c # p) @ ts) s \<longleftrightarrow>
        (\<exists>u w. s = u @ w \<and> slash \<notin> set u \<and> (\<exists>u' v. w = u' @ v \<and> slash \<notin> set u' \<and> seg_match p u' \<and> re_matches ts v))"
      using 1 IH by (simp add: comp_tokens_def re_matches_iff)
    also have "\<dots> \<longleftrightarrow> (\<exists>u v. s = u @ v \<and> slash \<notin> set u \<and> (\<exists>a b. u = a @ b \<and> seg_match p b) \<and> re_matches ts v)"
      by (metis UnE Un_iff append.assoc set_append)
    finally show ?thesis unfolding 1 seg_match_Cons .
  next
    case 2
    have "re_matches (comp_tokens (c # p) @ ts) s \<longleftrightarrow> (\<exists>d s'. s = d # s' \<and> d \<noteq> slash \<and> True \<and> re_matches (comp_tokens p @ ts) s')"
      using 2 by (simp add: comp_tokens_def re_matches_iff)
    then show ?thesis unfolding IH first_char using 2 by (simp add: seg_match_Cons)
  next
    case 3
    then have "re_matches (comp_tokens (c # p) @ ts) s \<longleftrightarrow> (\<exists>d s'. s = d # s' \<and> d \<noteq> slash \<and> c = d \<and> re_matches (comp_tokens p @ ts) s')"
      using Cons.prems by (auto simp: comp_tokens_def re_matches_iff)
    then show ?thesis unfolding IH first_char using 3 by (simp add: seg_match_Cons)
  qed
qed

lemma rest_start: "re_matches (rest_tokens ps) v \<Longrightarrow> v = [] \<or> hd v = slash"
  by (induction ps arbitrary: v) (auto simp: re_matches_iff split: if_splits)

text \<open>Splitting a joined path where a component ends.\<close>

lemma joined_split:
  assumes "joined xs = u @ v" and "v = [] \<or> hd v = slash" and "list_all (\<lambda>x. slash \<notin> set x) xs"
  shows "\<exists>k\<le>length xs. u = joined (take k xs) \<and> v = joined (drop k xs)"
  using assms
proof (induction xs arbitrary: u)
  case (Cons x xs)
  show ?case
  proof (cases u)
    case Nil
    then show ?thesis using Cons.prems(1) by (intro exI [of _ 0]) simp
  next
    case (Cons c u')
    then have c: "c = slash" and eq: "x @ joined xs = u' @ v" using Cons.prems(1) by simp_all
    from eq obtain us where us: "u' = x @ us \<and> joined xs = us @ v \<or> x = u' @ us \<and> us @ joined xs = v"
      by (auto simp: append_eq_append_conv2)
    moreover have "us = []" if "x = u' @ us" "us @ joined xs = v" using that Cons.prems(2,3) by (cases us) auto
    ultimately obtain us' where u: "u' = x @ us'" "joined xs = us' @ v" by auto
    from Cons.IH [OF u(2) Cons.prems(2)] Cons.prems(3) obtain k where "k \<le> length xs" "us' = joined (take k xs)" "v = joined (drop k xs)" by auto
    then show ?thesis using u c Cons by (intro exI [of _ "Suc k"]) simp
  qed
qed simp

definition path_comp :: "string \<Rightarrow> bool" where
  "path_comp x \<longleftrightarrow> x \<noteq> [] \<and> slash \<notin> set x \<and> newline \<notin> set x"

lemma path_comps: "list_all path_comp xs \<Longrightarrow> list_all (\<lambda>x. slash \<notin> set x) xs" "list_all path_comp xs \<Longrightarrow> newline \<notin> set (joined xs)"
  by (auto simp: list_all_iff path_comp_def)

lemma comp_match_joined:
  assumes "slash \<notin> set p" and "slash \<notin> set x"
  shows "re_matches (comp_tokens p @ rest_tokens ps) (x @ joined xs) \<longleftrightarrow> seg_match p x \<and> re_matches (rest_tokens ps) (joined xs)"
proof -
  have "u = x \<and> v = joined xs" if eq: "x @ joined xs = u @ v" and u: "slash \<notin> set u" and v: "v = [] \<or> hd v = slash" for u v
  proof -
    from eq obtain us where us: "x = u @ us \<and> us @ joined xs = v \<or> u = x @ us \<and> joined xs = us @ v"
      by (auto simp: append_eq_append_conv2)
    then show ?thesis
    proof
      assume a: "x = u @ us \<and> us @ joined xs = v"
      then have "us = []" using assms(2) v by (cases us) auto
      with a show ?thesis by simp
    next
      assume a: "u = x @ us \<and> joined xs = us @ v"
      then have "us = []" using u joined_start [of xs] by (cases us) auto
      with a show ?thesis by simp
    qed
  qed
  then show ?thesis unfolding comp_match [OF assms(1)] using assms(2) rest_start by metis
qed

lemma rest_match:
  assumes "list_all (\<lambda>p. p = ''**'' \<or> plain_comp p) ps" and "list_all path_comp xs"
  shows "re_matches (rest_tokens ps) (joined xs) \<longleftrightarrow> comps_match ps xs"
  using assms
proof (induction ps arbitrary: xs)
  case Nil
  then show ?case by (cases xs) simp_all
next
  case (Cons p ps)
  have IH: "re_matches (rest_tokens ps) (joined xs) \<longleftrightarrow> comps_match ps xs" if "list_all path_comp xs" for xs
    using Cons that by simp
  note sf = path_comps [OF Cons.prems(2)]
  have dr: "list_all path_comp (drop k xs)" for k using Cons.prems(2) by (meson in_set_dropD list_all_iff)
  consider "p = ''**''" "ps = []" | "p = ''**''" "ps \<noteq> []" | "p \<noteq> ''**''" "plain_comp p" using Cons.prems(1) by auto
  then show ?case
  proof cases
    case 1
    have "comps_match (p # ps) xs" unfolding 1 comps_match_Cons by (rule exI [of _ "length xs"]) simp
    moreover have "re_matches [GTail] (joined xs)" using sf by (cases xs) (auto simp: re_matches_iff)
    ultimately show ?thesis using 1 by simp
  next
    case 2
    have "re_matches (GDirs # rest_tokens ps) (joined xs) \<longleftrightarrow> (\<exists>k\<le>length xs. comps_match ps (drop k xs))"
    proof
      assume "re_matches (GDirs # rest_tokens ps) (joined xs)"
      then consider "re_matches (rest_tokens ps) (joined xs)" | u v where "joined xs = (slash # u) @ v" "re_matches (rest_tokens ps) v"
        by (auto simp: re_matches_iff)
      then show "\<exists>k\<le>length xs. comps_match ps (drop k xs)"
      proof cases
        case 1
        then show ?thesis using IH [OF Cons.prems(2)] by (intro exI [of _ 0]) simp
      next
        case (2 u v)
        from joined_split [OF 2(1) rest_start [OF 2(2)] sf(1)] 2(2) IH [OF dr] show ?thesis by blast
      qed
    next
      assume "\<exists>k\<le>length xs. comps_match ps (drop k xs)"
      then obtain k where k: "k \<le> length xs" "re_matches (rest_tokens ps) (joined (drop k xs))" using IH [OF dr] by blast
      show "re_matches (GDirs # rest_tokens ps) (joined xs)"
      proof (cases "take k xs")
        case Nil
        then show ?thesis using k by (auto simp: re_matches_iff)
      next
        case (Cons y ys)
        have "joined xs = joined (take k xs) @ joined (drop k xs)" by (metis append_take_drop_id concat_append map_append)
        then have "joined xs = slash # (y @ joined ys) @ joined (drop k xs)" using Cons by simp
        moreover have "y \<in> set xs" using Cons by (metis in_set_takeD list.set_intros(1))
        then have "y \<noteq> []" using Cons.prems(2) \<open>list_all path_comp xs\<close> by (auto simp: list_all_iff path_comp_def)
        ultimately show ?thesis using k(2) sf(2) unfolding re_matches_iff by (intro disjI2 exI [of _ "y @ joined ys"] exI [of _ "joined (drop k xs)"]) auto
      qed
    qed
    then show ?thesis unfolding 2 comps_match_Cons using 2 by simp
  next
    case 3
    show ?thesis
    proof (cases xs)
      case Nil
      then show ?thesis using 3 by (simp add: comps_match_Cons re_matches_iff)
    next
      case (Cons x xs')
      then have "list_all path_comp xs'" "slash \<notin> set x" using Cons.prems(2) \<open>list_all path_comp xs\<close> by (auto simp: path_comp_def)
      then show ?thesis using 3 Cons IH comp_match_joined [of p x ps xs'] by (simp add: comps_match_Cons re_matches_iff plain_comp_def)
    qed
  qed
qed

lemma seg_match_literal: "seg_match p x \<Longrightarrow> \<not> has_wildcard p \<Longrightarrow> x = p"
proof (induction p arbitrary: x)
  case (Cons c p)
  then have "c \<noteq> CHR ''*''" "c \<noteq> CHR ''?''" "\<not> has_wildcard p" by (auto simp: has_wildcard_def)
  with Cons show ?case by (auto simp: seg_match_Cons)
qed simp

lemma comps_match_base: "comps_match ps xs \<Longrightarrow> prefix (takeWhile (\<lambda>p. \<not> has_wildcard p) ps) xs"
proof (induction ps arbitrary: xs)
  case (Cons p ps)
  show ?case
  proof (cases "has_wildcard p")
    case False
    then have "p \<noteq> ''**''" by (auto simp: has_wildcard_def)
    with Cons obtain x xs' where "xs = x # xs'" "seg_match p x" "comps_match ps xs'" by (auto simp: comps_match_Cons)
    with Cons.IH False seg_match_literal show ?thesis by auto
  qed simp
qed simp

text \<open>A pattern in which \<open>**\<close> stands only for whole components, not for the first, and without a backslash.\<close>

definition glob_ok :: "string \<Rightarrow> bool" where
  "glob_ok pattern \<longleftrightarrow>
     (let ps = Split slash (glob_norm pattern)
      in plain_comp (hd ps) \<and> list_all (\<lambda>p. p = ''**'' \<or> plain_comp p) (tl ps)) \<and> CHR 0x5C \<notin> set (glob_norm pattern)"

lemma wf_comp_tokens: "CHR 0x5C \<notin> set p \<Longrightarrow> list_all wf_token (comp_tokens p)"
  by (auto simp: comp_tokens_def list_all_iff wf_token_def)

lemma wf_rest_tokens: "list_all (\<lambda>p. CHR 0x5C \<notin> set p) ps \<Longrightarrow> list_all wf_token (rest_tokens ps)"
  by (induction ps) (auto simp: wf_comp_tokens wf_token_def slash_def)

lemma Split_subset: "x \<in> set (Split sep s) \<Longrightarrow> set x \<subseteq> set s"
proof (induction s arbitrary: x)
  case (Cons c s)
  obtain y ys where S: "Split sep s = y # ys" by (cases "Split sep s") auto
  with Cons.IH have "set y \<subseteq> set s" "\<And>z. z \<in> set ys \<Longrightarrow> set z \<subseteq> set s" by auto
  with Cons.prems S show ?case by (auto split: if_splits)
qed simp

lemma glob_expression:
  assumes "glob_ok pattern" and "Split slash (glob_norm pattern) = p # ps"
  shows "glob_tokens (glob_norm pattern) = comp_tokens p @ rest_tokens ps \<and> list_all wf_token (comp_tokens p @ rest_tokens ps)
    \<and> plain_comp p \<and> list_all (\<lambda>p. p = ''**'' \<or> plain_comp p) ps"
proof -
  have ok: "plain_comp p" "list_all (\<lambda>p. p = ''**'' \<or> plain_comp p) ps" "CHR 0x5C \<notin> set (glob_norm pattern)"
    using assms by (simp_all add: glob_ok_def)
  have "glob_norm pattern = p @ joined ps" using Join_Split [of slash "glob_norm pattern"] assms(2) Join_joined [of p ps] by (simp add: slash_def)
  moreover have "list_all (\<lambda>q. CHR 0x5C \<notin> set q) (p # ps)"
    using Split_subset [of _ slash "glob_norm pattern"] ok(3) assms(2) by (auto simp: list_all_iff)
  ultimately show ?thesis
    using ok tokens_comp [OF ok(1) joined_start] tokens_rest [OF ok(2)] wf_comp_tokens wf_rest_tokens by simp
qed

lemma Clean_nonempty: "Clean path \<noteq> []"
  by (simp add: Clean_def Let_def)

section \<open>Properties\<close>


definition ex_compile :: compiler where
  "ex_compile s = map_option re_matches (re_parse s)"


section \<open>Where patterns surprise\<close>

text \<open>A leading \<open>**\<close> is translated to \<open>.*\<close> and does not stand for no component at all.\<close>

lemma leading_dstar_needs_directory:
  "map_option (\<lambda>(re, b). (re ''a.log'', re ''d/a.log'', b)) (GlobToRegexp ex_compile ''**/*.log'') = Some (False, True, ''.'')"
  by code_simp

text \<open>A backslash is copied into the expression, where it changes the meaning of the next character.\<close>

lemma backslash_not_escaped: "regexp_of (glob_tokens (''a'' @ [CHR 0x5C] @ ''d*'')) = ''^a'' @ [CHR 0x5C] @ ''d[^/]*$''"
  by code_simp

end
