(* ===== verification/Tiered.thy ===== *)
theory Tiered
  imports StoreDurable Glob
begin

text \<open>
  The cold tier, \<open>internal/store/tiered.go\<close>: an object store in a directory, and the archiver that copies
  partitions to it and back. An object is the contents of a file of a partition as \<open>Partition\<close> has it, so
  that the index is its lines; \<open>CPart\<close> is what an interrupted write leaves. Keys are clean relative
  paths. Any call of the operating system may fail.
\<close>

section \<open>The local archive\<close>

datatype file_content = CBlock string | CIndex "index_line list" | CLegacy legacy_index | CPart int

definition content_size :: "file_content \<Rightarrow> int" where
  "content_size c =
     (case c of CBlock d \<Rightarrow> int (length d) | CIndex ls \<Rightarrow> sum_list (map il_size ls) | CLegacy li \<Rightarrow> li_size li | CPart n \<Rightarrow> n)"

record archive =
  la_objects :: "(string, file_content) gomap"

datatype archive_error = ErrArchiveRoot | ErrObjectDir | ErrObjectWrite | ErrObjectCommit | ErrObjectRead | ErrObjectDelete
  | ErrReadPartition | ErrReadFile | ErrUpload archive_error | ErrNoObjects | ErrRestoreDir | ErrRestoreGet archive_error | ErrRestoreWrite

datatype archive_call = AMkdirRoot | AMkdir string | AWrite string | ARename string | ARemove string | ARead string
  | AReadDir | AReadFile string | AMkdirTarget | AWriteFile string

type_synonym archive_faults = "archive_call \<Rightarrow> bool"

definition NewLocalArchiveStore :: "archive_faults \<Rightarrow> string \<Rightarrow> (string, file_content) gomap \<Rightarrow> (archive_error, archive) result" where
  "NewLocalArchiveStore flt rootDir files =
     (if TrimSpace rootDir = '''' then Inl ErrArchiveRoot
      else if flt AMkdirRoot then Inl ErrArchiveRoot
      else Inr \<lparr>la_objects = files\<rparr>)"

text \<open>A failed write leaves \<open>part\<close> in the temporary file, which is then not removed.\<close>

definition PutObject :: "archive_faults \<Rightarrow> file_content \<Rightarrow> string \<Rightarrow> file_content \<Rightarrow> archive \<Rightarrow> archive_error option \<times> archive" where
  "PutObject flt part key data a =
     (let tempPath = key @ ''.tmp''
      in if flt (AMkdir key) then (Some ErrObjectDir, a)
         else if flt (AWrite key) then (Some ErrObjectWrite, a\<lparr>la_objects := AList.update tempPath part (la_objects a)\<rparr>)
         else
           let written = AList.update tempPath data (la_objects a)
           in if flt (ARename key) then
                (Some ErrObjectCommit, a\<lparr>la_objects := (if flt (ARemove key) then written else AList.delete tempPath written)\<rparr>)
              else (None, a\<lparr>la_objects := AList.update key data (AList.delete tempPath written)\<rparr>))"

definition GetObject :: "archive_faults \<Rightarrow> string \<Rightarrow> archive \<Rightarrow> (archive_error, file_content) result" where
  "GetObject flt key a =
     (if flt (ARead key) then Inl ErrObjectRead
      else case map_of (la_objects a) key of None \<Rightarrow> Inl ErrObjectRead | Some data \<Rightarrow> Inr data)"

text \<open>The files below the directory that \<open>filepath.Join\<close> makes of the root and a prefix, or that file itself.\<close>

definition below :: "string \<Rightarrow> string \<Rightarrow> bool" where
  "below pre key \<longleftrightarrow> (let p = Clean pre in p = ''.'' \<or> key = p \<or> HasPrefix key (p @ ''/''))"

definition ListKeys :: "string \<Rightarrow> archive \<Rightarrow> string list" where
  "ListKeys pre a = sort_key (Split slash) (filter (below pre) (map fst (la_objects a)))"

text \<open>\<open>keep\<close> are the files that \<open>os.RemoveAll\<close> cannot remove.\<close>

definition DeletePrefix :: "(string \<Rightarrow> bool) \<Rightarrow> string \<Rightarrow> archive \<Rightarrow> archive_error option \<times> archive" where
  "DeletePrefix keep pre a =
     ((if list_ex (\<lambda>k. below pre k \<and> keep k) (map fst (la_objects a)) then Some ErrObjectDelete else None),
      a\<lparr>la_objects := filter (\<lambda>(k, c). \<not> below pre k \<or> keep k) (la_objects a)\<rparr>)"

section \<open>The archiver\<close>

definition NewTieredArchiver :: "int \<Rightarrow> int" where
  "NewTieredArchiver coldAge = (if coldAge \<le> 0 then 24 * hour_ns else coldAge)"

definition indexJSONLFileName :: string where
  "indexJSONLFileName = ''index.jsonl''"

definition indexJSONFileName :: string where
  "indexJSONFileName = ''index.json''"

text \<open>The files of a partition that are archived, in the order of \<open>os.ReadDir\<close>.\<close>

definition partition_files :: "partition \<Rightarrow> (string \<times> file_content) list" where
  "partition_files p =
     sort_key fst
       (map (\<lambda>(n, bf). (n, CBlock (bf_data bf))) (filter (\<lambda>(n, bf). HasSuffix n ''.zst'') (p_blocks p))
        @ (case p_index p of None \<Rightarrow> [] | Some ls \<Rightarrow> [(indexJSONLFileName, CIndex ls)])
        @ (case p_legacy p of None \<Rightarrow> [] | Some li \<Rightarrow> [(indexJSONFileName, CLegacy li)]))"

definition object_key :: "string \<Rightarrow> string \<Rightarrow> string" where
  "object_key dir name = ''partitions/'' @ dir @ ''/'' @ name"

fun upload_files ::
  "archive_faults \<Rightarrow> file_content \<Rightarrow> string \<Rightarrow> (string \<times> file_content) list \<Rightarrow> nat \<times> int \<times> archive
     \<Rightarrow> archive_error option \<times> nat \<times> int \<times> archive" where
  "upload_files flt part dir [] (uploaded, totalBytes, a) = (None, uploaded, totalBytes, a)"
| "upload_files flt part dir ((name, data) # files) (uploaded, totalBytes, a) =
     (if flt (AReadFile name) then (Some ErrReadFile, uploaded, totalBytes, a)
      else
        case PutObject flt part (object_key dir name) data a of
          (Some e, a') \<Rightarrow> (Some (ErrUpload e), uploaded, totalBytes, a')
        | (None, a') \<Rightarrow> upload_files flt part dir files (uploaded + 1, totalBytes + content_size data, a'))"

definition ArchivePartition ::
  "archive_faults \<Rightarrow> file_content \<Rightarrow> string \<Rightarrow> file_store \<Rightarrow> archive \<Rightarrow> archive_error option \<times> nat \<times> int \<times> archive" where
  "ArchivePartition flt part dir s a =
     (case map_of (fs_disk s) dir of
        None \<Rightarrow> (Some ErrReadPartition, 0, 0, a)
      | Some p \<Rightarrow>
          if flt AReadDir then (Some ErrReadPartition, 0, 0, a)
          else upload_files flt part dir (partition_files p) (0, 0, a))"

text \<open>\<open>os.WriteFile\<close> of a file of the partition; a temporary file is not read by the store.\<close>

definition write_file :: "gotime \<Rightarrow> string \<Rightarrow> file_content \<Rightarrow> partition \<Rightarrow> partition" where
  "write_file now name c p =
     (case c of
        CBlock d \<Rightarrow> p\<lparr>p_blocks := AList.update name \<lparr>bf_data = d, bf_mod = now\<rparr> (p_blocks p)\<rparr>
      | CIndex ls \<Rightarrow> p\<lparr>p_index := Some ls\<rparr>
      | CLegacy li \<Rightarrow> p\<lparr>p_legacy := Some li\<rparr>
      | CPart n \<Rightarrow> p)"

definition Base :: "string \<Rightarrow> string" where
  "Base path = last (Split slash path)"

text \<open>An interrupted write of a restored file leaves \<open>rest name\<close> of it.\<close>

fun restore_files ::
  "archive_faults \<Rightarrow> (string \<Rightarrow> file_content) \<Rightarrow> gotime \<Rightarrow> archive \<Rightarrow> string list \<Rightarrow> nat \<times> int \<times> partition
     \<Rightarrow> archive_error option \<times> nat \<times> int \<times> partition" where
  "restore_files flt rest now a [] (restored, totalBytes, p) = (None, restored, totalBytes, p)"
| "restore_files flt rest now a (key # keys) (restored, totalBytes, p) =
     (case GetObject flt key a of
        Inl e \<Rightarrow> (Some (ErrRestoreGet e), restored, totalBytes, p)
      | Inr data \<Rightarrow>
          let fileName = Base key
          in if flt (AWriteFile fileName) then (Some ErrRestoreWrite, restored, totalBytes, write_file now fileName (rest fileName) p)
             else restore_files flt rest now a keys (restored + 1, totalBytes + content_size data, write_file now fileName data p))"

definition RestorePartition ::
  "store_faults \<Rightarrow> archive_faults \<Rightarrow> (string \<Rightarrow> file_content) \<Rightarrow> gotime \<Rightarrow> string \<Rightarrow> archive \<Rightarrow> file_store
     \<Rightarrow> archive_error option \<times> nat \<times> int \<times> file_store" where
  "RestorePartition sflt flt rest now dir a s =
     (let keys = ListKeys (object_key dir []) a
      in if keys = [] then (Some ErrNoObjects, 0, 0, s)
         else if flt AMkdirTarget then (Some ErrRestoreDir, 0, 0, s)
         else
           case restore_files flt rest now a keys (0, 0, part_at s dir) of
             (Some e, n, b, p) \<Rightarrow> (Some e, n, b, s\<lparr>fs_disk := AList.update dir p (fs_disk s)\<rparr>)
           | (None, n, b, p) \<Rightarrow>
               let s = s\<lparr>fs_disk := AList.update dir p (fs_disk s)\<rparr>;
                   headers = (case LoadPartitionIndex sflt dir p of Inl e \<Rightarrow> [] | Inr hs \<Rightarrow> hs)
               in (None, n, b,
                   if headers \<noteq> [] then
                     (set_summary dir (buildPartitionSummaryLocked headers) (s\<lparr>fs_cache := AList.update dir headers (fs_cache s)\<rparr>))
                       \<lparr>fs_totalBytes := fs_totalBytes s + b\<rparr>
                   else s))"

section \<open>What the archiver relies on\<close>

text \<open>An object store: what was put under a key is what is got, and the keys below a prefix are listed.\<close>

locale object_store =
  fixes put :: "'k \<Rightarrow> 'o \<Rightarrow> 'a \<Rightarrow> 'a" and get :: "'k \<Rightarrow> 'a \<Rightarrow> 'o option" and keys :: "('k \<Rightarrow> bool) \<Rightarrow> 'a \<Rightarrow> 'k set"
    and usable :: "'k \<Rightarrow> bool"
  assumes get_put: "usable k \<Longrightarrow> usable k' \<Longrightarrow> get k' (put k c a) = (if k' = k then Some c else get k' a)"
    and keys_get: "(\<And>k. P k \<Longrightarrow> k \<in> keys P a \<longleftrightarrow> get k a \<noteq> None)"
    and keys_put: "usable k \<Longrightarrow> (\<And>k. k \<in> keys P a \<Longrightarrow> usable k) \<Longrightarrow> k' \<in> keys P (put k c a) \<Longrightarrow> usable k'"
begin

definition put_all :: "('k \<times> 'o) list \<Rightarrow> 'a \<Rightarrow> 'a" where
  "put_all kcs a = fold (\<lambda>(k, c). put k c) kcs a"

lemma get_put_all:
  "list_all (\<lambda>kc. usable (fst kc)) kcs \<Longrightarrow> distinct (map fst kcs) \<Longrightarrow> usable k \<Longrightarrow>
     get k (put_all kcs a) = (case map_of kcs k of Some c \<Rightarrow> Some c | None \<Rightarrow> get k a)"
proof (induction kcs arbitrary: a)
  case (Cons kc kcs)
  obtain j c where kc: "kc = (j, c)" by fastforce
  have "map_of kcs j = None" using Cons.prems(2) by (simp add: kc map_of_eq_None_iff)
  moreover have "get k (put_all kcs (put j c a)) = (case map_of kcs k of Some c \<Rightarrow> Some c | None \<Rightarrow> get k (put j c a))"
    using Cons by simp
  moreover have "get k (put j c a) = (if k = j then Some c else get k a)" using Cons.prems get_put by (simp add: kc)
  ultimately show ?case by (auto simp: put_all_def kc split: option.splits)
qed (simp add: put_all_def)

end

text \<open>A key that is not the name of a temporary file.\<close>

definition object_name :: "string \<Rightarrow> bool" where
  "object_name k \<longleftrightarrow> \<not> HasSuffix k ''.tmp''"

abbreviation no_afaults :: archive_faults where
  "no_afaults \<equiv> \<lambda>_. False"

definition put_object :: "string \<Rightarrow> file_content \<Rightarrow> archive \<Rightarrow> archive" where
  "put_object key c a = snd (PutObject no_afaults (CPart 0) key c a)"

definition get_object :: "string \<Rightarrow> archive \<Rightarrow> file_content option" where
  "get_object key a = (case GetObject no_afaults key a of Inl e \<Rightarrow> None | Inr c \<Rightarrow> Some c)"

lemma PutObject_ok: "PutObject no_afaults part key c a = (None, put_object key c a)"
  by (simp add: put_object_def PutObject_def Let_def)

lemma put_object_map: "map_of (la_objects (put_object key c a)) = ((map_of (la_objects a))(key @ ''.tmp'' := None))(key \<mapsto> c)"
  by (auto simp: put_object_def PutObject_def Let_def update_conv' delete_conv' fun_eq_iff)

lemma get_object_map: "get_object key a = map_of (la_objects a) key"
  by (simp add: get_object_def GetObject_def split: option.splits)

interpretation la: object_store put_object get_object "\<lambda>P a. {k \<in> dom (map_of (la_objects a)). P k}" object_name
proof
  fix k k' :: string and c and a :: archive
  assume "object_name k" "object_name k'"
  then have "k' \<noteq> k @ ''.tmp''" by (auto simp: object_name_def)
  then show "get_object k' (put_object k c a) = (if k' = k then Some c else get_object k' a)"
    by (simp add: get_object_map put_object_map)
next
  fix P :: "string \<Rightarrow> bool" and a k
  show "P k \<Longrightarrow> k \<in> {k \<in> dom (map_of (la_objects a)). P k} \<longleftrightarrow> get_object k a \<noteq> None"
    by (auto simp: get_object_map)
next
  fix k P and a :: archive and k' c
  assume "object_name k" "\<And>k. k \<in> {k \<in> dom (map_of (la_objects a)). P k} \<Longrightarrow> object_name k"
    "k' \<in> {k' \<in> dom (map_of (la_objects (put_object k c a))). P k'}"
  then show "object_name k'" by (auto simp: put_object_map split: if_splits)
qed

lemma wf_put_object: "wf_map (la_objects a) \<Longrightarrow> wf_map (la_objects (put_object k c a))"
  by (simp add: put_object_def PutObject_def Let_def)

lemma upload_all:
  "upload_files no_afaults part dir files (n, b, a) =
     (None, n + length files, b + sum_list (map (content_size \<circ> snd) files), la.put_all (map (apfst (object_key dir)) files) a)"
proof (induction files arbitrary: n b a)
  case (Cons f files)
  obtain name data where f: "f = (name, data)" by fastforce
  show ?case unfolding f by (simp add: PutObject_ok Cons la.put_all_def)
qed (simp add: la.put_all_def)

lemma wf_put_all: "wf_map (la_objects a) \<Longrightarrow> wf_map (la_objects (la.put_all kcs a))"
  unfolding la.put_all_def by (induction kcs arbitrary: a) (auto simp: wf_put_object)

lemma dom_put_all:
  "dom (map_of (la_objects (la.put_all kcs a))) \<subseteq> dom (map_of (la_objects a)) \<union> fst ` set kcs"
proof (induction kcs arbitrary: a)
  case (Cons kc kcs)
  have "dom (map_of (la_objects (put_object (fst kc) (snd kc) a))) \<subseteq> insert (fst kc) (dom (map_of (la_objects a)))"
    by (auto simp: put_object_map split: if_splits)
  with Cons [of "put_object (fst kc) (snd kc) a"] show ?case by (auto simp: la.put_all_def case_prod_beta)
qed (simp add: la.put_all_def)

section \<open>Files of a partition\<close>

text \<open>Names as the store gives them: blocks end in \<open>.zst\<close> and no name contains a slash.\<close>

definition names_ok :: "partition \<Rightarrow> bool" where
  "names_ok p \<longleftrightarrow> wf_map (p_blocks p) \<and> list_all (\<lambda>n. HasSuffix n ''.zst'' \<and> slash \<notin> set n) (map fst (p_blocks p))"

text \<open>A partition with the same files, up to times and order.\<close>

definition same_files :: "partition \<Rightarrow> partition \<Rightarrow> bool" where
  "same_files p q \<longleftrightarrow> p_index q = p_index p \<and> p_legacy q = p_legacy p \<and> p_logs q = p_logs p \<and>
     (\<forall>n. map_option bf_data (map_of (p_blocks q) n) = map_option bf_data (map_of (p_blocks p) n))"

lemma same_files_entries: "same_files p q \<Longrightarrow> block_entries cd q h = block_entries cd p h"
proof -
  assume "same_files p q"
  then have "map_option bf_data (map_of (p_blocks q) (bh_FileName h)) = map_option bf_data (map_of (p_blocks p) (bh_FileName h))"
    by (simp add: same_files_def)
  then show ?thesis unfolding block_entries_def by (auto split: option.splits)
qed

lemma same_files_ok:
  assumes "same_files p q" and "partition_ok cd s dir p"
  shows "partition_ok cd s dir q"
proof -
  have b: "block_ok cd dir q h" if h: "block_ok cd dir p h" for h
  proof -
    obtain bf es where "map_of (p_blocks p) (bh_FileName h) = Some bf" "DecodeBlock cd (bf_data bf) = Inr es"
      using h by (auto simp: block_ok_def)
    moreover have "map_option bf_data (map_of (p_blocks q) (bh_FileName h)) = map_option bf_data (map_of (p_blocks p) (bh_FileName h))"
      using assms(1) by (simp add: same_files_def)
    ultimately have "\<exists>bf es. map_of (p_blocks q) (bh_FileName h) = Some bf \<and> DecodeBlock cd (bf_data bf) = Inr es" by auto
    then show ?thesis using h same_files_entries [OF assms(1)] by (simp add: block_ok_def)
  qed
  have "index_headers q = index_headers p" "lines_short q = lines_short p"
    using assms(1) by (simp_all add: same_files_def index_headers_def lines_short_def)
  with assms b show ?thesis by (auto simp: partition_ok_def' same_files_def)
qed

definition block_files :: "partition \<Rightarrow> (string \<times> file_content) list" where
  "block_files p = map (\<lambda>(n, bf). (n, CBlock (bf_data bf))) (p_blocks p)"

lemma partition_files_blocks:
  assumes "names_ok p" and "p_legacy p = None" and "p_index p = Some ls"
  shows "mset (partition_files p) = mset (block_files p @ [(indexJSONLFileName, CIndex ls)])"
    and "distinct (map fst (partition_files p))" and "list_all (\<lambda>f. slash \<notin> set (fst f) \<and> object_name (fst f)) (partition_files p)"
proof -
  have f: "filter (\<lambda>(n, bf). HasSuffix n ''.zst'') (p_blocks p) = p_blocks p"
    using assms(1) by (auto simp: names_ok_def list_all_iff filter_id_conv)
  show m: "mset (partition_files p) = mset (block_files p @ [(indexJSONLFileName, CIndex ls)])"
    by (simp add: partition_files_def f assms block_files_def)
  have idx: "\<not> HasSuffix indexJSONLFileName ''.zst''" "slash \<notin> set indexJSONLFileName" "object_name indexJSONLFileName" by code_simp+
  have "distinct (map fst (block_files p @ [(indexJSONLFileName, CIndex ls)]))"
    using assms(1) idx(1) by (auto simp: block_files_def names_ok_def list_all_iff comp_def case_prod_beta)
  then show "distinct (map fst (partition_files p))" using mset_eq_imp_distinct_iff [of "map fst (partition_files p)" "map fst (block_files p @ [(indexJSONLFileName, CIndex ls)])"] m by simp
  have "object_name n" if "HasSuffix n ''.zst''" for n using that by (auto simp: object_name_def HasSuffix_iff)
  then have "list_all (\<lambda>f. slash \<notin> set (fst f) \<and> object_name (fst f)) (block_files p @ [(indexJSONLFileName, CIndex ls)])"
    using assms(1) idx(2,3) by (auto simp: block_files_def names_ok_def list_all_iff)
  then show "list_all (\<lambda>f. slash \<notin> set (fst f) \<and> object_name (fst f)) (partition_files p)"
    using mset_eq_setD [OF m] by (simp add: list_all_iff)
qed

section \<open>Restoring\<close>

definition clean_dir :: "string \<Rightarrow> bool" where
  "clean_dir dir \<longleftrightarrow> Clean (object_key dir []) = ''partitions/'' @ dir"

lemma below_dir: "clean_dir dir \<Longrightarrow> below (object_key dir []) k \<longleftrightarrow> k = ''partitions/'' @ dir \<or> HasPrefix k (object_key dir [])"
  by (auto simp: below_def clean_dir_def object_key_def)

lemma below_key: "clean_dir dir \<Longrightarrow> below (object_key dir []) (object_key dir n)"
  by (subst below_dir) (auto simp: HasPrefix_iff object_key_def)

lemma Base_key: "slash \<notin> set n \<Longrightarrow> Base (object_key dir n) = n"
  using Split_append [of slash "''partitions/'' @ dir" "''/'' @ n"] Split_no_sep [of slash n]
  by (simp add: Base_def object_key_def slash_def)

lemma object_key_inj [simp]: "object_key dir m = object_key dir n \<longleftrightarrow> m = n"
  by (simp add: object_key_def)

lemma object_key_name [simp]: "object_name (object_key dir n) = object_name n" if "slash \<notin> set n"
proof -
  have "HasSuffix (object_key dir n) ''.tmp'' = HasSuffix n ''.tmp''"
  proof
    assume "HasSuffix (object_key dir n) ''.tmp''"
    then obtain r where "(''partitions/'' @ dir) @ ''/'' @ n = r @ ''.tmp''" by (auto simp: HasSuffix_iff object_key_def)
    then have "suffix (''/'' @ n) ''.tmp'' \<or> suffix ''.tmp'' (''/'' @ n)"
      using suffix_same_cases [of "''/'' @ n" "(''partitions/'' @ dir) @ ''/'' @ n" "''.tmp''"] by (metis suffixI)
    moreover have "\<not> suffix (''/'' @ n) ''.tmp''" by (auto simp: suffix_def Cons_eq_append_conv)
    ultimately have "suffix ''.tmp'' (''/'' @ n)" by blast
    then show "HasSuffix n ''.tmp''" by (auto simp: HasSuffix_iff suffix_def Cons_eq_append_conv)
  qed (auto simp: HasSuffix_iff object_key_def)
  then show ?thesis by (simp add: object_name_def)
qed

lemma restore_all:
  assumes "list_all (\<lambda>f. slash \<notin> set (fst f) \<and> get_object (object_key dir (fst f)) a = Some (snd f)) fs"
  shows "restore_files no_afaults rest now a (map (object_key dir \<circ> fst) fs) (n, b, p) =
    (None, n + length fs, b + sum_list (map (content_size \<circ> snd) fs), fold (\<lambda>(m, c). write_file now m c) fs p)"
  using assms
proof (induction fs arbitrary: n b p)
  case (Cons f fs)
  have "GetObject no_afaults (object_key dir (fst f)) a = Inr (snd f)"
    using Cons.prems by (auto simp: get_object_def split: sum.splits)
  then show ?case using Cons by (simp add: Base_key case_prod_beta)
qed simp

lemma write_files_rest:
  "p_logs (fold (\<lambda>(m, c). write_file now m c) fs p) = p_logs p"
  "list_all (\<lambda>f. case snd f of CLegacy _ \<Rightarrow> False | _ \<Rightarrow> True) fs \<Longrightarrow> p_legacy (fold (\<lambda>(m, c). write_file now m c) fs p) = p_legacy p"
  "list_all (\<lambda>f. case snd f of CIndex ls' \<Rightarrow> ls' = ls | _ \<Rightarrow> True) fs \<Longrightarrow>
     p_index (fold (\<lambda>(m, c). write_file now m c) fs p) = (if CIndex ls \<in> snd ` set fs then Some ls else p_index p)"
proof -
  show "p_logs (fold (\<lambda>(m, c). write_file now m c) fs p) = p_logs p"
    by (induction fs arbitrary: p) (auto simp: write_file_def split: file_content.splits)
  show "list_all (\<lambda>f. case snd f of CLegacy _ \<Rightarrow> False | _ \<Rightarrow> True) fs \<Longrightarrow> p_legacy (fold (\<lambda>(m, c). write_file now m c) fs p) = p_legacy p"
    by (induction fs arbitrary: p) (auto simp: write_file_def split: file_content.splits)
  show "list_all (\<lambda>f. case snd f of CIndex ls' \<Rightarrow> ls' = ls | _ \<Rightarrow> True) fs \<Longrightarrow>
     p_index (fold (\<lambda>(m, c). write_file now m c) fs p) = (if CIndex ls \<in> snd ` set fs then Some ls else p_index p)"
    by (induction fs arbitrary: p) (auto simp: write_file_def split: file_content.splits)
qed

lemma write_files_blocks:
  assumes "distinct (map fst fs)"
  shows "map_option bf_data (map_of (p_blocks (fold (\<lambda>(m, c). write_file now m c) fs p)) k) =
    (case map_of fs k of Some (CBlock d) \<Rightarrow> Some d | _ \<Rightarrow> map_option bf_data (map_of (p_blocks p) k))"
  using assms
proof (induction fs arbitrary: p)
  case (Cons f fs)
  obtain m c where f: "f = (m, c)" by fastforce
  have "map_of fs m = None" using Cons.prems by (simp add: f map_of_eq_None_iff)
  with Cons.IH [of "write_file now m c p"] Cons.prems show ?case
    by (auto simp: f write_file_def update_conv' split: file_content.splits option.splits)
qed simp

lemma map_of_block_files: "map_of (block_files p) n = map_option (\<lambda>bf. CBlock (bf_data bf)) (map_of (p_blocks p) n)"
  unfolding block_files_def by (induction "p_blocks p" arbitrary: p) (simp_all add: map_of_map [unfolded apsnd_def map_prod_def] case_prod_beta comp_def)

lemma restored_files:
  assumes "names_ok p" and "p_legacy p = None" and "p_index p = Some ls" and "p_logs p = []"
    and fs: "mset fs = mset (partition_files p)"
  shows "same_files p (fold (\<lambda>(m, c). write_file now m c) fs empty_partition)"
proof -
  note pf = partition_files_blocks [OF assms(1-3)]
  have m: "mset fs = mset (block_files p @ [(indexJSONLFileName, CIndex ls)])" using fs pf(1) by simp
  have d: "distinct (map fst fs)" using mset_eq_imp_distinct_iff [of "map fst fs" "map fst (partition_files p)"] fs pf(2) by simp
  have db: "distinct (map fst (block_files p @ [(indexJSONLFileName, CIndex ls)]))"
    using mset_eq_imp_distinct_iff [of "map fst fs" "map fst (block_files p @ [(indexJSONLFileName, CIndex ls)])"] m d by simp
  note sets = mset_eq_setD [OF m]
  have mo: "map_of fs = map_of (block_files p @ [(indexJSONLFileName, CIndex ls)])"
    using map_of_inject_set [OF d db] sets by blast
  let ?q = "fold (\<lambda>(m, c). write_file now m c) fs empty_partition"
  have blocks: "list_all (\<lambda>f. \<exists>d. snd f = CBlock d) (block_files p)" by (auto simp: block_files_def list_all_iff)
  have "p_logs ?q = p_logs p" using write_files_rest(1) assms(4) by (simp add: empty_partition_def)
  moreover have "p_legacy ?q = p_legacy p"
    using blocks sets by (subst write_files_rest(2)) (auto simp: list_all_iff assms(2) empty_partition_def split: file_content.splits)
  moreover have "p_index ?q = p_index p"
    using blocks sets by (subst write_files_rest(3) [of ls]) (auto simp: list_all_iff assms(3) split: file_content.splits)
  moreover have "map_option bf_data (map_of (p_blocks ?q) n) = map_option bf_data (map_of (p_blocks p) n)" for n
  proof -
    have "map_of (p_blocks p) indexJSONLFileName = None"
    proof -
      have "\<not> HasSuffix indexJSONLFileName ''.zst''" by code_simp
      then show ?thesis using assms(1) by (auto simp: names_ok_def list_all_iff map_of_eq_None_iff)
    qed
    then show ?thesis unfolding write_files_blocks [OF d] mo
      by (auto simp: map_add_def map_of_block_files empty_partition_def split: option.splits if_splits)
  qed
  ultimately show ?thesis by (simp add: same_files_def)
qed

lemma put_files_got:
  assumes "distinct (map fst files)" and "list_all (\<lambda>f. slash \<notin> set (fst f) \<and> object_name (fst f)) files" and "(n, c) \<in> set files"
  shows "get_object (object_key dir n) (la.put_all (map (apfst (object_key dir)) files) a) = Some c"
proof -
  let ?kcs = "map (apfst (object_key dir)) files"
  have us: "list_all (\<lambda>kc. object_name (fst kc)) ?kcs" using assms(2) by (auto simp: list_all_iff)
  have "map fst ?kcs = map (object_key dir) (map fst files)" by simp
  then have dk: "distinct (map fst ?kcs)" using assms(1) by (simp only: distinct_map) (simp add: inj_on_def)
  have "(object_key dir n, c) \<in> set ?kcs" using assms(3) by force
  then have "map_of ?kcs (object_key dir n) = Some c" by (rule map_of_is_SomeI [OF dk])
  moreover have "object_name (object_key dir n)" using assms(2,3) by (auto simp: list_all_iff)
  ultimately show ?thesis using la.get_put_all [OF us dk] by simp
qed

lemma put_files_keys:
  assumes "clean_dir dir" and none: "list_all (\<lambda>k. \<not> below (object_key dir []) k) (map fst (la_objects a))"
    and "distinct (map fst files)" and "list_all (\<lambda>f. slash \<notin> set (fst f) \<and> object_name (fst f)) files"
  shows "set (ListKeys (object_key dir []) (la.put_all (map (apfst (object_key dir)) files) a)) = object_key dir ` fst ` set files"
proof (rule set_eqI, rule iffI)
  let ?kcs = "map (apfst (object_key dir)) files" and ?pre = "object_key dir []"
  fix k assume "k \<in> set (ListKeys ?pre (la.put_all ?kcs a))"
  then have k: "k \<in> dom (map_of (la_objects (la.put_all ?kcs a)))" "below ?pre k" by (auto simp: ListKeys_def dom_map_of_conv_image_fst)
  then have "k \<in> fst ` set (la_objects a) \<or> k \<in> fst ` set ?kcs" using dom_put_all [of ?kcs a] unfolding dom_map_of_conv_image_fst by blast
  moreover have "k \<notin> fst ` set (la_objects a)" using none k(2) by (auto simp: list_all_iff)
  ultimately show "k \<in> object_key dir ` fst ` set files" by force
next
  let ?kcs = "map (apfst (object_key dir)) files" and ?pre = "object_key dir []"
  fix k assume "k \<in> object_key dir ` fst ` set files"
  then obtain n c where f: "(n, c) \<in> set files" "k = object_key dir n" by auto
  have "map_of (la_objects (la.put_all ?kcs a)) k = Some c"
    using put_files_got [OF assms(3,4) f(1)] by (simp add: get_object_map f(2))
  then have "k \<in> fst ` set (la_objects (la.put_all ?kcs a))" by (metis domI dom_map_of_conv_image_fst)
  moreover have "below ?pre k" unfolding f(2) by (rule below_key [OF assms(1)])
  ultimately show "k \<in> set (ListKeys ?pre (la.put_all ?kcs a))" by (simp add: ListKeys_def)
qed

lemma distinct_of_map: "distinct (map f xs) \<Longrightarrow> distinct xs"
  by (simp add: distinct_map)

lemma files_by_name:
  assumes "distinct ns" and "set ns = fst ` set files" and "distinct (map fst files)"
  shows "mset (map (\<lambda>n. (n, the (map_of files n))) ns) = mset files"
proof (rule set_eq_iff_mset_eq_distinct [THEN iffD1])
  show "distinct (map (\<lambda>n. (n, the (map_of files n))) ns)" using assms(1) by (simp add: distinct_map inj_on_def)
  show "distinct files" by (rule distinct_of_map [OF assms(3)])
  show "set (map (\<lambda>n. (n, the (map_of files n))) ns) = set files"
    using assms(3) by (auto simp: assms(2) image_iff) (metis fst_conv map_of_is_SomeI option.sel)+
qed

lemma listed_files:
  assumes "clean_dir dir" and "wf_map (la_objects a)" and none: "list_all (\<lambda>k. \<not> below (object_key dir []) k) (map fst (la_objects a))"
    and d: "distinct (map fst files)" and sl: "list_all (\<lambda>f. slash \<notin> set (fst f) \<and> object_name (fst f)) files"
    and a': "a' = la.put_all (map (apfst (object_key dir)) files) a"
  shows "\<exists>fs. mset fs = mset files \<and> ListKeys (object_key dir []) a' = map (object_key dir \<circ> fst) fs \<and>
    list_all (\<lambda>f. slash \<notin> set (fst f) \<and> get_object (object_key dir (fst f)) a' = Some (snd f)) fs"
proof -
  let ?pre = "object_key dir []"
  note got = put_files_got [OF d sl, where a = a and dir = dir, folded a']
  note keys = put_files_keys [OF assms(1) none d sl, folded a']
  have "wf_map (la_objects a')" unfolding a' by (rule wf_put_all [OF assms(2)])
  then have dl: "distinct (ListKeys ?pre a')" by (simp only: ListKeys_def distinct_sort distinct_filter)
  let ?ns = "map Base (ListKeys ?pre a')"
  have base: "Base (object_key dir n) = n" if n: "n \<in> fst ` set files" for n
  proof -
    obtain f where "f \<in> set files" "n = fst f" using n by blast
    then show ?thesis using sl by (simp add: list_all_iff Base_key)
  qed
  have lk: "ListKeys ?pre a' = map (object_key dir) ?ns"
  proof -
    have "object_key dir (Base k) = k" if k: "k \<in> set (ListKeys ?pre a')" for k
    proof -
      obtain n where "n \<in> fst ` set files" "k = object_key dir n" using k unfolding keys by blast
      then show ?thesis using base [of n] by simp
    qed
    then have "map (\<lambda>k. object_key dir (Base k)) (ListKeys ?pre a') = ListKeys ?pre a'" by (intro map_idI)
    then show ?thesis by (simp only: map_map comp_def)
  qed
  then have "distinct (map (object_key dir) ?ns)" using dl by (simp only:)
  then have dn: "distinct ?ns" by (rule distinct_of_map)
  have img: "Base ` object_key dir ` N = N" if "\<forall>n\<in>N. Base (object_key dir n) = n" for N using that by (simp add: image_image)
  have "Base ` object_key dir ` fst ` set files = fst ` set files" by (rule img, rule ballI, rule base)
  then have sn: "set ?ns = fst ` set files" by (simp only: set_map keys)
  obtain ns where ns: "ListKeys ?pre a' = map (object_key dir) ns" "distinct ns" "set ns = fst ` set files" using lk dn sn by blast
  let ?fs = "map (\<lambda>n. (n, the (map_of files n))) ns"
  have m: "mset ?fs = mset files" by (rule files_by_name [OF ns(2,3) d])
  moreover have "ListKeys ?pre a' = map (object_key dir \<circ> fst) ?fs" by (simp add: ns(1) comp_def)
  moreover have "list_all (\<lambda>f. slash \<notin> set (fst f) \<and> get_object (object_key dir (fst f)) a' = Some (snd f)) ?fs"
    unfolding list_all_iff mset_eq_setD [OF m]
  proof
    fix f assume "f \<in> set files"
    then have "(fst f, snd f) \<in> set files" by simp
    with got sl \<open>f \<in> set files\<close> show "slash \<notin> set (fst f) \<and> get_object (object_key dir (fst f)) a' = Some (snd f)" by (simp only: list_all_iff) blast
  qed
  ultimately show ?thesis by blast
qed

text \<open>The store after a partition was removed from its disk and its catalogue.\<close>

definition without_partition :: "string \<Rightarrow> file_store \<Rightarrow> file_store" where
  "without_partition dir s =
     s\<lparr>fs_disk := AList.delete dir (fs_disk s), fs_cache := AList.delete dir (fs_cache s), fs_summaries := AList.delete dir (fs_summaries s)\<rparr>"

lemma sum_list_without:
  fixes f :: "'k \<Rightarrow> 'b::comm_monoid_add"
  assumes "distinct ks" and "k \<in> set ks"
  shows "sum_list (map f ks) = sum_list (map f (filter (\<lambda>j. j \<noteq> k) ks)) + f k"
  using assms
proof (induction ks)
  case (Cons j ks)
  show ?case
  proof (cases "j = k")
    case True
    then have "filter (\<lambda>j. j \<noteq> k) ks = ks" using Cons.prems(1) by (auto simp: filter_id_conv)
    with True show ?thesis by (simp add: add.commute)
  next
    case False
    with Cons show ?thesis by (simp add: add.assoc)
  qed
qed simp

lemma keys_delete: "map fst (AList.delete k m) = filter (\<lambda>j. j \<noteq> k) (map fst m)"
  by (induction m) (auto simp: AList.delete_eq)

lemma restored_store:
  assumes ok: "store_ok cd s" and p: "map_of (fs_disk s) dir = Some p" and sf: "same_files p q" and ne: "cached s dir \<noteq> []"
    and t: "fs_disk t = AList.update dir q (AList.delete dir (fs_disk s))"
      "fs_cache t = AList.update dir (sort_key bh_MinTimestampNano (index_headers q)) (AList.delete dir (fs_cache s))"
      "fs_summaries t = (case buildPartitionSummaryLocked (sort_key bh_MinTimestampNano (index_headers q)) of
         None \<Rightarrow> AList.delete dir (AList.delete dir (fs_summaries s)) | Some ps \<Rightarrow> AList.update dir ps (AList.delete dir (fs_summaries s)))"
  shows "store_ok cd t" and "stored cd t = stored cd s"
proof -
  have po: "partition_ok cd s dir p" using ok p by (simp add: store_ok_def')
  note pq = same_files_ok [OF sf po]
  have c: "cached t dir = sort_key bh_MinTimestampNano (index_headers q)" "d \<noteq> dir \<Longrightarrow> cached t d = cached s d" for d
    by (simp_all add: cached_def t update_conv' delete_conv')
  have ps: "map_of (fs_summaries t) dir = buildPartitionSummaryLocked (cached t dir)" "d \<noteq> dir \<Longrightarrow> map_of (fs_summaries t) d = map_of (fs_summaries s) d" for d
    by (simp_all add: c t update_conv' delete_conv' split: option.splits)
  note re = partition_ok_reload [OF pq c(1) ps(1)]
  have other: "partition_ok cd t d r = partition_ok cd s d r" if "d \<noteq> dir" for d r
    unfolding partition_ok_def' c(2) [OF that] ps(2) [OF that] by (rule refl)
  show "store_ok cd t"
    unfolding store_ok_def'
  proof (intro conjI allI impI)
    show "wf_map (fs_disk t)" "wf_map (fs_cache t)" using ok by (simp_all add: t store_ok_def')
    fix d r
    show "partition_ok cd t d r" if "map_of (fs_disk t) d = Some r"
      using that re(1) other ok by (cases "d = dir") (auto simp: t update_conv' delete_conv' store_ok_def')
    assume "map_of (fs_disk t) d = None"
    then have d: "d \<noteq> dir" "map_of (fs_disk s) d = None" by (auto simp: t update_conv' delete_conv' split: if_splits)
    show "map_of (fs_cache t) d = None" using d ok by (simp add: t update_conv' delete_conv' store_ok_def')
    show "map_of (fs_summaries t) d = None" using d ok ps(2) by (simp add: store_ok_def')
  qed
  have keys: "map fst (fs_disk t) = filter (\<lambda>d. d \<noteq> dir) (map fst (fs_disk s)) @ [dir]"
  proof -
    have "dir \<notin> set (map fst (AList.delete dir (fs_disk s)))" unfolding keys_delete by simp
    then have "dir \<notin> fst ` set (AList.delete dir (fs_disk s))" unfolding set_map .
    from update_new [OF this] show ?thesis unfolding t(1) by (simp add: keys_delete)
  qed
  have dir: "mset (dir_stored cd t dir) = mset (dir_stored cd s dir)"
  proof -
    have "block_entries cd q = block_entries cd p" using same_files_entries [OF sf] by (rule ext)
    with re(2) show ?thesis by (simp add: dir_stored_def p t update_conv')
  qed
  have same: "dir_stored cd t d = dir_stored cd s d" if "d \<noteq> dir" for d
    unfolding dir_stored_def c(2) [OF that] using that by (simp add: t update_conv' delete_conv')
  have mem: "dir \<in> set (map fst (fs_disk s))" using p by (force dest: map_of_SomeD)
  have wf: "wf_map (fs_disk s)" using ok by (simp add: store_ok_def')
  have "map (\<lambda>d. mset (dir_stored cd t d)) (filter (\<lambda>d. d \<noteq> dir) (map fst (fs_disk s))) =
      map (\<lambda>d. mset (dir_stored cd s d)) (filter (\<lambda>d. d \<noteq> dir) (map fst (fs_disk s)))"
    using same by (intro map_cong) auto
  then show "stored cd t = stored cd s"
    unfolding stored_def keys sum_list_without [OF wf mem] map_append sum_list.append by (simp only: list.map dir) simp
qed

section \<open>Properties\<close>

text \<open>
  C34. Archiving and restoring is lossless: when a partition of a consistent store was archived without a
  fault and has since disappeared from the store, restoring it gives back a consistent store with
  exactly the entries it had before, and as many files as were archived.
\<close>

theorem archive_restore_roundtrip:
  assumes "store_ok cd s" and "map_of (fs_disk s) dir = Some p" and "names_ok p" and "cached s dir \<noteq> []" and "clean_dir dir"
    and "wf_map (la_objects a)" and "list_all (\<lambda>k. \<not> below (object_key dir []) k) (map fst (la_objects a))"
    and "ArchivePartition no_afaults part dir s a = (e, n, b, a')"
  shows "\<exists>s'. e = None \<and> RestorePartition no_faults no_afaults rest now dir a' (without_partition dir s) = (None, n, b, s') \<and>
    store_ok cd s' \<and> stored cd s' = stored cd s"
proof -
  have po: "partition_ok cd s dir p" using assms(1,2) by (simp add: store_ok_def')
  have ih: "mset (index_headers p) = mset (cached s dir)" using po by (simp add: partition_ok_def')
  then have "index_headers p \<noteq> []" using assms(4) by auto
  then obtain ls where ls: "p_index p = Some ls" by (auto simp: index_headers_def split: option.splits)
  have leg: "p_legacy p = None" "p_logs p = []" using po by (simp_all add: partition_ok_def')
  note pf = partition_files_blocks [OF assms(3) leg(1) ls]
  have up: "e = None" "n = length (partition_files p)" "b = sum_list (map (content_size \<circ> snd) (partition_files p))"
    "a' = la.put_all (map (apfst (object_key dir)) (partition_files p)) a"
    using assms(8) by (simp_all add: ArchivePartition_def assms(2) upload_all)
  obtain fs where fs: "mset fs = mset (partition_files p)" "ListKeys (object_key dir []) a' = map (object_key dir \<circ> fst) fs"
    "list_all (\<lambda>f. slash \<notin> set (fst f) \<and> get_object (object_key dir (fst f)) a' = Some (snd f)) fs"
    using listed_files [OF assms(5-7) pf(2,3) up(4)] by blast
  let ?t = "without_partition dir s" and ?q = "fold (\<lambda>(m, c). write_file now m c) fs empty_partition"
  have pt: "part_at ?t dir = empty_partition" by (simp add: part_at_def without_partition_def delete_conv')
  note sf = restored_files [OF assms(3) leg(1) ls leg(2) fs(1), of now]
  have "length fs = n" "sum_list (map (content_size \<circ> snd) fs) = b"
    using fs(1) up(2,3) by (metis size_mset) (metis fs(1) up(3) mset_map sum_mset_sum_list)
  then have files: "restore_files no_afaults rest now a' (ListKeys (object_key dir []) a') (0, 0, part_at ?t dir) = (None, n, b, ?q)"
    using restore_all [OF fs(3), of rest now 0 0 empty_partition] by (simp add: fs(2) pt)
  have "partition_files p \<noteq> []" using pf(1) by (metis append_is_Nil_conv list.distinct(1) mset_zero_iff)
  then have nk: "ListKeys (object_key dir []) a' \<noteq> []" using fs(1,2) by auto
  let ?hs = "sort_key bh_MinTimestampNano (index_headers ?q)"
  have load: "LoadPartitionIndex no_faults dir ?q = Inr ?hs" by (rule LoadPartitionIndex_ok [OF same_files_ok [OF sf po]])
  have "index_headers ?q = index_headers p" using sf by (simp add: same_files_def index_headers_def)
  then have hs: "?hs \<noteq> []" using \<open>index_headers p \<noteq> []\<close> by (metis length_0_conv length_sort)
  let ?s = "?t\<lparr>fs_disk := AList.update dir ?q (fs_disk ?t)\<rparr>"
  let ?r = "(set_summary dir (buildPartitionSummaryLocked ?hs) (?s\<lparr>fs_cache := AList.update dir ?hs (fs_cache ?s)\<rparr>))\<lparr>fs_totalBytes := fs_totalBytes ?s + b\<rparr>"
  have "RestorePartition no_faults no_afaults rest now dir a' ?t = (None, n, b, ?r)"
    unfolding RestorePartition_def Let_def files using nk hs by (simp add: load)
  moreover have "fs_disk ?r = AList.update dir ?q (AList.delete dir (fs_disk s))" "fs_cache ?r = AList.update dir ?hs (AList.delete dir (fs_cache s))"
    "fs_summaries ?r = (case buildPartitionSummaryLocked ?hs of
         None \<Rightarrow> AList.delete dir (AList.delete dir (fs_summaries s)) | Some ps \<Rightarrow> AList.update dir ps (AList.delete dir (fs_summaries s)))"
    by (simp_all add: set_summary_def without_partition_def split: option.splits)
  note restored_store [OF assms(1,2) sf assms(4) this]
  ultimately show ?thesis using up(1) by blast
qed

definition ex_dir :: string where
  "ex_dir = ''2023/11/14/22''"

definition ex_block :: block_header where
  "ex_block = \<lparr>bh_ID = ''b'', bh_FileName = ''b.zst'', bh_MinTimestampNano = 1700000000000000097, bh_MaxTimestampNano = 1700000000000000097,
     bh_RecordCount = 1, bh_UncompressedBytes = 1, bh_CompressedBytes = 2, bh_LevelMask = LevelInfo, bh_Hosts = [''web''], bh_Sources = [''app'']\<rparr>"

definition ex_partition :: partition where
  "ex_partition = \<lparr>p_blocks = [(''b.zst'', \<lparr>bf_data = ''Za'', bf_mod = zero_time\<rparr>)],
     p_index = Some [\<lparr>il_size = 10, il_header = Some ex_block, il_open = False\<rparr>], p_legacy = None, p_logs = []\<rparr>"

definition ex_store :: file_store where
  "ex_store = \<lparr>fs_disk = [(ex_dir, ex_partition)], fs_closed = False, fs_totalBytes = 12, fs_knownHosts = [], fs_knownSrcs = [],
     fs_cache = [(ex_dir, [ex_block])], fs_summaries = [(ex_dir, update_summary ex_block None)]\<rparr>"

lemma ex_partition_block:
  "block_entries letter_codec ex_partition ex_block = [letter_entry CHR ''a'']" "header_typed ex_block"
  "header_covers ex_block (letter_entry CHR ''a'')" "stamped (letter_entry CHR ''a'')" "partition_dir (Timestamp (letter_entry CHR ''a'')) = ex_dir"
  "DecodeBlock letter_codec ''Za'' = Inr [letter_entry CHR ''a'']"
  by code_simp+

lemma ex_store_ok: "store_ok letter_codec ex_store"
proof -
  have "block_ok letter_codec ex_dir ex_partition ex_block"
    unfolding block_ok_def ex_partition_block(1) using ex_partition_block by (simp add: ex_partition_def ex_block_def)
  moreover have "index_headers ex_partition = [ex_block]" "lines_short ex_partition" by code_simp+
  ultimately have "partition_ok letter_codec ex_store ex_dir ex_partition"
    using update_covers_new [of ex_block None] update_summary_Some [of ex_block None] ex_partition_block(2)
    by (simp add: partition_ok_def' cached_def ex_store_def) (simp add: ex_partition_def)
  then show ?thesis by (auto simp: store_ok_def') (auto simp: ex_store_def split: if_splits)
qed

lemma ex_archived: "clean_dir ex_dir" "names_ok ex_partition"
proof -
  show "clean_dir ex_dir" by code_simp
  show "names_ok ex_partition" by (simp add: names_ok_def ex_partition_def HasSuffix_def slash_def)
qed

theorem archive_restore_roundtrip_witness:
  "\<exists>s' n b a'. ArchivePartition no_afaults (CPart 0) ex_dir ex_store \<lparr>la_objects = []\<rparr> = (None, n, b, a') \<and>
     RestorePartition no_faults no_afaults (\<lambda>_. CPart 0) zero_time ex_dir a' (without_partition ex_dir ex_store) = (None, n, b, s') \<and>
     stored letter_codec s' = {#letter_entry CHR ''a''#}"
proof -
  obtain e n b a' where ar: "ArchivePartition no_afaults (CPart 0) ex_dir ex_store \<lparr>la_objects = []\<rparr> = (e, n, b, a')" by (metis surj_pair)
  have "map_of (fs_disk ex_store) ex_dir = Some ex_partition" "cached ex_store ex_dir \<noteq> []" by (simp_all add: ex_store_def cached_def)
  with archive_restore_roundtrip [OF ex_store_ok _ ex_archived(2) _ ex_archived(1) _ _ ar, of "\<lambda>_. CPart 0" zero_time]
  obtain s' where "e = None" "RestorePartition no_faults no_afaults (\<lambda>_. CPart 0) zero_time ex_dir a' (without_partition ex_dir ex_store) = (None, n, b, s')"
    "stored letter_codec s' = stored letter_codec ex_store" by auto
  moreover have "stored letter_codec ex_store = {#letter_entry CHR ''a''#}"
    using ex_partition_block(1) by (simp add: stored_def dir_stored_def cached_def ex_store_def)
  ultimately show ?thesis using ar by auto
qed

section \<open>What restoring leaves out\<close>

text \<open>The hosts and sources of a restored partition are not listed until the store is opened again.\<close>

lemma restore_hosts_unknown:
  "fs_knownHosts (snd (snd (snd (RestorePartition sflt flt rest now dir a s)))) = fs_knownHosts s"
  by (auto simp: RestorePartition_def Let_def set_summary_def split: prod.splits option.splits)

text \<open>An upload that fails while it is written leaves its temporary file, which is listed as an object.\<close>

lemma failed_upload_listed:
  "ListKeys (object_key ex_dir []) (snd (PutObject (\<lambda>c. c = AWrite (object_key ex_dir ''b.zst'')) (CPart 1) (object_key ex_dir ''b.zst'') (CBlock ''Za'') \<lparr>la_objects = []\<rparr>)) =
     [object_key ex_dir ''b.zst.tmp'']"
  by code_simp

end
