(* ===== verification/Otlp.thy ===== *)
theory Otlp
  imports LogEntry
begin

text \<open>
  OpenTelemetry ingestion, \<open>internal/ingest/otlp.go\<close>: from the decoded OTLP request to log entries.
  The JSON decoder is outside the model; the texts that \<open>fmt.Sprintf("%v", ...)\<close> and
  \<open>strconv.FormatFloat\<close> give for an integer or double value are part of the value. \<open>uuid\<close>
  and \<open>now\<close> give the UUID and the clock for the i-th record.
\<close>

section \<open>Data\<close>

record otlp_any_value =
  av_StringValue :: "string option"
  av_BoolValue :: "bool option"
  av_IntValue :: "string option"
  av_DoubleValue :: "string option"

type_synonym otlp_key_value = "string \<times> otlp_any_value"

record otlp_log_record =
  lr_TimeUnixNano :: string
  lr_ObservedTimeUnixNano :: string
  lr_SeverityNumber :: int
  lr_SeverityText :: string
  lr_Body :: otlp_any_value
  lr_Attributes :: "otlp_key_value list"
  lr_TraceID :: string
  lr_SpanID :: string

record otlp_scope_logs =
  sl_ScopeName :: string
  sl_LogRecords :: "otlp_log_record list"

record otlp_resource_logs =
  rl_Attributes :: "otlp_key_value list"
  rl_ScopeLogs :: "otlp_scope_logs list"

section \<open>Operations\<close>

definition AnyValue_String :: "otlp_any_value \<Rightarrow> string" where
  "AnyValue_String v =
     (case av_StringValue v of
        Some s \<Rightarrow> s
      | None \<Rightarrow>
          (case av_BoolValue v of
             Some b \<Rightarrow> if b then ''true'' else ''false''
           | None \<Rightarrow>
               (case av_IntValue v of
                  Some s \<Rightarrow> s
                | None \<Rightarrow> (case av_DoubleValue v of Some s \<Rightarrow> s | None \<Rightarrow> ''''))))"

definition SeverityNumberToLevel :: "int \<Rightarrow> string \<Rightarrow> string" where
  "SeverityNumberToLevel num text =
     (if text \<noteq> '''' then ToUpper (TrimSpace text)
      else if 1 \<le> num \<and> num \<le> 4 then ''TRACE''
      else if 5 \<le> num \<and> num \<le> 8 then ''DEBUG''
      else if 9 \<le> num \<and> num \<le> 12 then ''INFO''
      else if 13 \<le> num \<and> num \<le> 16 then ''WARN''
      else if 17 \<le> num \<and> num \<le> 20 then ''ERROR''
      else if 21 \<le> num \<and> num \<le> 24 then ''FATAL''
      else ''INFO'')"

record resource_info =
  ri_host :: string
  ri_service :: string
  ri_attrs :: "(string, string) gomap"

definition resource_attr :: "otlp_key_value \<Rightarrow> resource_info \<Rightarrow> resource_info" where
  "resource_attr kv ri =
     (let val = AnyValue_String (snd kv);
          ri = ri\<lparr>ri_attrs := AList.update (fst kv) val (ri_attrs ri)\<rparr>
      in if fst kv \<in> {''host.name'', ''host.id'', ''k8s.node.name''} then
           (if ri_host ri = '''' then ri\<lparr>ri_host := val\<rparr> else ri)
         else if fst kv \<in> {''service.name'', ''app'', ''application''} then
           (if ri_service ri = '''' then ri\<lparr>ri_service := val\<rparr> else ri)
         else ri)"

definition resource_info_of :: "otlp_key_value list \<Rightarrow> resource_info" where
  "resource_info_of attrs =
     (let ri = fold resource_attr attrs \<lparr>ri_host = '''', ri_service = '''', ri_attrs = []\<rparr>;
          ri = (if ri_host ri = '''' then ri\<lparr>ri_host := ''otlp-host''\<rparr> else ri)
      in if ri_service ri = '''' then ri\<lparr>ri_service := ''otlp-service''\<rparr> else ri)"

definition record_time :: "gotime \<Rightarrow> otlp_log_record \<Rightarrow> gotime" where
  "record_time now rec =
     (let timeStr = (if lr_TimeUnixNano rec = '''' then lr_ObservedTimeUnixNano rec else lr_TimeUnixNano rec)
      in if timeStr \<noteq> '''' then
           (case ParseInt timeStr of Some nano \<Rightarrow> if 0 < nano then unix_utc nano else now | None \<Rightarrow> now)
         else now)"

definition record_fields :: "(string, string) gomap \<Rightarrow> otlp_log_record \<Rightarrow> (string, string) gomap" where
  "record_fields attrs rec =
     (let f = fold (\<lambda>kv m. AList.update (fst kv) (snd kv) m) attrs [];
          f = fold (\<lambda>kv m. AList.update (fst kv) (AnyValue_String (snd kv)) m) (lr_Attributes rec) f;
          f = (if lr_TraceID rec \<noteq> '''' then AList.update ''trace_id'' (lr_TraceID rec) f else f)
      in if lr_SpanID rec \<noteq> '''' then AList.update ''span_id'' (lr_SpanID rec) f else f)"

definition record_entry :: "string \<Rightarrow> gotime \<Rightarrow> resource_info \<Rightarrow> string \<Rightarrow> otlp_log_record \<Rightarrow> log_entry" where
  "record_entry uuid now ri source rec =
     (let msg = AnyValue_String (lr_Body rec)
      in \<lparr>ID = uuid, Timestamp = record_time now rec, Host = ri_host ri, Source = source,
          Level = SeverityNumberToLevel (lr_SeverityNumber rec) (lr_SeverityText rec),
          Message = (if msg = '''' then ''(empty log body)'' else msg),
          Fields = record_fields (ri_attrs ri) rec\<rparr>)"

text \<open>The records of a request in the order of the three nested loops, with what they inherit.\<close>

definition scope_records :: "resource_info \<Rightarrow> otlp_scope_logs \<Rightarrow> (resource_info \<times> string \<times> otlp_log_record) list" where
  "scope_records ri sl =
     map (\<lambda>rec. (ri, if sl_ScopeName sl \<noteq> '''' then sl_ScopeName sl else ri_service ri, rec)) (sl_LogRecords sl)"

definition resource_records :: "otlp_resource_logs \<Rightarrow> (resource_info \<times> string \<times> otlp_log_record) list" where
  "resource_records rl = (let ri = resource_info_of (rl_Attributes rl) in concat (map (scope_records ri) (rl_ScopeLogs rl)))"

definition ParseOTLPLogs :: "(nat \<Rightarrow> string) \<Rightarrow> (nat \<Rightarrow> gotime) \<Rightarrow> otlp_resource_logs list \<Rightarrow> log_entry list" where
  "ParseOTLPLogs uuid now req =
     (let recs = concat (map resource_records req)
      in map (\<lambda>(i, ri, source, rec). record_entry (uuid i) (now i) ri source rec) (zip [0..<length recs] recs))"

section \<open>Properties\<close>

lemma wf_fold_update: "wf_map m \<Longrightarrow> wf_map (fold (\<lambda>kv m. AList.update (k kv) (v kv) m) kvs m)"
  by (induction kvs arbitrary: m) (simp_all add: distinct_update)

lemma record_fields_wf: "wf_map (record_fields attrs rec)"
proof -
  have "wf_map (fold (\<lambda>kv m. AList.update (fst kv) (snd kv) m) attrs [])"
    using wf_fold_update [of "[]" fst snd attrs] by simp
  then have "wf_map (fold (\<lambda>kv m. AList.update (fst kv) (AnyValue_String (snd kv)) m) (lr_Attributes rec)
      (fold (\<lambda>kv m. AList.update (fst kv) (snd kv) m) attrs []))"
    by (rule wf_fold_update)
  then show ?thesis by (simp add: record_fields_def Let_def distinct_update)
qed

lemma resource_host: "ri_host (resource_info_of attrs) \<noteq> '''' \<and> ri_service (resource_info_of attrs) \<noteq> ''''"
  by (simp add: resource_info_of_def Let_def)

lemma AnyValue_empty_msg: "(if AnyValue_String v = '''' then ''(empty log body)'' else AnyValue_String v) \<noteq> ''''"
  by simp

definition record_count :: "otlp_resource_logs list \<Rightarrow> nat" where
  "record_count req = (\<Sum>rl\<leftarrow>req. \<Sum>sl\<leftarrow>rl_ScopeLogs rl. length (sl_LogRecords sl))"

lemma length_records: "length (concat (map resource_records req)) = record_count req"
proof -
  have "length (resource_records rl) = (\<Sum>sl\<leftarrow>rl_ScopeLogs rl. length (sl_LogRecords sl))" for rl
    by (simp add: resource_records_def Let_def length_concat scope_records_def comp_def)
  then show ?thesis by (simp add: length_concat record_count_def comp_def)
qed

text \<open>
  No OTLP record is dropped or left incomplete by the conversion: there is one entry per log
  record, and every entry has a host, a source, a message, a timestamp and a field map without
  double keys, whatever is missing in the request.
\<close>

lemma otlp_entries_complete:
  assumes "\<forall>i. \<not> IsZero (now i)"
  shows "length (ParseOTLPLogs uuid now req) = record_count req \<and>
    (\<forall>e\<in>set (ParseOTLPLogs uuid now req).
       Host e \<noteq> '''' \<and> Source e \<noteq> '''' \<and> Message e \<noteq> '''' \<and> \<not> IsZero (Timestamp e) \<and> wf_map (Fields e))"
proof (intro conjI ballI)
  let ?recs = "concat (map resource_records req)"
  show "length (ParseOTLPLogs uuid now req) = record_count req"
    by (simp only: ParseOTLPLogs_def Let_def length_map length_zip length_upt length_records diff_zero min.idem)
  fix e
  assume "e \<in> set (ParseOTLPLogs uuid now req)"
  then obtain i ri source rec where m: "(i, ri, source, rec) \<in> set (zip [0..<length ?recs] ?recs)" and
      e: "e = record_entry (uuid i) (now i) ri source rec"
    by (auto simp: ParseOTLPLogs_def Let_def)
  from set_zip_rightD [OF m] obtain rl where "(ri, source, rec) \<in> set (resource_records rl)" by auto
  then have ri: "ri = resource_info_of (rl_Attributes rl)" and src: "source \<noteq> []"
    using resource_host [of "rl_Attributes rl"] by (auto simp: resource_records_def scope_records_def Let_def split: if_splits)
  show "Host e \<noteq> ''''" using resource_host by (simp add: e record_entry_def ri Let_def)
  show "Source e \<noteq> ''''" using src by (simp add: e record_entry_def Let_def)
  show "Message e \<noteq> ''''" by (simp add: e record_entry_def Let_def)
  have "\<not> IsZero (unix_utc n)" if "0 < n" for n using that by (simp add: IsZero_def unix_utc_def zero_time_def)
  then show "\<not> IsZero (Timestamp e)"
    using assms by (auto simp: e record_entry_def record_time_def Let_def split: option.splits)
  show "wf_map (Fields e)" by (simp add: e record_entry_def Let_def record_fields_wf)
qed

definition ex_otlp :: "otlp_resource_logs list" where
  "ex_otlp = [\<lparr>rl_Attributes = [], rl_ScopeLogs = [\<lparr>sl_ScopeName = '''', sl_LogRecords =
     [\<lparr>lr_TimeUnixNano = ''17x'', lr_ObservedTimeUnixNano = '''', lr_SeverityNumber = 17, lr_SeverityText = '''',
       lr_Body = \<lparr>av_StringValue = None, av_BoolValue = None, av_IntValue = None, av_DoubleValue = None\<rparr>,
       lr_Attributes = [], lr_TraceID = '''', lr_SpanID = ''s1''\<rparr>]\<rparr>]\<rparr>]"

lemma otlp_entries_complete_witness:
  "length (ParseOTLPLogs (\<lambda>i. ''u'') (\<lambda>i. unix_utc 5) ex_otlp) = record_count ex_otlp \<and>
    list_all (\<lambda>e. Host e \<noteq> '''' \<and> Source e \<noteq> '''' \<and> Message e \<noteq> '''' \<and> \<not> IsZero (Timestamp e) \<and> wf_map (Fields e))
      (ParseOTLPLogs (\<lambda>i. ''u'') (\<lambda>i. unix_utc 5) ex_otlp)"
  using otlp_entries_complete [of "\<lambda>i. unix_utc 5" "\<lambda>i. ''u''" ex_otlp]
  by (simp add: IsZero_def unix_utc_def zero_time_def list_all_iff)

end
