(* ===== verification/Dedup.thy ===== *)
theory Dedup
  imports Prelude
begin

text \<open>
  The idempotency cache of the server, \<open>internal/ingest/dedup.go\<close>: a doubly linked list in order
  of recency (\<open>container/list\<close>) with a map from IDs to list elements. An element of the list is
  a pointer; \<open>de_addr\<close> is its address and the map holds addresses. \<open>time.Now()\<close> is an
  argument.

  The specification is a recency list without bound and without expiry; the cache is proved
  to answer exactly as this list read through the window and the capacity.
\<close>

section \<open>Data\<close>

record dedup_entry =
  de_addr :: nat
  de_id :: string
  de_seenTime :: gotime

record dedup_cache =
  dc_window :: int
  dc_capacity :: int
  dc_index :: "(string, nat) gomap"
  dc_order :: "dedup_entry list"
  dc_next :: nat

section \<open>Operations\<close>

definition NewDedupCache :: "int \<Rightarrow> int \<Rightarrow> dedup_cache" where
  "NewDedupCache window capacity =
     \<lparr>dc_window = (if window \<le> 0 then 5 * 60 * 1000000000 else window),
      dc_capacity = (if capacity \<le> 0 then 50000 else capacity), dc_index = [], dc_order = [], dc_next = 0\<rparr>"

definition fresh :: "dedup_cache \<Rightarrow> gotime \<Rightarrow> dedup_entry \<Rightarrow> bool" where
  "fresh c now e \<longleftrightarrow> time_Sub now (de_seenTime e) \<le> dc_window c"

definition list_Remove :: "nat \<Rightarrow> dedup_entry list \<Rightarrow> dedup_entry list" where
  "list_Remove a es = remove_first (\<lambda>e. de_addr e = a) es"

definition removeTailLocked :: "dedup_cache \<Rightarrow> dedup_cache" where
  "removeTailLocked c =
     (if dc_order c = [] then c
      else c\<lparr>dc_order := butlast (dc_order c), dc_index := AList.delete (de_id (last (dc_order c))) (dc_index c)\<rparr>)"

function evictExpiredFromTailLocked :: "gotime \<Rightarrow> dedup_cache \<Rightarrow> dedup_cache" where
  "evictExpiredFromTailLocked now c =
     (if dc_order c = [] then c
      else if fresh c now (last (dc_order c)) then c
      else evictExpiredFromTailLocked now (removeTailLocked c))"
  by pat_completeness auto
termination
  by (relation "measure (\<lambda>(now, c). length (dc_order c))") (auto simp: removeTailLocked_def)

declare evictExpiredFromTailLocked.simps [simp del]

text \<open>
  \<open>for c.order.Len() >= c.capacity\<close>: on an empty list the loop of the code does not end when
  the capacity is not positive; \<open>NewDedupCache\<close> never makes such a cache.
\<close>

function removeOverCapacity :: "dedup_cache \<Rightarrow> dedup_cache" where
  "removeOverCapacity c =
     (if dc_capacity c \<le> int (length (dc_order c)) \<and> dc_order c \<noteq> [] then removeOverCapacity (removeTailLocked c)
      else c)"
  by pat_completeness auto
termination
  by (relation "measure (\<lambda>c. length (dc_order c))") (auto simp: removeTailLocked_def)

declare removeOverCapacity.simps [simp del]

definition IsDuplicate :: "gotime \<Rightarrow> string \<Rightarrow> dedup_cache \<Rightarrow> bool \<times> dedup_cache" where
  "IsDuplicate now i c =
     (if i = '''' then (False, c)
      else
        let insert_new = (\<lambda>c.
              let c = removeOverCapacity (evictExpiredFromTailLocked now c);
                  e = \<lparr>de_addr = dc_next c, de_id = i, de_seenTime = now\<rparr>
              in (False, c\<lparr>dc_order := e # dc_order c, dc_index := AList.update i (de_addr e) (dc_index c),
                           dc_next := Suc (dc_next c)\<rparr>))
        in
        case map_of (dc_index c) i of
          Some a \<Rightarrow>
            (case find (\<lambda>e. de_addr e = a) (dc_order c) of
               Some e \<Rightarrow>
                 if fresh c now e then
                   (True, c\<lparr>dc_order := e\<lparr>de_seenTime := now\<rparr> # list_Remove a (dc_order c)\<rparr>)
                 else insert_new (c\<lparr>dc_order := list_Remove a (dc_order c), dc_index := AList.delete i (dc_index c)\<rparr>)
             | None \<Rightarrow> insert_new c)
        | None \<Rightarrow> insert_new c)"

definition Len_dedup :: "dedup_cache \<Rightarrow> nat" where
  "Len_dedup c = length (dc_order c)"

section \<open>Specification\<close>

text \<open>IDs by recency, the latest first, each with the time it was last asked for.\<close>

type_synonym recency = "(string \<times> gotime) list"

definition touch :: "gotime \<Rightarrow> string \<Rightarrow> recency \<Rightarrow> recency" where
  "touch now i L = (i, now) # filter (\<lambda>p. fst p \<noteq> i) L"

definition seen_within :: "int \<Rightarrow> int \<Rightarrow> gotime \<Rightarrow> string \<Rightarrow> recency \<Rightarrow> bool" where
  "seen_within window capacity now i L \<longleftrightarrow>
     list_ex (\<lambda>p. fst p = i \<and> time_Sub now (snd p) \<le> window) (take (nat capacity) L)"

fun spec_run :: "int \<Rightarrow> int \<Rightarrow> recency \<Rightarrow> (gotime \<times> string) list \<Rightarrow> bool list" where
  "spec_run w cap L [] = []"
| "spec_run w cap L ((now, i) # calls) =
     (if i = '''' then False # spec_run w cap L calls
      else seen_within w cap now i L # spec_run w cap (touch now i L) calls)"

fun dedup_run :: "dedup_cache \<Rightarrow> (gotime \<times> string) list \<Rightarrow> bool list \<times> dedup_cache" where
  "dedup_run c [] = ([], c)"
| "dedup_run c ((now, i) # calls) =
     (let (b, c1) = IsDuplicate now i c; (bs, c2) = dedup_run c1 calls in (b # bs, c2))"

section \<open>Invariant\<close>

definition order_pairs :: "dedup_cache \<Rightarrow> recency" where
  "order_pairs c = map (\<lambda>e. (de_id e, de_seenTime e)) (dc_order c)"

definition dedup_inv :: "dedup_cache \<Rightarrow> bool" where
  "dedup_inv c \<longleftrightarrow> 0 < dc_capacity c \<and> int (length (dc_order c)) \<le> dc_capacity c \<and>
     distinct (map de_addr (dc_order c)) \<and> distinct (map de_id (dc_order c)) \<and>
     (\<forall>e\<in>set (dc_order c). de_addr e < dc_next c) \<and>
     map_of (dc_index c) = map_of (map (\<lambda>e. (de_id e, de_addr e)) (dc_order c))"

text \<open>
  The cache holds a prefix of the recency list, and unless it holds \<open>m\<close> elements what it does
  not hold has expired at the time of the last call.
\<close>

definition prefix_rel :: "int \<Rightarrow> gotime \<Rightarrow> dedup_cache \<Rightarrow> recency \<Rightarrow> bool" where
  "prefix_rel m now c L \<longleftrightarrow> dedup_inv c \<and> distinct (map fst L) \<and>
     sorted_wrt (\<lambda>p q. instant (snd q) \<le> instant (snd p)) L \<and> (\<forall>p\<in>set L. instant (snd p) \<le> instant now) \<and>
     order_pairs c = take (length (dc_order c)) L \<and>
     (int (length (dc_order c)) < m \<longrightarrow>
        (\<forall>p\<in>set (drop (length (dc_order c)) L). dc_window c < time_Sub now (snd p)))"

abbreviation dedup_rel :: "gotime \<Rightarrow> dedup_cache \<Rightarrow> recency \<Rightarrow> bool" where
  "dedup_rel now c L \<equiv> prefix_rel (dc_capacity c) now c L"

lemma time_Sub_mono: "instant u \<le> instant t \<Longrightarrow> instant n \<le> instant m \<Longrightarrow> time_Sub n t \<le> time_Sub m u"
  by (simp add: time_Sub_def)

lemma dedup_inv_New: "dedup_inv (NewDedupCache w cap)"
  by (simp add: dedup_inv_def NewDedupCache_def)

lemma dedup_rel_New: "dedup_rel now (NewDedupCache w cap) []"
  using dedup_inv_New [of w cap] by (simp add: prefix_rel_def order_pairs_def NewDedupCache_def)

section \<open>Removing from the tail\<close>

lemma map_of_delete_last:
  assumes "distinct (map f (xs @ [x]))"
  shows "(map_of (map (\<lambda>e. (f e, g e)) (xs @ [x])))(f x := None) = map_of (map (\<lambda>e. (f e, g e)) xs)"
proof -
  have "map_of (map (\<lambda>e. (f e, g e)) xs) (f x) = None"
    using assms by (auto simp: map_of_eq_None_iff)
  then show ?thesis by (auto simp: fun_eq_iff map_add_def split: option.splits)
qed

lemma removeTail_sel [simp]:
  "dc_order (removeTailLocked c) = butlast (dc_order c)" "dc_window (removeTailLocked c) = dc_window c"
  "dc_capacity (removeTailLocked c) = dc_capacity c" "dc_next (removeTailLocked c) = dc_next c"
  by (simp_all add: removeTailLocked_def)

lemma removeTail_inv:
  assumes "dedup_inv c"
  shows "dedup_inv (removeTailLocked c)"
proof (cases "dc_order c" rule: rev_cases)
  case Nil
  with assms show ?thesis by (simp add: removeTailLocked_def)
next
  case (snoc es e)
  with assms have "distinct (map de_id (es @ [e]))" by (simp add: dedup_inv_def)
  note del = map_of_delete_last [OF this, of de_addr]
  have "map_of (dc_index (removeTailLocked c)) = map_of (map (\<lambda>e. (de_id e, de_addr e)) es)"
    using assms snoc del by (simp add: removeTailLocked_def delete_conv' dedup_inv_def)
  with assms snoc show ?thesis by (auto simp: dedup_inv_def)
qed

lemma prefix_rel_removeTail:
  assumes rel: "prefix_rel m now c L" and ne: "dc_order c \<noteq> []"
    and ok: "m \<le> int (length (dc_order c)) - 1 \<or> dc_window c < time_Sub now (de_seenTime (last (dc_order c)))"
  shows "prefix_rel m now (removeTailLocked c) L"
proof -
  from ne obtain es e where es: "dc_order c = es @ [e]" by (cases "dc_order c" rule: rev_cases) auto
  let ?k = "length es"
  have ord: "order_pairs c = take (Suc ?k) L" using rel es by (simp add: prefix_rel_def)
  have len: "Suc ?k \<le> length L"
    using arg_cong [OF ord, of length] by (simp add: order_pairs_def es)
  have pre: "order_pairs (removeTailLocked c) = take ?k L"
    using arg_cong [OF ord, of butlast] len
    by (simp add: order_pairs_def es butlast_take map_butlast [symmetric])
  have nth: "L ! ?k = (de_id e, de_seenTime e)"
    using arg_cong [OF ord, of "\<lambda>xs. xs ! ?k"] by (simp add: order_pairs_def es nth_append)
  have srt: "sorted_wrt (\<lambda>p q. instant (snd q) \<le> instant (snd p)) L" using rel by (simp add: prefix_rel_def)
  have "dc_window c < time_Sub now (snd p)" if small: "int ?k < m" and p: "p \<in> set (drop ?k L)" for p
  proof -
    have old: "dc_window c < time_Sub now (de_seenTime e)" using ok small es by auto
    from p obtain j where j: "p = L ! (?k + j)" "?k + j < length L" by (auto simp: in_set_conv_nth)
    have "instant (snd p) \<le> instant (de_seenTime e)"
      using sorted_wrt_nth_less [OF srt, of ?k "?k + j"] j nth by (cases j) auto
    then have "time_Sub now (de_seenTime e) \<le> time_Sub now (snd p)" by (simp add: time_Sub_mono)
    with old show ?thesis by linarith
  qed
  with rel pre show ?thesis
    by (auto simp: prefix_rel_def removeTail_inv es)
qed

lemma evict_frame:
  "dc_window (evictExpiredFromTailLocked now c) = dc_window c \<and>
   dc_capacity (evictExpiredFromTailLocked now c) = dc_capacity c"
  by (induction now c rule: evictExpiredFromTailLocked.induct) (subst (1 2) evictExpiredFromTailLocked.simps, simp)

lemma prefix_rel_evict:
  "prefix_rel m now c L \<Longrightarrow> prefix_rel m now (evictExpiredFromTailLocked now c) L"
proof (induction now c rule: evictExpiredFromTailLocked.induct)
  case (1 now c)
  show ?case
  proof (cases "dc_order c = [] \<or> fresh c now (last (dc_order c))")
    case True
    with "1.prems" show ?thesis by (subst evictExpiredFromTailLocked.simps) auto
  next
    case False
    then have "prefix_rel m now (removeTailLocked c) L"
      using "1.prems" by (intro prefix_rel_removeTail) (auto simp: fresh_def)
    with "1.IH" False show ?thesis by (subst evictExpiredFromTailLocked.simps) auto
  qed
qed

lemma over_frame:
  "dc_window (removeOverCapacity c) = dc_window c \<and> dc_capacity (removeOverCapacity c) = dc_capacity c \<and>
   (int (length (dc_order (removeOverCapacity c))) < dc_capacity c \<or> dc_order (removeOverCapacity c) = [])"
proof (induction c rule: removeOverCapacity.induct)
  case (1 c)
  then show ?case by (subst (1 2 3 4) removeOverCapacity.simps) auto
qed

lemma prefix_rel_over:
  "prefix_rel m now c L \<Longrightarrow> m \<le> dc_capacity c - 1 \<Longrightarrow> prefix_rel m now (removeOverCapacity c) L"
proof (induction c rule: removeOverCapacity.induct)
  case (1 c)
  show ?case
  proof (cases "dc_capacity c \<le> int (length (dc_order c)) \<and> dc_order c \<noteq> []")
    case True
    then have "prefix_rel m now (removeTailLocked c) L"
      using "1.prems" by (intro prefix_rel_removeTail) auto
    with "1.IH" "1.prems" True show ?thesis by (subst removeOverCapacity.simps) simp
  next
    case False
    with "1.prems" show ?thesis by (subst removeOverCapacity.simps) auto
  qed
qed

section \<open>One call\<close>

definition insert_new :: "gotime \<Rightarrow> string \<Rightarrow> dedup_cache \<Rightarrow> dedup_cache" where
  "insert_new now i c =
     (let c = removeOverCapacity (evictExpiredFromTailLocked now c)
      in c\<lparr>dc_order := \<lparr>de_addr = dc_next c, de_id = i, de_seenTime = now\<rparr> # dc_order c,
           dc_index := AList.update i (dc_next c) (dc_index c), dc_next := Suc (dc_next c)\<rparr>)"

lemma order_ids_prefix: "prefix_rel m now c L \<Longrightarrow> de_id ` set (dc_order c) \<subseteq> fst ` set L"
proof -
  assume "prefix_rel m now c L"
  then have "map fst (order_pairs c) = take (length (dc_order c)) (map fst L)"
    by (simp add: prefix_rel_def take_map)
  then have "set (map de_id (dc_order c)) \<subseteq> set (map fst L)"
    by (simp add: order_pairs_def comp_def set_take_subset del: set_map)
  then show ?thesis by simp
qed

lemma insert_new_rel:
  assumes rel: "dedup_rel now c L" and new: "i \<notin> fst ` set L"
  shows "dedup_rel now (insert_new now i c) ((i, now) # L)"
    and "dc_window (insert_new now i c) = dc_window c" and "dc_capacity (insert_new now i c) = dc_capacity c"
proof -
  let ?c = "removeOverCapacity (evictExpiredFromTailLocked now c)"
  have "prefix_rel (dc_capacity c - 1) now c L" using rel by (simp add: prefix_rel_def)
  then have r: "prefix_rel (dc_capacity c - 1) now ?c L"
    using evict_frame [of now c] by (intro prefix_rel_over prefix_rel_evict) auto
  have fr: "dc_window ?c = dc_window c" "dc_capacity ?c = dc_capacity c"
    "int (length (dc_order ?c)) < dc_capacity c \<or> dc_order ?c = []"
    using over_frame [of "evictExpiredFromTailLocked now c"] evict_frame [of now c] by auto
  then show "dc_window (insert_new now i c) = dc_window c" "dc_capacity (insert_new now i c) = dc_capacity c"
    by (simp_all add: insert_new_def Let_def)
  have inv: "dedup_inv ?c" using r by (simp add: prefix_rel_def)
  have i: "i \<notin> de_id ` set (dc_order ?c)" using order_ids_prefix [OF r] new by blast
  have "dedup_inv (insert_new now i c)"
    using inv i fr
    by (auto simp: dedup_inv_def insert_new_def Let_def update_conv' dest: less_imp_neq less_SucI)
  then show "dedup_rel now (insert_new now i c) ((i, now) # L)"
    using r new fr by (auto simp: prefix_rel_def insert_new_def Let_def order_pairs_def)
qed

lemma remove_first_filter:
  "distinct (map f xs) \<Longrightarrow> remove_first (\<lambda>e. f e = k) xs = filter (\<lambda>e. f e \<noteq> k) xs"
proof (induction xs)
  case (Cons x xs)
  then show ?case by (auto simp: image_iff intro!: filter_True [symmetric])
qed simp

lemma find_unique:
  "distinct (map f xs) \<Longrightarrow> x \<in> set xs \<Longrightarrow> find (\<lambda>e. f e = f x) xs = Some x"
  by (induction xs) (auto simp: image_iff)

lemma index_lookup:
  assumes "dedup_inv c"
  shows "map_of (dc_index c) i = None \<Longrightarrow> i \<notin> de_id ` set (dc_order c)"
    and "map_of (dc_index c) i = Some a \<Longrightarrow>
      \<exists>e\<in>set (dc_order c). de_id e = i \<and> de_addr e = a \<and> find (\<lambda>e. de_addr e = a) (dc_order c) = Some e \<and>
        list_Remove a (dc_order c) = filter (\<lambda>e. de_id e \<noteq> i) (dc_order c)"
proof -
  have ix: "map_of (dc_index c) = map_of (map (\<lambda>e. (de_id e, de_addr e)) (dc_order c))"
    and dist: "distinct (map de_addr (dc_order c))" "distinct (map de_id (dc_order c))"
    using assms by (simp_all add: dedup_inv_def)
  show "i \<notin> de_id ` set (dc_order c)" if "map_of (dc_index c) i = None"
    using that by (simp add: ix map_of_eq_None_iff image_image)
  assume "map_of (dc_index c) i = Some a"
  then have "(i, a) \<in> set (map (\<lambda>e. (de_id e, de_addr e)) (dc_order c))"
    unfolding ix by (rule map_of_SomeD)
  then obtain e where e: "e \<in> set (dc_order c)" "de_id e = i" "de_addr e = a" by auto
  have "(de_addr x = a) = (de_id x = i)" if "x \<in> set (dc_order c)" for x
    using e that dist by (metis distinct_map inj_onD)
  then have "filter (\<lambda>e. de_addr e \<noteq> a) (dc_order c) = filter (\<lambda>e. de_id e \<noteq> i) (dc_order c)"
    by (auto intro: filter_cong)
  with e dist show "\<exists>e\<in>set (dc_order c). de_id e = i \<and> de_addr e = a \<and> find (\<lambda>e. de_addr e = a) (dc_order c) = Some e \<and>
        list_Remove a (dc_order c) = filter (\<lambda>e. de_id e \<noteq> i) (dc_order c)"
    unfolding list_Remove_def remove_first_filter [OF dist(1)] using find_unique [OF dist(1), of e] by auto
qed

lemma IsDuplicate_cases:
  assumes inv: "dedup_inv c" and i: "i \<noteq> ''''"
  obtains (miss) "i \<notin> de_id ` set (dc_order c)" "IsDuplicate now i c = (False, insert_new now i c)"
  | (hit) e where "e \<in> set (dc_order c)" "de_id e = i" "fresh c now e"
      "IsDuplicate now i c = (True, c\<lparr>dc_order := e\<lparr>de_seenTime := now\<rparr> # filter (\<lambda>e. de_id e \<noteq> i) (dc_order c)\<rparr>)"
  | (stale) e where "e \<in> set (dc_order c)" "de_id e = i" "\<not> fresh c now e"
      "IsDuplicate now i c =
        (False, insert_new now i (c\<lparr>dc_order := filter (\<lambda>e. de_id e \<noteq> i) (dc_order c), dc_index := AList.delete i (dc_index c)\<rparr>))"
proof (cases "map_of (dc_index c) i")
  case None
  with i index_lookup(1) [OF inv None] miss show thesis by (simp add: IsDuplicate_def insert_new_def Let_def)
next
  case (Some a)
  from index_lookup(2) [OF inv Some] obtain e where e: "e \<in> set (dc_order c)" "de_id e = i"
    "find (\<lambda>e. de_addr e = a) (dc_order c) = Some e"
    "list_Remove a (dc_order c) = filter (\<lambda>e. de_id e \<noteq> i) (dc_order c)" by blast
  show thesis
  proof (cases "fresh c now e")
    case True
    with i Some e hit show thesis by (simp add: IsDuplicate_def)
  next
    case False
    with i Some e stale show thesis by (simp add: IsDuplicate_def insert_new_def Let_def)
  qed
qed

text \<open>The relation in terms of the part \<open>R\<close> of the recency list that the cache does not hold.\<close>

lemma prefix_rel_split:
  "prefix_rel m now c L \<longleftrightarrow> dedup_inv c \<and>
     (\<exists>R. L = order_pairs c @ R \<and> distinct (map fst L) \<and> sorted_wrt (\<lambda>p q. instant (snd q) \<le> instant (snd p)) L \<and>
        (\<forall>p\<in>set L. instant (snd p) \<le> instant now) \<and>
        (int (length (dc_order c)) < m \<longrightarrow> (\<forall>p\<in>set R. dc_window c < time_Sub now (snd p))))"
proof -
  have len: "length (order_pairs c) = length (dc_order c)" by (simp add: order_pairs_def)
  have eq: "order_pairs c = take (length (dc_order c)) L \<and> Q (drop (length (dc_order c)) L) \<longleftrightarrow>
      (\<exists>R. L = order_pairs c @ R \<and> Q R)" for Q
  proof
    assume a: "order_pairs c = take (length (dc_order c)) L \<and> Q (drop (length (dc_order c)) L)"
    then have "L = order_pairs c @ drop (length (dc_order c)) L" by simp
    with a show "\<exists>R. L = order_pairs c @ R \<and> Q R" by blast
  next
    assume "\<exists>R. L = order_pairs c @ R \<and> Q R"
    then show "order_pairs c = take (length (dc_order c)) L \<and> Q (drop (length (dc_order c)) L)"
      using len by auto
  qed
  show ?thesis
    unfolding prefix_rel_def
    using eq [of "\<lambda>R. int (length (dc_order c)) < m \<longrightarrow> (\<forall>p\<in>set R. dc_window c < time_Sub now (snd p))"]
    by blast
qed

lemma prefix_rel_later:
  assumes "prefix_rel m prev c L" and "instant prev \<le> instant now"
  shows "prefix_rel m now c L"
proof -
  have "time_Sub prev t \<le> time_Sub now t" for t using assms(2) by (simp add: time_Sub_mono)
  then show ?thesis using assms unfolding prefix_rel_def by (meson less_le_trans order_trans)
qed

lemma filter_other_part:
  "(i, t) \<in> set P \<Longrightarrow> distinct (map fst (P @ R)) \<Longrightarrow> filter (\<lambda>p. fst p \<noteq> i) R = R"
  by (force simp: filter_id_conv)

lemma fst_order_pairs: "fst ` set (order_pairs c) = de_id ` set (dc_order c)"
  by (simp add: order_pairs_def image_image)

lemma map_of_without:
  "map_of (map (\<lambda>e. (f e, g e)) (filter (\<lambda>e. f e \<noteq> i) es)) = (map_of (map (\<lambda>e. (f e, g e)) es))(i := None)"
proof
  fix x
  show "map_of (map (\<lambda>e. (f e, g e)) (filter (\<lambda>e. f e \<noteq> i) es)) x = ((map_of (map (\<lambda>e. (f e, g e)) es))(i := None)) x"
    by (induction es) auto
qed

lemma filter_order_pairs:
  "order_pairs (c\<lparr>dc_order := filter (\<lambda>e. de_id e \<noteq> i) (dc_order c), dc_index := ix\<rparr>) = filter (\<lambda>p. fst p \<noteq> i) (order_pairs c)"
  by (simp add: order_pairs_def filter_map comp_def)

lemma dedup_inv_drop:
  assumes "dedup_inv c"
  shows "dedup_inv (c\<lparr>dc_order := filter (\<lambda>e. de_id e \<noteq> i) (dc_order c), dc_index := AList.delete i (dc_index c)\<rparr>)"
proof -
  have "int (length (filter (\<lambda>e. de_id e \<noteq> i) (dc_order c))) \<le> int (length (dc_order c))" by simp
  with assms have "int (length (filter (\<lambda>e. de_id e \<noteq> i) (dc_order c))) \<le> dc_capacity c"
    unfolding dedup_inv_def by linarith
  with assms show ?thesis by (auto simp: dedup_inv_def delete_conv' distinct_map_filter map_of_without)
qed

lemma seen_within_pair:
  assumes "distinct (map fst L)" and "(i, t) \<in> set (take (nat cap) L)"
  shows "seen_within w cap now i L \<longleftrightarrow> time_Sub now t \<le> w"
proof -
  have "p = (i, t)" if "p \<in> set (take (nat cap) L)" "fst p = i" for p
  proof -
    have "(i, snd p) \<in> set L" "(i, t) \<in> set L"
      using in_set_takeD [OF that(1)] in_set_takeD [OF assms(2)] that(2) by auto
    then have "snd p = t" by (rule eq_key_imp_eq_value [OF assms(1)])
    with that(2) show ?thesis by (simp add: prod_eq_iff)
  qed
  then show ?thesis
    unfolding seen_within_def list_ex_iff using assms(2) by (metis fst_conv snd_conv)
qed

text \<open>What a cache in relation with \<open>L\<close> knows of \<open>L\<close> without the ID that is asked for.\<close>

lemma rel_without:
  assumes "dedup_rel now c L"
  defines "L1 \<equiv> \<lambda>i. filter (\<lambda>p. fst p \<noteq> i) L"
  shows "distinct (map fst (L1 i))" and "sorted_wrt (\<lambda>p q. instant (snd q) \<le> instant (snd p)) (L1 i)"
    and "\<forall>p\<in>set (L1 i). instant (snd p) \<le> instant now" and "i \<notin> fst ` set (L1 i)"
  using assms by (auto simp: prefix_rel_def L1_def distinct_map_filter intro: sorted_wrt_filter)

lemma rel_rest:
  assumes "dedup_rel now c L"
  obtains R where "L = order_pairs c @ R" "set (order_pairs c) \<subseteq> set (take (nat (dc_capacity c)) L)"
    "int (length (dc_order c)) < dc_capacity c \<longrightarrow> (\<forall>p\<in>set R. dc_window c < time_Sub now (snd p))"
    "set (take (nat (dc_capacity c)) L) \<subseteq> set (order_pairs c) \<union> (if int (length (dc_order c)) < dc_capacity c then set R else {})"
proof -
  from assms obtain R where inv: "dedup_inv c" and L: "L = order_pairs c @ R"
    and R: "int (length (dc_order c)) < dc_capacity c \<longrightarrow> (\<forall>p\<in>set R. dc_window c < time_Sub now (snd p))"
    unfolding prefix_rel_split by blast
  have len: "length (order_pairs c) = length (dc_order c)" by (simp add: order_pairs_def)
  have "set (order_pairs c) \<subseteq> set (take (nat (dc_capacity c)) L)"
    using inv len by (auto simp: L dedup_inv_def)
  moreover have "set (take (nat (dc_capacity c)) L) \<subseteq>
      set (order_pairs c) \<union> (if int (length (dc_order c)) < dc_capacity c then set R else {})"
    using inv len by (auto simp: L dedup_inv_def dest: in_set_takeD)
  ultimately show thesis using that L R by blast
qed

lemma step_miss:
  assumes rel: "dedup_rel now c L" and i: "i \<notin> de_id ` set (dc_order c)"
  shows "\<not> seen_within (dc_window c) (dc_capacity c) now i L" and "dedup_rel now (insert_new now i c) (touch now i L)"
proof -
  obtain R where L: "L = order_pairs c @ R" and R: "int (length (dc_order c)) < dc_capacity c \<longrightarrow> (\<forall>p\<in>set R. dc_window c < time_Sub now (snd p))"
    and tk: "set (take (nat (dc_capacity c)) L) \<subseteq> set (order_pairs c) \<union> (if int (length (dc_order c)) < dc_capacity c then set R else {})"
    by (rule rel_rest [OF rel])
  have no: "p \<notin> set (order_pairs c)" if "fst p = i" for p
    using that i fst_order_pairs [of c] by (metis image_eqI)
  show "\<not> seen_within (dc_window c) (dc_capacity c) now i L"
  proof
    assume "seen_within (dc_window c) (dc_capacity c) now i L"
    then obtain p where p: "p \<in> set (take (nat (dc_capacity c)) L)" "fst p = i" "time_Sub now (snd p) \<le> dc_window c"
      by (auto simp: seen_within_def list_ex_iff)
    with tk no [OF p(2)] have "p \<in> set R" "int (length (dc_order c)) < dc_capacity c" by (auto split: if_splits)
    with R p(3) show False by fastforce
  qed
  have "filter (\<lambda>p. fst p \<noteq> i) (order_pairs c) = order_pairs c" using no by (auto simp: filter_id_conv)
  then have "dedup_rel now c (filter (\<lambda>p. fst p \<noteq> i) L)"
    unfolding prefix_rel_split using rel rel_without [OF rel, of i] R L
    by (intro conjI exI [of _ "filter (\<lambda>p. fst p \<noteq> i) R"]) (auto simp: prefix_rel_def)
  then show "dedup_rel now (insert_new now i c) (touch now i L)"
    using insert_new_rel(1) rel_without(4) [OF rel] by (simp add: touch_def)
qed

lemma step_stale:
  assumes rel: "dedup_rel now c L" and e: "e \<in> set (dc_order c)" "de_id e = i" "\<not> fresh c now e"
  defines "c1 \<equiv> c\<lparr>dc_order := filter (\<lambda>e. de_id e \<noteq> i) (dc_order c), dc_index := AList.delete i (dc_index c)\<rparr>"
  shows "\<not> seen_within (dc_window c) (dc_capacity c) now i L" and "dedup_rel now (insert_new now i c1) (touch now i L)"
proof -
  obtain R where L: "L = order_pairs c @ R" and tk: "set (order_pairs c) \<subseteq> set (take (nat (dc_capacity c)) L)"
    by (rule rel_rest [OF rel])
  have dist: "distinct (map fst L)" and srt: "sorted_wrt (\<lambda>p q. instant (snd q) \<le> instant (snd p)) L"
    and inv: "dedup_inv c" using rel by (simp_all add: prefix_rel_def)
  have eP: "(i, de_seenTime e) \<in> set (order_pairs c)" using e by (force simp: order_pairs_def)
  then show "\<not> seen_within (dc_window c) (dc_capacity c) now i L"
    using seen_within_pair [OF dist, of i "de_seenTime e"] tk e(3) by (auto simp: fresh_def)
  have noR: "filter (\<lambda>p. fst p \<noteq> i) R = R"
    using eP dist unfolding L by (rule filter_other_part)
  have "dc_window c < time_Sub now (snd p)" if "p \<in> set R" for p
  proof -
    have "instant (snd p) \<le> instant (de_seenTime e)"
      using srt eP that by (auto simp: L sorted_wrt_append)
    then have "time_Sub now (de_seenTime e) \<le> time_Sub now (snd p)" by (simp add: time_Sub_mono)
    with e(3) show ?thesis by (simp add: fresh_def)
  qed
  then have "dedup_rel now c1 (filter (\<lambda>p. fst p \<noteq> i) L)"
    unfolding prefix_rel_split using rel_without [OF rel, of i] noR L dedup_inv_drop [OF inv, of i]
    by (intro conjI exI [of _ R]) (auto simp: c1_def filter_order_pairs)
  then show "dedup_rel now (insert_new now i c1) (touch now i L)"
    using insert_new_rel(1) rel_without(4) [OF rel] by (simp add: touch_def)
qed

lemma step_hit:
  assumes rel: "dedup_rel now c L" and e: "e \<in> set (dc_order c)" "de_id e = i" "fresh c now e"
  defines "c1 \<equiv> c\<lparr>dc_order := e\<lparr>de_seenTime := now\<rparr> # filter (\<lambda>e. de_id e \<noteq> i) (dc_order c)\<rparr>"
  shows "seen_within (dc_window c) (dc_capacity c) now i L" and "dedup_rel now c1 (touch now i L)"
proof -
  obtain R where L: "L = order_pairs c @ R" and tk: "set (order_pairs c) \<subseteq> set (take (nat (dc_capacity c)) L)"
    and R: "int (length (dc_order c)) < dc_capacity c \<longrightarrow> (\<forall>p\<in>set R. dc_window c < time_Sub now (snd p))"
    by (rule rel_rest [OF rel])
  have dist: "distinct (map fst L)" and inv: "dedup_inv c" using rel by (simp_all add: prefix_rel_def)
  have eP: "(i, de_seenTime e) \<in> set (order_pairs c)" using e by (force simp: order_pairs_def)
  then show "seen_within (dc_window c) (dc_capacity c) now i L"
    using seen_within_pair [OF dist, of i "de_seenTime e"] tk e(3) by (auto simp: fresh_def)
  have noR: "filter (\<lambda>p. fst p \<noteq> i) R = R"
    using eP dist unfolding L by (rule filter_other_part)
  have ids: "distinct (map de_id (dc_order c))" using inv by (simp add: dedup_inv_def)
  have len: "length (dc_order c1) = length (dc_order c)"
    using ids e(1,2) sum_length_filter_compl [of "\<lambda>e. de_id e = i" "dc_order c"]
      distinct_map_filter_unique [OF ids e(1,2)] by (simp add: c1_def)
  have pairs: "order_pairs c1 = (i, now) # filter (\<lambda>p. fst p \<noteq> i) (order_pairs c)"
    using e(2) by (simp add: c1_def order_pairs_def filter_map comp_def)
  have "map_of (map (\<lambda>e. (de_id e, de_addr e)) (dc_order c1)) = map_of (map (\<lambda>e. (de_id e, de_addr e)) (dc_order c))"
  proof -
    have "map_of (map (\<lambda>e. (de_id e, de_addr e)) (dc_order c)) i = Some (de_addr e)"
      using e(1,2) ids by (force simp: comp_def intro!: map_of_is_SomeI)
    then show ?thesis using e(2) by (auto simp: c1_def map_of_without)
  qed
  moreover have "distinct (map de_addr (dc_order c1))"
    using inv e by (auto simp: c1_def dedup_inv_def distinct_map_filter distinct_map inj_on_def)
  ultimately have inv1: "dedup_inv c1"
    using inv len e by (auto simp: dedup_inv_def c1_def distinct_map_filter)
  show "dedup_rel now c1 (touch now i L)"
    unfolding prefix_rel_split using inv1 pairs rel_without [OF rel, of i] R len noR L
    by (intro conjI exI [of _ R]) (auto simp: touch_def c1_def)
qed

lemma IsDuplicate_step:
  assumes rel: "dedup_rel now c L" and i: "i \<noteq> ''''" and call: "IsDuplicate now i c = (b, c')"
  shows "b = seen_within (dc_window c) (dc_capacity c) now i L \<and> dedup_rel now c' (touch now i L) \<and>
    dc_window c' = dc_window c \<and> dc_capacity c' = dc_capacity c"
proof -
  have inv: "dedup_inv c" using rel by (simp add: prefix_rel_def)
  have frame: "dc_window (insert_new now i d) = dc_window d \<and> dc_capacity (insert_new now i d) = dc_capacity d" for d
    using over_frame [of "evictExpiredFromTailLocked now d"] evict_frame [of now d] by (simp add: insert_new_def Let_def)
  from inv i show ?thesis
  proof (cases rule: IsDuplicate_cases [where now = now])
    case miss
    with step_miss [OF rel miss(1)] frame call show ?thesis by auto
  next
    case (hit e)
    with step_hit [OF rel hit(1-3)] call show ?thesis by auto
  next
    case (stale e)
    with step_stale [OF rel stale(1-3)] frame call show ?thesis by auto
  qed
qed

section \<open>Properties\<close>

text \<open>Calls in the order of a clock that does not run backwards.\<close>

abbreviation in_time_order :: "(gotime \<times> string) list \<Rightarrow> bool" where
  "in_time_order \<equiv> sorted_wrt (\<lambda>p q. instant (fst p) \<le> instant (fst q))"

lemma dedup_run_rel:
  assumes "dedup_rel prev c L" and "in_time_order calls" and "\<forall>p\<in>set calls. instant prev \<le> instant (fst p)"
  shows "fst (dedup_run c calls) = spec_run (dc_window c) (dc_capacity c) L calls \<and>
    dedup_inv (snd (dedup_run c calls)) \<and>
    dc_capacity (snd (dedup_run c calls)) = dc_capacity c"
  using assms
proof (induction calls arbitrary: prev c L)
  case Nil
  then show ?case by (simp add: prefix_rel_def)
next
  case (Cons call calls)
  obtain now i where call: "call = (now, i)" by (cases call)
  have rel: "dedup_rel now c L"
    by (rule prefix_rel_later [OF Cons.prems(1)]) (use Cons.prems(3) in \<open>simp add: call\<close>)
  have rest: "in_time_order calls" "\<forall>p\<in>set calls. instant now \<le> instant (fst p)"
    using Cons.prems(2) by (simp_all add: call)
  obtain b c1 where b: "IsDuplicate now i c = (b, c1)" by fastforce
  have run: "fst (dedup_run c (call # calls)) = b # fst (dedup_run c1 calls)"
      "snd (dedup_run c (call # calls)) = snd (dedup_run c1 calls)"
    by (simp_all add: call b case_prod_beta)
  show ?case
  proof (cases "i = ''''")
    case True
    then have "b = False" "c1 = c" using b by (auto simp: IsDuplicate_def)
    with Cons.IH [OF rel rest] True show ?thesis unfolding run by (simp add: call)
  next
    case False
    note s = IsDuplicate_step [OF rel False b]
    then have "dedup_rel now c1 (touch now i L)" by blast
    from Cons.IH [OF this rest] have ih: "fst (dedup_run c1 calls) = spec_run (dc_window c1) (dc_capacity c1) (touch now i L) calls"
      "dedup_inv (snd (dedup_run c1 calls))" "dc_capacity (snd (dedup_run c1 calls)) = dc_capacity c1"
      by blast+
    have "spec_run (dc_window c) (dc_capacity c) L (call # calls) =
        b # spec_run (dc_window c) (dc_capacity c) (touch now i L) calls"
      using s False by (simp add: call)
    with ih s show ?thesis unfolding run by simp
  qed
qed

lemma dedup_run_New:
  fixes w cap :: int
  assumes "in_time_order calls"
  defines "c \<equiv> NewDedupCache w cap"
  shows "fst (dedup_run c calls) = spec_run (dc_window c) (dc_capacity c) [] calls"
    and "dedup_inv (snd (dedup_run c calls))" and "dc_capacity (snd (dedup_run c calls)) = dc_capacity c"
proof -
  have "\<exists>prev. \<forall>p\<in>set calls. instant (prev::gotime) \<le> instant (fst p)"
    using assms(1) by (cases calls) (auto intro!: exI [of _ "fst (hd calls)"])
  then obtain prev :: gotime where "\<forall>p\<in>set calls. instant prev \<le> instant (fst p)" by blast
  note r = dedup_run_rel [OF dedup_rel_New [of w cap prev] assms(1) this, folded c_def]
  then show "fst (dedup_run c calls) = spec_run (dc_window c) (dc_capacity c) [] calls"
    "dedup_inv (snd (dedup_run c calls))" "dc_capacity (snd (dedup_run c calls)) = dc_capacity c"
    by blast+
qed

text \<open>The recency list after a sequence of calls.\<close>

definition touches :: "(gotime \<times> string) list \<Rightarrow> recency \<Rightarrow> recency" where
  "touches = fold (\<lambda>call L. if snd call = '''' then L else touch (fst call) (snd call) L)"

lemma touches_simps [simp]:
  "touches [] L = L" "touches (call # calls) L = touches calls (if snd call = '''' then L else touch (fst call) (snd call) L)"
  by (simp_all add: touches_def)

lemma dedup_run_state:
  assumes "dedup_rel prev c L" and "in_time_order calls" and "\<forall>p\<in>set calls. instant prev \<le> instant (fst p)"
  shows "\<exists>now. dedup_rel now (snd (dedup_run c calls)) (touches calls L) \<and> (now = prev \<or> now \<in> fst ` set calls) \<and>
    dc_window (snd (dedup_run c calls)) = dc_window c \<and> dc_capacity (snd (dedup_run c calls)) = dc_capacity c"
  using assms
proof (induction calls arbitrary: prev c L)
  case Nil
  then show ?case by auto
next
  case (Cons call calls)
  obtain now i where call: "call = (now, i)" by (cases call)
  have rel: "dedup_rel now c L"
    by (rule prefix_rel_later [OF Cons.prems(1)]) (use Cons.prems(3) in \<open>simp add: call\<close>)
  have rest: "in_time_order calls" "\<forall>p\<in>set calls. instant now \<le> instant (fst p)"
    using Cons.prems(2) by (simp_all add: call)
  obtain b c1 where b: "IsDuplicate now i c = (b, c1)" by fastforce
  have c1: "dedup_rel now c1 (if i = '''' then L else touch now i L)" "dc_window c1 = dc_window c" "dc_capacity c1 = dc_capacity c"
  proof -
    have "i = '''' \<Longrightarrow> c1 = c" using b by (simp add: IsDuplicate_def)
    then show "dedup_rel now c1 (if i = '''' then L else touch now i L)" "dc_window c1 = dc_window c" "dc_capacity c1 = dc_capacity c"
      using rel IsDuplicate_step [OF rel _ b] by (cases "i = ''''", simp_all)+
  qed
  have run: "snd (dedup_run c (call # calls)) = snd (dedup_run c1 calls)" by (simp add: call b case_prod_beta)
  obtain u where u: "dedup_rel u (snd (dedup_run c1 calls)) (touches calls (if i = '''' then L else touch now i L))"
      "u = now \<or> u \<in> fst ` set calls"
      "dc_window (snd (dedup_run c1 calls)) = dc_window c" "dc_capacity (snd (dedup_run c1 calls)) = dc_capacity c"
    using Cons.IH [OF c1(1) rest] unfolding c1(2,3) by blast
  have "u = prev \<or> u \<in> fst ` set (call # calls)" using u(2) by (simp add: call)
  with u(1,3,4) show ?case unfolding run by (intro exI [of _ u]) (simp add: call split: if_splits)
qed

text \<open>
  \<open>front S t L\<close>: the most recent IDs of the list are exactly \<open>S\<close>, all of them seen at \<open>t\<close> or later.
\<close>

definition front :: "string set \<Rightarrow> gotime \<Rightarrow> recency \<Rightarrow> bool" where
  "front S t L \<longleftrightarrow> distinct (map fst L) \<and>
     (\<exists>P R. L = P @ R \<and> fst ` set P = S \<and> (\<forall>p\<in>set P. instant t \<le> instant (snd p)))"

lemma front_touch:
  assumes "front S t L" and "instant t \<le> instant now"
  shows "front (insert i S) t (touch now i L)"
proof -
  obtain P R where L: "L = P @ R" "fst ` set P = S" "\<forall>p\<in>set P. instant t \<le> instant (snd p)" "distinct (map fst L)"
    using assms(1) by (auto simp: front_def)
  let ?P = "(i, now) # filter (\<lambda>p. fst p \<noteq> i) P"
  have "touch now i L = ?P @ filter (\<lambda>p. fst p \<noteq> i) R" by (simp add: touch_def L(1))
  moreover have "fst ` set ?P = insert i S" using L(2) by auto
  moreover have "\<forall>p\<in>set ?P. instant t \<le> instant (snd p)" using L(3) assms(2) by auto
  moreover have "distinct (map fst (touch now i L))" using L(4) by (auto simp: touch_def distinct_map_filter)
  ultimately show ?thesis unfolding front_def by blast
qed

lemma front_touches:
  assumes "front S t L" and "\<forall>c\<in>set calls. instant t \<le> instant (fst c) \<and> snd c \<noteq> ''''"
  shows "front (S \<union> snd ` set calls) t (touches calls L)"
  using assms
proof (induction calls arbitrary: S L)
  case (Cons call calls)
  have "front (insert (snd call) S) t (touch (fst call) (snd call) L)" using Cons.prems by (intro front_touch) auto
  from Cons.IH [OF this] Cons.prems(2) show ?case by simp
qed simp

lemma front_seen:
  assumes "front S t L" and "i \<in> S" and "int (card S) \<le> cap" and "time_Sub now t \<le> w"
  shows "seen_within w cap now i L"
proof -
  obtain P R where L: "L = P @ R" "fst ` set P = S" "\<forall>p\<in>set P. instant t \<le> instant (snd p)" "distinct (map fst L)"
    using assms(1) by (auto simp: front_def)
  have "distinct (map fst P)" using L(1,4) by simp
  then have "length P = card S" using L(2) by (metis distinct_card length_map list.set_map)
  then have "set P \<subseteq> set (take (nat cap) L)" using assms(3) by (auto simp: L(1))
  moreover obtain u where "(i, u) \<in> set P" using assms(2) L(2) by force
  moreover have "time_Sub now u \<le> w"
    using L(3) \<open>(i, u) \<in> set P\<close> assms(4) time_Sub_mono [of t u now now] by fastforce
  ultimately show ?thesis unfolding seen_within_def list_ex_iff by (intro bexI [of _ "(i, u)"]) auto
qed

lemma spec_run_front:
  assumes "front S t L" and "int (card S) \<le> cap"
    and "\<forall>c\<in>set calls. snd c \<in> S \<and> snd c \<noteq> '''' \<and> instant t \<le> instant (fst c) \<and> time_Sub (fst c) t \<le> w"
  shows "spec_run w cap L calls = replicate (length calls) True"
  using assms(1,3)
proof (induction calls arbitrary: L)
  case (Cons call calls)
  obtain now i where call: "call = (now, i)" by (cases call)
  have i: "i \<in> S" "i \<noteq> ''''" "instant t \<le> instant now" "time_Sub now t \<le> w" using Cons.prems(2) by (simp_all add: call)
  have "front S t (touch now i L)" using front_touch [OF Cons.prems(1) i(3), of i] i(1) by (simp add: insert_absorb)
  with Cons i front_seen [OF Cons.prems(1) i(1) assms(2) i(4)] show ?case by (simp add: call)
qed simp

definition ex_calls :: "(gotime \<times> string) list" where
  "ex_calls = [(unix_utc 0, ''a''), (unix_utc 10, ''b''), (unix_utc 90, ''a''), (unix_utc 120, ''b''), (unix_utc 125, ''c''), (unix_utc 126, ''a'')]"

lemma ex_calls_order: "in_time_order ex_calls"
  by (simp add: ex_calls_def unix_utc_def)

text \<open>
  C20. The cache answers exactly like an unbounded recency list: an ID is a duplicate if and only
  if it is among the \<open>capacity\<close> most recently seen distinct IDs and was last seen within the
  window. In particular there are no false positives, and an ID is forgotten early only when
  at least \<open>capacity\<close> other IDs were seen since; linked list, index and lazy expiry do not show.
\<close>

theorem dedup_refines_recency_list:
  assumes "in_time_order calls"
  shows "fst (dedup_run (NewDedupCache w cap) calls) =
    spec_run (dc_window (NewDedupCache w cap)) (dc_capacity (NewDedupCache w cap)) [] calls"
  by (rule dedup_run_New(1) [OF assms])

theorem dedup_refines_recency_list_witness:
  "fst (dedup_run (NewDedupCache 100 2) ex_calls) = [False, False, True, False, False, False] \<and>
   spec_run 100 2 [] ex_calls = [False, False, True, False, False, False]"
proof -
  have "fst (dedup_run (NewDedupCache 100 2) ex_calls) = [False, False, True, False, False, False]" by code_simp
  with dedup_refines_recency_list [OF ex_calls_order, of 100 2] show ?thesis by (simp add: NewDedupCache_def)
qed

text \<open>
  The cache never holds more than its capacity, and list and index stay consistent: they hold
  the same IDs, each once, and every index entry points to the list element of its ID.
\<close>

lemma dedup_bounded:
  fixes w cap :: int
  assumes "in_time_order calls"
  defines "c \<equiv> snd (dedup_run (NewDedupCache w cap) calls)"
  shows "int (Len_dedup c) \<le> dc_capacity (NewDedupCache w cap) \<and> distinct (map de_id (dc_order c)) \<and>
    (\<forall>i a. map_of (dc_index c) i = Some a \<longleftrightarrow> (\<exists>e\<in>set (dc_order c). de_id e = i \<and> de_addr e = a))"
proof -
  have inv: "dedup_inv c" and cap: "dc_capacity c = dc_capacity (NewDedupCache w cap)"
    using dedup_run_New(2,3) [OF assms(1), of w cap] by (simp_all add: c_def)
  have "map_of (map (\<lambda>e. (de_id e, de_addr e)) (dc_order c)) i = Some a \<longleftrightarrow>
      (i, a) \<in> set (map (\<lambda>e. (de_id e, de_addr e)) (dc_order c))" for i a
    using inv by (intro map_of_eq_Some_iff) (simp add: dedup_inv_def comp_def)
  with inv cap show ?thesis by (auto simp: dedup_inv_def Len_dedup_def)
qed

lemma dedup_bounded_witness:
  "int (Len_dedup (snd (dedup_run (NewDedupCache 100 2) ex_calls))) \<le> 2"
  using dedup_bounded [OF ex_calls_order, of 100 2] by (simp add: NewDedupCache_def)

end
