(* ===== verification/Hub.thy ===== *)
theory Hub
  imports RecentBuffer
begin

text \<open>
  The live stream of the server, \<open>internal/stream/hub.go\<close> and the client queue of
  \<open>internal/stream/client.go\<close>. A client is a pointer, here its address; its buffered channel
  \<open>send\<close> is in the heap \<open>hb_chan\<close>. Sending on a closed channel and closing a channel twice are
  run-time panics, which every operation can return. \<open>json.Marshal\<close> of a message is the
  argument \<open>marshal\<close>. The maps of clients are lists in the order of one iteration. Sockets,
  deadlines and metrics are not modelled; the writer goroutine \<open>WritePump\<close> gets its wake-ups
  and the outcomes of its writes as arguments.

  The operations that hold the hub's mutex are single steps. \<open>Upgrade\<close> releases it between
  its parts, so it is modelled in the three steps between which other goroutines can run.
\<close>

section \<open>Data\<close>

datatype payload = Entry log_entry | Entries "log_entry list"

record message =
  m_Type :: string
  m_Data :: payload

record chan =
  ch_cap :: nat
  ch_buf :: "string list"
  ch_closed :: bool

datatype hub_panic = SendOnClosed | CloseOfClosed

datatype hub_error = ErrHubClosed | ErrMaxClientsReached

record hub =
  hb_MaxClients :: int
  hb_ClientBufferSize :: int
  hb_recent :: recent_buffer
  hb_clients :: "nat list"
  hb_closed :: bool
  hb_chan :: "nat \<Rightarrow> chan"

type_synonym marshaller = "message \<Rightarrow> string option"

section \<open>Channels\<close>

text \<open>The \<open>select\<close> with a default case: enqueue, or report a full buffer.\<close>

definition SendMessage :: "marshaller \<Rightarrow> message \<Rightarrow> chan \<Rightarrow> (hub_panic, bool \<times> chan) result" where
  "SendMessage marshal msg c =
     (case marshal msg of
        None \<Rightarrow> Inr (True, c)
      | Some data \<Rightarrow>
          if ch_closed c then Inl SendOnClosed
          else if length (ch_buf c) < ch_cap c then Inr (True, c\<lparr>ch_buf := ch_buf c @ [data]\<rparr>)
          else Inr (False, c))"

definition chan_close :: "chan \<Rightarrow> (hub_panic, chan) result" where
  "chan_close c = (if ch_closed c then Inl CloseOfClosed else Inr (c\<lparr>ch_closed := True\<rparr>))"

text \<open>One turn of the writer: the first message and all that are queued behind it form one frame.\<close>

definition WritePump_drain :: "chan \<Rightarrow> string list \<times> chan" where
  "WritePump_drain c = (ch_buf c, c\<lparr>ch_buf := []\<rparr>)"

text \<open>
  The writer goroutine, as the frames it sends for a sequence of wake-ups: the channel is ready (with whether the
  connection opens and whether it completes a frame), or the ping timer fires. On a failure it
  returns; a closed channel is reported to the peer once it is empty.
\<close>

datatype frame = TextFrame "string list" | PingFrame | CloseFrame

datatype pump_event = Ready bool bool | PingTimer bool

fun WritePump :: "pump_event list \<Rightarrow> chan \<Rightarrow> frame list \<times> chan" where
  "WritePump [] c = ([], c)"
| "WritePump (PingTimer sent # evs) c = (if sent then apfst ((#) PingFrame) (WritePump evs c) else ([], c))"
| "WritePump (Ready opened completed # evs) c =
     (case ch_buf c of
        [] \<Rightarrow> if ch_closed c then ([CloseFrame], c) else WritePump evs c
      | m # ms \<Rightarrow>
          if \<not> opened then ([], c\<lparr>ch_buf := ms\<rparr>)
          else
            case WritePump_drain c of
              (msgs, c') \<Rightarrow> if completed then apfst ((#) (TextFrame msgs)) (WritePump evs c') else ([], c'))"

definition NewClient :: "int \<Rightarrow> chan" where
  "NewClient bufferSize = \<lparr>ch_cap = nat (if bufferSize \<le> 0 then 256 else bufferSize), ch_buf = [], ch_closed = False\<rparr>"

section \<open>Operations\<close>

definition NewHub :: "int \<Rightarrow> int \<Rightarrow> int \<Rightarrow> recent_buffer option \<Rightarrow> hub" where
  "NewHub maxClients bufferSize recentEvents recent =
     \<lparr>hb_MaxClients = maxClients, hb_ClientBufferSize = bufferSize,
      hb_recent = (case recent of None \<Rightarrow> NewRecentBuffer recentEvents | Some r \<Rightarrow> r),
      hb_clients = [], hb_closed = False, hb_chan = (\<lambda>_. NewClient bufferSize)\<rparr>"

definition Register :: "nat \<Rightarrow> hub \<Rightarrow> hub" where
  "Register c h =
     (if hb_closed h then h
      else h\<lparr>hb_clients := (if c \<in> set (hb_clients h) then hb_clients h else hb_clients h @ [c])\<rparr>)"

definition Unregister :: "nat \<Rightarrow> hub \<Rightarrow> (hub_panic, hub) result" where
  "Unregister c h =
     (if c \<in> set (hb_clients h) then
        case chan_close (hb_chan h c) of
          Inl p \<Rightarrow> Inl p
        | Inr ch \<Rightarrow> Inr (h\<lparr>hb_clients := filter (\<lambda>d. d \<noteq> c) (hb_clients h), hb_chan := (hb_chan h)(c := ch)\<rparr>)
      else Inr h)"

text \<open>The reader goroutine reads until the connection ends; then it unregisters its client.\<close>

definition ReadPump :: "nat \<Rightarrow> hub \<Rightarrow> (hub_panic, hub) result" where
  "ReadPump c h = Unregister c h"

text \<open>One round of a broadcast: the message goes to every client that is not known to be slow.\<close>

fun send_clients ::
  "marshaller \<Rightarrow> message \<Rightarrow> nat list \<Rightarrow> (nat \<Rightarrow> chan) \<times> nat list \<Rightarrow> (hub_panic, (nat \<Rightarrow> chan) \<times> nat list) result" where
  "send_clients marshal msg [] st = Inr st"
| "send_clients marshal msg (c # cs) (chans, slow) =
     (if c \<in> set slow then send_clients marshal msg cs (chans, slow)
      else
        case SendMessage marshal msg (chans c) of
          Inl p \<Rightarrow> Inl p
        | Inr (ok, ch) \<Rightarrow> send_clients marshal msg cs (chans(c := ch), if ok then slow else slow @ [c]))"

fun send_messages ::
  "marshaller \<Rightarrow> message list \<Rightarrow> nat list \<Rightarrow> (nat \<Rightarrow> chan) \<times> nat list \<Rightarrow> (hub_panic, (nat \<Rightarrow> chan) \<times> nat list) result" where
  "send_messages marshal [] cs st = Inr st"
| "send_messages marshal (m # ms) cs st =
     (case send_clients marshal m cs st of Inl p \<Rightarrow> Inl p | Inr st' \<Rightarrow> send_messages marshal ms cs st')"

fun disconnect_slow :: "nat list \<Rightarrow> hub \<Rightarrow> (hub_panic, hub) result" where
  "disconnect_slow [] h = Inr h"
| "disconnect_slow (c # cs) h = (case Unregister c h of Inl p \<Rightarrow> Inl p | Inr h' \<Rightarrow> disconnect_slow cs h')"

definition Broadcast :: "marshaller \<Rightarrow> log_entry list \<Rightarrow> hub \<Rightarrow> (hub_panic, hub) result" where
  "Broadcast marshal entries h =
     (if entries = [] then Inr h
      else
        let h = h\<lparr>hb_recent := AddBatch entries (hb_recent h)\<rparr>
        in if hb_closed h then Inr h
           else
             case send_messages marshal (map (\<lambda>e. \<lparr>m_Type = ''log'', m_Data = Entry e\<rparr>) entries)
                    (hb_clients h) (hb_chan h, []) of
               Inl p \<Rightarrow> Inl p
             | Inr (chans, slow) \<Rightarrow> disconnect_slow slow (h\<lparr>hb_chan := chans\<rparr>))"

definition BroadcastBatch :: "marshaller \<Rightarrow> log_entry list \<Rightarrow> hub \<Rightarrow> (hub_panic, hub) result" where
  "BroadcastBatch marshal entries h =
     (if entries = [] then Inr h
      else
        let h = h\<lparr>hb_recent := AddBatch entries (hb_recent h)\<rparr>
        in if hb_closed h then Inr h
           else
             case send_clients marshal \<lparr>m_Type = ''log_batch'', m_Data = Entries entries\<rparr>
                    (hb_clients h) (hb_chan h, []) of
               Inl p \<Rightarrow> Inl p
             | Inr (chans, slow) \<Rightarrow> disconnect_slow slow (h\<lparr>hb_chan := chans\<rparr>))"

definition ClientCount :: "hub \<Rightarrow> nat" where
  "ClientCount h = length (hb_clients h)"

definition Close_hub :: "hub \<Rightarrow> (hub_panic, hub) result" where
  "Close_hub h = disconnect_slow (hb_clients h) (h\<lparr>hb_closed := True\<rparr>)"

text \<open>The three steps of \<open>Upgrade\<close>; the channel of the new client is made by \<open>NewClient\<close>.\<close>

definition Upgrade_check :: "hub \<Rightarrow> (hub_error, unit) result" where
  "Upgrade_check h =
     (if hb_closed h then Inl ErrHubClosed
      else if hb_MaxClients h \<le> int (length (hb_clients h)) then Inl ErrMaxClientsReached
      else Inr ())"

definition Upgrade_register :: "nat \<Rightarrow> hub \<Rightarrow> hub" where
  "Upgrade_register c h = Register c (h\<lparr>hb_chan := (hb_chan h)(c := NewClient (hb_ClientBufferSize h))\<rparr>)"

definition Upgrade_replay :: "marshaller \<Rightarrow> nat \<Rightarrow> hub \<Rightarrow> (hub_panic, hub) result" where
  "Upgrade_replay marshal c h =
     (case SendMessage marshal \<lparr>m_Type = ''recent_batch'', m_Data = Entries (Snapshot 100 (hb_recent h))\<rparr> (hb_chan h c) of
        Inl p \<Rightarrow> Inl p
      | Inr (ok, ch) \<Rightarrow> Inr (h\<lparr>hb_chan := (hb_chan h)(c := ch)\<rparr>))"

section \<open>The writer\<close>

fun frame_messages :: "frame \<Rightarrow> string list" where
  "frame_messages (TextFrame msgs) = msgs"
| "frame_messages PingFrame = []"
| "frame_messages CloseFrame = []"

text \<open>The writer sends what is queued, in order and once: as long as the connection works, the frames and what is left make up the queue.\<close>

lemma WritePump_sends:
  assumes "list_all (\<lambda>ev. case ev of Ready opened completed \<Rightarrow> opened \<and> completed | PingTimer sent \<Rightarrow> sent) evs"
  shows "concat (map frame_messages (fst (WritePump evs c))) @ ch_buf (snd (WritePump evs c)) = ch_buf c"
  using assms by (induction evs c rule: WritePump.induct) (auto simp: WritePump_drain_def split: list.splits)

section \<open>Delivery to one client\<close>

text \<open>What one client sees of a sequence of messages: delivery stops at the first one that does not fit.\<close>

fun feed :: "marshaller \<Rightarrow> message list \<Rightarrow> chan \<Rightarrow> bool \<times> chan" where
  "feed marshal [] c = (True, c)"
| "feed marshal (m # ms) c =
     (case marshal m of
        None \<Rightarrow> feed marshal ms c
      | Some data \<Rightarrow>
          if length (ch_buf c) < ch_cap c then feed marshal ms (c\<lparr>ch_buf := ch_buf c @ [data]\<rparr>) else (False, c))"

definition payloads :: "marshaller \<Rightarrow> message list \<Rightarrow> string list" where
  "payloads marshal ms = List.map_filter marshal ms"

definition room :: "chan \<Rightarrow> nat" where
  "room c = ch_cap c - length (ch_buf c)"

lemma payloads_simps [simp]:
  "payloads marshal [] = []"
  "payloads marshal (m # ms) = (case marshal m of None \<Rightarrow> payloads marshal ms | Some d \<Rightarrow> d # payloads marshal ms)"
  by (simp_all add: payloads_def List.map_filter_simps split: option.split)

lemma feed_closed_form:
  "length (ch_buf c) \<le> ch_cap c \<Longrightarrow>
   feed marshal ms c =
     (length (payloads marshal ms) \<le> room c, c\<lparr>ch_buf := ch_buf c @ take (room c) (payloads marshal ms)\<rparr>)"
proof (induction marshal ms c rule: feed.induct)
  case (2 marshal m ms c)
  show ?case
  proof (cases "marshal m")
    case None
    with 2 show ?thesis by simp
  next
    case (Some d)
    show ?thesis
    proof (cases "length (ch_buf c) < ch_cap c")
      case True
      then obtain r where r: "room c = Suc r" "room (c\<lparr>ch_buf := ch_buf c @ [d]\<rparr>) = r"
        by (cases "room c") (auto simp: room_def)
      with 2(2) [OF Some True] True Some show ?thesis by simp
    next
      case False
      with "2.prems" Some show ?thesis by (simp add: room_def)
    qed
  qed
qed simp

lemma SendMessage_feed:
  "\<not> ch_closed c \<Longrightarrow> SendMessage marshal msg c = Inr (feed marshal [msg] c)"
  by (auto simp: SendMessage_def split: option.splits)

lemma feed_closed [simp]: "ch_closed (snd (feed marshal ms c)) = ch_closed c"
  by (induction marshal ms c rule: feed.induct) (auto split: option.splits)

lemma feed_append:
  "feed marshal (xs @ ys) c = (let (ok, c') = feed marshal xs c in if ok then feed marshal ys c' else (False, c'))"
  by (induction marshal xs c rule: feed.induct) (auto split: option.splits)

text \<open>A round, and all rounds, of a broadcast.\<close>

definition sent :: "marshaller \<Rightarrow> message list \<Rightarrow> nat list \<Rightarrow> (nat \<Rightarrow> chan) \<times> nat list \<Rightarrow> (nat \<Rightarrow> chan) \<times> nat list \<Rightarrow> bool" where
  "sent marshal ms cs st st' \<longleftrightarrow>
     (\<forall>c. fst st' c = (if c \<in> set cs - set (snd st) then snd (feed marshal ms (fst st c)) else fst st c)) \<and>
     set (snd st') = set (snd st) \<union> {c \<in> set cs - set (snd st). \<not> fst (feed marshal ms (fst st c))} \<and>
     (distinct (snd st) \<longrightarrow> distinct (snd st'))"

lemma sent_Cons:
  assumes "sent marshal ms cs (chans(c := ch), if ok then slow else slow @ [c]) st'" and "feed marshal ms (chans c) = (ok, ch)"
    and "c \<notin> set cs" and "c \<notin> set slow"
  shows "sent marshal ms (c # cs) (chans, slow) st'"
proof -
  let ?slow = "if ok then slow else slow @ [c]"
  from assms(1) have s: "\<And>d. fst st' d = (if d \<in> set cs - set ?slow then snd (feed marshal ms ((chans(c := ch)) d)) else (chans(c := ch)) d)"
    "set (snd st') = set ?slow \<union> {d \<in> set cs - set ?slow. \<not> fst (feed marshal ms ((chans(c := ch)) d))}"
    "distinct ?slow \<longrightarrow> distinct (snd st')" unfolding sent_def fst_conv snd_conv by blast+
  have "fst st' d = (if d \<in> set (c # cs) - set slow then snd (feed marshal ms (chans d)) else chans d)" for d
    using s(1) [of d] assms(2-4) by (cases "d = c") auto
  moreover have "{d \<in> set cs - set ?slow. \<not> fst (feed marshal ms ((chans(c := ch)) d))} =
      {d \<in> set cs - set slow. \<not> fst (feed marshal ms (chans d))}" using assms(3) by auto
  with s(2) have "set (snd st') = set slow \<union> {d \<in> set (c # cs) - set slow. \<not> fst (feed marshal ms (chans d))}"
    using assms(2,4) by auto
  moreover have "distinct slow \<longrightarrow> distinct (snd st')" using s(3) assms(4) by (auto split: if_splits)
  ultimately show ?thesis unfolding sent_def fst_conv snd_conv by blast
qed

lemma send_clients_sent:
  "distinct cs \<Longrightarrow> \<forall>c\<in>set cs. \<not> ch_closed (fst st c) \<Longrightarrow>
   \<exists>st'. send_clients marshal msg cs st = Inr st' \<and> sent marshal [msg] cs st st'"
proof (induction cs arbitrary: st)
  case Nil
  then show ?case by (simp add: sent_def)
next
  case (Cons c cs)
  obtain chans slow where st: "st = (chans, slow)" by (cases st)
  show ?case
  proof (cases "c \<in> set slow")
    case True
    obtain st' where s: "send_clients marshal msg cs st = Inr st'" "sent marshal [msg] cs st st'"
      using Cons.IH [of st] Cons.prems by auto
    have eq: "set (c # cs) - set (snd st) = set cs - set (snd st)" using True st by auto
    have "sent marshal [msg] (c # cs) st st'" using s(2) unfolding sent_def eq .
    with s(1) True st show ?thesis by simp
  next
    case False
    obtain ok ch where f: "feed marshal [msg] (chans c) = (ok, ch)" by fastforce
    let ?st = "(chans(c := ch), if ok then slow else slow @ [c])"
    have "\<forall>d\<in>set cs. \<not> ch_closed (fst ?st d)" using Cons.prems st by auto
    then obtain st' where s: "send_clients marshal msg cs ?st = Inr st'" "sent marshal [msg] cs ?st st'"
      using Cons.IH [of ?st] Cons.prems(1) by (metis distinct.simps(2))
    have "send_clients marshal msg (c # cs) st = Inr st'"
      using s(1) False Cons.prems(2) SendMessage_feed [of "chans c" marshal msg] f by (simp add: st)
    moreover have "sent marshal [msg] (c # cs) st st'"
      unfolding st by (rule sent_Cons [OF s(2) f]) (use False Cons.prems(1) in auto)
    ultimately show ?thesis by blast
  qed
qed

lemma send_messages_sent:
  "distinct cs \<Longrightarrow> \<forall>c\<in>set cs. \<not> ch_closed (fst st c) \<Longrightarrow>
   \<exists>st'. send_messages marshal ms cs st = Inr st' \<and> sent marshal ms cs st st'"
proof (induction ms arbitrary: st)
  case Nil
  then show ?case by (simp add: sent_def)
next
  case (Cons m ms)
  obtain st1 where s1: "send_clients marshal m cs st = Inr st1" "sent marshal [m] cs st st1"
    using send_clients_sent [OF Cons.prems] by blast
  have "\<forall>c\<in>set cs. \<not> ch_closed (fst st1 c)"
    using s1(2) Cons.prems(2) by (simp add: sent_def del: feed.simps)
  with Cons obtain st2 where s2: "send_messages marshal ms cs st1 = Inr st2" "sent marshal ms cs st1 st2" by blast
  have app: "feed marshal (m # ms) c = (let (ok, c') = feed marshal [m] c in if ok then feed marshal ms c' else (False, c'))" for c
    using feed_append [of marshal "[m]" ms c] by simp
  have "sent marshal (m # ms) cs st st2"
    unfolding sent_def
  proof (intro conjI allI impI)
    fix c
    show "fst st2 c = (if c \<in> set cs - set (snd st) then snd (feed marshal (m # ms) (fst st c)) else fst st c)"
      using s1(2) s2(2) unfolding sent_def app by (auto simp: Let_def case_prod_beta simp del: feed.simps)
  next
    show "set (snd st2) = set (snd st) \<union> {c \<in> set cs - set (snd st). \<not> fst (feed marshal (m # ms) (fst st c))}"
      using s1(2) s2(2) unfolding sent_def app by (auto simp: Let_def case_prod_beta simp del: feed.simps split: if_splits)
  next
    assume "distinct (snd st)"
    then show "distinct (snd st2)" using s1(2) s2(2) by (simp add: sent_def)
  qed
  with s1(1) s2(1) show ?case by auto
qed

section \<open>Invariant\<close>

definition hub_inv :: "hub \<Rightarrow> bool" where
  "hub_inv h \<longleftrightarrow> distinct (hb_clients h) \<and>
     (\<forall>c\<in>set (hb_clients h). \<not> ch_closed (hb_chan h c) \<and> length (ch_buf (hb_chan h c)) \<le> ch_cap (hb_chan h c)) \<and>
     rb_inv (hb_recent h) \<and> (hb_closed h \<longrightarrow> hb_clients h = [])"

lemma hub_inv_New: "hub_inv (NewHub m b r None)"
  by (simp add: hub_inv_def NewHub_def rb_inv_New)

lemma disconnect_slow_ok:
  "distinct (hb_clients h) \<Longrightarrow> \<forall>c\<in>set (hb_clients h). \<not> ch_closed (hb_chan h c) \<Longrightarrow>
   disconnect_slow slow h = Inr
     (h\<lparr>hb_clients := filter (\<lambda>c. c \<notin> set slow) (hb_clients h),
        hb_chan := (\<lambda>c. if c \<in> set slow \<inter> set (hb_clients h) then (hb_chan h c)\<lparr>ch_closed := True\<rparr> else hb_chan h c)\<rparr>)"
proof (induction slow arbitrary: h)
  case (Cons c slow)
  show ?case
  proof (cases "c \<in> set (hb_clients h)")
    case True
    let ?h = "h\<lparr>hb_clients := filter (\<lambda>d. d \<noteq> c) (hb_clients h), hb_chan := (hb_chan h)(c := (hb_chan h c)\<lparr>ch_closed := True\<rparr>)\<rparr>"
    have u: "Unregister c h = Inr ?h" using True Cons.prems by (simp add: Unregister_def chan_close_def)
    have "disconnect_slow slow ?h = Inr
       (?h\<lparr>hb_clients := filter (\<lambda>d. d \<notin> set slow) (hb_clients ?h),
          hb_chan := (\<lambda>d. if d \<in> set slow \<inter> set (hb_clients ?h) then (hb_chan ?h d)\<lparr>ch_closed := True\<rparr> else hb_chan ?h d)\<rparr>)"
      by (rule Cons.IH) (use Cons.prems in auto)
    moreover have "filter (\<lambda>d. d \<notin> set slow) (hb_clients ?h) = filter (\<lambda>d. d \<notin> set (c # slow)) (hb_clients h)"
      by (auto intro: filter_cong)
    moreover have "(\<lambda>d. if d \<in> set slow \<inter> set (hb_clients ?h) then (hb_chan ?h d)\<lparr>ch_closed := True\<rparr> else hb_chan ?h d) =
        (\<lambda>d. if d \<in> set (c # slow) \<inter> set (hb_clients h) then (hb_chan h d)\<lparr>ch_closed := True\<rparr> else hb_chan h d)"
      using True by (auto simp: fun_eq_iff)
    ultimately show ?thesis using u by simp
  next
    case False
    then have "Unregister c h = Inr h" by (simp add: Unregister_def)
    moreover have "filter (\<lambda>d. d \<notin> set slow) (hb_clients h) = filter (\<lambda>d. d \<notin> set (c # slow)) (hb_clients h)"
      "set slow \<inter> set (hb_clients h) = set (c # slow) \<inter> set (hb_clients h)"
      using False by (auto intro: filter_cong)
    ultimately show ?thesis using Cons.IH [OF Cons.prems] by simp
  qed
qed simp

text \<open>The state after a broadcast of the messages \<open>ms\<close>, client by client.\<close>

definition delivered :: "marshaller \<Rightarrow> message list \<Rightarrow> hub \<Rightarrow> hub \<Rightarrow> bool" where
  "delivered marshal ms h h' \<longleftrightarrow>
     hb_clients h' = filter (\<lambda>c. length (payloads marshal ms) \<le> room (hb_chan h c)) (hb_clients h) \<and>
     (\<forall>c\<in>set (hb_clients h). ch_buf (hb_chan h' c) = ch_buf (hb_chan h c) @ take (room (hb_chan h c)) (payloads marshal ms) \<and>
        (ch_closed (hb_chan h' c) \<longleftrightarrow> room (hb_chan h c) < length (payloads marshal ms))) \<and>
     (\<forall>c. c \<notin> set (hb_clients h) \<longrightarrow> hb_chan h' c = hb_chan h c)"

lemma deliver:
  assumes inv: "hub_inv h" and sent: "sent marshal ms (hb_clients h) (hb_chan h, []) (chans, slow)"
  obtains h' where "disconnect_slow slow (h\<lparr>hb_chan := chans\<rparr>) = Inr h'" "hub_inv h'" "delivered marshal ms h h'"
    "hb_recent h' = hb_recent h" "hb_closed h' = hb_closed h" "hb_MaxClients h' = hb_MaxClients h"
proof -
  let ?ds = "payloads marshal ms"
  have cl: "distinct (hb_clients h)" "\<And>c. c \<in> set (hb_clients h) \<Longrightarrow> \<not> ch_closed (hb_chan h c) \<and> length (ch_buf (hb_chan h c)) \<le> ch_cap (hb_chan h c)"
    using inv by (auto simp: hub_inv_def)
  have ch: "chans c = (hb_chan h c)\<lparr>ch_buf := ch_buf (hb_chan h c) @ take (room (hb_chan h c)) ?ds\<rparr>" if "c \<in> set (hb_clients h)" for c
    using sent that cl(2) [OF that] by (simp add: sent_def feed_closed_form)
  have other: "chans c = hb_chan h c" if "c \<notin> set (hb_clients h)" for c
    using sent that by (simp add: sent_def)
  have slow: "set slow = {c \<in> set (hb_clients h). \<not> length ?ds \<le> room (hb_chan h c)}"
    using sent cl(2) by (auto simp: sent_def feed_closed_form)
  let ?h = "(h\<lparr>hb_chan := chans\<rparr>)\<lparr>hb_clients := filter (\<lambda>c. c \<notin> set slow) (hb_clients h),
      hb_chan := (\<lambda>c. if c \<in> set slow \<inter> set (hb_clients h) then (chans c)\<lparr>ch_closed := True\<rparr> else chans c)\<rparr>"
  have "disconnect_slow slow (h\<lparr>hb_chan := chans\<rparr>) = Inr ?h"
    using disconnect_slow_ok [of "h\<lparr>hb_chan := chans\<rparr>" slow] cl ch by (simp cong: if_cong)
  moreover have d: "delivered marshal ms h ?h"
    unfolding delivered_def using slow ch other cl(2) by (auto intro: filter_cong)
  moreover have "length (ch_buf (chans c)) \<le> ch_cap (chans c)" if "c \<in> set (hb_clients h)" for c
    using ch [OF that] cl(2) [OF that] by (auto simp: room_def)
  then have "hub_inv ?h"
    using inv ch cl by (auto simp: hub_inv_def)
  ultimately show thesis using that [of ?h] by simp
qed

lemma hub_inv_recent: "hub_inv h \<Longrightarrow> hub_inv (h\<lparr>hb_recent := AddBatch es (hb_recent h)\<rparr>)"
  by (simp add: hub_inv_def rb.add_inv)

lemma Broadcast_ok:
  assumes inv: "hub_inv h" and ne: "entries \<noteq> []" and op: "\<not> hb_closed h"
  obtains h' where "Broadcast marshal entries h = Inr h'" "hub_inv h'"
    "delivered marshal (map (\<lambda>e. \<lparr>m_Type = ''log'', m_Data = Entry e\<rparr>) entries) h h'"
    "hb_recent h' = AddBatch entries (hb_recent h)" "hb_closed h' = hb_closed h"
proof -
  let ?h = "h\<lparr>hb_recent := AddBatch entries (hb_recent h)\<rparr>" and ?ms = "map (\<lambda>e. \<lparr>m_Type = ''log'', m_Data = Entry e\<rparr>) entries"
  note inv' = hub_inv_recent [OF inv, of entries]
  from send_messages_sent [of "hb_clients ?h" "(hb_chan ?h, [])" marshal ?ms] inv' obtain chans slow where
    s: "send_messages marshal ?ms (hb_clients ?h) (hb_chan ?h, []) = Inr (chans, slow)"
      "sent marshal ?ms (hb_clients ?h) (hb_chan ?h, []) (chans, slow)" by (auto simp: hub_inv_def)
  obtain h' where h': "disconnect_slow slow (?h\<lparr>hb_chan := chans\<rparr>) = Inr h'" "hub_inv h'" "delivered marshal ?ms ?h h'"
    "hb_recent h' = hb_recent ?h" "hb_closed h' = hb_closed ?h" by (rule deliver [OF inv' s(2)])
  have "Broadcast marshal entries h = Inr h'"
    using ne op s(1) h'(1) by (simp add: Broadcast_def Let_def)
  with h' that show thesis by (simp add: delivered_def)
qed

lemma BroadcastBatch_ok:
  assumes inv: "hub_inv h" and ne: "entries \<noteq> []" and op: "\<not> hb_closed h"
  obtains h' where "BroadcastBatch marshal entries h = Inr h'" "hub_inv h'"
    "delivered marshal [\<lparr>m_Type = ''log_batch'', m_Data = Entries entries\<rparr>] h h'"
    "hb_recent h' = AddBatch entries (hb_recent h)" "hb_closed h' = hb_closed h"
proof -
  let ?h = "h\<lparr>hb_recent := AddBatch entries (hb_recent h)\<rparr>" and ?m = "\<lparr>m_Type = ''log_batch'', m_Data = Entries entries\<rparr>"
  note inv' = hub_inv_recent [OF inv, of entries]
  from send_clients_sent [of "hb_clients ?h" "(hb_chan ?h, [])" marshal ?m] inv' obtain chans slow where
    s: "send_clients marshal ?m (hb_clients ?h) (hb_chan ?h, []) = Inr (chans, slow)"
      "sent marshal [?m] (hb_clients ?h) (hb_chan ?h, []) (chans, slow)" by (auto simp: hub_inv_def)
  obtain h' where h': "disconnect_slow slow (?h\<lparr>hb_chan := chans\<rparr>) = Inr h'" "hub_inv h'" "delivered marshal [?m] ?h h'"
    "hb_recent h' = hb_recent ?h" "hb_closed h' = hb_closed ?h" by (rule deliver [OF inv' s(2)])
  have "BroadcastBatch marshal entries h = Inr h'"
    using ne op s(1) h'(1) by (simp add: BroadcastBatch_def Let_def)
  with h' that show thesis by (simp add: delivered_def)
qed

section \<open>Steps\<close>

text \<open>
  The operations that hold the mutex, interleaved in any order, with new clients at fresh
  addresses, writers that drain their channels, and the replay of \<open>Upgrade\<close>, which runs without the mutex at
  any time after the registration. A replay that panics ends the process and has no next state.
\<close>

inductive hub_step :: "marshaller \<Rightarrow> hub \<Rightarrow> hub \<Rightarrow> bool" for marshal :: marshaller where
  register: "c \<notin> set (hb_clients h) \<Longrightarrow> hub_step marshal h (Upgrade_register c h)"
| unregister: "Unregister c h = Inr h' \<Longrightarrow> hub_step marshal h h'"
| broadcast: "Broadcast marshal es h = Inr h' \<Longrightarrow> hub_step marshal h h'"
| broadcast_batch: "BroadcastBatch marshal es h = Inr h' \<Longrightarrow> hub_step marshal h h'"
| replay: "Upgrade_replay marshal c h = Inr h' \<Longrightarrow> hub_step marshal h h'"
| drain: "hub_step marshal h (h\<lparr>hb_chan := (hb_chan h)(c := snd (WritePump_drain (hb_chan h c)))\<rparr>)"
| close: "Close_hub h = Inr h' \<Longrightarrow> hub_step marshal h h'"

lemma Unregister_ok:
  assumes "hub_inv h"
  shows "\<exists>h'. Unregister c h = Inr h' \<and> hub_inv h' \<and> c \<notin> set (hb_clients h') \<and> hb_recent h' = hb_recent h"
  using assms by (auto simp: Unregister_def chan_close_def hub_inv_def)

lemma Close_ok:
  assumes "hub_inv h"
  shows "\<exists>h'. Close_hub h = Inr h' \<and> hub_inv h' \<and> hb_clients h' = [] \<and> hb_closed h' \<and>
    (\<forall>c\<in>set (hb_clients h). ch_closed (hb_chan h' c))"
  using assms disconnect_slow_ok [of "h\<lparr>hb_closed := True\<rparr>" "hb_clients h"]
  by (auto simp: Close_hub_def hub_inv_def)

lemma Upgrade_register_inv: "hub_inv h \<Longrightarrow> c \<notin> set (hb_clients h) \<Longrightarrow> hub_inv (Upgrade_register c h)"
  by (auto simp: Upgrade_register_def Register_def hub_inv_def NewClient_def)

lemma Broadcast_total:
  assumes "hub_inv h"
  shows "\<exists>h'. Broadcast marshal es h = Inr h' \<and> hub_inv h'" and "\<exists>h'. BroadcastBatch marshal es h = Inr h' \<and> hub_inv h'"
proof -
  have "\<exists>h'. Broadcast marshal es h = Inr h' \<and> hub_inv h' \<and> True"
    "\<exists>h'. BroadcastBatch marshal es h = Inr h' \<and> hub_inv h'" if "es \<noteq> []" "\<not> hb_closed h"
    using Broadcast_ok [OF assms that] BroadcastBatch_ok [OF assms that] by metis+
  then show "\<exists>h'. Broadcast marshal es h = Inr h' \<and> hub_inv h'" "\<exists>h'. BroadcastBatch marshal es h = Inr h' \<and> hub_inv h'"
    using assms hub_inv_recent [OF assms, of es] by (auto simp: Broadcast_def BroadcastBatch_def Let_def)
qed

lemma hub_step_inv: "hub_step marshal h h' \<Longrightarrow> hub_inv h \<Longrightarrow> hub_inv h'"
proof (induction rule: hub_step.induct)
  case (register c h)
  then show ?case by (simp add: Upgrade_register_inv)
next
  case (unregister c h h')
  with Unregister_ok [of h c] show ?case by auto
next
  case (broadcast es h h')
  with Broadcast_total(1) [of h marshal es] show ?case by auto
next
  case (broadcast_batch es h h')
  with Broadcast_total(2) [of h marshal es] show ?case by auto
next
  case (replay c h h')
  then show ?case
    by (auto simp: Upgrade_replay_def SendMessage_def hub_inv_def split: option.splits if_splits)
next
  case (drain h c)
  then show ?case by (auto simp: hub_inv_def WritePump_drain_def)
next
  case (close h h')
  with Close_ok [of h] show ?case by auto
qed

section \<open>Properties\<close>

lemma reachable_hub_inv: "(hub_step marshal)\<^sup>*\<^sup>* (NewHub m b r None) h \<Longrightarrow> hub_inv h"
  by (induction rule: rtranclp_induct) (auto intro: hub_inv_New hub_step_inv)

lemma Upgrade_replay_panics:
  "Upgrade_replay marshal c h = Inl p \<longleftrightarrow> p = SendOnClosed \<and> ch_closed (hb_chan h c) \<and>
     marshal \<lparr>m_Type = ''recent_batch'', m_Data = Entries (Snapshot 100 (hb_recent h))\<rparr> \<noteq> None"
  by (auto simp: Upgrade_replay_def SendMessage_def split: option.splits)


definition ex_marshal :: marshaller where
  "ex_marshal m = (case m_Data m of Entry e \<Rightarrow> Some (ID e) | Entries es \<Rightarrow> Some (concat (map ID es)))"

definition ex_hub :: hub where
  "ex_hub = Upgrade_register 2 (Upgrade_register 1 (NewHub 2 2 10 None))"

lemma ex_hub_reach: "(hub_step ex_marshal)\<^sup>*\<^sup>* (NewHub 2 2 10 None) ex_hub"
proof -
  have "hub_step ex_marshal (NewHub 2 2 10 None) (Upgrade_register 1 (NewHub 2 2 10 None))"
    by (rule hub_step.register) (simp add: NewHub_def)
  moreover have "hub_step ex_marshal (Upgrade_register 1 (NewHub 2 2 10 None)) ex_hub"
    unfolding ex_hub_def by (rule hub_step.register) (simp add: NewHub_def Upgrade_register_def Register_def)
  ultimately show ?thesis by (meson r_into_rtranclp rtranclp.rtrancl_into_rtrancl)
qed


text \<open>
  C22. A broadcast never blocks and treats every client on its own: a client with room in its
  buffer for all messages receives all of them, in order, and stays; any other receives the
  messages that fit, is dropped from the hub and has its channel closed. No other channel
  changes, and the entries join the recent buffer.
\<close>

theorem Broadcast_delivers:
  fixes marshal :: marshaller
  assumes "hub_inv h" and "entries \<noteq> []" and "\<not> hb_closed h"
  defines "ds \<equiv> payloads marshal (map (\<lambda>e. \<lparr>m_Type = ''log'', m_Data = Entry e\<rparr>) entries)"
  shows "\<exists>h'. Broadcast marshal entries h = Inr h' \<and> hub_inv h' \<and> hb_recent h' = AddBatch entries (hb_recent h) \<and>
    hb_clients h' = filter (\<lambda>c. length ds \<le> room (hb_chan h c)) (hb_clients h) \<and>
    (\<forall>c\<in>set (hb_clients h). ch_buf (hb_chan h' c) = ch_buf (hb_chan h c) @ take (room (hb_chan h c)) ds \<and>
      (ch_closed (hb_chan h' c) \<longleftrightarrow> room (hb_chan h c) < length ds)) \<and>
    (\<forall>c. c \<notin> set (hb_clients h) \<longrightarrow> hb_chan h' c = hb_chan h c)"
proof -
  obtain h' where "Broadcast marshal entries h = Inr h'" "hub_inv h'"
    "delivered marshal (map (\<lambda>e. \<lparr>m_Type = ''log'', m_Data = Entry e\<rparr>) entries) h h'"
    "hb_recent h' = AddBatch entries (hb_recent h)" by (rule Broadcast_ok [OF assms(1-3)])
  then show ?thesis unfolding delivered_def ds_def by blast
qed

theorem Broadcast_delivers_witness:
  "\<exists>h'. Broadcast ex_marshal [zero_entry] ex_hub = Inr h' \<and> hub_inv h' \<and> hb_recent h' = AddBatch [zero_entry] (hb_recent ex_hub)"
proof -
  have "hub_inv ex_hub" by (rule reachable_hub_inv [OF ex_hub_reach])
  moreover have "\<not> hb_closed ex_hub" by code_simp
  ultimately show ?thesis using Broadcast_delivers [of ex_hub "[zero_entry]" ex_marshal] by blast
qed

text \<open>
  \<open>BroadcastBatch\<close> sends the batch as one message: every client with a free slot gets exactly
  that message and stays, a client with a full buffer is dropped and closed unchanged.
\<close>

lemma BroadcastBatch_delivers:
  assumes "hub_inv h" and "entries \<noteq> []" and "\<not> hb_closed h"
    and "marshal \<lparr>m_Type = ''log_batch'', m_Data = Entries entries\<rparr> = Some d"
  shows "\<exists>h'. BroadcastBatch marshal entries h = Inr h' \<and> hub_inv h' \<and> hb_recent h' = AddBatch entries (hb_recent h) \<and>
    (\<forall>c\<in>set (hb_clients h).
      if length (ch_buf (hb_chan h c)) < ch_cap (hb_chan h c)
      then c \<in> set (hb_clients h') \<and> ch_buf (hb_chan h' c) = ch_buf (hb_chan h c) @ [d]
      else c \<notin> set (hb_clients h') \<and> ch_closed (hb_chan h' c) \<and> ch_buf (hb_chan h' c) = ch_buf (hb_chan h c))"
proof -
  obtain h' where h': "BroadcastBatch marshal entries h = Inr h'" "hub_inv h'"
    "delivered marshal [\<lparr>m_Type = ''log_batch'', m_Data = Entries entries\<rparr>] h h'"
    "hb_recent h' = AddBatch entries (hb_recent h)" by (rule BroadcastBatch_ok [OF assms(1-3)])
  have "if length (ch_buf (hb_chan h c)) < ch_cap (hb_chan h c)
      then c \<in> set (hb_clients h') \<and> ch_buf (hb_chan h' c) = ch_buf (hb_chan h c) @ [d]
      else c \<notin> set (hb_clients h') \<and> ch_closed (hb_chan h' c) \<and> ch_buf (hb_chan h' c) = ch_buf (hb_chan h c)"
    if "c \<in> set (hb_clients h)" for c
    using h'(3) that assms(4) by (auto simp: delivered_def room_def)
  with h' show ?thesis by blast
qed

lemma BroadcastBatch_delivers_witness:
  "\<exists>h'. BroadcastBatch ex_marshal [zero_entry] ex_hub = Inr h' \<and> hub_inv h' \<and> 1 \<in> set (hb_clients h')"
proof -
  have "hub_inv ex_hub" by (rule reachable_hub_inv [OF ex_hub_reach])
  moreover have "\<not> hb_closed ex_hub" "1 \<in> set (hb_clients ex_hub)"
    "length (ch_buf (hb_chan ex_hub 1)) < ch_cap (hb_chan ex_hub 1)" by code_simp+
  moreover have "ex_marshal \<lparr>m_Type = ''log_batch'', m_Data = Entries [zero_entry]\<rparr> = Some ''''" by code_simp
  ultimately show ?thesis using BroadcastBatch_delivers [of ex_hub "[zero_entry]" ex_marshal] by fastforce
qed

text \<open>
  \<open>Upgrade\<close> sends the replay after it has released the mutex. When the hub is closed between
  the registration and the replay, the replay is a send on a closed channel, and the process panics.
\<close>

lemma Upgrade_replay_race:
  assumes "hub_inv h" and "\<not> hb_closed h" and "c \<notin> set (hb_clients h)"
    and "marshal \<lparr>m_Type = ''recent_batch'', m_Data = Entries (Snapshot 100 (hb_recent h))\<rparr> \<noteq> None"
  shows "\<exists>h'. Close_hub (Upgrade_register c h) = Inr h' \<and> Upgrade_replay marshal c h' = Inl SendOnClosed"
proof -
  let ?h = "Upgrade_register c h"
  have inv: "hub_inv ?h" using assms by (simp add: Upgrade_register_inv)
  have c: "c \<in> set (hb_clients ?h)" using assms(2) by (simp add: Upgrade_register_def Register_def)
  from Close_ok [OF inv] c obtain h' where h': "Close_hub ?h = Inr h'" "ch_closed (hb_chan h' c)" by blast
  have "hb_recent h' = hb_recent h"
    using h'(1) inv disconnect_slow_ok [of "?h\<lparr>hb_closed := True\<rparr>" "hb_clients ?h"]
    by (auto simp: Close_hub_def hub_inv_def Upgrade_register_def Register_def split: if_splits)
  with h' assms(4) show ?thesis by (auto simp: Upgrade_replay_def SendMessage_def)
qed

lemma Upgrade_replay_race_witness:
  "\<exists>h'. Close_hub (Upgrade_register 3 ex_hub) = Inr h' \<and> Upgrade_replay ex_marshal 3 h' = Inl SendOnClosed"
proof (rule Upgrade_replay_race)
  show "hub_inv ex_hub" by (rule reachable_hub_inv [OF ex_hub_reach])
  show "\<not> hb_closed ex_hub" "3 \<notin> set (hb_clients ex_hub)" by code_simp+
  show "ex_marshal \<lparr>m_Type = ''recent_batch'', m_Data = Entries (Snapshot 100 (hb_recent ex_hub))\<rparr> \<noteq> None"
    by (simp add: ex_marshal_def)
qed

text \<open>
  Two connections that arrive together both pass the limit check before either registers, so
  the hub can hold more clients than \<open>MaxClients\<close>.
\<close>

lemma MaxClients_race:
  assumes "Upgrade_check h = Inr ()" and "int (ClientCount h) = hb_MaxClients h - 1"
    and "c \<notin> set (hb_clients h)" and "d \<notin> set (hb_clients h)" and "c \<noteq> d"
  shows "hb_MaxClients h < int (ClientCount (Upgrade_register d (Upgrade_register c h)))"
  using assms by (auto simp: Upgrade_check_def Upgrade_register_def Register_def ClientCount_def split: if_splits)

lemma MaxClients_race_witness:
  "hb_MaxClients (NewHub 1 2 10 None) < int (ClientCount (Upgrade_register 2 (Upgrade_register 1 (NewHub 1 2 10 None))))"
  by (rule MaxClients_race) (simp_all add: NewHub_def Upgrade_check_def ClientCount_def)

end
