(* ===== verification/Ingest.thy ===== *)
theory Ingest
  imports StoreDurable Protobuf Otlp Dedup Hub
begin

text \<open>
  The ingest handler, \<open>internal/ingest/handler.go\<close>: both HTTP endpoints, decompression and decoding
  of the body, validation, deduplication, the call of the store and the broadcast.

  A stream being read is its bytes and whether reading ends with an error. Decompressors, JSON
  and \<open>protowire\<close> are arguments (\<open>ingest_libs\<close>), with the texts of their errors. The store is
  the argument \<open>put\<close>, a call of \<open>Append\<close> of the interface \<open>LogStore\<close> in the context of the request. \<open>uuid\<close>
  and \<open>clk\<close> give the UUID and the clock while the i-th entry is handled. Metrics are left out.
\<close>

section \<open>Data\<close>

type_synonym reader = "string \<times> bool"

datatype otlp_reply = OtlpError string | OtlpEmpty | OtlpRejected int

record ingest_libs =
  lb_zstd :: "reader \<Rightarrow> (string, reader) result"
  lb_gzip :: "reader \<Rightarrow> (string, reader) result"
  lb_readError :: string
  lb_decodeJSON :: "reader \<Rightarrow> (string, ingest_request) result"
  lb_decodeOTLP :: "reader \<Rightarrow> (string, otlp_resource_logs list) result"
  lb_pw :: protowire
  lb_parseError :: string
  lb_encodeJSON :: "ingest_response \<Rightarrow> string"
  lb_encodeOTLP :: "otlp_reply \<Rightarrow> string"
  lb_marshal :: marshaller

record http_request =
  rq_Method :: string
  rq_ContentType :: string
  rq_Accept :: string
  rq_ContentEncoding :: string
  rq_Body :: string

record http_response =
  rs_code :: int
  rs_type :: string
  rs_body :: string

record 's handler =
  h_MaxMessageBytes :: int
  h_MaxBatchEvents :: int
  h_dedup :: dedup_cache
  h_store :: 's
  h_hub :: "hub option"

definition NewHandler :: "int \<Rightarrow> int \<Rightarrow> int \<Rightarrow> int \<Rightarrow> 's \<Rightarrow> hub option \<Rightarrow> 's handler" where
  "NewHandler maxMessageBytes maxBatchEvents dedupWindow dedupCapacity st hb =
     \<lparr>h_MaxMessageBytes = maxMessageBytes, h_MaxBatchEvents = maxBatchEvents,
      h_dedup = NewDedupCache dedupWindow dedupCapacity, h_store = st, h_hub = hb\<rparr>"

datatype 'err ingest_failure = StorageError 'err | Panic hub_panic

section \<open>Reading the body\<close>

definition MaxBytesReader :: "int \<Rightarrow> string \<Rightarrow> reader" where
  "MaxBytesReader n b =
     (let k = nat (max 0 n) in if length b \<le> k then (b, False) else (take k b, True))"

definition LimitReader :: "int \<Rightarrow> reader \<Rightarrow> reader" where
  "LimitReader n r = (if n < int (length (fst r)) then (take (nat n) (fst r), False) else r)"

definition decompressReader :: "ingest_libs \<Rightarrow> reader \<Rightarrow> string \<Rightarrow> (string, reader) result" where
  "decompressReader lib r encoding =
     (let enc = ToLower (TrimSpace encoding)
      in if enc = ''zstd'' then
           (case lb_zstd lib r of Inl err \<Rightarrow> Inl (''init zstd reader: '' @ err) | Inr zr \<Rightarrow> Inr zr)
         else if enc = ''gzip'' then
           (case lb_gzip lib r of Inl err \<Rightarrow> Inl (''init gzip reader: '' @ err) | Inr gr \<Rightarrow> Inr gr)
         else if enc \<in> {'''', ''identity''} then Inr r
         else Inl (''unsupported content encoding: '' @ encoding))"

definition body_limit :: int where
  "body_limit = 50 * 1024 * 1024"

definition max_body :: "'s handler \<Rightarrow> int" where
  "max_body h =
     (if 0 < h_MaxMessageBytes h then int64 (h_MaxBatchEvents h * h_MaxMessageBytes h) else 10 * 1024 * 1024)"

text \<open>The decoded request, or the text of the error; \<open>None\<close> when the protobuf loop does not return.\<close>

definition read_request :: "ingest_libs \<Rightarrow> bool \<Rightarrow> reader \<Rightarrow> (string, ingest_request) result option" where
  "read_request lib isProto r =
     (if isProto then
        let body = LimitReader body_limit r
        in if snd body then Some (Inl (''read protobuf payload: '' @ lb_readError lib))
           else
             map_option (\<lambda>u. case u of Inl e \<Rightarrow> Inl (''invalid protobuf payload: '' @ lb_parseError lib) | Inr req \<Rightarrow> Inr req)
               (UnmarshalIngestRequest (lb_pw lib) (fst body) empty_request)
      else
        Some (case lb_decodeJSON lib (LimitReader body_limit r) of
                Inl err \<Rightarrow> Inl (''invalid JSON payload or body too large: '' @ err)
              | Inr req \<Rightarrow> Inr req))"

section \<open>Ingesting\<close>

definition entry_error_text :: "entry_error \<Rightarrow> string" where
  "entry_error_text e =
     (case e of
        ErrMissingHost \<Rightarrow> ''log entry missing host''
      | ErrMissingSource \<Rightarrow> ''log entry missing source''
      | ErrMissingMessage \<Rightarrow> ''log entry missing message''
      | ErrMessageTooLarge \<Rightarrow> ''log message exceeds maximum size'')"

definition with_host :: "string \<Rightarrow> log_entry \<Rightarrow> log_entry" where
  "with_host defaultHost e = (if Host e = '''' \<and> defaultHost \<noteq> '''' then e\<lparr>Host := defaultHost\<rparr> else e)"

record sorted_batch =
  sb_accepted :: "log_entry list"
  sb_duplicates :: int
  sb_errors :: "string list"

fun ingest_loop ::
  "(nat \<Rightarrow> string) \<Rightarrow> (nat \<Rightarrow> gotime) \<Rightarrow> int \<Rightarrow> string \<Rightarrow> nat \<Rightarrow> log_entry list \<Rightarrow> sorted_batch \<times> dedup_cache
     \<Rightarrow> sorted_batch \<times> dedup_cache" where
  "ingest_loop uuid clk m defaultHost i [] (b, d) = (b, d)"
| "ingest_loop uuid clk m defaultHost i (e # es) (b, d) =
     (case Validate (uuid i) (clk i) m (with_host defaultHost e) of
        (Some err, _) \<Rightarrow>
          ingest_loop uuid clk m defaultHost (Suc i) es (b\<lparr>sb_errors := sb_errors b @ [entry_error_text err]\<rparr>, d)
      | (None, entry) \<Rightarrow>
          (case IsDuplicate (clk i) (ID entry) d of
             (True, d') \<Rightarrow> ingest_loop uuid clk m defaultHost (Suc i) es (b\<lparr>sb_duplicates := sb_duplicates b + 1\<rparr>, d')
           | (False, d') \<Rightarrow> ingest_loop uuid clk m defaultHost (Suc i) es (b\<lparr>sb_accepted := sb_accepted b @ [entry]\<rparr>, d')))"

definition empty_batch :: sorted_batch where
  "empty_batch = \<lparr>sb_accepted = [], sb_duplicates = 0, sb_errors = []\<rparr>"

definition ingestEntries ::
  "(log_entry list \<Rightarrow> 's \<Rightarrow> 'err option \<times> 's) \<Rightarrow> marshaller \<Rightarrow> (nat \<Rightarrow> string) \<Rightarrow> (nat \<Rightarrow> gotime) \<Rightarrow> log_entry list \<Rightarrow> string \<Rightarrow> 's handler
     \<Rightarrow> ('err ingest_failure, sorted_batch) result \<times> 's handler" where
  "ingestEntries put marshal uuid clk entries defaultHost h =
     (case ingest_loop uuid clk (h_MaxMessageBytes h) defaultHost 0 entries (empty_batch, h_dedup h) of
        (b, d) \<Rightarrow>
          let h = h\<lparr>h_dedup := d\<rparr>
          in if sb_accepted b = [] then (Inr b, h)
             else
               case put (sb_accepted b) (h_store h) of
                 (Some err, s) \<Rightarrow> (Inl (StorageError err), h\<lparr>h_store := s\<rparr>)
               | (None, s) \<Rightarrow>
                   let h = h\<lparr>h_store := s\<rparr>
                   in case h_hub h of
                        None \<Rightarrow> (Inr b, h)
                      | Some hb \<Rightarrow>
                          (case BroadcastBatch marshal (sb_accepted b) hb of
                             Inl p \<Rightarrow> (Inl (Panic p), h)
                           | Inr hb' \<Rightarrow> (Inr b, h\<lparr>h_hub := Some hb'\<rparr>)))"

section \<open>The endpoints\<close>

definition writeResponse :: "ingest_libs \<Rightarrow> int \<Rightarrow> ingest_response \<Rightarrow> bool \<Rightarrow> http_response" where
  "writeResponse lib statusCode resp asProto =
     (if asProto then
        \<lparr>rs_code = statusCode, rs_type = ContentTypeProtobuf, rs_body = MarshalIngestResponse (lb_pw lib) resp\<rparr>
      else \<lparr>rs_code = statusCode, rs_type = ''application/json'', rs_body = lb_encodeJSON lib resp\<rparr>)"

definition error_response :: "string \<Rightarrow> ingest_response" where
  "error_response msg = \<lparr>Status = ''error'', Accepted = 0, Duplicates = 0, Errors = [msg]\<rparr>"

definition ok_response :: "int \<Rightarrow> int \<Rightarrow> string list \<Rightarrow> ingest_response" where
  "ok_response accepted duplicates errs = \<lparr>Status = ''ok'', Accepted = accepted, Duplicates = duplicates, Errors = errs\<rparr>"

definition http_Error :: "string \<Rightarrow> int \<Rightarrow> http_response" where
  "http_Error msg statusCode = \<lparr>rs_code = statusCode, rs_type = ''text/plain; charset=utf-8'', rs_body = msg @ ''\<newline>''\<rparr>"

text \<open>
  A panic while the request is served is caught by the recovery middleware around the handler;
  here it is the result \<open>Inl\<close>. The outer \<open>None\<close> is a request that is never answered.
\<close>

definition ServeHTTP ::
  "ingest_libs \<Rightarrow> (log_entry list \<Rightarrow> 's \<Rightarrow> 'err option \<times> 's) \<Rightarrow> ('err \<Rightarrow> string) \<Rightarrow> (nat \<Rightarrow> string) \<Rightarrow> (nat \<Rightarrow> gotime) \<Rightarrow> http_request
     \<Rightarrow> 's handler \<Rightarrow> ((hub_panic, http_response) result \<times> 's handler) option" where
  "ServeHTTP lib put errText uuid clk r h =
     (if rq_Method r \<noteq> ''POST'' then Some (Inr (http_Error ''method not allowed'' 405), h)
      else
        let body = MaxBytesReader (max_body h) (rq_Body r);
            isProto = IsProtobufContentType (rq_ContentType r);
            acceptProto = IsProtobufContentType (rq_Accept r) \<or> isProto;
            answer = (\<lambda>status resp. Inr (writeResponse lib status resp acceptProto))
        in case decompressReader lib body (rq_ContentEncoding r) of
             Inl err \<Rightarrow> Some (answer 400 (error_response (''decompression error: '' @ err)), h)
           | Inr reader \<Rightarrow>
               map_option (\<lambda>dec.
                 case dec of
                   Inl err \<Rightarrow> (answer 400 (error_response err), h)
                 | Inr req \<Rightarrow>
                     if Events req = [] then (answer 200 (ok_response 0 0 []), h)
                     else if 0 < h_MaxBatchEvents h \<and> h_MaxBatchEvents h < int (length (Events req)) then
                       (answer 400 (error_response ''batch exceeds maximum allowed event count''), h)
                     else
                       case ingestEntries put (lb_marshal lib) uuid clk (Events req) (AgentID req) h of
                         (Inl (Panic p), h') \<Rightarrow> (Inl p, h')
                       | (Inl (StorageError err), h') \<Rightarrow> (answer 500 (error_response (''storage error: '' @ errText err)), h')
                       | (Inr b, h') \<Rightarrow>
                           (answer 200 (ok_response (int (length (sb_accepted b))) (sb_duplicates b) (sb_errors b)), h'))
                 (read_request lib isProto reader))"

definition otlp_response :: "ingest_libs \<Rightarrow> int \<Rightarrow> otlp_reply \<Rightarrow> http_response" where
  "otlp_response lib statusCode reply = \<lparr>rs_code = statusCode, rs_type = ''application/json'', rs_body = lb_encodeOTLP lib reply\<rparr>"

text \<open>\<open>idgen\<close> and \<open>parseClk\<close> are the UUIDs and the clock while the payload is parsed.\<close>

definition ServeOTLP ::
  "ingest_libs \<Rightarrow> (log_entry list \<Rightarrow> 's \<Rightarrow> 'err option \<times> 's) \<Rightarrow> ('err \<Rightarrow> string) \<Rightarrow> (nat \<Rightarrow> string) \<Rightarrow> (nat \<Rightarrow> gotime)
     \<Rightarrow> (nat \<Rightarrow> string) \<Rightarrow> (nat \<Rightarrow> gotime) \<Rightarrow> http_request
     \<Rightarrow> 's handler \<Rightarrow> (hub_panic, http_response) result \<times> 's handler" where
  "ServeOTLP lib put errText idgen parseClk uuid clk r h =
     (if rq_Method r \<noteq> ''POST'' then (Inr (http_Error ''method not allowed'' 405), h)
      else
        let body = MaxBytesReader (10 * 1024 * 1024) (rq_Body r)
        in case decompressReader lib body (rq_ContentEncoding r) of
             Inl err \<Rightarrow> (Inr (otlp_response lib 400 (OtlpError (''decompression error: '' @ err))), h)
           | Inr reader \<Rightarrow>
               (case lb_decodeOTLP lib (LimitReader body_limit reader) of
                  Inl err \<Rightarrow> (Inr (otlp_response lib 400 (OtlpError (''decode OTLP payload: '' @ err))), h)
                | Inr req \<Rightarrow>
                    let entries = ParseOTLPLogs idgen parseClk req
                    in if entries = [] then (Inr (otlp_response lib 200 OtlpEmpty), h)
                       else
                         case ingestEntries put (lb_marshal lib) uuid clk entries ''otlp-service'' h of
                           (Inl (Panic p), h') \<Rightarrow> (Inl p, h')
                         | (Inl (StorageError err), h') \<Rightarrow> (Inr (otlp_response lib 500 (OtlpError (errText err))), h')
                         | (Inr b, h') \<Rightarrow>
                             (Inr (otlp_response lib 200 (OtlpRejected (int (length entries) - int (length (sb_accepted b))))), h')))"

section \<open>Facts\<close>

subsection \<open>Sorting a batch\<close>

text \<open>The entries that pass validation, each with the time at which the cache is asked about it.\<close>

fun valid_entries :: "(nat \<Rightarrow> string) \<Rightarrow> (nat \<Rightarrow> gotime) \<Rightarrow> int \<Rightarrow> string \<Rightarrow> nat \<Rightarrow> log_entry list \<Rightarrow> (gotime \<times> log_entry) list" where
  "valid_entries uuid clk m defaultHost i [] = []"
| "valid_entries uuid clk m defaultHost i (e # es) =
     (case Validate (uuid i) (clk i) m (with_host defaultHost e) of
        (Some err, _) \<Rightarrow> valid_entries uuid clk m defaultHost (Suc i) es
      | (None, entry) \<Rightarrow> (clk i, entry) # valid_entries uuid clk m defaultHost (Suc i) es)"

abbreviation asked :: "(gotime \<times> log_entry) list \<Rightarrow> (gotime \<times> string) list" where
  "asked \<equiv> map (\<lambda>te. (fst te, ID (snd te)))"

definition answered :: "bool \<Rightarrow> (gotime \<times> log_entry) list \<Rightarrow> bool list \<Rightarrow> log_entry list" where
  "answered a tes bs = map (snd \<circ> fst) (filter (\<lambda>p. snd p = a) (zip tes bs))"

lemma answered_simps [simp]:
  "answered a [] bs = []" "answered a (te # tes) (b # bs) = (if b = a then snd te # answered a tes bs else answered a tes bs)"
  by (simp_all add: answered_def)

lemma length_dedup_run [simp]: "length (fst (dedup_run c calls)) = length calls"
proof (induction calls arbitrary: c)
  case (Cons call calls)
  then show ?case by (cases call) (simp add: case_prod_beta)
qed simp

lemma length_answered: "length bs = length tes \<Longrightarrow> length (answered False tes bs) + length (answered True tes bs) = length tes"
proof (induction tes arbitrary: bs)
  case (Cons te tes)
  then show ?case by (cases bs) auto
qed simp

lemma ingest_loop_sorts:
  assumes "ingest_loop uuid clk m defaultHost i es (b, d) = (b', d')"
  defines "v \<equiv> valid_entries uuid clk m defaultHost i es"
  shows "snd (dedup_run d (asked v)) = d' \<and>
    sb_accepted b' = sb_accepted b @ answered False v (fst (dedup_run d (asked v))) \<and>
    sb_duplicates b' = sb_duplicates b + int (length (answered True v (fst (dedup_run d (asked v))))) \<and>
    int (length (sb_errors b')) = int (length (sb_errors b)) + int (length es) - int (length v)"
  using assms(1) unfolding v_def
proof (induction es arbitrary: i b d)
  case (Cons e es)
  obtain r entry where v: "Validate (uuid i) (clk i) m (with_host defaultHost e) = (r, entry)" by fastforce
  obtain dup d1 where dup: "IsDuplicate (clk i) (ID entry) d = (dup, d1)" by fastforce
  show ?case
  proof (cases r)
    case None
    with Cons.prems v dup have "ingest_loop uuid clk m defaultHost (Suc i) es
        (if dup then b\<lparr>sb_duplicates := sb_duplicates b + 1\<rparr> else b\<lparr>sb_accepted := sb_accepted b @ [entry]\<rparr>, d1) = (b', d')"
      by (cases dup) simp_all
    from Cons.IH [OF this] None v dup show ?thesis by (cases dup) (auto simp: case_prod_beta)
  next
    case (Some err)
    with Cons.prems v have "ingest_loop uuid clk m defaultHost (Suc i) es (b\<lparr>sb_errors := sb_errors b @ [entry_error_text err]\<rparr>, d) = (b', d')"
      by simp
    from Cons.IH [OF this] Some v show ?thesis by simp
  qed
qed simp

lemma valid_entries_ok:
  assumes "\<forall>j. TrimSpace (uuid j) \<noteq> ''''" and "\<forall>j. \<not> IsZero (clk j)" and "(t, e) \<in> set (valid_entries uuid clk m defaultHost i es)"
  shows "entry_ok m e"
  using assms(3)
proof (induction es arbitrary: i)
  case (Cons a es)
  obtain r entry where v: "Validate (uuid i) (clk i) m (with_host defaultHost a) = (r, entry)" by fastforce
  have "r = None \<Longrightarrow> entry_ok m entry" using v assms(1,2) Validate_accepts by blast
  with Cons v show ?case by (cases r) auto
qed simp

lemma valid_entries_order:
  assumes "\<forall>j k. j \<le> k \<longrightarrow> instant (clk j) \<le> instant (clk k)"
  shows "sorted_wrt (\<lambda>p q. instant (fst p) \<le> instant (fst q)) (valid_entries uuid clk m defaultHost i es) \<and>
    (\<forall>p\<in>set (valid_entries uuid clk m defaultHost i es). instant (clk i) \<le> instant (fst p))"
proof (induction es arbitrary: i)
  case (Cons a es)
  have "instant (clk i) \<le> instant (clk (Suc i))" using assms by simp
  moreover obtain r entry where "Validate (uuid i) (clk i) m (with_host defaultHost a) = (r, entry)" by fastforce
  ultimately show ?case using Cons [of "Suc i"] by (cases r) force+
qed simp

lemma answered_subset: "set (answered a tes bs) \<subseteq> snd ` set tes"
  by (auto simp: answered_def dest!: set_zip_leftD)

subsection \<open>Ingesting on a store that keeps its contract\<close>

abbreviation hub_fine :: "'s handler \<Rightarrow> bool" where
  "hub_fine h \<equiv> (\<forall>hb. h_hub h = Some hb \<longrightarrow> hub_inv hb)"

lemma ingestEntries_cases:
  assumes call: "ingestEntries put marshal uuid clk es defaultHost h = (r, h')" and hub: "hub_fine h"
    and loop: "ingest_loop uuid clk (h_MaxMessageBytes h) defaultHost 0 es (empty_batch, h_dedup h) = (b, d)"
  obtains (none) "sb_accepted b = []" "r = Inr b" "h_store h' = h_store h" "h_dedup h' = d" "hub_fine h'"
  | (stored) "sb_accepted b \<noteq> []" "put (sb_accepted b) (h_store h) = (None, h_store h')" "r = Inr b" "h_dedup h' = d" "hub_fine h'"
  | (failed) err where "sb_accepted b \<noteq> []" "put (sb_accepted b) (h_store h) = (Some err, h_store h')"
      "r = Inl (StorageError err)" "h_dedup h' = d" "hub_fine h'"
proof (cases "sb_accepted b = []")
  case True
  with call loop hub show ?thesis by (intro none) (auto simp: ingestEntries_def Let_def)
next
  case False
  obtain e s where put: "put (sb_accepted b) (h_store h) = (e, s)" by fastforce
  show ?thesis
  proof (cases e)
    case (Some err)
    with False put call loop hub show ?thesis by (intro failed [of err]) (auto simp: ingestEntries_def Let_def)
  next
    case None
    show ?thesis
    proof (cases "h_hub h")
      case None
      with \<open>e = None\<close> False put call loop hub show ?thesis by (intro stored) (auto simp: ingestEntries_def Let_def)
    next
      case (Some hb)
      with hub obtain hb' where "BroadcastBatch marshal (sb_accepted b) hb = Inr hb'" "hub_inv hb'"
        using Broadcast_total(2) by blast
      with Some \<open>e = None\<close> False put call loop show ?thesis by (intro stored) (auto simp: ingestEntries_def Let_def)
    qed
  qed
qed

lemma ingest_counts:
  assumes "ingestEntries put marshal uuid clk es defaultHost h = (Inr b, h')" and "hub_fine h"
  shows "int (length (sb_accepted b)) + sb_duplicates b + int (length (sb_errors b)) = int (length es)" and "0 \<le> sb_duplicates b"
proof -
  obtain b' d where loop: "ingest_loop uuid clk (h_MaxMessageBytes h) defaultHost 0 es (empty_batch, h_dedup h) = (b', d)" by fastforce
  have "b' = b" by (rule ingestEntries_cases [OF assms loop]) simp_all
  then show "int (length (sb_accepted b)) + sb_duplicates b + int (length (sb_errors b)) = int (length es)" "0 \<le> sb_duplicates b"
    using ingest_loop_sorts [OF loop]
      length_answered [of "fst (dedup_run (h_dedup h) (asked (valid_entries uuid clk (h_MaxMessageBytes h) defaultHost 0 es)))"
        "valid_entries uuid clk (h_MaxMessageBytes h) defaultHost 0 es"]
    by (simp_all add: empty_batch_def)
qed

lemma ingestEntries_frame [simp]:
  "h_MaxMessageBytes (snd (ingestEntries put marshal uuid clk es defaultHost h)) = h_MaxMessageBytes h"
  by (simp add: ingestEntries_def Let_def split: prod.split option.split sum.split)

abbreviation clock_runs :: "gotime \<Rightarrow> (nat \<Rightarrow> gotime) \<Rightarrow> bool" where
  "clock_runs prev clk \<equiv> instant prev \<le> instant (clk 0) \<and> (\<forall>j k. j \<le> k \<longrightarrow> instant (clk j) \<le> instant (clk k))"

lemma asked_order:
  assumes "clock_runs prev clk"
  shows "in_time_order (asked (valid_entries uuid clk m defaultHost 0 es))"
    and "\<forall>p\<in>set (asked (valid_entries uuid clk m defaultHost 0 es)). instant prev \<le> instant (fst p)"
  using valid_entries_order [of clk uuid m defaultHost 0 es] assms by (auto simp: sorted_wrt_map)

text \<open>
  The entries a batch adds: those that validate and whose ID is not among the recently seen ones.
\<close>

definition new_entries ::
  "(nat \<Rightarrow> string) \<Rightarrow> (nat \<Rightarrow> gotime) \<Rightarrow> log_entry list \<Rightarrow> string \<Rightarrow> recency \<Rightarrow> 's handler \<Rightarrow> log_entry list" where
  "new_entries uuid clk es defaultHost L h =
     (let v = valid_entries uuid clk (h_MaxMessageBytes h) defaultHost 0 es
      in answered False v (spec_run (dc_window (h_dedup h)) (dc_capacity (h_dedup h)) L (asked v)))"

lemma ingest_loop_new:
  assumes rel: "dedup_rel prev (h_dedup h) L" and clk: "clock_runs prev clk"
    and loop: "ingest_loop uuid clk (h_MaxMessageBytes h) defaultHost 0 es (empty_batch, h_dedup h) = (b, d)"
  shows "sb_accepted b = new_entries uuid clk es defaultHost L h"
    and "int (length (sb_accepted b)) + sb_duplicates b + int (length (sb_errors b)) = int (length es)"
proof -
  let ?v = "valid_entries uuid clk (h_MaxMessageBytes h) defaultHost 0 es"
  note sorts = ingest_loop_sorts [OF loop]
  show "sb_accepted b = new_entries uuid clk es defaultHost L h"
    using sorts dedup_run_rel [OF rel asked_order [OF clk, of uuid "h_MaxMessageBytes h" defaultHost es]]
    by (simp add: new_entries_def empty_batch_def Let_def)
  show "int (length (sb_accepted b)) + sb_duplicates b + int (length (sb_errors b)) = int (length es)"
    using sorts length_answered [of "fst (dedup_run (h_dedup h) (asked ?v))" ?v] by (simp add: empty_batch_def)
qed

context log_store
begin

lemma ingest_stores:
  assumes call: "ingestEntries (append env) marshal uuid clk es defaultHost h = (r, h')"
    and store: "ok (h_store h)" and suits: "suits env (new_entries uuid clk es defaultHost L h) (h_store h)"
    and rel: "dedup_rel prev (h_dedup h) L" and clk: "clock_runs prev clk" and hub: "hub_fine h"
  defines "new \<equiv> new_entries uuid clk es defaultHost L h"
  shows "ok (h_store h') \<and> hub_fine h' \<and>
    (case r of
       Inr b \<Rightarrow> sb_accepted b = new \<and> held (h_store h') = held (h_store h) + mset new \<and>
         int (length new) + sb_duplicates b + int (length (sb_errors b)) = int (length es)
     | Inl (StorageError e) \<Rightarrow> held (h_store h) \<subseteq># held (h_store h') \<and> held (h_store h') \<subseteq># held (h_store h) + mset new
     | Inl (Panic p) \<Rightarrow> False) \<and>
    (durable (h_store h) \<longrightarrow> (\<exists>b. r = Inr b) \<or> clean env \<longrightarrow> durable (h_store h'))"
proof -
  obtain b d where loop: "ingest_loop uuid clk (h_MaxMessageBytes h) defaultHost 0 es (empty_batch, h_dedup h) = (b, d)" by fastforce
  note b = ingest_loop_new [OF rel clk loop, folded new_def]
  from suits have suits: "suits env (sb_accepted b) (h_store h)" by (simp add: b new_def)
  note put = append_ok [OF store suits] append_keeps [OF store suits] append_bounded [OF store suits] append_stores [OF store suits]
    append_durable [OF _ suits]
  from call hub loop show ?thesis
  proof (cases rule: ingestEntries_cases)
    case none
    with store b show ?thesis by simp
  next
    case stored
    with put b show ?thesis by simp
  next
    case (failed err)
    with put b(1) show ?thesis by simp
  qed
qed

end

section \<open>Properties\<close>

text \<open>
  C7. What the server acknowledges is stored, once. On the filesystem store, under any faults, a
  batch is either answered with an error, or the store holds afterwards what it held before and,
  exactly once each, the entries of the batch that validate and whose ID was not seen within
  the window; accepted, duplicates and errors add up to the size of the batch. After an error
  nothing held before is lost. The running store stays consistent (\<open>store_live\<close>) and, when
  the batch is acknowledged or no write or close of an index fails, so does the directory
  (\<open>store_ok\<close>, from which a restart rebuilds the store, C14); no call panics.
\<close>

theorem ingest_acknowledged_stored:
  assumes "ingestEntries (fs_append cd env) marshal uuid clk es defaultHost h = (r, h')" and "store_live cd (h_store h)"
    and "fs_suits cd env (new_entries uuid clk es defaultHost L h) (h_store h)"
    and "dedup_rel prev (h_dedup h) L" and "clock_runs prev clk" and "hub_fine h"
  shows "store_live cd (h_store h') \<and> hub_fine h' \<and>
    (store_ok cd (h_store h) \<longrightarrow> (\<exists>b. r = Inr b) \<or> index_whole (ae_faults env) \<longrightarrow> store_ok cd (h_store h')) \<and>
    (case r of
       Inr b \<Rightarrow> sb_accepted b = new_entries uuid clk es defaultHost L h \<and>
         stored cd (h_store h') = stored cd (h_store h) + mset (sb_accepted b) \<and>
         int (length (sb_accepted b)) + sb_duplicates b + int (length (sb_errors b)) = int (length es)
     | Inl (StorageError e) \<Rightarrow> stored cd (h_store h) \<subseteq># stored cd (h_store h') \<and>
         stored cd (h_store h') \<subseteq># stored cd (h_store h) + mset (new_entries uuid clk es defaultHost L h)
     | Inl (Panic p) \<Rightarrow> False)"
  using fs.ingest_stores [OF assms] by (auto split: sum.splits ingest_failure.splits)

definition ex_env :: append_env where
  "ex_env = \<lparr>ae_hjson = ex_line, ae_faults = no_faults, ae_uuid = (\<lambda>dir. ''01234567-89''), ae_now = ex_now\<rparr>"

definition ex_handler :: "file_store handler" where
  "ex_handler = NewHandler 0 10 0 0 ex_store0 (Some (NewHub 2 2 10 None))"

lemma ex_handler_fine: "hub_fine ex_handler" "dedup_rel ex_now (h_dedup ex_handler) []" "clock_runs ex_now (\<lambda>i. ex_now)"
  using dedup_rel_New hub_inv_New by (simp_all add: ex_handler_def NewHandler_def)

lemma ex_new: "new_entries (\<lambda>i. ''u'') (\<lambda>i. ex_now) (map letter_entry ''aba'') ''agent'' [] ex_handler = map letter_entry ''ab''"
proof -
  have v: "Validate ''u'' ex_now 0 (with_host ''agent'' (letter_entry CHR ''a'')) = (None, letter_entry CHR ''a'')"
    "Validate ''u'' ex_now 0 (with_host ''agent'' (letter_entry CHR ''b'')) = (None, letter_entry CHR ''b'')"
    by code_simp+
  have i: "ID (letter_entry c) = [c]" for c by (simp add: letter_entry_def)
  show ?thesis
    by (simp add: new_entries_def ex_handler_def NewHandler_def NewDedupCache_def v i seen_within_def touch_def time_Sub_def)
qed

theorem ingest_acknowledged_stored_witness:
  "\<exists>b h'. ingestEntries (fs_append letter_codec ex_env) ex_marshal (\<lambda>i. ''u'') (\<lambda>i. ex_now) (map letter_entry ''aba'') ''agent'' ex_handler = (Inr b, h') \<and>
     stored letter_codec (h_store h') = mset (map letter_entry ''ab'') \<and> sb_duplicates b + int (length (sb_errors b)) = 1"
proof -
  let ?es = "map letter_entry ''aba''"
  obtain r h' where call: "ingestEntries (fs_append letter_codec ex_env) ex_marshal (\<lambda>i. ''u'') (\<lambda>i. ex_now) ?es ''agent'' ex_handler = (r, h')"
    by fastforce
  obtain b d where loop: "ingest_loop (\<lambda>i. ''u'') (\<lambda>i. ex_now) (h_MaxMessageBytes ex_handler) ''agent'' 0 ?es (empty_batch, h_dedup ex_handler) = (b, d)"
    by fastforce
  have st: "h_store ex_handler = ex_store0" by (simp add: ex_handler_def NewHandler_def)
  have suits: "fs_suits letter_codec ex_env (map letter_entry ''ab'') ex_store0"
    using letter_codec_faithful [of "''ab''"] by (simp add: fs_suits_def ex_env_def ex_line_faithful letter_stamped ex_store0_ok(3))
  have put: "fs_append letter_codec ex_env (map letter_entry ''ab'') ex_store0 = (None, ex_store1)"
    using ex_append(1) by (simp add: fs_append_def ex_env_def)
  have acc: "sb_accepted b = map letter_entry ''ab''" using ingest_loop_new(1) [OF ex_handler_fine(2,3) loop] ex_new by simp
  have "\<exists>b. r = Inr b"
    by (rule ingestEntries_cases [OF call ex_handler_fine(1) loop]) (use put acc st in simp_all)
  then obtain b' where r: "r = Inr b'" ..
  note t = ingest_acknowledged_stored [OF call, of "[]" ex_now, unfolded ex_new st r, OF store_ok_live [OF ex_store0_ok(1)] suits ex_handler_fine(2,3,1)]
  from call t show ?thesis by (auto simp: r ex_store0_ok(2))
qed

lemma valid_ids:
  assumes "\<forall>e\<in>set es. TrimSpace (ID e) \<noteq> ''''"
  shows "map (ID \<circ> snd) (valid_entries uuid clk m defaultHost i es) =
    map ID (filter (\<lambda>e. fst (Validate '''' zero_time m (with_host defaultHost e)) = None) es)"
  using assms
proof (induction es arbitrary: i)
  case (Cons e es)
  obtain r entry where v: "Validate (uuid i) (clk i) m (with_host defaultHost e) = (r, entry)" by fastforce
  have "fst (Validate '''' zero_time m (with_host defaultHost e)) = None \<longleftrightarrow> r = None"
    using arg_cong [OF v, of fst] Validate_accepts_iff by (metis fst_conv)
  moreover have "ID entry = ID e"
    using Validate_keeps_ID [OF v] Cons.prems by (simp add: with_host_def)
  ultimately show ?case using Cons v by (cases r) auto
qed simp

lemma valid_entries_clk: "p \<in> set (valid_entries uuid clk m defaultHost i es) \<Longrightarrow> \<exists>j. fst p = clk j"
proof (induction es arbitrary: i)
  case (Cons e es)
  obtain r entry where "Validate (uuid i) (clk i) m (with_host defaultHost e) = (r, entry)" by fastforce
  with Cons show ?case by (cases r) auto
qed simp

lemma valid_ids_set:
  fixes uuid uuid' :: "nat \<Rightarrow> string" and clk clk' :: "nat \<Rightarrow> gotime" and m :: int and defaultHost :: string and i :: nat
  assumes "\<forall>e\<in>set es. TrimSpace (ID e) \<noteq> ''''"
  defines "S \<equiv> snd ` set (asked (valid_entries uuid clk m defaultHost i es))"
  shows "S = snd ` set (asked (valid_entries uuid' clk' m defaultHost i es))" and "S \<subseteq> ID ` set es" and "'''' \<notin> S"
proof -
  have S: "snd ` set (asked v) = set (map (ID \<circ> snd) v)" for v :: "(gotime \<times> log_entry) list" by (auto simp: image_image)
  show "S = snd ` set (asked (valid_entries uuid' clk' m defaultHost i es))" unfolding S_def S valid_ids [OF assms(1)] ..
  show sub: "S \<subseteq> ID ` set es" unfolding S_def S valid_ids [OF assms(1)] by auto
  show "'''' \<notin> S" using sub assms(1) by force
qed

lemma asked_times:
  assumes ids: "\<forall>e\<in>set es. TrimSpace (ID e) \<noteq> ''''" and clk: "clock_runs prev clk"
  shows "\<forall>c\<in>set (asked (valid_entries uuid clk m defaultHost 0 es)). instant (clk 0) \<le> instant (fst c) \<and> snd c \<noteq> ''''"
proof
  fix c
  assume c: "c \<in> set (asked (valid_entries uuid clk m defaultHost 0 es))"
  then have "snd c \<noteq> []" using valid_ids_set(3) [OF ids, of uuid clk m defaultHost 0] by force
  moreover have "instant (clk 0) \<le> instant (fst c)" using asked_order(2) [of "clk 0" clk uuid m defaultHost es] clk c by blast
  ultimately show "instant (clk 0) \<le> instant (fst c) \<and> snd c \<noteq> []" by simp
qed

text \<open>A second pass over the entries asks for the same identifiers, at later times.\<close>

lemma asked_again:
  assumes ids: "\<forall>e\<in>set es. TrimSpace (ID e) \<noteq> ''''" and later: "\<forall>i j. instant (clk i) \<le> instant (clk' j)" and window: "\<forall>j. time_Sub (clk' j) (clk 0) \<le> w"
    and S_def: "S = snd ` set (asked (valid_entries uuid clk m defaultHost 0 es))"
  shows "\<forall>c\<in>set (asked (valid_entries uuid' clk' m defaultHost 0 es)).
    snd c \<in> S \<and> snd c \<noteq> '''' \<and> instant (clk 0) \<le> instant (fst c) \<and> time_Sub (fst c) (clk 0) \<le> w"
proof
  fix c
  assume c: "c \<in> set (asked (valid_entries uuid' clk' m defaultHost 0 es))"
  then obtain j where j: "fst c = clk' j" using valid_entries_clk by fastforce
  from c have S: "snd c \<in> S" using valid_ids_set(1) [OF ids, of uuid clk m defaultHost 0 uuid' clk'] unfolding S_def by blast
  then have "snd c \<noteq> []" using valid_ids_set(3) [OF ids, of uuid clk m defaultHost 0] unfolding S_def by metis
  with S later window show "snd c \<in> S \<and> snd c \<noteq> [] \<and> instant (clk 0) \<le> instant (fst c) \<and> time_Sub (fst c) (clk 0) \<le> w" by (simp add: j)
qed

text \<open>
  C29. A batch refused with a storage error is lost when the agent retries it: the handler has
  recorded the IDs in the cache before it calls the store, so a retry of the same entries within
  the window is answered as a success that counts them as duplicates, and nothing is stored,
  whatever the store would now do.
\<close>

theorem retry_after_storage_error_lost:
  assumes first: "ingestEntries put marshal uuid clk es defaultHost h = (Inl (StorageError err), h1)"
    and retry: "ingestEntries put' marshal uuid' clk' es defaultHost h1 = (r, h2)"
    and rel: "dedup_rel prev (h_dedup h) L" and clk: "clock_runs prev clk" and clk': "clock_runs (clk 0) clk'"
    and later: "\<forall>i j. instant (clk i) \<le> instant (clk' j)" and window: "\<forall>j. time_Sub (clk' j) (clk 0) \<le> dc_window (h_dedup h)"
    and ids: "\<forall>e\<in>set es. TrimSpace (ID e) \<noteq> ''''" and fits: "int (card (ID ` set es)) \<le> dc_capacity (h_dedup h)"
    and hub: "hub_fine h"
  shows "h_store h2 = h_store h1 \<and>
    (\<exists>b. r = Inr b \<and> sb_accepted b = [] \<and> sb_duplicates b + int (length (sb_errors b)) = int (length es))"
proof -
  let ?m = "h_MaxMessageBytes h"
  let ?v = "valid_entries uuid clk ?m defaultHost 0 es" and ?v' = "valid_entries uuid' clk' ?m defaultHost 0 es"
  let ?S = "snd ` set (asked ?v)"
  obtain b d where loop: "ingest_loop uuid clk ?m defaultHost 0 es (empty_batch, h_dedup h) = (b, d)" by fastforce
  have h1: "h_dedup h1 = d" "hub_fine h1" by (rule ingestEntries_cases [OF first hub loop]; simp)+
  have m1: "h_MaxMessageBytes h1 = ?m" using ingestEntries_frame [of put marshal uuid clk es defaultHost h] first by simp
  have d: "d = snd (dedup_run (h_dedup h) (asked ?v))" using ingest_loop_sorts [OF loop] by simp
  obtain now where now: "dedup_rel now d (touches (asked ?v) L)" "now = prev \<or> now \<in> fst ` set (asked ?v)"
      "dc_window d = dc_window (h_dedup h)" "dc_capacity d = dc_capacity (h_dedup h)"
    using dedup_run_state [OF rel asked_order [OF clk]] unfolding d by blast
  have times: "\<forall>c\<in>set (asked ?v). instant (clk 0) \<le> instant (fst c) \<and> snd c \<noteq> ''''" by (rule asked_times [OF ids clk])
  have "front {} (clk 0) L" using rel by (auto simp: front_def prefix_rel_def)
  from front_touches [OF this times] have front: "front ?S (clk 0) (touches (asked ?v) L)" by simp
  have "card ?S \<le> card (ID ` set es)" by (rule card_mono [OF _ valid_ids_set(2) [OF ids]]) simp
  then have small: "int (card ?S) \<le> dc_capacity d" using fits now(4) by linarith
  have late: "instant now \<le> instant (clk' 0)"
    using now(2)
  proof
    assume "now \<in> fst ` set (asked ?v)"
    then obtain j where "now = clk j" using valid_entries_clk by fastforce
    with later show ?thesis by simp
  qed (use clk clk' in auto)
  have asked': "\<forall>c\<in>set (asked ?v'). snd c \<in> ?S \<and> snd c \<noteq> '''' \<and> instant (clk 0) \<le> instant (fst c) \<and> time_Sub (fst c) (clk 0) \<le> dc_window d"
    by (rule asked_again [OF ids later window [folded now(3)] refl])
  obtain b' d' where loop': "ingest_loop uuid' clk' (h_MaxMessageBytes h1) defaultHost 0 es (empty_batch, h_dedup h1) = (b', d')" by fastforce
  have clk1: "clock_runs now clk'" using late clk' by simp
  note b' = ingest_loop_new [OF now(1) [folded h1(1)] clk1 loop']
  have "answered False tes (replicate k True) = []" for tes k
    by (auto simp: answered_def filter_empty_conv dest!: set_zip_rightD)
  then have none: "sb_accepted b' = []"
    using spec_run_front [OF front small asked'] by (simp add: b'(1) new_entries_def Let_def m1 h1(1))
  show ?thesis
    by (rule ingestEntries_cases [OF retry h1(2) loop']) (use none b'(2) in simp_all)
qed

theorem retry_after_storage_error_lost_witness:
  "\<exists>b h1 h2. ingestEntries (\<lambda>es s. (Some ErrStoreClosed, s)) ex_marshal (\<lambda>i. []) (\<lambda>i. ex_now) (map letter_entry ''ab'') ''agent'' ex_handler
       = (Inl (StorageError ErrStoreClosed), h1) \<and>
     ingestEntries (fs_append letter_codec ex_env) ex_marshal (\<lambda>i. []) (\<lambda>i. ex_now) (map letter_entry ''ab'') ''agent'' h1 = (Inr b, h2) \<and>
     h_store h2 = ex_store0 \<and> sb_accepted b = []"
proof -
  let ?es = "map letter_entry ''ab''"
  let ?call = "\<lambda>put h. ingestEntries put ex_marshal (\<lambda>i. []) (\<lambda>i. ex_now) ?es ''agent'' h"
  let ?fail = "\<lambda>es s. (Some ErrStoreClosed, s)"
  have r1: "fst (?call ?fail ex_handler) = Inl (StorageError ErrStoreClosed) \<and> h_store (snd (?call ?fail ex_handler)) = ex_store0"
    by code_simp
  then obtain h1 where h1: "?call ?fail ex_handler = (Inl (StorageError ErrStoreClosed), h1)" "h_store h1 = ex_store0"
    by (metis prod.collapse)
  obtain r h2 where h2: "?call (fs_append letter_codec ex_env) h1 = (r, h2)" by fastforce
  have "card (ID ` set ?es) \<le> 2" by (rule order_trans [OF card_image_le]) (auto simp: card_insert_if)
  then have "int (card (ID ` set ?es)) \<le> dc_capacity (h_dedup ex_handler)" by (simp add: ex_handler_def NewHandler_def NewDedupCache_def)
  moreover have "\<forall>e\<in>set ?es. TrimSpace (ID e) \<noteq> []" by code_simp
  moreover have "time_Sub ex_now ex_now \<le> dc_window (h_dedup ex_handler)" by code_simp
  ultimately show ?thesis
    using retry_after_storage_error_lost [OF h1(1) h2 ex_handler_fine(2,3) _ _ _ _ _ ex_handler_fine(1)] h1 h2 by auto
qed

end
