(* ===== verification/Health.thy ===== *)
theory Health
  imports Ingest
begin

text \<open>
  The health checks, \<open>internal/health/health.go\<close>: the liveness and the readiness probe with their registry of
  checkers. A checker reads the state it closes over, here of type \<open>'s\<close>, and returns the text of its error, if any.
  The map of checkers is an association list in the order of one iteration over it; the deadline that the probe
  hands to its checkers is not modelled. \<open>enc\<close> is the JSON encoding of the answer.
\<close>

section \<open>Operations\<close>

datatype health_report = StatusOK real | StatusUnavailable "(string, string) gomap" | StatusReady

type_synonym 's checker = "'s \<Rightarrow> string option"

record 's health_handler =
  hh_startTime :: gotime
  hh_checkers :: "(string, 's checker) gomap"

definition NewHandler_health :: "gotime \<Rightarrow> 's health_handler" where
  "NewHandler_health now = \<lparr>hh_startTime = now, hh_checkers = []\<rparr>"

definition AddChecker :: "string \<Rightarrow> 's checker \<Rightarrow> 's health_handler \<Rightarrow> 's health_handler" where
  "AddChecker name checker h = h\<lparr>hh_checkers := AList.update name checker (hh_checkers h)\<rparr>"

definition json_answer :: "int \<Rightarrow> string \<Rightarrow> http_response" where
  "json_answer status body = \<lparr>rs_code = status, rs_type = ''application/json'', rs_body = body\<rparr>"

definition Healthz :: "(health_report \<Rightarrow> string) \<Rightarrow> gotime \<Rightarrow> 's health_handler \<Rightarrow> http_response" where
  "Healthz enc now h =
     json_answer 200 (enc (StatusOK (real_of_int (time_Sub now (hh_startTime h)) / 10 ^ 9)))"

fun check_all :: "('k, 's checker) gomap \<Rightarrow> 's \<Rightarrow> ('k, string) gomap \<Rightarrow> ('k, string) gomap" where
  "check_all [] s failures = failures"
| "check_all ((name, checker) # cs) s failures =
     (case checker s of
        Some err \<Rightarrow> check_all cs s (AList.update name err failures)
      | None \<Rightarrow> check_all cs s failures)"

definition Readyz :: "(health_report \<Rightarrow> string) \<Rightarrow> 's health_handler \<Rightarrow> 's \<Rightarrow> http_response" where
  "Readyz enc h s =
     (let failures = check_all (hh_checkers h) s []
      in if failures \<noteq> [] then json_answer 503 (enc (StatusUnavailable failures))
         else json_answer 200 (enc StatusReady))"

section \<open>Facts\<close>

lemma check_all_failures:
  assumes "wf_map cs"
  shows "map_of (check_all cs s failures) n =
    (case Option.bind (map_of cs n) (\<lambda>checker. checker s) of Some err \<Rightarrow> Some err | None \<Rightarrow> map_of failures n)"
  using assms
proof (induction cs arbitrary: failures)
  case (Cons p cs)
  obtain name c where p: "p = (name, c)" by fastforce
  have "map_of cs name = None" using Cons.prems p by (simp add: map_of_eq_None_iff)
  with Cons p show ?case by (cases "c s") (auto simp: update_conv' split: option.splits)
qed simp

text \<open>The server is ready exactly when no checker reports an error, and otherwise the answer names those that do.\<close>

lemma Readyz_exact:
  assumes "wf_map (hh_checkers h)"
  shows "\<exists>failures. map_of failures = (\<lambda>n. Option.bind (map_of (hh_checkers h) n) (\<lambda>checker. checker s)) \<and>
    Readyz enc h s = (if failures = [] then json_answer 200 (enc StatusReady) else json_answer 503 (enc (StatusUnavailable failures)))"
  using check_all_failures [OF assms, of s "[]"]
  by (intro exI [of _ "check_all (hh_checkers h) s []"]) (auto simp: fun_eq_iff Readyz_def split: option.splits)

end
