(* ===== verification/EndToEnd.thy ===== *)
theory EndToEnd
  imports Sender Ingest
begin

text \<open>
  One transmission from the agent's sender to the server's ingest endpoint: \<open>Sender.Send\<close> composed with
  \<open>Handler.ServeHTTP\<close> over the binary protocol, the request on the wire between them.
\<close>

section \<open>The two ends\<close>

definition received :: "client_request \<Rightarrow> http_request" where
  "received r =
     \<lparr>rq_Method = ''POST'', rq_ContentType = cr_ContentType r, rq_Accept = cr_Accept r,
      rq_ContentEncoding = cr_ContentEncoding r, rq_Body = cr_Body r\<rparr>"

definition answered_with :: "http_response \<Rightarrow> client_response" where
  "answered_with r = \<lparr>ck_StatusCode = rs_code r, ck_ContentType = rs_type r, ck_Body = rs_body r\<rparr>"

text \<open>
  What the compressors of both ends promise: decompressing gives back what was compressed, and the
  encoding is one that the server knows.
\<close>

definition compressors_match :: "sender_libs \<Rightarrow> ingest_libs \<Rightarrow> bool" where
  "compressors_match sl lib \<longleftrightarrow>
     (\<forall>body z. sl_zstd sl body = Some z \<longrightarrow> lb_zstd lib (z, False) = Inr (body, False)) \<and>
     (\<forall>body z. sl_gzip sl body = Some z \<longrightarrow> lb_gzip lib (z, False) = Inr (body, False))"

lemma decompress_compressed:
  assumes "compressors_match sl lib" and "compress_body sl s body = (z, enc)"
  shows "decompressReader lib (z, False) enc = Inr (body, False)"
proof -
  have names: "ToLower (TrimSpace ''zstd'') = ''zstd''" "ToLower (TrimSpace ''gzip'') = ''gzip''" "ToLower [] = []"
    by code_simp+
  consider "enc = []" "z = body" | "enc = ''zstd''" "sl_zstd sl body = Some z" | "enc = ''gzip''" "sl_gzip sl body = Some z"
    using assms(2) by (auto simp: compress_body_def split: if_splits option.splits)
  then show ?thesis
    using assms(1) by cases (simp_all add: compressors_match_def decompressReader_def names Let_def)
qed

text \<open>The network between them, while the server is in state \<open>h\<close>.\<close>

definition served ::
  "ingest_libs \<Rightarrow> (log_entry list \<Rightarrow> 's \<Rightarrow> 'err option \<times> 's) \<Rightarrow> ('err \<Rightarrow> string) \<Rightarrow> (nat \<Rightarrow> string) \<Rightarrow> (nat \<Rightarrow> gotime) \<Rightarrow> 's handler
     \<Rightarrow> client_request \<Rightarrow> (string, client_response) result" where
  "served lib put errText uuid clk h req =
     (case ServeHTTP lib put errText uuid clk (received req) h of
        Some (Inr resp, h') \<Rightarrow> Inr (answered_with resp)
      | _ \<Rightarrow> Inl ''EOF'')"

lemma proto_types: "IsProtobufContentType ContentTypeProtobuf"
  by code_simp

text \<open>The request fits both limits of the server on the size of a body, and its limit on the number of events.\<close>

definition request_fits :: "sender_libs \<Rightarrow> sender \<Rightarrow> string \<Rightarrow> log_entry list \<Rightarrow> 's handler \<Rightarrow> bool" where
  "request_fits sl s agentID events h \<longleftrightarrow>
     (let body = MarshalIngestRequest (sl_pw sl) \<lparr>AgentID = agentID, Events = events\<rparr>
      in int (length (fst (compress_body sl s body))) \<le> max_body h \<and> int (length body) \<le> body_limit) \<and>
     (0 < h_MaxBatchEvents h \<longrightarrow> int (length events) \<le> h_MaxBatchEvents h)"

definition ingest_answer :: "ingest_libs \<Rightarrow> ('err \<Rightarrow> string) \<Rightarrow> sorted_batch + 'err \<Rightarrow> http_response" where
  "ingest_answer lib errText r =
     (case r of
        Inl b \<Rightarrow> writeResponse lib 200 (ok_response (int (length (sb_accepted b))) (sb_duplicates b) (sb_errors b)) True
      | Inr err \<Rightarrow> writeResponse lib 500 (error_response (''storage error: '' @ errText err)) True)"

text \<open>
  What the encoders of both ends promise for a request, in the format the sender is configured
  with: the wire library of the binary protocol is the same and decodes what it encodes, or
  \<open>encoding/json\<close> encodes the request and decodes it back.
\<close>

definition codecs_match :: "sender_libs \<Rightarrow> ingest_libs \<Rightarrow> sender \<Rightarrow> ingest_request \<Rightarrow> bool" where
  "codecs_match sl lib s req \<longleftrightarrow>
     (if sd_format s = ''protobuf'' then sl_pw sl = lb_pw lib \<and> pw_faithful (lb_pw lib) \<and> (\<forall>e\<in>set (Events req). wf_map (Fields e))
      else \<exists>body. sl_marshalJSON sl req = Inr body \<and> lb_decodeJSON lib (body, False) = Inr req)"

text \<open>An entry as the format carries it.\<close>

definition carried :: "sender \<Rightarrow> log_entry \<Rightarrow> log_entry" where
  "carried s e = (if sd_format s = ''protobuf'' then wire_entry e else e)"

text \<open>As \<open>request_fits\<close>, in the format of the sender.\<close>

definition payload_fits :: "sender_libs \<Rightarrow> sender \<Rightarrow> string \<Rightarrow> log_entry list \<Rightarrow> 's handler \<Rightarrow> bool" where
  "payload_fits sl s agentID events h \<longleftrightarrow>
     (case encode_payload sl s \<lparr>AgentID = agentID, Events = events\<rparr> of
        Inl _ \<Rightarrow> True
      | Inr (body, _) \<Rightarrow> int (length (fst (compress_body sl s body))) \<le> max_body h \<and> int (length body) \<le> body_limit) \<and>
     (0 < h_MaxBatchEvents h \<longrightarrow> int (length events) \<le> h_MaxBatchEvents h)"

lemma ContentTypeJSON_no_proto: "\<not> IsProtobufContentType ContentTypeJSON" "\<not> IsProtobufContentType []"
  by code_simp+

lemma ServeHTTP_of_sender:
  assumes codec: "codecs_match sl lib s \<lparr>AgentID = agentID, Events = events\<rparr>"
    and z: "compressors_match sl lib" and url: "sl_newRequest sl (sd_targetURL s) = None"
    and ev: "events \<noteq> []" and fits: "payload_fits sl s agentID events h"
  obtains req where "build_request sl s agentID events = Inr req"
    and "ServeHTTP lib put errText uuid clk (received req) h =
      Some (case ingestEntries put (lb_marshal lib) uuid clk (map (carried s) events) agentID h of
              (Inl (Panic p), h') \<Rightarrow> (Inl p, h')
            | (Inl (StorageError err), h') \<Rightarrow>
                (Inr (writeResponse lib 500 (error_response (''storage error: '' @ errText err)) (sd_format s = ''protobuf'')), h')
            | (Inr b, h') \<Rightarrow>
                (Inr (writeResponse lib 200 (ok_response (int (length (sb_accepted b))) (sb_duplicates b) (sb_errors b)) (sd_format s = ''protobuf'')), h'))"
proof -
  let ?req = "\<lparr>AgentID = agentID, Events = events\<rparr>" and ?p = "sd_format s = ''protobuf''"
  obtain body ct where enc: "encode_payload sl s ?req = Inr (body, ct)" and ct: "ct = (if ?p then ContentTypeProtobuf else ContentTypeJSON)"
    and dec: "int (length body) \<le> body_limit \<Longrightarrow> read_request lib ?p (body, False) = Some (Inr (?req\<lparr>Events := map (carried s) events\<rparr>))"
  proof (cases ?p)
    case True
    then have pw: "sl_pw sl = lb_pw lib" "pw_faithful (lb_pw lib)" "\<forall>e\<in>set events. wf_map (Fields e)"
      using codec by (simp_all add: codecs_match_def)
    have "read_request lib True (MarshalIngestRequest (lb_pw lib) ?req, False) = Some (Inr (?req\<lparr>Events := map wire_entry events\<rparr>))"
      if "int (length (MarshalIngestRequest (lb_pw lib) ?req)) \<le> body_limit"
      using that request_wire [OF pw(2), of ?req] pw(3) by (simp add: read_request_def LimitReader_def)
    moreover have "carried s = wire_entry" using True by (simp add: carried_def fun_eq_iff)
    ultimately show ?thesis using True pw(1) by (intro that) (simp_all add: encode_payload_def)
  next
    case False
    then obtain body where "sl_marshalJSON sl ?req = Inr body" "lb_decodeJSON lib (body, False) = Inr ?req"
      using codec by (auto simp: codecs_match_def)
    moreover have "map (carried s) events = events" using False by (simp add: carried_def map_idI)
    ultimately show ?thesis using False
      by (intro that) (auto simp: encode_payload_def read_request_def LimitReader_def)
  qed
  obtain zb en where zb: "compress_body sl s body = (zb, en)" by fastforce
  note dz = decompress_compressed [OF z zb]
  have small: "int (length zb) \<le> max_body h" "int (length body) \<le> body_limit"
    using fits zb by (simp_all add: payload_fits_def enc)
  have mb: "MaxBytesReader (max_body h) zb = (zb, False)"
    using small(1) by (simp add: MaxBytesReader_def Let_def)
  have cnt: "\<not> (0 < h_MaxBatchEvents h \<and> h_MaxBatchEvents h < int (length events))" using fits by (auto simp: payload_fits_def)
  obtain req where req: "build_request sl s agentID events = Inr req" "cr_ContentType req = ct" "cr_Accept req = (if ?p then ContentTypeProtobuf else [])"
      "cr_ContentEncoding req = en" "cr_Body req = zb"
    using url zb enc by (simp add: build_request_def)
  have ty: "IsProtobufContentType ct = ?p" "IsProtobufContentType (if ?p then ContentTypeProtobuf else []) = ?p"
    using ct by (simp_all add: proto_types ContentTypeJSON_no_proto)
  have "ServeHTTP lib put errText uuid clk (received req) h =
      Some (case ingestEntries put (lb_marshal lib) uuid clk (map (carried s) events) agentID h of
              (Inl (Panic p), h') \<Rightarrow> (Inl p, h')
            | (Inl (StorageError err), h') \<Rightarrow>
                (Inr (writeResponse lib 500 (error_response (''storage error: '' @ errText err)) ?p), h')
            | (Inr b, h') \<Rightarrow>
                (Inr (writeResponse lib 200 (ok_response (int (length (sb_accepted b))) (sb_duplicates b) (sb_errors b)) ?p), h'))"
    using ev
    by (auto simp: ServeHTTP_def received_def req(2-) ty mb dz dec [OF small(2)] if_not_P [OF cnt] Let_def
        split: prod.split sum.split ingest_failure.split)
  with req(1) show ?thesis by (rule that)
qed

section \<open>Properties\<close>

text \<open>
  C8. A batch sent over the binary protocol arrives: the server decompresses and decodes exactly
  the entries the agent sent (as the wire carries them) and ingests them, and the agent's \<open>Send\<close>
  returns, with the server's counts when the batch was ingested and with a retryable error when
  the store failed. Both ends always answer.
\<close>

theorem send_reaches_ingest:
  assumes proto: "sd_format s = ''protobuf''" and pw: "sl_pw sl = lb_pw lib" "pw_faithful (lb_pw lib)"
    and z: "compressors_match sl lib" and url: "sl_newRequest sl (sd_targetURL s) = None"
    and ev: "events \<noteq> []" and wf: "\<forall>e\<in>set events. wf_map (Fields e)" and fits: "request_fits sl s agentID events h"
    and ing: "ingestEntries put (lb_marshal lib) uuid clk (map wire_entry events) agentID h = (r, h')" and hub: "hub_fine h"
    and few: "int (length events) < 2 ^ 63"
    and short: "\<forall>b. r = Inr b \<longrightarrow> length (rs_body (ingest_answer lib errText (Inl b))) \<le> 1024 * 1024"
  shows "\<exists>req. build_request sl s agentID events = Inr req \<and>
    (case r of
       Inr b \<Rightarrow>
         ServeHTTP lib put errText uuid clk (received req) h = Some (Inr (ingest_answer lib errText (Inl b)), h') \<and>
         Send sl (served lib put errText uuid clk h) s agentID events =
           Some (Inr (ok_response (int (length (sb_accepted b))) (sb_duplicates b) (sb_errors b)))
     | Inl (StorageError err) \<Rightarrow>
         ServeHTTP lib put errText uuid clk (received req) h = Some (Inr (ingest_answer lib errText (Inr err)), h') \<and>
         (\<exists>e. Send sl (served lib put errText uuid clk h) s agentID events = Some (Inl e) \<and> IsRetryable (Some e))
     | Inl (Panic p) \<Rightarrow> False)"
proof -
  have codec: "codecs_match sl lib s \<lparr>AgentID = agentID, Events = events\<rparr>" using proto pw wf by (simp add: codecs_match_def)
  have pfits: "payload_fits sl s agentID events h" using fits proto by (simp add: payload_fits_def request_fits_def encode_payload_def Let_def)
  have wire: "map (carried s) events = map wire_entry events" using proto by (simp add: carried_def)
  obtain req where req: "build_request sl s agentID events = Inr req" and
      serve: "ServeHTTP lib put errText uuid clk (received req) h =
        Some (case r of Inl (Panic p) \<Rightarrow> (Inl p, h') | Inl (StorageError err) \<Rightarrow> (Inr (ingest_answer lib errText (Inr err)), h')
              | Inr b \<Rightarrow> (Inr (ingest_answer lib errText (Inl b)), h'))"
    by (rule ServeHTTP_of_sender [OF codec z url ev pfits, where put = put and errText = errText and uuid = uuid and clk = clk])
      (auto simp: ing wire proto ingest_answer_def split: sum.split ingest_failure.split)
  have send: "Send sl (served lib put errText uuid clk h) s agentID events = read_answer sl (length events) (answered_with resp)"
    if "ServeHTTP lib put errText uuid clk (received req) h = Some (Inr resp, h')" for resp
    using that ev req by (simp add: Send_def served_def)
  obtain b d where loop: "ingest_loop uuid clk (h_MaxMessageBytes h) agentID 0 (map wire_entry events) (empty_batch, h_dedup h) = (b, d)"
    by fastforce
  show ?thesis
  proof (cases r)
    case (Inr b)
    note c = ingest_counts [OF ing [unfolded Inr] hub]
    let ?resp = "ok_response (int (length (sb_accepted b))) (sb_duplicates b) (sb_errors b)"
    have "UnmarshalIngestResponse (lb_pw lib) (MarshalIngestResponse (lb_pw lib) ?resp) empty_response = Some (Inr ?resp)"
      by (rule response_wire [OF pw(2)]) (use c few in \<open>simp_all add: ok_response_def\<close>)
    then have "read_answer sl (length events) (answered_with (ingest_answer lib errText (Inl b))) = Some (Inr ?resp)"
      using short Inr by (simp add: read_answer_def answered_with_def ingest_answer_def writeResponse_def proto_types pw(1) Let_def)
    with send serve Inr req show ?thesis by simp
  next
    case (Inl f)
    show ?thesis
    proof (cases f)
      case (StorageError err)
      let ?a = "answered_with (ingest_answer lib errText (Inr err))"
      obtain e where e: "read_answer sl (length events) ?a = Some (Inl e)"
        by (simp add: read_answer_def answered_with_def ingest_answer_def writeResponse_def Let_def)
      have "ck_StatusCode ?a = 500" by (simp add: answered_with_def ingest_answer_def writeResponse_def)
      then have "IsRetryable (Some e)" using IsRetryable_status [OF e] by simp
      with send serve Inl StorageError req e show ?thesis by auto
    next
      case (Panic p)
      have False by (rule ingestEntries_cases [OF ing hub loop]) (use Inl Panic in simp_all)
      then show ?thesis ..
    qed
  qed
qed

text \<open>A concrete exchange: one entry without a timestamp, compressed, to a store that keeps a list.\<close>

definition ex_sender :: sender where
  "ex_sender = \<lparr>sd_targetURL = ''http://s/api/v1/ingest'', sd_token = ''t'', sd_compression = ''zstd'', sd_format = ''protobuf'', sd_timeout = 1\<rparr>"

definition ex_lib :: ingest_libs where
  "ex_lib = \<lparr>lb_zstd = (\<lambda>r. Inr (tl (fst r), snd r)), lb_gzip = (\<lambda>r. Inl []), lb_readError = [], lb_decodeJSON = (\<lambda>r. Inl []),
     lb_decodeOTLP = (\<lambda>r. Inl []), lb_pw = unary_wire, lb_parseError = [], lb_encodeJSON = (\<lambda>r. []), lb_encodeOTLP = (\<lambda>r. []), lb_marshal = (\<lambda>m. None)\<rparr>"

definition ex_server :: "log_entry list handler" where
  "ex_server = NewHandler 0 10 0 0 [] None"

definition ex_put :: "log_entry list \<Rightarrow> log_entry list \<Rightarrow> string option \<times> log_entry list" where
  "ex_put es s = (None, s @ es)"

definition ex_events :: "log_entry list" where
  "ex_events = [(letter_entry CHR ''a'')\<lparr>Timestamp := zero_time\<rparr>]"

abbreviation ex_ingest :: "(string ingest_failure, sorted_batch) result \<times> log_entry list handler" where
  "ex_ingest \<equiv> ingestEntries ex_put (lb_marshal ex_lib) (\<lambda>i. ''u'') (\<lambda>i. ex_now) (map wire_entry ex_events) ''agent'' ex_server"

theorem send_reaches_ingest_witness:
  "Send ex_sl (served ex_lib ex_put (\<lambda>e. e) (\<lambda>i. ''u'') (\<lambda>i. ex_now) ex_server) ex_sender ''agent'' ex_events = Some (Inr (ok_response 1 0 []))"
proof -
  let ?b = "\<lparr>sb_accepted = [(letter_entry CHR ''a'')\<lparr>Timestamp := ex_now\<rparr>], sb_duplicates = 0, sb_errors = []\<rparr>"
  have "fst ex_ingest = Inr ?b" by code_simp
  then obtain h' where ing: "ex_ingest = (Inr ?b, h')" by (metis prod.collapse)
  have match: "compressors_match ex_sl ex_lib" by (simp add: compressors_match_def ex_sl_def ex_lib_def)
  have fits: "request_fits ex_sl ex_sender ''agent'' ex_events ex_server" by code_simp
  have "int (length (rs_body (ingest_answer ex_lib (\<lambda>e. e) (Inl ?b)))) \<le> 1024 * 1024" by code_simp
  then have short: "length (rs_body (ingest_answer ex_lib (\<lambda>e. e) (Inl ?b))) \<le> 1024 * 1024" by simp
  have "pw_faithful (lb_pw ex_lib)" "sl_pw ex_sl = lb_pw ex_lib" "sl_newRequest ex_sl (sd_targetURL ex_sender) = None"
    "sd_format ex_sender = ''protobuf''"
    using unary_wire_faithful by (simp_all add: ex_lib_def ex_sl_def ex_sender_def)
  note pre = this
  have ev: "ex_events \<noteq> []" "\<forall>e\<in>set ex_events. wf_map (Fields e)" "int (length ex_events) < 2 ^ 63"
    by (simp_all add: ex_events_def letter_entry_def)
  have "hub_fine ex_server" by (simp add: ex_server_def NewHandler_def)
  from send_reaches_ingest [OF pre(4,2,1) match pre(3) ev(1,2) fits ing this ev(3), where errText = "\<lambda>e. e"] short
  show ?thesis by auto
qed

end
