(* ===== verification/Server.thy ===== *)
theory Server
  imports Health Maintenance Glob EndToEnd
begin

text \<open>
  The server, \<open>internal/server\<close>: the routes and query endpoints (\<open>routes.go\<close>), the middleware around them
  (\<open>middleware.go\<close>), and the construction, run and shutdown of the whole (\<open>server.go\<close>).

  A handler takes the response writer and the state and returns them, with the panic that ended it, if any;
  \<open>None\<close> is a handler that does not return. A response is its status, its body and the headers this program
  sets; a request has the parts of the header that are read and a path without percent-encoding.
  \<open>http.ServeMux\<close> is modelled as far as it is used: exact paths, the subtree \<open>/\<close>, and the redirection of
  paths that are not clean (without the body of the redirection). The environment of a request
  has the arguments that stand for libraries: codecs, the static file server, the metrics page, the
  WebSocket handshake, and what clocks, UUIDs and faults give while it is served.
\<close>

section \<open>Requests and responses\<close>

record request = http_request +
  rq_Path :: string
  rq_Authorization :: string
  rq_Query :: "(string \<times> string) list"

definition Query_Get :: "request \<Rightarrow> string \<Rightarrow> string" where
  "Query_Get r key = (case map_of (rq_Query r) key of Some v \<Rightarrow> v | None \<Rightarrow> '''')"

record writer =
  wr_headers :: "(string, string) gomap"
  wr_code :: "int option"
  wr_body :: string
  wr_hijacked :: bool

definition fresh_writer :: writer where
  "fresh_writer = \<lparr>wr_headers = [], wr_code = None, wr_body = '''', wr_hijacked = False\<rparr>"

text \<open>Headers set after the status was sent, and everything after a hijack, have no effect.\<close>

definition Header_Set :: "string \<Rightarrow> string \<Rightarrow> writer \<Rightarrow> writer" where
  "Header_Set k v w = (if wr_code w = None then w\<lparr>wr_headers := AList.update k v (wr_headers w)\<rparr> else w)"

definition WriteHeader :: "int \<Rightarrow> writer \<Rightarrow> writer" where
  "WriteHeader status w = (if wr_code w = None \<and> \<not> wr_hijacked w then w\<lparr>wr_code := Some status\<rparr> else w)"

definition Write :: "string \<Rightarrow> writer \<Rightarrow> writer" where
  "Write data w =
     (if wr_hijacked w then w
      else let w = WriteHeader 200 w in w\<lparr>wr_body := wr_body w @ data\<rparr>)"

definition reply :: "http_response \<Rightarrow> writer \<Rightarrow> writer" where
  "reply resp w = Write (rs_body resp) (WriteHeader (rs_code resp) (Header_Set ''Content-Type'' (rs_type resp) w))"

type_synonym 'st web = "request \<Rightarrow> writer \<times> 'st \<Rightarrow> (hub_panic option \<times> writer \<times> 'st) option"

section \<open>Middleware\<close>

definition RecoveryMiddleware :: "'st web \<Rightarrow> 'st web" where
  "RecoveryMiddleware nxt r ws =
     map_option (\<lambda>(p, w, st).
       case p of
         Some _ \<Rightarrow> (None, reply (http_Error ''{\"error\":\"internal server error\"}'' 500) w, st)
       | None \<Rightarrow> (None, w, st)) (nxt r ws)"

text \<open>The requests it logs, with the status that the intercepting writer has seen: 200 unless one was written.\<close>

definition LoggingMiddleware :: "(string \<times> string \<times> int \<Rightarrow> 'st \<Rightarrow> 'st) \<Rightarrow> 'st web \<Rightarrow> 'st web" where
  "LoggingMiddleware slog nxt r ws =
     map_option (\<lambda>(p, w, st).
       case p of
         Some _ \<Rightarrow> (p, w, st)
       | None \<Rightarrow> (None, w, slog (rq_Method r, rq_Path r, case wr_code w of Some c \<Rightarrow> c | None \<Rightarrow> 200) st)) (nxt r ws)"

definition public_path :: "string \<Rightarrow> bool" where
  "public_path path \<longleftrightarrow> path = ''/healthz'' \<or> path = ''/readyz'' \<or> path = ''/'' \<or> HasPrefix path ''/static/''"

definition request_token :: "request \<Rightarrow> string" where
  "request_token r =
     (let authHeader = rq_Authorization r;
          token = (if HasPrefix authHeader ''Bearer '' then TrimPrefix authHeader ''Bearer '' else authHeader)
      in if token = '''' then Query_Get r ''token'' else token)"

definition token_matches :: "string list \<Rightarrow> string \<Rightarrow> bool" where
  "token_matches tokens token \<longleftrightarrow> list_ex (\<lambda>validToken. token \<noteq> '''' \<and> token = validToken) tokens"

definition AuthMiddleware :: "auth_settings \<Rightarrow> 'st web \<Rightarrow> 'st web" where
  "AuthMiddleware authCfg nxt r ws =
     (if \<not> as_Enabled authCfg then nxt r ws
      else if public_path (rq_Path r) then nxt r ws
      else if \<not> token_matches (as_Tokens authCfg) (request_token r) then
        Some (None, reply (http_Error ''{\"error\":\"unauthorized\"}'' 401) (fst ws), snd ws)
      else nxt r ws)"

definition cors_headers :: "writer \<Rightarrow> writer" where
  "cors_headers w =
     Header_Set ''Access-Control-Allow-Headers'' ''Content-Type, Authorization''
       (Header_Set ''Access-Control-Allow-Methods'' ''GET, POST, OPTIONS''
         (Header_Set ''Access-Control-Allow-Origin'' ''*'' w))"

definition CORSMiddleware :: "'st web \<Rightarrow> 'st web" where
  "CORSMiddleware nxt r ws =
     (let w = cors_headers (fst ws)
      in if rq_Method r = ''OPTIONS'' then Some (None, WriteHeader 204 w, snd ws) else nxt r (w, snd ws))"

section \<open>The server and its endpoints\<close>

datatype static_root = WebDir string | Embedded | Landing

record server =
  sv_cfg :: server_config
  sv_ingest :: "file_store handler"
  sv_health :: "file_store health_handler"
  sv_retention :: "retention_worker option"
  sv_static :: static_root
  sv_log :: "(string \<times> string \<times> int) list"

datatype api_reply = LogsFound int "log_entry list" | QueryError string | SourceList "string list" | HostList "string list"

record request_env =
  re_lib :: ingest_libs
  re_cd :: block_codec
  re_append :: append_env
  re_query :: store_faults
  re_errText :: "store_error \<Rightarrow> string"
  re_uuid :: "nat \<Rightarrow> string"
  re_clk :: "nat \<Rightarrow> gotime"
  re_idgen :: "nat \<Rightarrow> string"
  re_parseClk :: "nat \<Rightarrow> gotime"
  re_now :: gotime
  re_parseTime :: "string \<Rightarrow> string \<Rightarrow> gotime option"
  re_json :: "api_reply \<Rightarrow> string"
  re_health :: "health_report \<Rightarrow> string"
  re_metrics :: http_response
  re_files :: "static_root \<Rightarrow> request \<Rightarrow> http_response"
  re_handshake :: "http_response option"
  re_client :: nat

definition RFC3339 :: string where
  "RFC3339 = ''2006-01-02T15:04:05Z07:00''"

definition set_store :: "file_store \<Rightarrow> server \<Rightarrow> server" where
  "set_store s sv = sv\<lparr>sv_ingest := (sv_ingest sv)\<lparr>h_store := s\<rparr>\<rparr>"

abbreviation sv_store :: "server \<Rightarrow> file_store" where
  "sv_store sv \<equiv> h_store (sv_ingest sv)"

definition time_param :: "request_env \<Rightarrow> string \<Rightarrow> gotime" where
  "time_param env s = (if s = '''' then zero_time else case re_parseTime env RFC3339 s of Some t \<Rightarrow> t | None \<Rightarrow> zero_time)"

definition logs_query :: "request_env \<Rightarrow> request \<Rightarrow> log_query" where
  "logs_query env r =
     \<lparr>q_Host = Query_Get r ''host'', q_Source = Query_Get r ''source'', q_Level = Query_Get r ''level'',
      q_StartTime = time_param env (Query_Get r ''start_time''), q_EndTime = time_param env (Query_Get r ''end_time''),
      q_Search = Query_Get r ''search'',
      q_Limit = (let limitStr = Query_Get r ''limit''
                 in if limitStr = '''' then 0 else case ParseInt limitStr of Some l \<Rightarrow> l | None \<Rightarrow> 0)\<rparr>"

definition handleLogsQuery :: "request_env \<Rightarrow> server web" where
  "handleLogsQuery env r ws =
     (case ws of (w, sv) \<Rightarrow>
        if rq_Method r \<noteq> ''GET'' then Some (None, reply (http_Error ''method not allowed'' 405) w, sv)
        else
          case Query (re_cd env) (re_query env) (logs_query env r) (sv_store sv) of
            (Inl err, s) \<Rightarrow> Some (None, reply (json_answer 500 (re_json env (QueryError (re_errText env err)))) w, set_store s sv)
          | (Inr entries, s) \<Rightarrow>
              Some (None, reply (json_answer 200 (re_json env (LogsFound (int (length entries)) entries))) w, set_store s sv))"

definition handleSourcesQuery :: "request_env \<Rightarrow> server web" where
  "handleSourcesQuery env r ws =
     (case ws of (w, sv) \<Rightarrow> Some (None, reply (json_answer 200 (re_json env (SourceList (Sources (sv_store sv))))) w, sv))"

definition handleHostsQuery :: "request_env \<Rightarrow> server web" where
  "handleHostsQuery env r ws =
     (case ws of (w, sv) \<Rightarrow> Some (None, reply (json_answer 200 (re_json env (HostList (Hosts (sv_store sv))))) w, sv))"

text \<open>\<open>Hub.Upgrade\<close> when no other goroutine acts between its steps; the handshake replies itself when it fails.\<close>

definition Upgrade :: "request_env \<Rightarrow> writer \<Rightarrow> hub \<Rightarrow> (hub_panic, hub) result \<times> writer" where
  "Upgrade env w hb =
     (case Upgrade_check hb of
        Inl ErrHubClosed \<Rightarrow> (Inr hb, reply (http_Error ''server is shutting down'' 503) w)
      | Inl ErrMaxClientsReached \<Rightarrow> (Inr hb, reply (http_Error ''too many clients connected'' 503) w)
      | Inr _ \<Rightarrow>
          (case re_handshake env of
             Some resp \<Rightarrow> (Inr hb, reply resp w)
           | None \<Rightarrow>
               (Upgrade_replay (lb_marshal (re_lib env)) (re_client env) (Upgrade_register (re_client env) hb),
                w\<lparr>wr_hijacked := True\<rparr>)))"

definition handleWebSocketStream :: "request_env \<Rightarrow> server web" where
  "handleWebSocketStream env r ws =
     (case ws of (w, sv) \<Rightarrow>
        case h_hub (sv_ingest sv) of
          None \<Rightarrow> Some (None, w, sv)
        | Some hb \<Rightarrow>
            (case Upgrade env w hb of
               (Inl p, w') \<Rightarrow> Some (Some p, w', sv)
             | (Inr hb', w') \<Rightarrow> Some (None, w', sv\<lparr>sv_ingest := (sv_ingest sv)\<lparr>h_hub := Some hb'\<rparr>\<rparr>)))"

definition ingest_outcome :: "writer \<Rightarrow> server \<Rightarrow> (hub_panic, http_response) result \<times> file_store handler \<Rightarrow> hub_panic option \<times> writer \<times> server" where
  "ingest_outcome w sv out =
     (case out of
        (Inl p, h) \<Rightarrow> (Some p, w, sv\<lparr>sv_ingest := h\<rparr>)
      | (Inr resp, h) \<Rightarrow> (None, reply resp w, sv\<lparr>sv_ingest := h\<rparr>))"

definition serve_ingest :: "request_env \<Rightarrow> server web" where
  "serve_ingest env r ws =
     (case ws of (w, sv) \<Rightarrow>
        map_option (ingest_outcome w sv)
          (ServeHTTP (re_lib env) (fs_append (re_cd env) (re_append env)) (re_errText env) (re_uuid env) (re_clk env)
             (http_request.truncate r) (sv_ingest sv)))"

definition serve_otlp :: "request_env \<Rightarrow> server web" where
  "serve_otlp env r ws =
     (case ws of (w, sv) \<Rightarrow>
        Some (ingest_outcome w sv
          (ServeOTLP (re_lib env) (fs_append (re_cd env) (re_append env)) (re_errText env) (re_idgen env) (re_parseClk env)
             (re_uuid env) (re_clk env) (http_request.truncate r) (sv_ingest sv))))"

definition serve_response :: "(server \<Rightarrow> http_response) \<Rightarrow> server web" where
  "serve_response f r ws = (case ws of (w, sv) \<Rightarrow> Some (None, reply (f sv) w, sv))"

definition landing_page :: string where
  "landing_page =
     ''<!DOCTYPE html><html><head><title>Barnacles Server</title></head><body><h1>Barnacles Server Online</h1>'' @
     ''<p>API endpoints active: /api/v1/ingest, /api/v1/logs, /ws, /metrics, /healthz</p></body></html>''"

definition registerStaticRoutes :: "(string \<Rightarrow> bool) \<Rightarrow> bool \<Rightarrow> server_config \<Rightarrow> static_root" where
  "registerStaticRoutes stat staticFS cfg =
     (if ss_WebDir (sc_Server cfg) \<noteq> '''' \<and> stat (ss_WebDir (sc_Server cfg)) then WebDir (ss_WebDir (sc_Server cfg))
      else if stat ''./web'' then WebDir ''./web''
      else if staticFS then Embedded
      else Landing)"

definition NotFound :: http_response where
  "NotFound = http_Error ''404 page not found'' 404"

definition serve_static :: "request_env \<Rightarrow> server web" where
  "serve_static env r ws =
     (case ws of (w, sv) \<Rightarrow>
        case sv_static sv of
          Landing \<Rightarrow>
            if rq_Path r \<noteq> ''/'' then Some (None, reply NotFound w, sv)
            else Some (None, Write landing_page (Header_Set ''Content-Type'' ''text/html; charset=utf-8'' w), sv)
        | dir \<Rightarrow> Some (None, reply (re_files env dir r) w, sv))"

definition registerRoutes :: "request_env \<Rightarrow> (string \<times> server web) list" where
  "registerRoutes env =
     [(''/healthz'', serve_response (\<lambda>sv. Healthz (re_health env) (re_now env) (sv_health sv))),
      (''/readyz'', serve_response (\<lambda>sv. Readyz (re_health env) (sv_health sv) (sv_store sv))),
      (''/metrics'', serve_response (\<lambda>sv. re_metrics env)),
      (''/api/v1/ingest'', serve_ingest env),
      (''/v1/logs'', serve_otlp env),
      (''/api/v1/logs'', handleLogsQuery env),
      (''/api/v1/sources'', handleSourcesQuery env),
      (''/api/v1/agents'', handleHostsQuery env),
      (''/api/v1/hosts'', handleHostsQuery env),
      (''/ws'', handleWebSocketStream env),
      (''/api/v1/stream'', handleWebSocketStream env)]"

definition cleanPath :: "string \<Rightarrow> string" where
  "cleanPath p =
     (if p = '''' then ''/''
      else
        let p = (if hd p \<noteq> slash then slash # p else p);
            np = Clean p
        in if List.last p = slash \<and> np \<noteq> ''/'' then np @ ''/'' else np)"

definition mux :: "request_env \<Rightarrow> server web" where
  "mux env r ws =
     (if rq_Path r = ''*'' then Some (None, WriteHeader 400 (fst ws), snd ws)
      else if rq_Method r \<noteq> ''CONNECT'' \<and> cleanPath (rq_Path r) \<noteq> rq_Path r then
        Some (None, WriteHeader 301 (Header_Set ''Location'' (cleanPath (rq_Path r)) (fst ws)), snd ws)
      else
        case map_of (registerRoutes env) (rq_Path r) of
          Some h \<Rightarrow> h r ws
        | None \<Rightarrow>
            if HasPrefix (rq_Path r) ''/'' then serve_static env r ws
            else Some (None, reply NotFound (fst ws), snd ws))"

definition log_request :: "string \<times> string \<times> int \<Rightarrow> server \<Rightarrow> server" where
  "log_request l sv = sv\<lparr>sv_log := sv_log sv @ [l]\<rparr>"

definition server_handler :: "auth_settings \<Rightarrow> request_env \<Rightarrow> server web" where
  "server_handler auth env =
     RecoveryMiddleware (LoggingMiddleware log_request (AuthMiddleware auth (CORSMiddleware (mux env))))"

section \<open>Construction, run and shutdown\<close>

datatype server_error = ErrServerConfig config_error | ErrInitStore store_error | ErrListen string | ErrServerPanic hub_panic

definition storage_checker :: "file_store checker" where
  "storage_checker s = (if DiskUsage s < 0 then Some ''invalid storage state'' else None)"

definition New_server ::
  "store_faults \<Rightarrow> (string \<Rightarrow> bool) \<Rightarrow> gotime \<Rightarrow> disk \<Rightarrow> bool \<Rightarrow> server_config \<Rightarrow> (server_error, server) result" where
  "New_server flt stat now d staticFS cfg0 =
     (case Validate_server cfg0 of
        (Some err, _) \<Rightarrow> Inl (ErrServerConfig err)
      | (None, cfg) \<Rightarrow>
          (case NewFileStore flt (sg_Directory (sc_Storage cfg)) d of
             Inl err \<Rightarrow> Inl (ErrInitStore err)
           | Inr fsStore \<Rightarrow>
               let st = sc_Stream cfg; ig = sc_Ingest cfg;
                   recentBuf = NewRecentBuffer (sm_RecentEvents st);
                   hb = NewHub (sm_MaxClients st) (sm_ClientBufferSize st) (sm_RecentEvents st) (Some recentBuf);
                   ingestHandler = NewHandler (is_MaxMessageBytes ig) (is_MaxBatchEvents ig) (is_DedupWindow ig)
                     (is_DedupCapacity ig) fsStore (Some hb)
               in Inr \<lparr>sv_cfg = cfg, sv_ingest = ingestHandler,
                       sv_health = AddChecker ''storage'' storage_checker (NewHandler_health now),
                       sv_retention = (if rs_Enabled (sc_Retention cfg) then Some (NewRetentionWorker (sc_Retention cfg)) else None),
                       sv_static = registerStaticRoutes stat staticFS cfg, sv_log = []\<rparr>))"

text \<open>
  What happens while the server runs: a request is served, the retention worker gets a tick, the goroutines of a
  WebSocket client act (\<open>ClientWrites\<close>, a piece of its \<open>WritePump\<close>, and \<open>ClientGone\<close>, the end of its
  \<open>ReadPump\<close>). \<open>run_server\<close> gives the responses in order; a panic in a goroutine of a client ends the process.
\<close>

datatype server_event =
  Request request_env request
| RetentionTick block_codec "block_header \<Rightarrow> index_line" retention_event
| ClientWrites nat "pump_event list"
| ClientGone nat

definition retention_step :: "block_codec \<Rightarrow> (block_header \<Rightarrow> index_line) \<Rightarrow> retention_event \<Rightarrow> server \<Rightarrow> server" where
  "retention_step cd hjson ev sv =
     (case sv_retention sv of
        None \<Rightarrow> sv
      | Some rw \<Rightarrow> set_store (Start_retention cd hjson [ev] rw (sv_store sv)) sv)"

definition on_hub :: "(hub \<Rightarrow> (hub_panic, hub) result) \<Rightarrow> server \<Rightarrow> (hub_panic, server) result" where
  "on_hub f sv =
     (case h_hub (sv_ingest sv) of
        None \<Rightarrow> Inr sv
      | Some hb \<Rightarrow>
          (case f hb of
             Inl p \<Rightarrow> Inl p
           | Inr hb' \<Rightarrow> Inr (sv\<lparr>sv_ingest := (sv_ingest sv)\<lparr>h_hub := Some hb'\<rparr>\<rparr>)))"

definition client_writes :: "nat \<Rightarrow> pump_event list \<Rightarrow> hub \<Rightarrow> (hub_panic, hub) result" where
  "client_writes c evs hb = Inr (hb\<lparr>hb_chan := (hb_chan hb)(c := snd (WritePump evs (hb_chan hb c)))\<rparr>)"

type_synonym run_result = "hub_panic option \<times> writer list \<times> server"

fun run_server :: "server_event list \<Rightarrow> server \<Rightarrow> run_result option" where
  "run_server [] sv = Some (None, [], sv)"
| "run_server (Request env r # evs) sv =
     Option.bind (server_handler (sc_Auth (sv_cfg sv)) env r (fresh_writer, sv))
       (\<lambda>(_, w, sv'). map_option (apsnd (apfst ((#) w))) (run_server evs sv'))"
| "run_server (RetentionTick cd hjson ev # evs) sv = run_server evs (retention_step cd hjson ev sv)"
| "run_server (ClientWrites c es # evs) sv =
     (case on_hub (client_writes c es) sv of Inl p \<Rightarrow> Some (Some p, [], sv) | Inr sv' \<Rightarrow> run_server evs sv')"
| "run_server (ClientGone c # evs) sv =
     (case on_hub (ReadPump c) sv of Inl p \<Rightarrow> Some (Some p, [], sv) | Inr sv' \<Rightarrow> run_server evs sv')"

text \<open>The hub is closed before the store, whatever \<open>Shutdown\<close> of the listener answers.\<close>

definition shutdown :: "server \<Rightarrow> (hub_panic, server) result" where
  "shutdown sv =
     (case on_hub Close_hub sv of
        Inl p \<Rightarrow> Inl p
      | Inr sv' \<Rightarrow> Inr (set_store (Close_store (sv_store sv')) sv'))"

definition Start_server :: "string option \<Rightarrow> server_event list \<Rightarrow> server \<Rightarrow> (server_error option \<times> writer list \<times> server) option" where
  "Start_server listenErr evs sv =
     (case listenErr of
        Some err \<Rightarrow> Some (Some (ErrListen err), [], sv)
      | None \<Rightarrow>
          map_option (\<lambda>(p, ws, sv').
            case p of
              Some p \<Rightarrow> (Some (ErrServerPanic p), ws, sv')
            | None \<Rightarrow> (case shutdown sv' of Inl p \<Rightarrow> (Some (ErrServerPanic p), ws, sv') | Inr sv'' \<Rightarrow> (None, ws, sv'')))
            (run_server evs sv))"

end
