(* ===== verification/ServerProps.thy ===== *)
theory ServerProps
  imports Server
begin

text \<open>
  What the server as a whole guarantees: every request is answered, a client without a token learns and changes
  nothing, and a batch that the agent's sender delivers is found by a later query. At the end the
  defects of the middleware.
\<close>

section \<open>Every request is answered\<close>

lemma writer_simps [simp]:
  "wr_hijacked (Header_Set k v w) = wr_hijacked w" "wr_hijacked (WriteHeader c w) = wr_hijacked w"
  "wr_hijacked (reply resp w) = wr_hijacked w" "wr_hijacked (cors_headers w) = wr_hijacked w"
  "wr_code (Header_Set k v w) = wr_code w" "wr_code (cors_headers w) = wr_code w"
  by (simp_all add: Header_Set_def WriteHeader_def reply_def Write_def Let_def cors_headers_def)

lemma wr_code_WriteHeader: "\<not> wr_hijacked w \<Longrightarrow> wr_code (WriteHeader c w) = (case wr_code w of None \<Rightarrow> Some c | x \<Rightarrow> x)"
  by (simp add: WriteHeader_def split: option.splits)

lemma wr_code_Write: "\<not> wr_hijacked w \<Longrightarrow> wr_code (Write d w) = (case wr_code w of None \<Rightarrow> Some 200 | x \<Rightarrow> x)"
  by (simp add: Write_def Let_def wr_code_WriteHeader)

lemma wr_code_reply: "\<not> wr_hijacked w \<Longrightarrow> wr_code (reply resp w) = (case wr_code w of None \<Rightarrow> Some (rs_code resp) | x \<Rightarrow> x)"
  by (simp add: reply_def wr_code_Write wr_code_WriteHeader split: option.splits)

lemmas wr_codes = wr_code_WriteHeader wr_code_Write wr_code_reply

text \<open>The hub of the server is there and consistent, and its clients are among those in \<open>C\<close>.\<close>

definition hub_among :: "nat set \<Rightarrow> 's handler \<Rightarrow> bool" where
  "hub_among C h \<longleftrightarrow> (\<exists>hb. h_hub h = Some hb \<and> hub_inv hb \<and> set (hb_clients hb) \<subseteq> C)"

lemma hub_among_mono: "hub_among C h \<Longrightarrow> C \<subseteq> D \<Longrightarrow> hub_among D h"
  by (auto simp: hub_among_def)

abbreviation hub_there :: "'s handler \<Rightarrow> bool" where
  "hub_there \<equiv> hub_among UNIV"

lemma BroadcastBatch_clients:
  assumes "hub_inv hb" and "BroadcastBatch marshal es hb = Inr hb'"
  shows "set (hb_clients hb') \<subseteq> set (hb_clients hb)"
proof (cases "es = [] \<or> hb_closed hb")
  case True
  then show ?thesis using assms(2) by (auto simp: BroadcastBatch_def Let_def split: if_splits)
next
  case False
  then show ?thesis using assms(2) by (auto elim!: BroadcastBatch_ok [OF assms(1), of es marshal] simp: delivered_def)
qed

lemma ingestEntries_hub:
  assumes "hub_among C h" and "ingestEntries put marshal uuid clk es host h = (r, h')"
  shows "hub_among C h' \<and> (\<forall>p. r \<noteq> Inl (Panic p))"
proof -
  obtain hb where hb: "h_hub h = Some hb" "hub_inv hb" "set (hb_clients hb) \<subseteq> C" using assms(1) by (auto simp: hub_among_def)
  obtain b d where loop: "ingest_loop uuid clk (h_MaxMessageBytes h) host 0 es (empty_batch, h_dedup h) = (b, d)" by fastforce
  obtain hb' where "BroadcastBatch marshal (sb_accepted b) hb = Inr hb'" "hub_inv hb'" using Broadcast_total(2) [OF hb(2)] by blast
  moreover from this(1) have "set (hb_clients hb') \<subseteq> C" using BroadcastBatch_clients hb(2,3) by blast
  ultimately show ?thesis
    using assms(2) hb loop by (auto simp: ingestEntries_def hub_among_def Let_def split: if_splits prod.splits option.splits)
qed

definition answered_by :: "nat set \<Rightarrow> ('p, 'a) result \<times> 's handler \<Rightarrow> bool" where
  "answered_by C out \<longleftrightarrow> (\<exists>resp h'. out = (Inr resp, h') \<and> hub_among C h')"

lemma ingest_answered:
  assumes "hub_among C h"
  shows "answered_by C (case ingestEntries put marshal uuid clk es host h of
      (Inl (Panic p), h') \<Rightarrow> (Inl p, h') | (Inl (StorageError err), h') \<Rightarrow> (Inr (f err), h') | (Inr b, h') \<Rightarrow> (Inr (g b), h'))"
  using ingestEntries_hub [OF assms, of put marshal uuid clk es host]
  by (auto simp: answered_by_def split: prod.split sum.split ingest_failure.split)

lemma read_request_returns:
  assumes "pw_progress (lb_pw lib)"
  shows "\<exists>req. read_request lib isProto r = Some req"
proof -
  obtain u where "UnmarshalIngestRequest (lb_pw lib) (fst (LimitReader body_limit r)) empty_request = Some u"
    using fields_loop_returns [OF assms request_step_returns [OF assms]] unfolding UnmarshalIngestRequest_def by blast
  then show ?thesis by (simp add: read_request_def Let_def)
qed

definition some_answer :: "nat set \<Rightarrow> (('p, 'a) result \<times> 's handler) option \<Rightarrow> bool" where
  "some_answer C q \<longleftrightarrow> (case q of None \<Rightarrow> False | Some out \<Rightarrow> answered_by C out)"

lemma ServeHTTP_answers:
  assumes "hub_among C h" and "pw_progress (lb_pw lib)"
  shows "some_answer C (ServeHTTP lib put errText uuid clk r h)"
proof -
  have [simp]: "answered_by C (Inr resp, h)" for resp :: http_response using assms(1) by (simp add: answered_by_def)
  show ?thesis
  proof (cases "decompressReader lib (MaxBytesReader (max_body h) (rq_Body r)) (rq_ContentEncoding r)")
    case reader: (Inr reader)
    obtain d where d: "read_request lib (IsProtobufContentType (rq_ContentType r)) reader = Some d"
      using read_request_returns [OF assms(2)] by blast
    show ?thesis
      by (cases d) (simp_all add: ServeHTTP_def Let_def d reader some_answer_def ingest_answered [OF assms(1)])
  qed (simp add: ServeHTTP_def some_answer_def)
qed

lemma ServeOTLP_answers:
  assumes "hub_among C h"
  shows "answered_by C (ServeOTLP lib put errText idgen parseClk uuid clk r h)"
proof -
  have [simp]: "answered_by C (Inr resp, h)" for resp using assms by (simp add: answered_by_def)
  show ?thesis by (simp add: ServeOTLP_def Let_def ingest_answered [OF assms] split: sum.split)
qed

text \<open>A handler has answered: it returned without a panic, a status is set or the connection taken over, and the hub is consistent.\<close>

definition served_ok :: "nat set \<Rightarrow> (hub_panic option \<times> writer \<times> server) option \<Rightarrow> bool" where
  "served_ok C out \<longleftrightarrow> (\<exists>w sv. out = Some (None, w, sv) \<and> (wr_code w \<noteq> None \<or> wr_hijacked w) \<and> hub_among C (sv_ingest sv))"

lemma hub_among_store [simp]: "hub_among C (h\<lparr>h_store := s\<rparr>) = hub_among C h"
  by (simp add: hub_among_def)

lemma ingest_outcome_served:
  assumes "answered_by C out" and "\<not> wr_hijacked w"
  shows "served_ok C (Some (ingest_outcome w sv out))"
  using assms by (auto simp: answered_by_def served_ok_def ingest_outcome_def wr_code_reply split: option.splits)

lemma Upgrade_replay_registered:
  assumes "hub_inv hb" and "\<not> hb_closed hb" and "c \<notin> set (hb_clients hb)"
  shows "\<exists>hb'. Upgrade_replay marshal c (Upgrade_register c hb) = Inr hb' \<and> hub_inv hb' \<and> set (hb_clients hb') \<subseteq> insert c (set (hb_clients hb))"
proof -
  have inv: "hub_inv (Upgrade_register c hb)" using assms by (simp add: Upgrade_register_inv)
  have "hb_chan (Upgrade_register c hb) c = NewClient (hb_ClientBufferSize hb)"
    by (simp add: Upgrade_register_def Register_def)
  moreover have "set (hb_clients (Upgrade_register c hb)) \<subseteq> insert c (set (hb_clients hb))"
    by (auto simp: Upgrade_register_def Register_def)
  ultimately show ?thesis
    using inv by (auto simp: Upgrade_replay_def SendMessage_def NewClient_def hub_inv_def split: option.splits)
qed

lemma Upgrade_cases:
  assumes "hub_inv hb" and "re_client env \<notin> set (hb_clients hb)"
  shows "(\<exists>resp. Upgrade env w hb = (Inr hb, reply resp w)) \<or>
    (\<exists>hb'. Upgrade env w hb = (Inr hb', w\<lparr>wr_hijacked := True\<rparr>) \<and> hub_inv hb' \<and> set (hb_clients hb') \<subseteq> insert (re_client env) (set (hb_clients hb)))"
proof (cases "Upgrade_check hb")
  case (Inl e)
  then show ?thesis by (cases e) (auto simp: Upgrade_def)
next
  case (Inr u)
  then have "\<not> hb_closed hb" by (auto simp: Upgrade_check_def)
  from Upgrade_replay_registered [OF assms(1) this assms(2)] Inr show ?thesis
    by (cases "re_handshake env") (auto simp: Upgrade_def)
qed

lemma websocket_served:
  assumes "hub_among C (sv_ingest sv)" and "re_client env \<notin> C" and "\<not> wr_hijacked w"
  shows "served_ok (insert (re_client env) C) (handleWebSocketStream env r (w, sv))"
proof -
  obtain hb where hb: "h_hub (sv_ingest sv) = Some hb" "hub_inv hb" "set (hb_clients hb) \<subseteq> C" using assms(1) by (auto simp: hub_among_def)
  have c: "re_client env \<notin> set (hb_clients hb)" using assms(2) hb(3) by blast
  from Upgrade_cases [OF hb(2) c, of w] show ?thesis
    using hb assms(3) by (auto simp: handleWebSocketStream_def served_ok_def hub_among_def wr_code_reply split: option.splits) blast
qed

lemma served_okI: "hub_among C (sv_ingest sv) \<Longrightarrow> wr_code w \<noteq> None \<Longrightarrow> served_ok C (Some (None, w, sv))"
  by (simp add: served_ok_def)

lemma mux_served:
  assumes "hub_among C (sv_ingest sv)" and "re_client env \<notin> C" and "\<not> wr_hijacked w" and "pw_progress (lb_pw (re_lib env))"
  shows "served_ok (insert (re_client env) C) (mux env r (w, sv))"
proof -
  let ?D = "insert (re_client env) C"
  have D: "hub_among ?D (sv_ingest sv)" using assms(1) hub_among_mono by blast
  let ?serve = "ServeHTTP (re_lib env) (fs_append (re_cd env) (re_append env)) (re_errText env) (re_uuid env) (re_clk env)
    (http_request.truncate r) (sv_ingest sv)"
  have "some_answer ?D ?serve" by (rule ServeHTTP_answers [OF D assms(4)])
  then obtain out where out: "?serve = Some out" "answered_by ?D out" by (auto simp: some_answer_def split: option.splits)
  have code [simp]: "wr_code (reply resp w') \<noteq> None" if "\<not> wr_hijacked w'" for resp w'
    using that by (simp add: wr_code_reply split: option.splits)
  have answers: "served_ok ?D (serve_ingest env r (w, sv))" "served_ok ?D (serve_otlp env r (w, sv))" "served_ok ?D (handleWebSocketStream env r (w, sv))"
    "served_ok ?D (handleLogsQuery env r (w, sv))" "served_ok ?D (handleSourcesQuery env r (w, sv))" "served_ok ?D (handleHostsQuery env r (w, sv))"
    "served_ok ?D (serve_response f r (w, sv))" "served_ok ?D (serve_static env r (w, sv))" for f
    using assms(1-3) D out(2)
    by (auto simp: ServeOTLP_answers [OF D] serve_ingest_def out(1) serve_otlp_def ingest_outcome_served websocket_served handleLogsQuery_def handleSourcesQuery_def
        handleHostsQuery_def serve_response_def serve_static_def set_store_def wr_codes intro!: served_okI split: prod.splits sum.splits static_root.splits option.splits)
  show ?thesis using D assms(3)
    by (auto simp: mux_def registerRoutes_def answers wr_codes intro!: served_okI split: option.splits)
qed

section \<open>Authentication\<close>

text \<open>
  A client presents a token in the header, with or without the word \<open>Bearer\<close>, or in the query when the header
  has none. The empty string is no token.
\<close>

definition presents :: "request \<Rightarrow> string \<Rightarrow> bool" where
  "presents r t \<longleftrightarrow> t \<noteq> '''' \<and>
     (rq_Authorization r = ''Bearer '' @ t \<or> rq_Authorization r = t \<and> \<not> HasPrefix t ''Bearer '' \<or>
      rq_Authorization r \<in> {'''', ''Bearer ''} \<and> Query_Get r ''token'' = t)"

lemma request_token_presents:
  assumes "t \<noteq> ''''"
  shows "request_token r = t \<longleftrightarrow> presents r t"
proof (cases "HasPrefix (rq_Authorization r) ''Bearer ''")
  case True
  then obtain x where x: "rq_Authorization r = ''Bearer '' @ x" unfolding HasPrefix_iff by blast
  then have "request_token r = (if x = '''' then Query_Get r ''token'' else x)"
    using True by (simp add: request_token_def TrimPrefix_def HasPrefix_def)
  moreover have "rq_Authorization r \<noteq> t \<or> HasPrefix t ''Bearer ''" using True by auto
  ultimately show ?thesis using assms x by (auto simp: presents_def)
next
  case False
  then have "request_token r = (if rq_Authorization r = '''' then Query_Get r ''token'' else rq_Authorization r)"
    by (simp add: request_token_def)
  moreover have "rq_Authorization r \<noteq> ''Bearer '' @ t" "rq_Authorization r \<noteq> ''Bearer ''" using False by (auto simp: HasPrefix_def)
  ultimately show ?thesis using assms False unfolding presents_def by (cases "rq_Authorization r = ''''") auto
qed

lemma token_matches_presents: "token_matches tokens (request_token r) \<longleftrightarrow> (\<exists>t\<in>set tokens. presents r t)"
  using request_token_presents [of _ r] unfolding token_matches_def list_ex_iff presents_def by metis

text \<open>What a request may learn without a token: the static pages and the two probes.\<close>

definition same_public :: "server \<Rightarrow> server \<Rightarrow> bool" where
  "same_public sv sv' \<longleftrightarrow> sv_static sv' = sv_static sv \<and> sv_health sv' = sv_health sv \<and>
     check_all (hh_checkers (sv_health sv)) (sv_store sv') [] = check_all (hh_checkers (sv_health sv)) (sv_store sv) []"

lemma static_not_routed:
  assumes "HasPrefix path ''/static/''"
  shows "map_of (registerRoutes env) path = None"
proof -
  have "list_all (\<lambda>k. \<not> HasPrefix k ''/static/'') (map fst (registerRoutes env))"
    by (simp add: registerRoutes_def HasPrefix_def)
  then show ?thesis using assms unfolding map_of_eq_None_iff list_all_iff by auto
qed

lemma public_mux:
  assumes "public_path (rq_Path r)" and "same_public sv sv'" and "\<not> wr_hijacked w"
  shows "\<exists>w'. mux env r (w, sv) = Some (None, w', sv) \<and> mux env r (w, sv') = Some (None, w', sv')"
proof -
  have st: "\<exists>w'. serve_static env r (w, sv) = Some (None, w', sv) \<and> serve_static env r (w, sv') = Some (None, w', sv')"
    using assms(2) by (auto simp: serve_static_def same_public_def split: static_root.split)
  consider "rq_Path r = ''/healthz''" | "rq_Path r = ''/readyz''" | "rq_Path r = ''/''" | "HasPrefix (rq_Path r) ''/static/''"
    using assms(1) by (auto simp: public_path_def)
  then show ?thesis
  proof cases
    case 4
    then show ?thesis using st static_not_routed [OF 4, of env] by (auto simp: mux_def)
  qed (use assms(2) st in \<open>auto simp: mux_def registerRoutes_def serve_response_def same_public_def Readyz_def\<close>)
qed

section \<open>Properties\<close>

lemma server_handler_ok:
  assumes "AuthMiddleware auth (CORSMiddleware (mux env)) r (w, sv) = Some (None, w', sv')"
  shows "server_handler auth env r (w, sv) =
    Some (None, w', log_request (rq_Method r, rq_Path r, case wr_code w' of Some c \<Rightarrow> c | None \<Rightarrow> 200) sv')"
  using assms by (simp add: server_handler_def RecoveryMiddleware_def LoggingMiddleware_def)

lemma fresh_writer_simps [simp]: "wr_code fresh_writer = None" "\<not> wr_hijacked fresh_writer"
  by (simp_all add: fresh_writer_def)

text \<open>A server on an empty store, for the examples.\<close>

definition ex_web :: server where
  "ex_web = \<lparr>sv_cfg = DefaultServerConfig, sv_ingest = ex_handler,
     sv_health = AddChecker ''storage'' storage_checker (NewHandler_health ex_now), sv_retention = None, sv_static = Landing, sv_log = []\<rparr>"

definition ex_web_env :: request_env where
  "ex_web_env = \<lparr>re_lib = ex_lib, re_cd = letter_codec, re_append = ex_env, re_query = no_faults, re_errText = (\<lambda>e. ''error''),
     re_uuid = (\<lambda>i. ''u''), re_clk = (\<lambda>i. Timestamp (letter_entry CHR ''a'')), re_idgen = (\<lambda>i. ''u''), re_parseClk = (\<lambda>i. ex_now), re_now = ex_now,
     re_parseTime = (\<lambda>l s. None), re_json = (\<lambda>r. case r of LogsFound n es \<Rightarrow> concat (map Message es) | _ \<Rightarrow> ''''), re_health = (\<lambda>r. ''json''),
     re_metrics = \<lparr>rs_code = 200, rs_type = '''', rs_body = ''''\<rparr>, re_files = (\<lambda>d r. NotFound), re_handshake = None, re_client = 0\<rparr>"

definition ex_get :: "string \<Rightarrow> request" where
  "ex_get authorization = \<lparr>rq_Method = ''GET'', rq_ContentType = '''', rq_Accept = '''', rq_ContentEncoding = '''', rq_Body = '''',
     rq_Path = ''/api/v1/logs'', rq_Authorization = authorization, rq_Query = []\<rparr>"

abbreviation ex_auth :: auth_settings where
  "ex_auth \<equiv> \<lparr>as_Enabled = True, as_Tokens = [''t'']\<rparr>"

lemma ex_web_hub: "hub_among C (sv_ingest ex_web)"
  using hub_inv_New by (simp add: ex_web_def ex_handler_def NewHandler_def NewHub_def hub_among_def)

text \<open>
  C2. Without a configured token a client changes nothing and learns nothing about the logs: when authentication is
  on and the request presents none of the tokens, the server answers the same for any two states that agree on
  the static pages and the outcome of the health checks, whatever they store; the state is unchanged but for
  the log line of the request; and outside the public paths the answer is 401.
\<close>

theorem unauthorised_sees_nothing:
  assumes "as_Enabled auth" and "\<forall>t\<in>set (as_Tokens auth). \<not> presents r t" and "same_public sv sv'"
  shows "\<exists>w l. server_handler auth env r (fresh_writer, sv) = Some (None, w, log_request l sv) \<and>
    server_handler auth env r (fresh_writer, sv') = Some (None, w, log_request l sv') \<and>
    (public_path (rq_Path r) \<or> wr_code w = Some 401)"
proof (cases "public_path (rq_Path r)")
  case True
  let ?w = "cors_headers fresh_writer"
  obtain w where w: "mux env r (?w, sv) = Some (None, w, sv)" "mux env r (?w, sv') = Some (None, w, sv')"
    using public_mux [OF True assms(3), of ?w] by auto
  let ?w' = "if rq_Method r = ''OPTIONS'' then WriteHeader 204 ?w else w"
  have "AuthMiddleware auth (CORSMiddleware (mux env)) r (fresh_writer, s) = Some (None, ?w', s)" if "s \<in> {sv, sv'}" for s
    using w that True by (auto simp: AuthMiddleware_def CORSMiddleware_def)
  from server_handler_ok [OF this] True show ?thesis by blast
next
  case False
  have "AuthMiddleware auth (CORSMiddleware (mux env)) r (fresh_writer, s) =
      Some (None, reply (http_Error ''{\"error\":\"unauthorized\"}'' 401) fresh_writer, s)" for s
    using assms(1,2) False by (simp add: AuthMiddleware_def token_matches_presents)
  moreover have "wr_code (reply (http_Error ''{\"error\":\"unauthorized\"}'' 401) fresh_writer) = Some 401"
    by (simp add: wr_code_reply http_Error_def)
  ultimately show ?thesis using server_handler_ok by metis
qed

theorem unauthorised_sees_nothing_witness:
  "\<exists>w l. server_handler ex_auth ex_web_env (ex_get ''Bearer x'') (fresh_writer, ex_web) = Some (None, w, log_request l ex_web) \<and> wr_code w = Some 401"
proof -
  have p: "\<forall>t\<in>set (as_Tokens ex_auth). \<not> presents (ex_get ''Bearer x'') t" by code_simp
  have "\<not> public_path (rq_Path (ex_get ''Bearer x''))" by code_simp
  with unauthorised_sees_nothing [OF _ p, of ex_web ex_web ex_web_env] show ?thesis by (auto simp: same_public_def)
qed

text \<open>
  Whatever the request and whatever fails below it, the composed handler returns (decoding ends), no panic escapes, a
  status is written or the connection is taken over by a WebSocket, and the hub stays consistent.
\<close>

lemma requests_answered:
  assumes "hub_among C (sv_ingest sv)" and "re_client env \<notin> C" and "pw_progress (lb_pw (re_lib env))"
  shows "served_ok (insert (re_client env) C) (server_handler auth env r (fresh_writer, sv))"
proof -
  let ?D = "insert (re_client env) C"
  have D: "hub_among ?D (sv_ingest sv)" using assms(1) hub_among_mono by blast
  have cors: "served_ok ?D (CORSMiddleware (mux env) r (fresh_writer, sv))"
    using mux_served [OF assms(1,2) _ assms(3), of "cors_headers fresh_writer" r] D
    by (simp add: CORSMiddleware_def Let_def wr_codes served_okI)
  have "wr_code (reply (http_Error ''{\"error\":\"unauthorized\"}'' 401) fresh_writer) \<noteq> None" by (simp add: wr_code_reply)
  then have "served_ok ?D (AuthMiddleware auth (CORSMiddleware (mux env)) r (fresh_writer, sv))"
    using cors D by (simp add: AuthMiddleware_def served_okI)
  then show ?thesis
    by (auto simp: served_ok_def log_request_def dest: server_handler_ok)
qed

section \<open>From the sender to the query\<close>

text \<open>The request of the agent's sender as it reaches a server at the root of its host.\<close>

definition web_request :: "client_request \<Rightarrow> request" where
  "web_request cr =
     \<lparr>rq_Method = ''POST'', rq_ContentType = cr_ContentType cr, rq_Accept = cr_Accept cr,
      rq_ContentEncoding = cr_ContentEncoding cr, rq_Body = cr_Body cr,
      rq_Path = ''/api/v1/ingest'', rq_Authorization = cr_Authorization cr, rq_Query = []\<rparr>"

definition may_enter :: "auth_settings \<Rightarrow> request \<Rightarrow> bool" where
  "may_enter auth r \<longleftrightarrow> (as_Enabled auth \<longrightarrow> (\<exists>t\<in>set (as_Tokens auth). presents r t))"

lemma AuthMiddleware_enter: "may_enter auth r \<Longrightarrow> AuthMiddleware auth nxt r ws = nxt r ws"
  by (simp add: AuthMiddleware_def may_enter_def token_matches_presents)

lemma sender_may_enter:
  assumes "build_request sl s agentID events = Inr req" and "as_Enabled auth \<longrightarrow> sd_token s \<in> set (as_Tokens auth) \<and> sd_token s \<noteq> ''''"
  shows "may_enter auth (web_request req)"
proof -
  have "cr_Authorization req = (if sd_token s \<noteq> '''' then ''Bearer '' @ sd_token s else '''')"
    using assms(1) by (auto simp: build_request_def Let_def case_prod_beta split: sum.splits option.splits)
  then have "sd_token s \<noteq> '''' \<Longrightarrow> presents (web_request req) (sd_token s)" by (simp add: presents_def web_request_def)
  then show ?thesis using assms(2) by (auto simp: may_enter_def)
qed

lemma clean_routes: "cleanPath ''/api/v1/ingest'' = ''/api/v1/ingest''" "cleanPath ''/api/v1/logs'' = ''/api/v1/logs''"
  by code_simp+

lemma mux_ingest: "mux env (web_request req) ws = serve_ingest env (web_request req) ws"
  by (simp add: mux_def web_request_def clean_routes registerRoutes_def)

lemma mux_logs: "rq_Path q = ''/api/v1/logs'' \<Longrightarrow> mux env q ws = handleLogsQuery env q ws"
  by (simp add: mux_def clean_routes registerRoutes_def)

lemma truncate_web_request: "http_request.truncate (web_request req) = received req"
  by (simp add: http_request.truncate_def web_request_def received_def)

lemma logs_answered:
  assumes enter: "may_enter auth q" and get: "rq_Method q = ''GET''" "rq_Path q = ''/api/v1/logs''" and "re_query env = no_faults"
    and "store_ok (re_cd env) (sv_store sv)" and "\<not> fs_closed (sv_store sv)"
  shows "\<exists>w sv' res. server_handler auth env q (fresh_writer, sv) = Some (None, w, sv') \<and> wr_code w = Some 200 \<and>
    wr_body w = re_json env (LogsFound (int (length res)) res) \<and>
    int (length res) \<le> q_Limit (Normalize (logs_query env q)) \<and>
    mset res \<subseteq># filter_mset (\<lambda>e. Matches e (Normalize (logs_query env q))) (stored (re_cd env) (sv_store sv)) \<and>
    (int (length res) < q_Limit (Normalize (logs_query env q)) \<longrightarrow>
       filter_mset (\<lambda>e. Matches e (Normalize (logs_query env q)) \<and> query_suits (Normalize (logs_query env q)) e)
         (stored (re_cd env) (sv_store sv)) \<subseteq># mset res)"
proof -
  let ?q = "Normalize (logs_query env q)" and ?st = "stored (re_cd env) (sv_store sv)"
  obtain res where res: "Query (re_cd env) no_faults (logs_query env q) (sv_store sv) = (Inr res, sv_store sv)"
      "int (length res) \<le> q_Limit ?q" "mset res \<subseteq># filter_mset (\<lambda>e. Matches e ?q) ?st"
      "int (length res) < q_Limit ?q \<longrightarrow> filter_mset (\<lambda>e. Matches e ?q \<and> query_suits ?q e) ?st \<subseteq># mset res"
    using Query_sound_complete [OF assms(5,6)] by blast
  let ?w = "reply (json_answer 200 (re_json env (LogsFound (int (length res)) res))) (cors_headers fresh_writer)"
  have "AuthMiddleware auth (CORSMiddleware (mux env)) q (fresh_writer, sv) = Some (None, ?w, set_store (sv_store sv) sv)"
    by (simp add: AuthMiddleware_enter [OF enter] CORSMiddleware_def get mux_logs handleLogsQuery_def assms(4) res(1))
  from server_handler_ok [OF this] have "\<exists>sv'. server_handler auth env q (fresh_writer, sv) = Some (None, ?w, sv')" by blast
  moreover have "wr_code ?w = Some 200" by (simp add: wr_code_reply json_answer_def)
  moreover have "wr_body ?w = re_json env (LogsFound (int (length res)) res)"
    by (simp add: reply_def Write_def WriteHeader_def Header_Set_def json_answer_def cors_headers_def fresh_writer_def)
  ultimately show ?thesis using res(2-) by blast
qed

lemma Append_closed: "fs_closed (snd (Append cd hjson flt uuid now es s)) = fs_closed s"
proof -
  have grp: "fs_closed (snd (snd (group_entries flt now i es gs))) = fs_closed (snd gs)" for i es gs
    by (induction flt now i es gs rule: group_entries.induct) (auto simp: Let_def split: prod.split)
  have one: "fs_closed (snd (append_group cd hjson flt uuid now dir es s)) = fs_closed s" for dir es s
    by (auto simp: append_group_def updatePartitionSummaryLocked_def set_summary_def Let_def split: sum.split prod.split option.split)
  have all: "fs_closed (snd (append_groups cd hjson flt uuid now g s)) = fs_closed s" for g s
  proof (induction g arbitrary: s)
    case (Cons p g)
    obtain dir es where p: "p = (dir, es)" by fastforce
    obtain e s' where a: "append_group cd hjson flt uuid now dir es s = (e, s')" by fastforce
    have "fs_closed s' = fs_closed s" using one [of dir es s] a by simp
    then show ?case using Cons [of s'] by (simp add: p a split: option.split)
  qed simp
  show ?thesis using grp [of 0 es "([], s)"] all by (auto simp: Append_def split: prod.split option.split)
qed

lemma ingest_keeps_open:
  "ingestEntries (fs_append cd env) marshal uuid clk es host h = (r, h') \<Longrightarrow> fs_closed (h_store h') = fs_closed (h_store h)"
  using Append_closed [of cd "ae_hjson env" "ae_faults env" "ae_uuid env" "ae_now env"]
  by (auto simp: ingestEntries_def fs_append_def Let_def split: prod.splits if_splits option.splits sum.splits) (metis snd_conv)+

lemma ingest_request_answered:
  assumes "may_enter auth (web_request req)"
    and "ServeHTTP (re_lib env) (fs_append (re_cd env) (re_append env)) (re_errText env) (re_uuid env) (re_clk env) (received req) (sv_ingest sv) =
      Some (Inr resp, h')"
  shows "\<exists>sv'. server_handler auth env (web_request req) (fresh_writer, sv) = Some (None, reply resp (cors_headers fresh_writer), sv') \<and>
    sv_ingest sv' = h'"
proof -
  have "rq_Method (web_request req) \<noteq> ''OPTIONS''" by (simp add: web_request_def)
  then have "AuthMiddleware auth (CORSMiddleware (mux env)) (web_request req) (fresh_writer, sv) =
      Some (None, reply resp (cors_headers fresh_writer), sv\<lparr>sv_ingest := h'\<rparr>)"
    by (simp add: AuthMiddleware_enter [OF assms(1)] CORSMiddleware_def mux_ingest serve_ingest_def truncate_web_request assms(2) ingest_outcome_def)
  from server_handler_ok [OF this] show ?thesis by (auto simp: log_request_def)
qed


lemma ex_sent: "new_entries (re_uuid ex_web_env) (re_clk ex_web_env) (map (carried ex_sender) ex_events) ''agent'' [] ex_handler = [letter_entry CHR ''a'']"
proof -
  have c: "carried ex_sender = wire_entry" by (simp add: carried_def ex_sender_def fun_eq_iff)
  have v: "Validate ''u'' (Timestamp (letter_entry CHR ''a'')) 0 (with_host ''agent'' (wire_entry ((letter_entry CHR ''a'')\<lparr>Timestamp := zero_time\<rparr>))) =
      (None, letter_entry CHR ''a'')" by code_simp
  show ?thesis
    by (simp add: new_entries_def ex_handler_def NewHandler_def NewDedupCache_def ex_web_env_def c ex_events_def v seen_within_def touch_def time_Sub_def)
qed


section \<open>Start and stop\<close>

text \<open>A server that was constructed has a valid configuration and a consistent hub without clients.\<close>

lemma New_server_ok:
  assumes "New_server flt stat now d staticFS cfg = Inr sv"
  shows "server_ok (sv_cfg sv) \<and> hub_among {} (sv_ingest sv) \<and> wf_map (hh_checkers (sv_health sv))"
proof -
  obtain e cfg' where v: "Validate_server cfg = (e, cfg')" by fastforce
  have inv: "hub_inv (NewHub m b r (Some (NewRecentBuffer k)))" "hb_clients (NewHub m b r (Some (NewRecentBuffer k))) = []" for m b r k
    using hub_inv_New [of m b k] by (simp_all add: hub_inv_def NewHub_def)
  from assms v Validate_server_ok [of cfg cfg'] inv show ?thesis
    by (auto simp: New_server_def Let_def NewHandler_def hub_among_def AddChecker_def NewHandler_health_def split: option.splits sum.splits)
qed

text \<open>After the shutdown no client is connected, and nothing more is stored or read.\<close>

lemma shutdown_closes:
  assumes "hub_there (sv_ingest sv)"
  shows "\<exists>sv' hb. shutdown sv = Inr sv' \<and> h_hub (sv_ingest sv') = Some hb \<and> hb_closed hb \<and> hb_clients hb = [] \<and>
    fs_closed (sv_store sv') \<and> fs_disk (sv_store sv') = fs_disk (sv_store sv)"
proof -
  obtain hb where hb: "h_hub (sv_ingest sv) = Some hb" "hub_inv hb" using assms by (auto simp: hub_among_def)
  obtain hb' where "Close_hub hb = Inr hb'" "hb_clients hb' = []" "hb_closed hb'" using Close_ok [OF hb(2)] by blast
  with hb show ?thesis by (simp add: shutdown_def on_hub_def set_store_def Close_store_def)
qed

section \<open>Defects\<close>

text \<open>
  Authentication is around CORS: the preflight request of a browser, which never carries a token, is refused
  and the answer has no CORS header, so a dashboard on another origin cannot use the interface.
\<close>

lemma preflight_refused:
  "\<exists>w sv. server_handler ex_auth ex_web_env ((ex_get '''')\<lparr>rq_Method := ''OPTIONS''\<rparr>) (fresh_writer, ex_web) = Some (None, w, sv) \<and>
     wr_code w = Some 401 \<and> map_of (wr_headers w) ''Access-Control-Allow-Origin'' = None"
  by (simp add: server_handler_def RecoveryMiddleware_def LoggingMiddleware_def AuthMiddleware_def public_path_def HasPrefix_def ex_get_def
      token_matches_def request_token_def Query_Get_def TrimPrefix_def reply_def http_Error_def Write_def WriteHeader_def Header_Set_def fresh_writer_def)

text \<open>The page of the dashboard is public and the files it loads are not.\<close>

lemma dashboard_files_not_public: "public_path ''/'' \<and> \<not> public_path ''/app.js'' \<and> \<not> public_path ''/style.css''"
  by code_simp

text \<open>A request whose handler panics is answered with 500 and not logged.\<close>

lemma panic_not_logged:
  assumes "nxt r (w, sv) = Some (Some p, w', sv')"
  shows "RecoveryMiddleware (LoggingMiddleware log_request nxt) r (w, sv) =
    Some (None, reply (http_Error ''{\"error\":\"internal server error\"}'' 500) w', sv')"
  using assms by (simp add: RecoveryMiddleware_def LoggingMiddleware_def)

text \<open>When the counter of the store has become negative, the readiness probe fails although the store works.\<close>

lemma negative_usage_not_ready:
  "DiskUsage s < 0 \<Longrightarrow> rs_code (Readyz enc (AddChecker ''storage'' storage_checker (NewHandler_health now)) s) = 503"
  by (simp add: Readyz_def AddChecker_def NewHandler_health_def storage_checker_def json_answer_def)

end
