(* ===== verification/Agent.thy ===== *)
theory Agent
  imports SpoolRuns Sender
begin

text \<open>
  The agent's delivery pipeline, \<open>internal/agent/agent.go\<close>: the batch worker that groups entries, the
  delivery of a batch (directly, or through the spool while there is a backlog), and the worker
  that drains the spool.

  Both workers run concurrently and share only the spool. Every call of the spool is one step
  (its mutex), every \<open>Send\<close> is a step with an arbitrary outcome, and the other worker may act
  between any two steps: \<open>agent_step\<close>. Metrics are in \<open>Metrics\<close>; logging and the waits are left out.
\<close>

section \<open>From lines to entries\<close>

text \<open>
  What the tail workers do with a line; \<open>parse\<close> is the \<open>Parse\<close> of the configured \<open>parser.Parser\<close>, and \<open>uuid\<close>
  and \<open>now\<close> are what \<open>logentry.New\<close> reads. A line that does not parse is kept as text.
\<close>

definition tailWorker_entry ::
  "(string \<Rightarrow> ('e, log_entry) result) \<Rightarrow> string \<Rightarrow> gotime \<Rightarrow> string \<Rightarrow> string \<Rightarrow> string \<Rightarrow> log_entry" where
  "tailWorker_entry parse uuid now host sourceName line =
     (case parse line of Inl _ \<Rightarrow> New_entry uuid now host sourceName ''INFO'' line [] | Inr entry \<Rightarrow> entry)"

definition managerWorker_entry ::
  "(string \<Rightarrow> ('e, log_entry) result) \<Rightarrow> string \<Rightarrow> gotime \<Rightarrow> string \<Rightarrow> string \<Rightarrow> string \<Rightarrow> string \<Rightarrow> log_entry" where
  "managerWorker_entry parse uuid now host sourceName path line =
     (let entry = tailWorker_entry parse uuid now host sourceName line
      in entry\<lparr>Fields := AList.update ''file_path'' path (Fields entry)\<rparr>)"

section \<open>The batch worker\<close>

text \<open>
  What the \<open>select\<close> of the loop receives. \<open>Cancelled es\<close> is the cancelled context, with the entries
  still in the channel; \<open>Closed\<close> is the closed channel.
\<close>

datatype batch_event = Tick | Entry log_entry | Closed | Cancelled "log_entry list"

definition full :: "int \<Rightarrow> log_entry list \<Rightarrow> bool" where
  "full maxEvents batch \<longleftrightarrow> maxEvents \<le> int (length batch)"

text \<open>The batches flushed, in order, and the batch left in the end; an empty batch is not flushed.\<close>

definition flush :: "log_entry list \<Rightarrow> log_entry list list" where
  "flush batch = (if batch = [] then [] else [batch])"

fun drain_channel :: "int \<Rightarrow> log_entry list \<Rightarrow> log_entry list \<Rightarrow> log_entry list list" where
  "drain_channel maxEvents batch [] = flush batch"
| "drain_channel maxEvents batch (e # es) =
     (let batch = batch @ [e]
      in if full maxEvents batch then flush batch @ drain_channel maxEvents [] es
         else drain_channel maxEvents batch es)"

fun batchWorker :: "int \<Rightarrow> log_entry list \<Rightarrow> batch_event list \<Rightarrow> log_entry list list \<times> log_entry list" where
  "batchWorker maxEvents batch [] = ([], batch)"
| "batchWorker maxEvents batch (Tick # evs) =
     (let (bs, rest) = batchWorker maxEvents [] evs in (flush batch @ bs, rest))"
| "batchWorker maxEvents batch (Entry e # evs) =
     (let batch = batch @ [e]
      in if full maxEvents batch then let (bs, rest) = batchWorker maxEvents [] evs in (flush batch @ bs, rest)
         else batchWorker maxEvents batch evs)"
| "batchWorker maxEvents batch (Closed # evs) = (flush batch, [])"
| "batchWorker maxEvents batch (Cancelled es # evs) = (drain_channel maxEvents batch es, [])"

section \<open>Delivering a batch\<close>

datatype outcome = Delivered | Spooled | Lost | Nothing

datatype deliver_pc = Idle | Pushing "log_entry list" | Sending "log_entry list"

text \<open>
  \<open>deliverBatch\<close> in its atomic pieces: the look at the backlog, the answer of \<open>Send\<close> (\<open>None\<close> is success),
  and the push.
\<close>

definition deliver_begin :: "spool option \<Rightarrow> log_entry list \<Rightarrow> deliver_pc" where
  "deliver_begin sp batch =
     (if batch = [] then Idle
      else
        case sp of
          Some s \<Rightarrow> if 0 < Count s then Pushing batch else Sending batch
        | None \<Rightarrow> Sending batch)"

definition deliver_answer :: "spool option \<Rightarrow> send_error option \<Rightarrow> log_entry list \<Rightarrow> outcome \<times> deliver_pc" where
  "deliver_answer sp err batch =
     (case err of
        None \<Rightarrow> (Delivered, Idle)
      | Some _ \<Rightarrow> if sp \<noteq> None \<and> IsRetryable err then (Nothing, Pushing batch) else (Lost, Idle))"

definition deliver_push ::
  "(stored_batch \<Rightarrow> segment option) \<Rightarrow> faults \<Rightarrow> string \<Rightarrow> gotime \<Rightarrow> int \<Rightarrow> log_entry list \<Rightarrow> spool \<Rightarrow> outcome \<times> spool" where
  "deliver_push marshal flt uuid now nano batch s =
     (case Push marshal flt uuid now nano batch s of
        (Inl _, t) \<Rightarrow> (Lost, t)
      | (Inr _, t) \<Rightarrow> (Spooled, t))"

text \<open>The whole of \<open>deliverBatch\<close> when the other worker does not act in between.\<close>

definition deliverBatch ::
  "(stored_batch \<Rightarrow> segment option) \<Rightarrow> faults \<Rightarrow> string \<Rightarrow> gotime \<Rightarrow> int \<Rightarrow> (log_entry list \<Rightarrow> send_error option)
     \<Rightarrow> log_entry list \<Rightarrow> spool option \<Rightarrow> outcome \<times> spool option" where
  "deliverBatch marshal flt uuid now nano send batch sp =
     (let push = (\<lambda>b. case sp of
            None \<Rightarrow> (Lost, sp)
          | Some s \<Rightarrow> (let (out, t) = deliver_push marshal flt uuid now nano b s in (out, Some t)))
      in case deliver_begin sp batch of
           Idle \<Rightarrow> (Nothing, sp)
         | Pushing b \<Rightarrow> push b
         | Sending b \<Rightarrow>
             (case deliver_answer sp (send b) b of
                (out, Pushing b') \<Rightarrow> push b'
              | (out, _) \<Rightarrow> (out, sp)))"

section \<open>Draining the spool\<close>

datatype drain_pc = Looking | Peeking | Transmitting batch_lease

definition drain_begin :: "spool \<Rightarrow> drain_pc" where
  "drain_begin s = (if Count s = 0 then Looking else Peeking)"

definition drain_peek :: "faults \<Rightarrow> spool \<Rightarrow> drain_pc \<times> spool" where
  "drain_peek flt s =
     (case Peek flt s of
        (Inl _, t) \<Rightarrow> (Looking, t)
      | (Inr l, t) \<Rightarrow> (Transmitting l, t))"

text \<open>The errors of \<open>Commit\<close> and \<open>Revert\<close> are logged and otherwise ignored.\<close>

definition drain_answer :: "faults \<Rightarrow> send_error option \<Rightarrow> batch_lease \<Rightarrow> spool \<Rightarrow> outcome \<times> spool" where
  "drain_answer flt err l s =
     (case err of
        None \<Rightarrow> (Delivered, snd (Commit flt (Some l) s))
      | Some _ \<Rightarrow>
          if IsRetryable err then (Nothing, snd (Revert flt (Some l) s))
          else (Lost, snd (Commit flt (Some l) s)))"

text \<open>
  One iteration of \<open>spoolDrainWorker\<close> while the other worker does not act, with the number of failed
  attempts and the delay before the next iteration (\<open>None\<close>: none or a fixed short wait).
\<close>

record retry_config =
  rc_InitialBackoff :: int
  rc_MaxBackoff :: int
  rc_BackoffMultiplier :: real

definition drain_iteration ::
  "(real \<Rightarrow> real) \<Rightarrow> real \<Rightarrow> retry_config \<Rightarrow> faults \<Rightarrow> (log_entry list \<Rightarrow> send_error option) \<Rightarrow> int \<Rightarrow> spool
     \<Rightarrow> outcome \<times> int \<times> int option \<times> spool" where
  "drain_iteration fl rnd cfg flt send attempt s =
     (case drain_begin s of
        Peeking \<Rightarrow>
          (case drain_peek flt s of
             (Transmitting l, t) \<Rightarrow>
               (let err = send (bl_Events l); (out, u) = drain_answer flt err l t
                in case err of
                     None \<Rightarrow> (out, 0, None, u)
                   | Some _ \<Rightarrow>
                       (out, attempt + 1,
                        Some (CalculateBackoff fl rnd (attempt + 1) (rc_InitialBackoff cfg) (rc_MaxBackoff cfg) (rc_BackoffMultiplier cfg)), u))
           | (_, t) \<Rightarrow> (Nothing, attempt, None, t))
      | _ \<Rightarrow> (Nothing, attempt, None, s))"

section \<open>Both workers\<close>

record agent =
  ag_spool :: spool
  ag_deliver :: deliver_pc
  ag_drain :: drain_pc

text \<open>What a step shows: a batch handed to \<open>deliverBatch\<close>, acknowledged, given up, or evicted batches.\<close>

datatype agent_obs = Flushed "log_entry list" | Acked "log_entry list" | Dropped "log_entry list" | Evicted nat | Quiet

fun shown :: "outcome \<Rightarrow> log_entry list \<Rightarrow> agent_obs" where
  "shown Delivered b = Acked b"
| "shown Lost b = Dropped b"
| "shown _ b = Quiet"

inductive agent_step :: "(stored_batch \<Rightarrow> segment option) \<Rightarrow> agent \<Rightarrow> agent_obs \<Rightarrow> agent \<Rightarrow> bool"
  for marshal :: "stored_batch \<Rightarrow> segment option" where
  start: "ag_deliver a = Idle \<Longrightarrow> b \<noteq> [] \<Longrightarrow>
    agent_step marshal a (Flushed b) (a\<lparr>ag_deliver := deliver_begin (Some (ag_spool a)) b\<rparr>)"
| answer: "ag_deliver a = Sending b \<Longrightarrow> deliver_answer (Some (ag_spool a)) err b = (out, pc) \<Longrightarrow>
    agent_step marshal a (shown out b) (a\<lparr>ag_deliver := pc\<rparr>)"
| push: "ag_deliver a = Pushing b \<Longrightarrow> deliver_push marshal flt uuid now nano b (ag_spool a) = (Spooled, t) \<Longrightarrow> undo_ok flt \<Longrightarrow>
    later_name (segment_name nano uuid) (ag_spool a) \<Longrightarrow>
    agent_step marshal a (Evicted (Suc (length (queue (ag_spool a))) - length (queue t))) (a\<lparr>ag_spool := t, ag_deliver := Idle\<rparr>)"
| push_error: "ag_deliver a = Pushing b \<Longrightarrow> deliver_push marshal flt uuid now nano b (ag_spool a) = (Lost, t) \<Longrightarrow>
    agent_step marshal a (Dropped b) (a\<lparr>ag_spool := t, ag_deliver := Idle\<rparr>)"
| look: "ag_drain a = Looking \<Longrightarrow> agent_step marshal a Quiet (a\<lparr>ag_drain := drain_begin (ag_spool a)\<rparr>)"
| peek: "ag_drain a = Peeking \<Longrightarrow> drain_peek flt (ag_spool a) = (pc, t) \<Longrightarrow> undo_ok flt \<Longrightarrow>
    agent_step marshal a Quiet (a\<lparr>ag_spool := t, ag_drain := pc\<rparr>)"
| ack: "ag_drain a = Transmitting l \<Longrightarrow> drain_answer flt err l (ag_spool a) = (out, t) \<Longrightarrow> undo_ok flt \<or> IsRetryable err \<Longrightarrow>
    agent_step marshal a (shown out (bl_Events l)) (a\<lparr>ag_spool := t, ag_drain := Looking\<rparr>)"

inductive_cases agent_stepE: "agent_step marshal a x a'"

text \<open>Without a spool there is no drain worker, and a batch that cannot be sent is given up.\<close>

inductive direct_step :: "agent \<Rightarrow> agent_obs \<Rightarrow> agent \<Rightarrow> bool" where
  direct_start: "ag_deliver a = Idle \<Longrightarrow> b \<noteq> [] \<Longrightarrow> direct_step a (Flushed b) (a\<lparr>ag_deliver := deliver_begin None b\<rparr>)"
| direct_answer: "ag_deliver a = Sending b \<Longrightarrow> deliver_answer None err b = (out, pc) \<Longrightarrow> direct_step a (shown out b) (a\<lparr>ag_deliver := pc\<rparr>)"

definition pipe_step :: "(stored_batch \<Rightarrow> segment option) \<Rightarrow> bool \<Rightarrow> agent \<Rightarrow> agent_obs \<Rightarrow> agent \<Rightarrow> bool" where
  "pipe_step marshal spooled = (if spooled then agent_step marshal else direct_step)"

definition fresh_agent :: "int \<Rightarrow> agent" where
  "fresh_agent mb = \<lparr>ag_spool = fresh_spool mb, ag_deliver = Idle, ag_drain = Looking\<rparr>"

fun flushed :: "agent_obs list \<Rightarrow> log_entry list list" where
  "flushed [] = []"
| "flushed (Flushed b # xs) = b # flushed xs"
| "flushed (x # xs) = flushed xs"

fun acked :: "agent_obs list \<Rightarrow> log_entry list list" where
  "acked [] = []"
| "acked (Acked b # xs) = b # acked xs"
| "acked (x # xs) = acked xs"

fun loses :: "agent_obs \<Rightarrow> bool" where
  "loses (Dropped b) = True"
| "loses (Evicted k) = (k \<noteq> 0)"
| "loses x = False"

text \<open>The batch in the hands of \<open>deliverBatch\<close>.\<close>

definition in_hand :: "agent \<Rightarrow> log_entry list list" where
  "in_hand a = (case ag_deliver a of Idle \<Rightarrow> [] | Pushing b \<Rightarrow> [b] | Sending b \<Rightarrow> [b])"

section \<open>Facts\<close>

subsection \<open>Batching\<close>

lemma flush_simps [simp]: "concat (flush b) = b" "x \<in> set (flush b) \<longleftrightarrow> x = b \<and> b \<noteq> []"
  by (auto simp: flush_def)

text \<open>A batch under construction is not full, unless it is empty.\<close>

abbreviation open_batch :: "int \<Rightarrow> log_entry list \<Rightarrow> bool" where
  "open_batch m b \<equiv> b = [] \<or> int (length b) < m"

abbreviation good_batch :: "int \<Rightarrow> log_entry list \<Rightarrow> bool" where
  "good_batch m b \<equiv> b \<noteq> [] \<and> int (length b) \<le> max 1 m"

lemma drain_channel_spec:
  "open_batch m b \<Longrightarrow> concat (drain_channel m b es) = b @ es \<and> list_all (good_batch m) (drain_channel m b es)"
proof (induction m b es rule: drain_channel.induct)
  case (2 m b e es)
  have "int (length b) + 1 \<le> max 1 m" using "2.prems" by auto
  with 2 show ?case by (auto simp: Let_def full_def list_all_iff)
qed (auto simp: flush_def list_all_iff)

text \<open>The entries the worker takes before it stops.\<close>

fun taken :: "batch_event list \<Rightarrow> log_entry list" where
  "taken [] = []"
| "taken (Tick # evs) = taken evs"
| "taken (Entry e # evs) = e # taken evs"
| "taken (Closed # evs) = []"
| "taken (Cancelled es # evs) = es"

lemma batchWorker_spec:
  "open_batch m b \<Longrightarrow> batchWorker m b evs = (bs, rest) \<Longrightarrow>
     concat bs @ rest = b @ taken evs \<and> list_all (good_batch m) bs \<and> open_batch m rest"
proof (induction m b evs arbitrary: bs rest rule: batchWorker.induct)
  case (2 m b evs)
  then show ?case by (auto simp: flush_def split: prod.splits)
next
  case (3 m b e evs)
  have "int (length b) + 1 \<le> max 1 m" using "3.prems"(1) by auto
  with 3 show ?case by (auto simp: Let_def full_def flush_def not_le split: prod.splits if_splits)
next
  case (5 m b es evs)
  then show ?case using drain_channel_spec [of b m es] by auto
qed (auto simp: flush_def)

subsection \<open>The pipeline\<close>

definition pipeline :: "agent \<Rightarrow> log_entry list list" where
  "pipeline a = queue (ag_spool a) @ in_hand a"

definition agent_inv :: "agent \<Rightarrow> bool" where
  "agent_inv a \<longleftrightarrow> recoverable (ag_spool a) \<and>
     (\<forall>b. ag_deliver a = Sending b \<longrightarrow> queue (ag_spool a) = [] \<and> b \<noteq> []) \<and>
     (\<forall>b. ag_deliver a = Pushing b \<longrightarrow> b \<noteq> []) \<and>
     (\<forall>l. ag_drain a = Transmitting l \<longrightarrow> s_activeLease (ag_spool a) = Some l)"

text \<open>How a step moves batches through the pipeline.\<close>

fun moves :: "agent_obs \<Rightarrow> log_entry list list \<Rightarrow> log_entry list list \<Rightarrow> bool" where
  "moves (Flushed b) p p' \<longleftrightarrow> p' = p @ [b]"
| "moves (Acked b) p p' \<longleftrightarrow> p = b # p'"
| "moves (Dropped b) p p' \<longleftrightarrow> subseq p' p"
| "moves (Evicted k) p p' \<longleftrightarrow> subseq p' p \<and> (k = 0 \<longrightarrow> p' = p)"
| "moves Quiet p p' \<longleftrightarrow> p' = p"

lemma queue_empty_iff: "queue s = [] \<longleftrightarrow> Count s = 0"
  by (simp add: queue_def Count_def)

lemma lq_step_Tau: "lq_step a Tau b \<Longrightarrow> fst b = fst a"
  by (auto elim: lq_stepE)

lemma Push_lease:
  assumes "Push marshal flt uuid now nano b s = (r, t)"
  shows "s_activeLease t = s_activeLease s"
  using assms enforceLimit_frame by (auto simp: Push_def Let_def split: if_splits option.splits)

lemma Sending_nonempty: "deliver_begin sp b = Sending b' \<Longrightarrow> b' = b \<and> b \<noteq> [] \<and> (\<forall>s. sp = Some s \<longrightarrow> Count s = 0)"
  by (auto simp: deliver_begin_def split: if_splits option.splits)

lemma agent_start:
  assumes "agent_inv a" and "ag_deliver a = Idle" and "b \<noteq> []"
  defines "a' \<equiv> a\<lparr>ag_deliver := deliver_begin (Some (ag_spool a)) b\<rparr>"
  shows "agent_inv a' \<and> pipeline a' = pipeline a @ [b]"
  using assms by (auto simp: agent_inv_def pipeline_def in_hand_def deliver_begin_def queue_empty_iff)

lemma agent_push:
  assumes json: "json_faithful marshal" and inv: "agent_inv a" and pc: "ag_deliver a = Pushing b"
    and push: "deliver_push marshal flt uuid now nano b (ag_spool a) = (Spooled, t)" and undo: "undo_ok flt"
    and later: "later_name (segment_name nano uuid) (ag_spool a)"
  defines "k \<equiv> Suc (length (queue (ag_spool a))) - length (queue t)" and "a' \<equiv> a\<lparr>ag_spool := t, ag_deliver := Idle\<rparr>"
  shows "agent_inv a' \<and> moves (Evicted k) (pipeline a) (pipeline a')"
proof -
  have ok: "Push marshal flt uuid now nano b (ag_spool a) = (Inr (), t)"
    using push by (auto simp: deliver_push_def split: prod.splits sum.splits)
  have b: "b \<noteq> []" and rec: "recoverable (ag_spool a)" using inv pc by (auto simp: agent_inv_def)
  have step: "spool_step marshal (ag_spool a) (Put b k) t" unfolding k_def by (rule spool_step.push [OF ok b undo later])
  have t: "recoverable t" using sq.step_inv [OF _ step] json rec by blast
  have "lq_step (spool_abs (ag_spool a)) (Put b k) (spool_abs t)" using sq.step_abs [OF _ step] json rec by blast
  then have "queue t = evict (s_activeLease (ag_spool a) \<noteq> None) k (queue (ag_spool a) @ [b])"
    by (auto simp: spool_abs_def elim: lq_stepE)
  with subseq_evict have "moves (Evicted k) (pipeline a) (pipeline a')"
    by (auto simp: pipeline_def in_hand_def a'_def pc)
  moreover have "agent_inv a'" using inv t Push_lease [OF ok] by (auto simp: agent_inv_def a'_def)
  ultimately show ?thesis by blast
qed

lemma agent_push_error:
  assumes inv: "agent_inv a" and pc: "ag_deliver a = Pushing b"
    and push: "deliver_push marshal flt uuid now nano b (ag_spool a) = (Lost, t)"
  defines "a' \<equiv> a\<lparr>ag_spool := t, ag_deliver := Idle\<rparr>"
  shows "agent_inv a' \<and> moves (Dropped b) (pipeline a) (pipeline a')"
proof -
  obtain e where err: "Push marshal flt uuid now nano b (ag_spool a) = (Inl e, t)"
    using push by (auto simp: deliver_push_def split: prod.splits sum.splits)
  have rec: "recoverable (ag_spool a)" using inv by (simp add: agent_inv_def)
  then have "spool_inv (ag_spool a)" by (simp add: recoverable_def)
  note p = Push_error [OF this err]
  have "recoverable t" using p rec by (simp add: recoverable_def)
  with inv p show ?thesis by (auto simp: agent_inv_def pipeline_def in_hand_def a'_def pc)
qed

lemma agent_peek:
  assumes inv: "agent_inv a" and pc: "ag_drain a = Peeking" and peek: "drain_peek flt (ag_spool a) = (pc', t)" and undo: "undo_ok flt"
  defines "a' \<equiv> a\<lparr>ag_spool := t, ag_drain := pc'\<rparr>"
  shows "agent_inv a' \<and> pipeline a' = pipeline a"
proof -
  obtain r where r: "Peek flt (ag_spool a) = (r, t)" using peek by (auto simp: drain_peek_def split: prod.splits sum.splits)
  have rec: "recoverable (ag_spool a)" and si: "spool_inv (ag_spool a)" using inv by (simp_all add: agent_inv_def recoverable_def)
  have t: "recoverable t" using Peek_recoverable [OF rec r undo] .
  show ?thesis
  proof (cases r)
    case (Inl e)
    with peek r have "pc' = Looking" by (simp add: drain_peek_def)
    with t Peek_error [OF si r [unfolded Inl]] undo inv show ?thesis
      by (auto simp: agent_inv_def pipeline_def in_hand_def a'_def undo_ok_def)
  next
    case (Inr l)
    with peek r have "pc' = Transmitting l" by (simp add: drain_peek_def)
    with t Peek_ok [OF si r [unfolded Inr]] inv show ?thesis
      by (auto simp: agent_inv_def pipeline_def in_hand_def a'_def)
  qed
qed

lemma lease_head:
  assumes "recoverable s" and "s_activeLease s = Some l"
  shows "queue s = bl_Events l # tl (queue s)"
  using assms by (cases "s_files s") (auto simp: spool_inv_defs queue_def recoverable_def)

lemma agent_ack:
  assumes json: "json_faithful marshal" and inv: "agent_inv a" and pc: "ag_drain a = Transmitting l"
    and ans: "drain_answer flt err l (ag_spool a) = (out, t)" and undo: "undo_ok flt \<or> IsRetryable err"
  defines "a' \<equiv> a\<lparr>ag_spool := t, ag_drain := Looking\<rparr>"
  shows "agent_inv a' \<and> moves (shown out (bl_Events l)) (pipeline a) (pipeline a')"
proof -
  have rec: "recoverable (ag_spool a)" and l: "s_activeLease (ag_spool a) = Some l" using inv pc by (auto simp: agent_inv_def)
  have si: "spool_inv (ag_spool a)" using rec by (simp add: recoverable_def)
  have gen: "genuine l (ag_spool a)" using l by (simp add: genuine_def)
  note hd = lease_head [OF rec l]
  show ?thesis
  proof (cases "IsRetryable err")
    case True
    then obtain e where e: "err = Some e" by (cases err) (auto simp: IsRetryable_def)
    obtain r where r: "revertLease flt l (ag_spool a) = (r, t)"
      using ans True e by (cases "revertLease flt l (ag_spool a)") (simp add: drain_answer_def Revert_def)
    have step: "spool_step marshal (ag_spool a) Tau t" by (rule spool_step.revert [OF r gen])
    have "recoverable t" "queue t = queue (ag_spool a)"
      using sq.step_inv [OF _ step] sq.step_abs [OF _ step] json rec lq_step_Tau by (auto simp: spool_abs_def)
    moreover have "out = Nothing" using ans True e by (simp add: drain_answer_def)
    ultimately show ?thesis using inv hd by (auto simp: agent_inv_def pipeline_def in_hand_def a'_def)
  next
    case False
    with undo have u: "undo_ok flt" by simp
    have t: "t = snd (commitLease flt l (ag_spool a))" and out: "out = Delivered \<or> out = Lost"
      using ans False by (auto simp: drain_answer_def Commit_def split: option.splits)
    note c = Commit_ok [OF si l, of flt, folded t]
    have "recoverable t" using Commit_recoverable [OF rec u gen] by (simp add: t)
    then have "agent_inv a'" using inv hd by (auto simp: agent_inv_def a'_def c(3))
    moreover have p: "pipeline a = bl_Events l # pipeline a'"
      using hd c(3) by (simp add: pipeline_def in_hand_def a'_def)
    then have "moves (shown out (bl_Events l)) (pipeline a) (pipeline a')" using out by auto
    ultimately show ?thesis ..
  qed
qed

lemma agent_answer:
  assumes inv: "agent_inv a" and pc: "ag_deliver a = Sending b" and ans: "deliver_answer (Some (ag_spool a)) err b = (out, pc')"
  defines "a' \<equiv> a\<lparr>ag_deliver := pc'\<rparr>"
  shows "agent_inv a' \<and> moves (shown out b) (pipeline a) (pipeline a')"
  using assms by (auto simp: deliver_answer_def agent_inv_def pipeline_def in_hand_def split: option.splits if_splits)

lemma agent_step_moves:
  assumes "json_faithful marshal" and "agent_inv a" and "agent_step marshal a x a'"
  shows "agent_inv a' \<and> moves x (pipeline a) (pipeline a')"
  using assms(3)
proof (cases rule: agent_step.cases)
  case (start b)
  with agent_start [OF assms(2)] show ?thesis by simp
next
  case (answer b err out pc)
  with agent_answer [OF assms(2)] show ?thesis by simp
next
  case (push b flt uuid now nano t)
  with agent_push [OF assms(1,2)] show ?thesis by blast
next
  case (push_error b flt uuid now nano t)
  with agent_push_error [OF assms(2)] show ?thesis by blast
next
  case look
  with assms(2) show ?thesis
    by (auto simp: agent_inv_def pipeline_def in_hand_def drain_begin_def)
next
  case (peek flt pc t)
  with agent_peek [OF assms(2)] show ?thesis by simp
next
  case (ack l flt err out t)
  with agent_ack [OF assms(1,2)] show ?thesis by simp
qed

definition direct_inv :: "agent \<Rightarrow> bool" where
  "direct_inv a \<longleftrightarrow> queue (ag_spool a) = [] \<and> (\<forall>b. ag_deliver a \<noteq> Pushing b)"

lemma direct_step_moves:
  assumes "direct_inv a" and "direct_step a x a'"
  shows "direct_inv a' \<and> moves x (pipeline a) (pipeline a')"
  using assms(2)
proof cases
  case (direct_start b)
  then show ?thesis using assms(1) by (simp add: direct_inv_def deliver_begin_def pipeline_def in_hand_def)
next
  case (direct_answer b err out pc)
  then show ?thesis using assms(1) by (auto simp: direct_inv_def deliver_answer_def pipeline_def in_hand_def split: option.splits)
qed

lemma agent_inv_fresh: "agent_inv (fresh_agent mb)" "pipeline (fresh_agent mb) = []"
  using fresh_spool_ok by (simp_all add: agent_inv_def fresh_agent_def pipeline_def in_hand_def spool_abs_def)

lemma acked_flushed_snoc:
  "acked (xs @ [x]) = acked xs @ (case x of Acked b \<Rightarrow> [b] | _ \<Rightarrow> [])"
  "flushed (xs @ [x]) = flushed xs @ (case x of Flushed b \<Rightarrow> [b] | _ \<Rightarrow> [])"
  by (induction xs rule: acked.induct; cases x; simp)
    (induction xs rule: flushed.induct; cases x; simp)

text \<open>The contract of a delivery pipeline: an invariant, and steps that move batches only forward.\<close>

locale batch_pipeline =
  fixes inv :: "agent \<Rightarrow> bool"
    and step :: "agent \<Rightarrow> agent_obs \<Rightarrow> agent \<Rightarrow> bool"
  assumes step_moves: "inv a \<Longrightarrow> step a x a' \<Longrightarrow> inv a' \<and> moves x (pipeline a) (pipeline a')"
begin

lemma run_inv:
  assumes "run step a0 xs a" and "inv a0"
  shows "inv a \<and> subseq (acked xs @ pipeline a) (pipeline a0 @ flushed xs) \<and>
    (list_all (\<lambda>x. \<not> loses x) xs \<longrightarrow> acked xs @ pipeline a = pipeline a0 @ flushed xs)"
  using assms
proof (induction rule: run.induct)
  case run_init
  then show ?case by simp
next
  case (run_step xs s x t)
  let ?p = "pipeline a0"
  from run_step have ih: "inv s" "subseq (acked xs @ pipeline s) (?p @ flushed xs)"
      "list_all (\<lambda>x. \<not> loses x) xs \<longrightarrow> acked xs @ pipeline s = ?p @ flushed xs" by blast+
  have m: "inv t" "moves x (pipeline s) (pipeline t)" using step_moves [OF ih(1) run_step.hyps(2)] by blast+
  have weak: "subseq (acked xs @ p) (?p @ flushed xs)" if "subseq p (pipeline s)" for p
    using that ih(2) by (meson list_emb_append_mono subseq_order.order_trans subseq_order.order_refl)
  have "subseq (acked (xs @ [x]) @ pipeline t) (?p @ flushed (xs @ [x]))"
  proof (cases x)
    case (Flushed b)
    with m(2) list_emb_append_mono [OF ih(2), of "[b]" "[b]"] show ?thesis by (simp add: acked_flushed_snoc)
  qed (use m(2) ih(2) weak in \<open>auto simp: acked_flushed_snoc\<close>)
  moreover have "list_all (\<lambda>x. \<not> loses x) (xs @ [x]) \<longrightarrow> acked (xs @ [x]) @ pipeline t = ?p @ flushed (xs @ [x])"
    using m(2) ih(3) by (cases x) (auto simp: acked_flushed_snoc)
  ultimately show ?case using m(1) by blast
qed

end

text \<open>Both pipelines of the agent provide it.\<close>

interpretation spooled: batch_pipeline "\<lambda>a. json_faithful marshal \<and> agent_inv a" "agent_step marshal" for marshal
  by unfold_locales (auto dest: agent_step_moves)

interpretation direct: batch_pipeline direct_inv direct_step
  by unfold_locales (rule direct_step_moves)

lemma agent_run_inv:
  assumes "run (agent_step marshal) a0 xs a" and "json_faithful marshal" and "agent_inv a0"
  shows "agent_inv a \<and> subseq (acked xs @ pipeline a) (pipeline a0 @ flushed xs) \<and>
    (list_all (\<lambda>x. \<not> loses x) xs \<longrightarrow> acked xs @ pipeline a = pipeline a0 @ flushed xs)"
  using spooled.run_inv [OF assms(1)] assms(2,3) by blast

text \<open>A lease that nobody transmits blocks the agent.\<close>

definition stuck :: "agent \<Rightarrow> bool" where
  "stuck a \<longleftrightarrow> agent_inv a \<and> s_activeLease (ag_spool a) \<noteq> None \<and> (\<forall>l. ag_drain a \<noteq> Transmitting l)"

lemma stuck_backlog:
  assumes "stuck a"
  shows "0 < Count (ag_spool a)" and "ag_deliver a \<noteq> Sending b" and "drain_peek flt (ag_spool a) = (Looking, ag_spool a)"
proof -
  obtain l where l: "s_activeLease (ag_spool a) = Some l" using assms by (auto simp: stuck_def)
  have "recoverable (ag_spool a)" using assms by (simp add: stuck_def agent_inv_def)
  from lease_head [OF this l] have ne: "queue (ag_spool a) \<noteq> []" by (metis list.distinct(1))
  then show "0 < Count (ag_spool a)" using queue_empty_iff [of "ag_spool a"] by simp
  show "ag_deliver a \<noteq> Sending b" using assms ne by (auto simp: stuck_def agent_inv_def)
  show "drain_peek flt (ag_spool a) = (Looking, ag_spool a)"
    using l Peek_unavailable(1,2) [of "ag_spool a" flt] by (cases "s_closed (ag_spool a)") (simp_all add: drain_peek_def)
qed

lemma stuck_step:
  assumes json: "json_faithful marshal" and "stuck a" and step: "agent_step marshal a x a'"
  shows "stuck a' \<and> (\<forall>b. x \<noteq> Acked b)"
proof -
  have inv: "agent_inv a'" using agent_step_moves [OF json _ step] assms(2) by (simp add: stuck_def)
  note s = stuck_backlog [OF assms(2)]
  have d: "s_activeLease (ag_spool a) \<noteq> None" "\<forall>l. ag_drain a \<noteq> Transmitting l" using assms(2) by (auto simp: stuck_def)
  from step show ?thesis
  proof (cases rule: agent_step.cases)
    case (push b flt uuid now nano t)
    then have "s_activeLease t = s_activeLease (ag_spool a)"
      using Push_lease by (fastforce simp: deliver_push_def split: prod.splits sum.splits)
    with push inv d show ?thesis by (simp add: stuck_def)
  next
    case (push_error b flt uuid now nano t)
    then have "s_activeLease t = s_activeLease (ag_spool a)"
      using Push_lease by (fastforce simp: deliver_push_def split: prod.splits sum.splits)
    with push_error inv d show ?thesis by (simp add: stuck_def)
  qed (use inv d s in \<open>auto simp: stuck_def drain_begin_def\<close>)
qed

lemma stuck_run:
  assumes "run (agent_step marshal) a xs a'" and "json_faithful marshal" and "stuck a"
  shows "stuck a' \<and> acked xs = []"
  using assms
proof (induction rule: run.induct)
  case (run_step xs s x t)
  then have "stuck s" "acked xs = []" by blast+
  with stuck_step [OF run_step.prems(1) _ run_step.hyps(2)] show ?case
    by (cases x) (auto simp: acked_flushed_snoc)
qed simp

section \<open>A concrete run\<close>

text \<open>The server is down for the first batch, the second joins the backlog, the drain worker leases the first.\<close>

definition ex_at :: "spool \<Rightarrow> deliver_pc \<Rightarrow> drain_pc \<Rightarrow> agent" where
  "ex_at s d w = \<lparr>ag_spool = s, ag_deliver = d, ag_drain = w\<rparr>"

definition ex_obs :: "agent_obs list" where
  "ex_obs = [Flushed [ex_entry ''a''], Quiet, Evicted 0, Flushed [ex_entry ''b''], Evicted 0, Quiet, Quiet]"

lemma ex_agent_run: "run (agent_step (sized_marshal 400000)) (fresh_agent 1) ex_obs (ex_at ex_spool3 Idle (Transmitting ex_lease))"
proof -
  let ?m = "sized_marshal 400000" and ?a = "[ex_entry ''a'']" and ?b = "[ex_entry ''b'']"
  have c: "Count (fresh_spool 1) = 0" "0 < Count ex_spool1" "Count ex_spool2 \<noteq> 0" by code_simp+
  have 1: "agent_step ?m (ex_at (fresh_spool 1) Idle Looking) (Flushed ?a) (ex_at (fresh_spool 1) (Sending ?a) Looking)"
    using agent_step.start [of "ex_at (fresh_spool 1) Idle Looking" ?a ?m] c(1) by (simp add: ex_at_def deliver_begin_def)
  have 2: "agent_step ?m (ex_at (fresh_spool 1) (Sending ?a) Looking) Quiet (ex_at (fresh_spool 1) (Pushing ?a) Looking)"
    using agent_step.answer [of "ex_at (fresh_spool 1) (Sending ?a) Looking" ?a "Some (ErrTemporary [])" Nothing "Pushing ?a" ?m]
    by (simp add: ex_at_def deliver_answer_def IsRetryable_def)
  have 3: "agent_step ?m (ex_at (fresh_spool 1) (Pushing ?a) Looking) (Evicted 0) (ex_at ex_spool1 Idle Looking)"
    using agent_step.push [of "ex_at (fresh_spool 1) (Pushing ?a) Looking" ?a ?m no_faults "''a''" zero_time 10 ex_spool1] ex_push1
    by (simp add: ex_at_def deliver_push_def)
  have 4: "agent_step ?m (ex_at ex_spool1 Idle Looking) (Flushed ?b) (ex_at ex_spool1 (Pushing ?b) Looking)"
    using agent_step.start [of "ex_at ex_spool1 Idle Looking" ?b ?m] c(2) by (simp add: ex_at_def deliver_begin_def)
  have 5: "agent_step ?m (ex_at ex_spool1 (Pushing ?b) Looking) (Evicted 0) (ex_at ex_spool2 Idle Looking)"
    using agent_step.push [of "ex_at ex_spool1 (Pushing ?b) Looking" ?b ?m no_faults "''b''" zero_time 20 ex_spool2] ex_push2
    by (simp add: ex_at_def deliver_push_def)
  have 6: "agent_step ?m (ex_at ex_spool2 Idle Looking) Quiet (ex_at ex_spool2 Idle Peeking)"
    using agent_step.look [of "ex_at ex_spool2 Idle Looking" ?m] c(3) by (simp add: ex_at_def drain_begin_def)
  have 7: "agent_step ?m (ex_at ex_spool2 Idle Peeking) Quiet (ex_at ex_spool3 Idle (Transmitting ex_lease))"
    using agent_step.peek [of "ex_at ex_spool2 Idle Peeking" no_faults "Transmitting ex_lease" ex_spool3 ?m] ex_peek3
    by (simp add: ex_at_def drain_peek_def)
  have 0: "run (agent_step ?m) (fresh_agent 1) [] (ex_at (fresh_spool 1) Idle Looking)"
    using run_init [of "agent_step ?m" "fresh_agent 1"] by (simp add: fresh_agent_def ex_at_def)
  note r3 = run_step [of "agent_step ?m", OF run_step [of "agent_step ?m", OF run_step [of "agent_step ?m", OF 0 1] 2] 3]
  note r6 = run_step [of "agent_step ?m", OF run_step [of "agent_step ?m", OF run_step [of "agent_step ?m", OF r3 4] 5] 6]
  from run_step [of "agent_step ?m", OF r6 7] show ?thesis by (simp add: ex_obs_def)
qed

section \<open>Properties\<close>



text \<open>
  A failed rename stops the delivery until a restart: when \<open>Revert\<close> cannot rename the segment
  back after a retryable send failure, the lease stays active and the drain worker has forgotten
  it. From then on every \<open>Peek\<close> is refused and every live batch joins the backlog, so no batch
  is ever acknowledged again, whatever the workers do.
\<close>

lemma revert_failure_blocks_delivery:
  assumes "run (agent_step marshal) (fresh_agent mb) xs a" and "json_faithful marshal"
    and "ag_drain a = Transmitting l" and "IsRetryable err" and "Revert flt (Some l) (ag_spool a) = (Inl e, t)"
    and "drain_answer flt err l (ag_spool a) = (out, t')"
    and "run (agent_step marshal) (a\<lparr>ag_spool := t', ag_drain := Looking\<rparr>) ys a'"
  shows "acked ys = [] \<and> queue (ag_spool a') \<noteq> []"
proof -
  have inv: "agent_inv a" using agent_run_inv [OF assms(1,2) agent_inv_fresh(1)] by blast
  have t: "t = ag_spool a" using assms(5) by (auto simp: Revert_def revertLease_def Let_def split: if_splits option.splits)
  then have t': "t' = ag_spool a" using assms(4-6) by (cases err) (auto simp: drain_answer_def IsRetryable_def)
  have "s_activeLease (ag_spool a) = Some l" using inv assms(3) by (simp add: agent_inv_def)
  then have "stuck (a\<lparr>ag_spool := t', ag_drain := Looking\<rparr>)" using inv by (simp add: stuck_def agent_inv_def t')
  from stuck_run [OF assms(7,2) this] have "stuck a'" "acked ys = []" by blast+
  with stuck_backlog(1) [of a'] show ?thesis by (simp add: queue_empty_iff)
qed

definition rename_fails :: faults where
  "rename_fails c = (case c of Rename p q \<Rightarrow> True | _ \<Rightarrow> False)"

lemma revert_failure_blocks_delivery_witness:
  "queue (ag_spool (ex_at ex_spool3 Idle Looking)) \<noteq> []"
proof -
  let ?a = "ex_at ex_spool3 Idle (Transmitting ex_lease)" and ?err = "Some (ErrTemporary [])"
  have rv: "Revert rename_fails (Some ex_lease) (ag_spool ?a) = (Inl ErrRevertRename, ex_spool3)" by code_simp
  have ans: "drain_answer rename_fails ?err ex_lease (ag_spool ?a) = (Nothing, ex_spool3)" by code_simp
  have run: "run (agent_step (sized_marshal 400000)) (?a\<lparr>ag_spool := ex_spool3, ag_drain := Looking\<rparr>) [] (ex_at ex_spool3 Idle Looking)"
    using run_init [of "agent_step (sized_marshal 400000)" "ex_at ex_spool3 Idle Looking"] by (simp add: ex_at_def)
  show ?thesis
    using revert_failure_blocks_delivery [OF ex_agent_run _ _ _ rv ans run] by (simp add: ex_at_def IsRetryable_def)
qed

text \<open>
  C27. Batching loses, adds and reorders nothing: the flushed batches, followed by the batch still
  being filled, are exactly the entries received, in order; no flushed batch is empty or larger
  than the configured maximum, and after shutdown nothing is left behind.
\<close>

theorem batchWorker_complete:
  shows "concat (fst (batchWorker m [] evs)) @ snd (batchWorker m [] evs) = taken evs \<and>
    list_all (good_batch m) (fst (batchWorker m [] evs)) \<and>
    (ev \<in> {Closed, Cancelled es} \<longrightarrow> snd (batchWorker m [] (evs @ [ev])) = [])"
proof -
  have "snd (batchWorker m b (evs @ [ev])) = []" if "ev = Closed \<or> ev = Cancelled es" for b
    using that by (induction m b evs rule: batchWorker.induct) (auto simp: Let_def split: prod.splits)
  then show ?thesis using batchWorker_spec [of "[]" m evs] by (cases "batchWorker m [] evs") auto
qed

theorem batchWorker_complete_witness:
  "snd (batchWorker 2 [] ([Entry (ex_entry ''a''), Tick, Entry (ex_entry ''b'')] @ [Closed])) = []"
  using batchWorker_complete [of 2 "[Entry (ex_entry ''a''), Tick, Entry (ex_entry ''b'')]" Closed "[]"] by simp

end
