(* ===== verification/Parser.thy ===== *)
theory Parser
  imports LogEntry Complex_Main
begin

text \<open>
  Turning lines into entries, \<open>internal/parser\<close>: the text, JSON, regular-expression and automatic
  parsers behind one interface. \<open>encoding/json\<close>, \<open>time.Parse\<close>, the printing of floating-point numbers and
  the regular-expression engine are the arguments gathered in \<open>parse_env\<close> and \<open>regexp\<close>. A \<open>float64\<close> is a real
  number. A decoded JSON object is an association list in the order in which one \<open>range\<close> visits it;
  \<open>uuid\<close> and \<open>now\<close> are what \<open>logentry.New\<close> and the later \<open>time.Now\<close> read.
\<close>

section \<open>Data\<close>

datatype parse_error = ErrEmptyLine | ErrNoMatch | ErrJSON | ErrEmptyPattern | ErrCompile | ErrUnsupportedFormat

datatype json_value =
  JNull
| JString string
| JBool bool
| JNumber real
| JArray "json_value list"
| JObject "(string \<times> json_value) list"

type_synonym tags = "(string, string) gomap"

record parse_env =
  pv_Unmarshal :: "string \<Rightarrow> (string, json_value) gomap option"
  pv_Marshal :: "json_value \<Rightarrow> string option"
  pv_Sprintf :: "json_value \<Rightarrow> string"
  pv_FormatFloat :: "real \<Rightarrow> string"
  pv_overflow :: "real \<Rightarrow> int"
  pv_time_Parse :: "string \<Rightarrow> string \<Rightarrow> gotime option"

record regexp =
  re_SubexpNames :: "string list"
  re_FindStringSubmatch :: "string \<Rightarrow> string list option"

text \<open>The three structures of the parsers have the same members; \<open>AutoParser\<close> holds two of them.\<close>

record parser_base =
  pb_host :: string
  pb_source :: string
  pb_defaultTags :: tags

datatype parser =
  TextParser parser_base
| JSONParser parser_base
| RegexpParser regexp parser_base
| AutoParser parser_base

section \<open>Levels and the text parser\<close>

definition levelKeywords :: "string list" where
  "levelKeywords =
     [''EMERGENCY'', ''ALERT'', ''CRITICAL'', ''FATAL'', ''ERROR'', ''WARN'', ''WARNING'', ''INFO'', ''NOTICE'', ''DEBUG'', ''TRACE'']"

definition detectLevel :: "string \<Rightarrow> string" where
  "detectLevel line =
     (let upper = ToUpper line
      in case find (Contains upper) levelKeywords of
           Some lvl \<Rightarrow> if lvl = ''WARNING'' then ''WARN'' else lvl
         | None \<Rightarrow> ''INFO'')"

definition newlines :: string where
  "newlines = [CHR 0x0D, CHR 0x0A]"

definition Parse_text :: "string \<Rightarrow> gotime \<Rightarrow> gotime \<Rightarrow> parser_base \<Rightarrow> string \<Rightarrow> (parse_error, log_entry) result" where
  "Parse_text uuid now now' p line =
     (let trimmed = TrimRight line newlines
      in if trimmed = [] then Inl ErrEmptyLine
         else
           let lvl = detectLevel trimmed;
               entry = New_entry uuid now (pb_host p) (pb_source p) lvl trimmed (pb_defaultTags p)
           in Inr (entry\<lparr>Timestamp := now'\<rparr>))"

section \<open>Times and values\<close>

definition parseEpoch :: "int \<Rightarrow> gotime" where
  "parseEpoch epoch =
     (if 10 ^ 11 < epoch \<and> epoch < 10 ^ 14 then unix_utc (epoch * 10 ^ 6)
      else if 10 ^ 14 \<le> epoch \<and> epoch < 10 ^ 17 then unix_utc (epoch * 10 ^ 3)
      else if 10 ^ 17 \<le> epoch then unix_utc epoch
      else unix_utc (epoch * 10 ^ 9))"

text \<open>\<open>int64(v)\<close> of a \<open>float64\<close> drops the fraction; out of range its value depends on the machine.\<close>

definition float_int64 :: "parse_env \<Rightarrow> real \<Rightarrow> int" where
  "float_int64 pv v =
     (let n = (if 0 \<le> v then \<lfloor>v\<rfloor> else \<lceil>v\<rceil>)
      in if - (2 ^ 63) \<le> n \<and> n < 2 ^ 63 then n else int64 (pv_overflow pv v))"

definition timestamp_layouts :: "string list" where
  "timestamp_layouts =
     [''2006-01-02T15:04:05.999999999Z07:00'', ''2006-01-02T15:04:05Z07:00'', ''2006-01-02T15:04:05Z07:00'', ''2006-01-02 15:04:05'',
      ''2006-01-02 15:04:05.000'', ''Mon, 02 Jan 2006 15:04:05 MST'', ''Mon, 02 Jan 2006 15:04:05 -0700'', ''2006-01-02 15:04:05'']"

fun first_parse :: "(string \<Rightarrow> string \<Rightarrow> gotime option) \<Rightarrow> string list \<Rightarrow> string \<Rightarrow> gotime option" where
  "first_parse parse [] v = None"
| "first_parse parse (layout # layouts) v =
     (case parse layout v of Some t \<Rightarrow> Some (UTC t) | None \<Rightarrow> first_parse parse layouts v)"

definition parseTimestamp :: "parse_env \<Rightarrow> json_value \<Rightarrow> gotime option" where
  "parseTimestamp pv val =
     (case val of
        JString v \<Rightarrow>
          (case first_parse (pv_time_Parse pv) timestamp_layouts v of
             Some t \<Rightarrow> Some t
           | None \<Rightarrow> map_option parseEpoch (ParseInt v))
      | JNumber v \<Rightarrow> Some (parseEpoch (float_int64 pv v))
      | _ \<Rightarrow> None)"

definition stringify :: "parse_env \<Rightarrow> json_value \<Rightarrow> string option" where
  "stringify pv val =
     (case val of
        JNull \<Rightarrow> None
      | JString v \<Rightarrow> Some v
      | JBool v \<Rightarrow> Some (if v then ''true'' else ''false'')
      | JNumber v \<Rightarrow> Some (pv_FormatFloat pv v)
      | v \<Rightarrow> Some (case pv_Marshal pv v of None \<Rightarrow> pv_Sprintf pv v | Some b \<Rightarrow> b))"

section \<open>The JSON parser\<close>

text \<open>The groups of the \<open>switch\<close> over the lower-case key.\<close>

datatype json_role = RTimestamp | RLevel | RMessage | RHost | RSource | RField

definition json_key_role :: "string \<Rightarrow> json_role" where
  "json_key_role key =
     (let lowerKey = ToLower key
      in if lowerKey \<in> set [''timestamp'', ''time'', ''ts'', ''@timestamp'', ''datetime''] then RTimestamp
         else if lowerKey \<in> set [''level'', ''severity'', ''lvl'', ''status''] then RLevel
         else if lowerKey \<in> set [''message'', ''msg'', ''log'', ''text''] then RMessage
         else if lowerKey \<in> set [''host'', ''hostname''] then RHost
         else if lowerKey \<in> set [''source'', ''service'', ''app''] then RSource
         else RField)"

record json_state =
  js_entry :: log_entry
  js_fields :: tags
  js_foundTimestamp :: bool
  js_foundMessage :: bool
  js_foundLevel :: bool

definition json_member :: "parse_env \<Rightarrow> string \<times> json_value \<Rightarrow> json_state \<Rightarrow> json_state" where
  "json_member pv kv st =
     (case kv of
        (key, val) \<Rightarrow>
          (case json_key_role key of
             RTimestamp \<Rightarrow>
               (case parseTimestamp pv val of
                  Some ts \<Rightarrow> st\<lparr>js_entry := (js_entry st)\<lparr>Timestamp := ts\<rparr>, js_foundTimestamp := True\<rparr>
                | None \<Rightarrow> st)
           | RLevel \<Rightarrow>
               (case stringify pv val of
                  Some strVal \<Rightarrow> if strVal \<noteq> '''' then st\<lparr>js_entry := (js_entry st)\<lparr>Level := ToUpper strVal\<rparr>, js_foundLevel := True\<rparr> else st
                | None \<Rightarrow> st)
           | RMessage \<Rightarrow>
               (case stringify pv val of
                  Some strVal \<Rightarrow> st\<lparr>js_entry := (js_entry st)\<lparr>Message := strVal\<rparr>, js_foundMessage := True\<rparr>
                | None \<Rightarrow> st)
           | RHost \<Rightarrow>
               (case stringify pv val of
                  Some strVal \<Rightarrow> if strVal \<noteq> '''' then st\<lparr>js_entry := (js_entry st)\<lparr>Host := strVal\<rparr>\<rparr> else st
                | None \<Rightarrow> st)
           | RSource \<Rightarrow>
               (case stringify pv val of
                  Some strVal \<Rightarrow> if strVal \<noteq> '''' then st\<lparr>js_entry := (js_entry st)\<lparr>Source := strVal\<rparr>\<rparr> else st
                | None \<Rightarrow> st)
           | RField \<Rightarrow>
               (case stringify pv val of
                  Some strVal \<Rightarrow> st\<lparr>js_fields := AList.update key strVal (js_fields st)\<rparr>
                | None \<Rightarrow> st)))"

definition json_finish :: "gotime \<Rightarrow> string \<Rightarrow> json_state \<Rightarrow> log_entry" where
  "json_finish now' trimmed st =
     (let e = js_entry st;
          e = (if \<not> js_foundTimestamp st then e\<lparr>Timestamp := now'\<rparr> else e);
          e = (if \<not> js_foundLevel st then e\<lparr>Level := ''INFO''\<rparr> else e);
          e = (if \<not> js_foundMessage st then e\<lparr>Message := trimmed\<rparr> else e)
      in if js_fields st \<noteq> [] then e\<lparr>Fields := js_fields st\<rparr> else e)"

definition Parse_json :: "parse_env \<Rightarrow> string \<Rightarrow> gotime \<Rightarrow> gotime \<Rightarrow> parser_base \<Rightarrow> string \<Rightarrow> (parse_error, log_entry) result" where
  "Parse_json pv uuid now now' p line =
     (let trimmed = TrimSpace line
      in if trimmed = [] then Inl ErrEmptyLine
         else
           case pv_Unmarshal pv trimmed of
             None \<Rightarrow> Inl ErrJSON
           | Some raw \<Rightarrow>
               let entry = New_entry uuid now (pb_host p) (pb_source p) ''INFO'' '''' (pb_defaultTags p);
                   st = \<lparr>js_entry = entry, js_fields = pb_defaultTags p, js_foundTimestamp = False, js_foundMessage = False, js_foundLevel = False\<rparr>
               in Inr (json_finish now' trimmed (fold (json_member pv) raw st)))"

section \<open>The regular-expression parser\<close>

definition regexp_group :: "parse_env \<Rightarrow> string \<times> string \<Rightarrow> log_entry \<times> tags \<Rightarrow> log_entry \<times> tags" where
  "regexp_group pv nv st =
     (case (nv, st) of
        ((name, val), (entry, flds)) \<Rightarrow>
          let lowerName = ToLower name
          in if name = '''' then (entry, flds)
             else if lowerName \<in> set [''timestamp'', ''time'', ''ts''] then
               (case parseTimestamp pv (JString val) of Some ts \<Rightarrow> (entry\<lparr>Timestamp := ts\<rparr>, flds) | None \<Rightarrow> (entry, flds))
             else if lowerName \<in> set [''level'', ''severity'', ''lvl''] then (entry\<lparr>Level := ToUpper val\<rparr>, flds)
             else if lowerName \<in> set [''message'', ''msg''] then (entry\<lparr>Message := val\<rparr>, flds)
             else if lowerName \<in> set [''host'', ''hostname''] then ((if val \<noteq> '''' then entry\<lparr>Host := val\<rparr> else entry), flds)
             else if lowerName \<in> set [''source'', ''service''] then ((if val \<noteq> '''' then entry\<lparr>Source := val\<rparr> else entry), flds)
             else (entry, AList.update name val flds))"

definition NewRegexpParser :: "(string \<Rightarrow> regexp option) \<Rightarrow> string \<Rightarrow> parser_base \<Rightarrow> (parse_error, parser) result" where
  "NewRegexpParser compile pattern b =
     (if TrimSpace pattern = '''' then Inl ErrEmptyPattern
      else case compile pattern of None \<Rightarrow> Inl ErrCompile | Some re \<Rightarrow> Inr (RegexpParser re b))"

text \<open>The match of the whole expression, at index 0, is skipped.\<close>

definition Parse_regexp :: "parse_env \<Rightarrow> regexp \<Rightarrow> string \<Rightarrow> gotime \<Rightarrow> parser_base \<Rightarrow> string \<Rightarrow> (parse_error, log_entry) result" where
  "Parse_regexp pv re uuid now p line =
     (let trimmed = TrimRight line newlines
      in if trimmed = [] then Inl ErrEmptyLine
         else
           case re_FindStringSubmatch re trimmed of
             None \<Rightarrow> Inl ErrNoMatch
           | Some match \<Rightarrow>
               let entry = New_entry uuid now (pb_host p) (pb_source p) ''INFO'' trimmed (pb_defaultTags p)
               in case fold (regexp_group pv) (tl (zip (re_SubexpNames re) match)) (entry, pb_defaultTags p) of
                    (entry, flds) \<Rightarrow> Inr (if flds \<noteq> [] then entry\<lparr>Fields := flds\<rparr> else entry))"

section \<open>The automatic parser and the choice of a parser\<close>

definition Parse_auto :: "parse_env \<Rightarrow> string \<Rightarrow> gotime \<Rightarrow> gotime \<Rightarrow> parser_base \<Rightarrow> string \<Rightarrow> (parse_error, log_entry) result" where
  "Parse_auto pv uuid now now' p line =
     (let trimmed = TrimSpace line
      in if trimmed = [] then Inl ErrEmptyLine
         else if HasPrefix trimmed ''{'' \<and> HasSuffix trimmed ''}'' then
           (case Parse_json pv uuid now now' p trimmed of
              Inr entry \<Rightarrow> Inr entry
            | Inl _ \<Rightarrow> Parse_text uuid now now' p line)
         else Parse_text uuid now now' p line)"

fun Parse :: "parse_env \<Rightarrow> string \<Rightarrow> gotime \<Rightarrow> gotime \<Rightarrow> parser \<Rightarrow> string \<Rightarrow> (parse_error, log_entry) result" where
  "Parse pv uuid now now' (TextParser b) line = Parse_text uuid now now' b line"
| "Parse pv uuid now now' (JSONParser b) line = Parse_json pv uuid now now' b line"
| "Parse pv uuid now now' (RegexpParser re b) line = Parse_regexp pv re uuid now b line"
| "Parse pv uuid now now' (AutoParser b) line = Parse_auto pv uuid now now' b line"

definition NewTextParser :: "string \<Rightarrow> string \<Rightarrow> tags \<Rightarrow> parser" where
  [simp]: "NewTextParser host source defaultTags = TextParser \<lparr>pb_host = host, pb_source = source, pb_defaultTags = defaultTags\<rparr>"

definition NewJSONParser :: "string \<Rightarrow> string \<Rightarrow> tags \<Rightarrow> parser" where
  [simp]: "NewJSONParser host source defaultTags = JSONParser \<lparr>pb_host = host, pb_source = source, pb_defaultTags = defaultTags\<rparr>"

text \<open>The two parsers of an \<open>AutoParser\<close> have the same fields, which it has here once.\<close>

definition NewAutoParser :: "string \<Rightarrow> string \<Rightarrow> tags \<Rightarrow> parser" where
  [simp]: "NewAutoParser host source defaultTags = AutoParser \<lparr>pb_host = host, pb_source = source, pb_defaultTags = defaultTags\<rparr>"

definition New_parser ::
  "(string \<Rightarrow> regexp option) \<Rightarrow> string \<Rightarrow> string \<Rightarrow> string \<Rightarrow> string \<Rightarrow> tags \<Rightarrow> (parse_error, parser) result" where
  "New_parser compile fmt pattern host source defaultTags =
     (let norm = ToLower (TrimSpace fmt)
      in if norm = ''text'' then Inr (NewTextParser host source defaultTags)
         else if norm = ''json'' then Inr (NewJSONParser host source defaultTags)
         else if norm = ''regexp'' then
           NewRegexpParser compile pattern \<lparr>pb_host = host, pb_source = source, pb_defaultTags = defaultTags\<rparr>
         else if norm = '''' \<or> norm = ''auto'' then Inr (NewAutoParser host source defaultTags)
         else Inl ErrUnsupportedFormat)"

section \<open>Facts\<close>

text \<open>The contract of the interface \<open>Parser\<close>: blank lines are refused, an entry keeps the identifier it was
  created with and has every default tag.\<close>

locale line_parser =
  fixes parse :: "string \<Rightarrow> (parse_error, log_entry) result" and uuid :: string and tgs :: tags
  assumes blank_refused: "TrimRight line newlines = [] \<Longrightarrow> parse line = Inl ErrEmptyLine"
    and keeps_id: "parse line = Inr e \<Longrightarrow> ID e = uuid"
    and keeps_tags: "parse line = Inr e \<Longrightarrow> dom (map_of tgs) \<subseteq> dom (map_of (Fields e))"
begin

lemma parsed_not_blank: "parse line = Inr e \<Longrightarrow> TrimRight line newlines \<noteq> []"
  using blank_refused by force

lemma fallback_id: "ID (case parse line of Inl _ \<Rightarrow> New_entry uuid now host source lvl line [] | Inr e \<Rightarrow> e) = uuid"
  using keeps_id by (auto simp: New_entry_def Let_def split: sum.splits)

end

fun parser_tags :: "parser \<Rightarrow> tags" where
  "parser_tags (TextParser b) = pb_defaultTags b"
| "parser_tags (JSONParser b) = pb_defaultTags b"
| "parser_tags (RegexpParser re b) = pb_defaultTags b"
| "parser_tags (AutoParser b) = pb_defaultTags b"

lemma TrimRight_blank: "TrimRight line newlines = [] \<Longrightarrow> TrimSpace line = []"
proof -
  assume "TrimRight line newlines = []"
  then have "set line \<subseteq> set newlines" by (auto simp: TrimRight_def dropWhile_eq_Nil_conv)
  moreover have "list_all is_space newlines" by code_simp
  ultimately have "\<forall>c\<in>set line. is_space c" by (auto simp: list_all_iff)
  then have "dropWhile is_space line = []" by (simp add: dropWhile_eq_Nil_conv)
  then show "TrimSpace line = []" by (simp only: TrimSpace_def rev.simps dropWhile.simps)
qed

lemma json_member_id: "ID (js_entry (json_member pv kv st)) = ID (js_entry st)"
  by (auto simp: json_member_def split: prod.splits json_role.splits option.splits)

lemma json_member_fields: "dom (map_of (js_fields st)) \<subseteq> dom (map_of (js_fields (json_member pv kv st)))
    \<and> Fields (js_entry (json_member pv kv st)) = Fields (js_entry st)"
  by (auto simp: json_member_def update_conv' split: prod.splits json_role.splits option.splits if_splits)

lemma json_fold_keeps:
  "ID (js_entry (fold (json_member pv) raw st)) = ID (js_entry st) \<and>
   dom (map_of (js_fields st)) \<subseteq> dom (map_of (js_fields (fold (json_member pv) raw st))) \<and>
   Fields (js_entry (fold (json_member pv) raw st)) = Fields (js_entry st)"
proof (induction raw arbitrary: st)
  case (Cons kv raw)
  then show ?case using json_member_id [of pv kv st] json_member_fields [of st pv kv] by (metis fold_simps(2) subset_trans)
qed simp

lemma New_entry_sel [simp]:
  "ID (New_entry uuid now host source lvl msg flds) = uuid" "Fields (New_entry uuid now host source lvl msg flds) = flds"
  "Message (New_entry uuid now host source lvl msg flds) = msg" "Host (New_entry uuid now host source lvl msg flds) = TrimSpace host"
  "Source (New_entry uuid now host source lvl msg flds) = TrimSpace source" "Timestamp (New_entry uuid now host source lvl msg flds) = now"
  by (simp_all add: New_entry_def Let_def)

lemma Parse_json_keeps:
  assumes "Parse_json pv uuid now now' p line = Inr e"
  shows "ID e = uuid \<and> dom (map_of (pb_defaultTags p)) \<subseteq> dom (map_of (Fields e))"
proof -
  let ?st = "\<lparr>js_entry = New_entry uuid now (pb_host p) (pb_source p) ''INFO'' '''' (pb_defaultTags p), js_fields = pb_defaultTags p,
    js_foundTimestamp = False, js_foundMessage = False, js_foundLevel = False\<rparr>"
  obtain raw where e: "e = json_finish now' (TrimSpace line) (fold (json_member pv) raw ?st)"
    using assms by (auto simp: Parse_json_def Let_def split: if_splits option.splits)
  show ?thesis using json_fold_keeps [of pv raw ?st] by (auto simp: e json_finish_def Let_def)
qed

lemma regexp_group_keeps:
  "regexp_group pv nv (e, f) = (e', f') \<Longrightarrow> ID e' = ID e \<and> Fields e' = Fields e \<and> dom (map_of f) \<subseteq> dom (map_of f')"
  by (auto simp: regexp_group_def Let_def update_conv' split: prod.splits if_splits option.splits)

lemma regexp_fold_keeps:
  "fold (regexp_group pv) nvs (e, f) = (e', f') \<Longrightarrow> ID e' = ID e \<and> Fields e' = Fields e \<and> dom (map_of f) \<subseteq> dom (map_of f')"
proof (induction nvs arbitrary: e f)
  case (Cons nv nvs)
  obtain e1 f1 where s: "regexp_group pv nv (e, f) = (e1, f1)" by (metis surj_pair)
  from regexp_group_keeps [OF s] Cons.IH [of e1 f1] Cons.prems s show ?case by auto
qed simp

lemma Parse_regexp_keeps:
  assumes "Parse_regexp pv re uuid now p line = Inr e"
  shows "ID e = uuid \<and> dom (map_of (pb_defaultTags p)) \<subseteq> dom (map_of (Fields e))"
proof -
  let ?e = "New_entry uuid now (pb_host p) (pb_source p) ''INFO'' (TrimRight line newlines) (pb_defaultTags p)"
  obtain nvs e1 f where s: "fold (regexp_group pv) nvs (?e, pb_defaultTags p) = (e1, f)" "e = (if f \<noteq> [] then e1\<lparr>Fields := f\<rparr> else e1)"
    using assms by (auto simp: Parse_regexp_def Let_def split: if_splits option.splits prod.splits)
  from regexp_fold_keeps [OF s(1)] s(2) show ?thesis by auto
qed

lemma Parse_text_keeps:
  "Parse_text uuid now now' p line = Inr e \<Longrightarrow> ID e = uuid \<and> Fields e = pb_defaultTags p \<and> Message e = TrimRight line newlines
     \<and> Host e = TrimSpace (pb_host p) \<and> Source e = TrimSpace (pb_source p) \<and> Timestamp e = now'"
  by (auto simp: Parse_text_def Let_def split: if_splits)

lemma Parse_auto_cases:
  assumes "TrimSpace line \<noteq> []"
  shows "Parse_auto pv uuid now now' p line = Parse_json pv uuid now now' p (TrimSpace line)
       \<and> (\<exists>e. Parse_json pv uuid now now' p (TrimSpace line) = Inr e)
    \<or> Parse_auto pv uuid now now' p line = Parse_text uuid now now' p line"
  using assms by (cases "Parse_json pv uuid now now' p (TrimSpace line)") (simp_all add: Parse_auto_def Let_def)

lemma find_mem: "find P xs = Some x \<Longrightarrow> x \<in> set xs"
  by (induction xs) (auto split: if_splits)

lemma detectLevel_normal: "ToUpper (TrimSpace (detectLevel l)) = detectLevel l \<and> detectLevel l \<noteq> []"
proof -
  have "detectLevel l \<in> set (''INFO'' # ''WARN'' # levelKeywords)"
    by (auto simp: detectLevel_def Let_def dest: find_mem split: option.splits)
  moreover have "list_all (\<lambda>k. ToUpper (TrimSpace k) = k \<and> k \<noteq> []) (''INFO'' # ''WARN'' # levelKeywords)"
    by code_simp
  ultimately show ?thesis unfolding list_all_iff by blast
qed

interpretation lp: line_parser "Parse pv uuid now now' p" uuid "parser_tags p" for pv uuid now now' p
proof
  fix line e
  show "Parse pv uuid now now' p line = Inl ErrEmptyLine" if "TrimRight line newlines = []"
    using that TrimRight_blank [OF that]
    by (cases p) (simp_all add: Parse_text_def Parse_json_def Parse_regexp_def Parse_auto_def)
  assume ok: "Parse pv uuid now now' p line = Inr e"
  have "ID e = uuid \<and> dom (map_of (parser_tags p)) \<subseteq> dom (map_of (Fields e))"
  proof (cases p)
    case (AutoParser b)
    then have "TrimSpace line \<noteq> []" using ok by (auto simp: Parse_auto_def)
    from Parse_auto_cases [OF this, of pv uuid now now' b] ok AutoParser
    consider "Parse_json pv uuid now now' b (TrimSpace line) = Inr e" | "Parse_text uuid now now' b line = Inr e" by auto
    then show ?thesis using AutoParser by cases (use Parse_json_keeps Parse_text_keeps in force)+
  qed (use ok Parse_json_keeps Parse_text_keeps Parse_regexp_keeps in auto)
  then show "ID e = uuid" "dom (map_of (parser_tags p)) \<subseteq> dom (map_of (Fields e))" by auto
qed

subsection \<open>The order of the members\<close>

text \<open>The state of the loop with the fields as a map.\<close>

type_synonym json_abs = "log_entry \<times> (string \<rightharpoonup> string) \<times> bool \<times> bool \<times> bool"

definition json_abs :: "json_state \<Rightarrow> json_abs" where
  "json_abs st = (js_entry st, map_of (js_fields st), js_foundTimestamp st, js_foundMessage st, js_foundLevel st)"

definition abs_member :: "parse_env \<Rightarrow> string \<times> json_value \<Rightarrow> json_abs \<Rightarrow> json_abs" where
  "abs_member pv kv st =
     (case (kv, st) of
        ((key, val), (e, m, ft, fm, fl)) \<Rightarrow>
          (case (json_key_role key, parseTimestamp pv val, stringify pv val) of
             (RTimestamp, Some ts, _) \<Rightarrow> (e\<lparr>Timestamp := ts\<rparr>, m, True, fm, fl)
           | (RLevel, _, Some s) \<Rightarrow> if s \<noteq> '''' then (e\<lparr>Level := ToUpper s\<rparr>, m, ft, fm, True) else (e, m, ft, fm, fl)
           | (RMessage, _, Some s) \<Rightarrow> (e\<lparr>Message := s\<rparr>, m, ft, True, fl)
           | (RHost, _, Some s) \<Rightarrow> ((if s \<noteq> '''' then e\<lparr>Host := s\<rparr> else e), m, ft, fm, fl)
           | (RSource, _, Some s) \<Rightarrow> ((if s \<noteq> '''' then e\<lparr>Source := s\<rparr> else e), m, ft, fm, fl)
           | (RField, _, Some s) \<Rightarrow> (e, m(key \<mapsto> s), ft, fm, fl)
           | _ \<Rightarrow> (e, m, ft, fm, fl)))"

lemma json_abs_member: "json_abs (json_member pv kv st) = abs_member pv kv (json_abs st)"
  by (cases kv; cases "json_key_role (fst kv)"; cases "parseTimestamp pv (snd kv)"; cases "stringify pv (snd kv)")
     (simp_all add: json_member_def abs_member_def json_abs_def update_conv')

lemma json_abs_fold: "json_abs (fold (json_member pv) raw st) = fold (abs_member pv) raw (json_abs st)"
  by (induction raw arbitrary: st) (simp_all add: json_abs_member)

definition compatible :: "string \<Rightarrow> string \<Rightarrow> bool" where
  "compatible k k' \<longleftrightarrow> json_key_role k \<noteq> json_key_role k' \<or> json_key_role k = RField \<and> k \<noteq> k'"

lemma abs_member_commute:
  assumes "compatible (fst kv) (fst kv')"
  shows "abs_member pv kv (abs_member pv kv' st) = abs_member pv kv' (abs_member pv kv st)"
  using assms
  by (cases st; cases kv; cases kv'; cases "json_key_role (fst kv)"; cases "json_key_role (fst kv')")
     (auto simp: abs_member_def compatible_def fun_upd_twist split: option.splits)

text \<open>No two members of an object have the same role, fields apart.\<close>

definition single_roles :: "(string, json_value) gomap \<Rightarrow> bool" where
  "single_roles raw \<longleftrightarrow> distinct (map json_key_role (filter (\<lambda>k. json_key_role k \<noteq> RField) (map fst raw)))"

lemma single_roles_compatible:
  assumes "single_roles raw" and "wf_map raw" and "kv \<in> set raw" and "kv' \<in> set raw" and "kv \<noteq> kv'"
  shows "compatible (fst kv) (fst kv')"
proof (cases "json_key_role (fst kv) = RField \<or> json_key_role (fst kv') = RField")
  case True
  have "fst kv \<noteq> fst kv'" using assms(2-5) by (metis distinct_map inj_on_def)
  with True show ?thesis by (auto simp: compatible_def)
next
  case False
  let ?ks = "filter (\<lambda>k. json_key_role k \<noteq> RField) (map fst raw)"
  have "fst kv \<in> set ?ks" "fst kv' \<in> set ?ks" using False assms(3,4) by auto
  moreover have "fst kv \<noteq> fst kv'" using assms(2-5) by (metis distinct_map inj_on_def)
  moreover have "inj_on json_key_role (set ?ks)" using assms(1) by (simp only: single_roles_def distinct_map)
  ultimately show ?thesis by (auto simp: compatible_def dest: inj_onD)
qed

lemma json_fold_order:
  assumes "single_roles raw" and "wf_map raw" and "mset raw' = mset raw"
  shows "json_abs (fold (json_member pv) raw' st) = json_abs (fold (json_member pv) raw st)"
proof -
  have "abs_member pv kv \<circ> abs_member pv kv' = abs_member pv kv' \<circ> abs_member pv kv" if "kv \<in> set raw" "kv' \<in> set raw" for kv kv'
    using abs_member_commute single_roles_compatible [OF assms(1,2) that] by (cases "kv = kv'") (auto simp: fun_eq_iff)
  then have "fold (abs_member pv) raw = fold (abs_member pv) raw'" by (intro fold_multiset_equiv) (simp_all add: assms(3))
  then show ?thesis by (simp add: json_abs_fold)
qed

text \<open>Two entries that differ at most in the order of their fields.\<close>

definition same_entry :: "log_entry \<Rightarrow> log_entry \<Rightarrow> bool" where
  "same_entry e e' \<longleftrightarrow> e\<lparr>Fields := []\<rparr> = e'\<lparr>Fields := []\<rparr> \<and> map_of (Fields e) = map_of (Fields e')"

lemma json_finish_abs:
  assumes "json_abs st = json_abs st'"
  shows "same_entry (json_finish now trimmed st) (json_finish now trimmed st')"
proof -
  have s: "js_entry st = js_entry st'" "map_of (js_fields st) = map_of (js_fields st')" "js_foundTimestamp st = js_foundTimestamp st'"
    "js_foundMessage st = js_foundMessage st'" "js_foundLevel st = js_foundLevel st'"
    using assms by (simp_all add: json_abs_def)
  then have "js_fields st = [] \<longleftrightarrow> js_fields st' = []" by (metis map_of_eq_empty_iff)
  with s show ?thesis by (simp add: same_entry_def json_finish_def Let_def)
qed

section \<open>Properties\<close>

text \<open>
  C37. The JSON parser does not depend on the random order in which Go visits a map: when no two members
  of the object have the same role (such as \<open>level\<close> and \<open>severity\<close>), every order of the members gives the same entry.
\<close>

theorem json_order_irrelevant:
  assumes "pv_Unmarshal pv (TrimSpace line) = Some raw" and "mset raw' = mset raw" and "wf_map raw" and "single_roles raw"
    and "TrimSpace line \<noteq> []"
  shows "\<exists>e e'. Parse_json pv uuid now now' p line = Inr e \<and>
    Parse_json (pv\<lparr>pv_Unmarshal := (\<lambda>_. Some raw')\<rparr>) uuid now now' p line = Inr e' \<and> same_entry e e'"
proof -
  let ?pv = "pv\<lparr>pv_Unmarshal := (\<lambda>_. Some raw')\<rparr>"
  let ?st = "\<lparr>js_entry = New_entry uuid now (pb_host p) (pb_source p) ''INFO'' '''' (pb_defaultTags p), js_fields = pb_defaultTags p,
    js_foundTimestamp = False, js_foundMessage = False, js_foundLevel = False\<rparr>"
  have "stringify ?pv = stringify pv" "parseTimestamp ?pv = parseTimestamp pv"
    by (simp_all add: fun_eq_iff stringify_def parseTimestamp_def float_int64_def split: json_value.splits option.splits)
  then have m: "json_member ?pv = json_member pv" unfolding json_member_def by (simp only:)
  have "Parse_json pv uuid now now' p line = Inr (json_finish now' (TrimSpace line) (fold (json_member pv) raw ?st))"
    "Parse_json ?pv uuid now now' p line = Inr (json_finish now' (TrimSpace line) (fold (json_member pv) raw' ?st))"
    using assms(1,5) m by (simp_all add: Parse_json_def)
  with json_finish_abs [OF json_fold_order [OF assms(4,3,2), symmetric], of now' "TrimSpace line" pv ?st] show ?thesis by blast
qed

definition ex_pv :: "(string, json_value) gomap \<Rightarrow> parse_env" where
  "ex_pv raw = \<lparr>pv_Unmarshal = (\<lambda>s. if s = ''{}'' then Some raw else None), pv_Marshal = (\<lambda>_. None), pv_Sprintf = (\<lambda>_. ''?''),
     pv_FormatFloat = (\<lambda>_. ''?''), pv_overflow = (\<lambda>_. 0), pv_time_Parse = (\<lambda>_ _. None)\<rparr>"

definition ex_base :: parser_base where
  "ex_base = \<lparr>pb_host = ''h'', pb_source = ''s'', pb_defaultTags = [(''env'', ''prod'')]\<rparr>"

theorem json_order_irrelevant_witness:
  "\<exists>e e'. Parse_json (ex_pv [(''msg'', JString ''m''), (''x'', JBool True)]) ''u'' zero_time zero_time ex_base ''{}'' = Inr e \<and>
     Parse_json ((ex_pv [(''msg'', JString ''m''), (''x'', JBool True)])\<lparr>pv_Unmarshal := (\<lambda>_. Some [(''x'', JBool True), (''msg'', JString ''m'')])\<rparr>)
       ''u'' zero_time zero_time ex_base ''{}'' = Inr e' \<and> same_entry e e'"
proof -
  let ?raw = "[(''msg'', JString ''m''), (''x'', JBool True)]"
  have "TrimSpace ''{}'' = ''{}''" "single_roles ?raw" by code_simp+
  then show ?thesis by (intro json_order_irrelevant [of _ _ ?raw]) (simp_all add: ex_pv_def)
qed

text \<open>
  The unit of a numeric timestamp is recognised: for every second from March 1973 up to 2262, the
  number of seconds, milliseconds, microseconds or nanoseconds since 1970 is read as the same instant.
\<close>

lemma parseEpoch_units:
  assumes "10 ^ 8 < s" and "s < 9223372036"
  shows "parseEpoch s = unix_utc (s * 10 ^ 9) \<and> parseEpoch (s * 10 ^ 3) = unix_utc (s * 10 ^ 9) \<and>
    parseEpoch (s * 10 ^ 6) = unix_utc (s * 10 ^ 9) \<and> parseEpoch (s * 10 ^ 9) = unix_utc (s * 10 ^ 9) \<and> s * 10 ^ 9 < 2 ^ 63"
  using assms by (simp add: parseEpoch_def mult.commute)

lemma parseEpoch_units_witness: "parseEpoch 1770000000 = parseEpoch 1770000000000"
  using parseEpoch_units [of 1770000000] by simp

text \<open>
  The automatic parser keeps every line: a line with anything but white space always gives an entry,
  read as JSON when it is a JSON object and otherwise as text, with the line as its message.
\<close>

lemma auto_parse_total:
  assumes "TrimSpace line \<noteq> []"
  shows "\<exists>e. Parse_auto pv uuid now now' p line = Inr e \<and>
    (Parse_json pv uuid now now' p (TrimSpace line) = Inr e \<or> Message e = TrimRight line newlines \<and> Level e = detectLevel (TrimRight line newlines))"
proof -
  have ne: "TrimRight line newlines \<noteq> []" using assms TrimRight_blank by blast
  have "\<exists>e. Parse_text uuid now now' p line = Inr e \<and> Message e = TrimRight line newlines \<and> Level e = detectLevel (TrimRight line newlines)"
    using ne detectLevel_normal [of "TrimRight line newlines"] ToUpper_Nil_iff [of "TrimSpace (detectLevel (TrimRight line newlines))"] by (auto simp: Parse_text_def Let_def New_entry_def)
  with Parse_auto_cases [OF assms, of pv uuid now now' p] show ?thesis by metis
qed

lemma auto_parse_total_witness:
  "\<exists>e. Parse_auto (ex_pv []) ''u'' zero_time zero_time ex_base ''disk ERROR'' = Inr e \<and> Message e = ''disk ERROR'' \<and> Level e = ''ERROR''"
proof -
  have t: "TrimSpace ''disk ERROR'' = ''disk ERROR''" "TrimRight ''disk ERROR'' newlines = ''disk ERROR''" "detectLevel ''disk ERROR'' = ''ERROR''"
    by code_simp+
  have "Parse_json (ex_pv []) ''u'' zero_time zero_time ex_base ''disk ERROR'' = Inl ErrJSON" by (simp add: Parse_json_def t ex_pv_def)
  with auto_parse_total [of "''disk ERROR''" "ex_pv []" "''u''" zero_time zero_time ex_base] show ?thesis by (simp add: t)
qed

section \<open>Where the parsers surprise\<close>

text \<open>With two members of the same role the visiting order decides.\<close>

lemma json_alias_order:
  "map_option (\<lambda>r. case r of Inr e \<Rightarrow> Level e | Inl _ \<Rightarrow> []) (Some (Parse_json (ex_pv [(''level'', JString ''warn''), (''status'', JString ''500'')]) ''u'' zero_time zero_time ex_base ''{}'')) = Some ''500'' \<and>
   map_option (\<lambda>r. case r of Inr e \<Rightarrow> Level e | Inl _ \<Rightarrow> []) (Some (Parse_json (ex_pv [(''status'', JString ''500''), (''level'', JString ''warn'')]) ''u'' zero_time zero_time ex_base ''{}'')) = Some ''WARN''"
  by code_simp

text \<open>Level keywords are found inside words, and by their place in the list rather than in the line.\<close>

lemma level_inside_word: "detectLevel ''INFO: no terror here'' = ''ERROR''"
  by code_simp

text \<open>An empty message member wins over the fallback, and the server refuses the entry.\<close>

lemma json_empty_message:
  "case Parse_json (ex_pv [(''message'', JString [])]) ''u'' zero_time zero_time ex_base ''{}'' of
     Inr e \<Rightarrow> fst (Validate ''u'' zero_time 0 e) = Some ErrMissingMessage | Inl _ \<Rightarrow> False"
  by code_simp

end
