(* ===== verification/Manager.thy ===== *)
theory Manager
  imports TailerRuns Glob
begin

text \<open>
  Discovery of files, \<open>internal/tailer/manager.go\<close>. A manager keeps one tailer for each path; the registry of
  positions is shared by all of them, so that it is kept by the manager and handed to a tailer while
  it works. What the file system shows at a scan is a \<open>scan_env\<close>; the scanner loop is a sequence of scans,
  \<open>fanIn\<close> passes the lines of each tailer on.
\<close>

section \<open>The manager\<close>

record manager_config =
  mc_Pattern :: string
  mc_PollInterval :: int
  mc_TailerPollInterval :: int
  mc_StartPosition :: string
  mc_MaxLineBytes :: int

record tailer_manager =
  tm_cfg :: manager_config
  tm_baseDir :: string
  tm_regex :: "string \<Rightarrow> bool"
  tm_registry :: "checkpoint_registry option"
  tm_activeTailers :: "(string, tailer) gomap"

datatype manager_error = ErrEmptyGlob | ErrCompileGlob

text \<open>\<open>se_walk\<close> lists what \<open>filepath.WalkDir\<close> visits below a directory: the path, and whether it is a readable
  file rather than a directory or an error. \<open>se_exists\<close> is \<open>os.Stat\<close>.\<close>

record scan_env =
  se_exists :: "string \<Rightarrow> bool"
  se_walk :: "string \<Rightarrow> (string \<times> bool) list"
  se_now :: gotime

definition complete_manager :: "manager_config \<Rightarrow> manager_config" where
  "complete_manager cfg =
     cfg\<lparr>mc_PollInterval := (if mc_PollInterval cfg \<le> 0 then 500 * 1000000 else mc_PollInterval cfg),
         mc_TailerPollInterval := (if mc_TailerPollInterval cfg \<le> 0 then defaultPollInterval else mc_TailerPollInterval cfg),
         mc_MaxLineBytes := (if mc_MaxLineBytes cfg \<le> 0 then defaultMaxLineBytes else mc_MaxLineBytes cfg),
         mc_StartPosition := (if mc_StartPosition cfg = '''' then ''end'' else mc_StartPosition cfg)\<rparr>"

definition ActiveCount :: "tailer_manager \<Rightarrow> nat" where
  "ActiveCount m = length (tm_activeTailers m)"

definition ActivePaths :: "tailer_manager \<Rightarrow> string list" where
  "ActivePaths m = sort (map fst (tm_activeTailers m))"

text \<open>\<open>WalkDir\<close> itself returns an error only when its callback does, which it never does.\<close>

definition Scan :: "scan_env \<Rightarrow> tailer_manager \<Rightarrow> string list" where
  "Scan env m =
     (if \<not> se_exists env (tm_baseDir m) then []
      else map fst (filter (\<lambda>(path, file). file \<and> tm_regex m (TrimPrefix path ''./'')) (se_walk env (Clean (tm_baseDir m)))))"

text \<open>Closing a tailer records its position.\<close>

definition close_tailer :: "gotime \<Rightarrow> tailer \<Rightarrow> checkpoint_registry option \<Rightarrow> checkpoint_registry option" where
  "close_tailer now t reg = tl_registry (tail_stop now (t\<lparr>tl_registry := reg\<rparr>))"

definition remove_gone :: "scan_env \<Rightarrow> string list \<Rightarrow> tailer_manager \<Rightarrow> tailer_manager" where
  "remove_gone env found m =
     (let gone = (\<lambda>(path, t). path \<notin> set found \<and> \<not> se_exists env path)
      in m\<lparr>tm_activeTailers := filter (\<lambda>pt. \<not> gone pt) (tm_activeTailers m),
           tm_registry := fold (\<lambda>(path, t). close_tailer (se_now env) t) (filter gone (tm_activeTailers m)) (tm_registry m)\<rparr>)"

definition tailer_config_for :: "tailer_manager \<Rightarrow> string \<Rightarrow> tailer_config" where
  "tailer_config_for m path =
     \<lparr>tc_Path = path, tc_StartPosition = mc_StartPosition (tm_cfg m), tc_PollInterval = mc_TailerPollInterval (tm_cfg m),
      tc_MaxLineBytes = mc_MaxLineBytes (tm_cfg m)\<rparr>"

text \<open>A tailer that cannot be started is reported and skipped.\<close>

definition add_path :: "string \<Rightarrow> tailer_manager \<Rightarrow> tailer_manager" where
  "add_path path m =
     (let clean = Clean path
      in if map_of (tm_activeTailers m) clean \<noteq> None then m
         else
           case New_tailer (tailer_config_for m clean) (tm_registry m) of
             Inl _ \<Rightarrow> m
           | Inr t \<Rightarrow> m\<lparr>tm_activeTailers := AList.update clean t (tm_activeTailers m)\<rparr>)"

definition scanAndUpdate :: "scan_env \<Rightarrow> tailer_manager \<Rightarrow> tailer_manager" where
  "scanAndUpdate env m =
     (let matches = Scan env m
      in fold add_path matches (remove_gone env (map Clean matches) m))"

text \<open>The scanner, as the directories it finds at its ticks.\<close>

definition scannerLoop :: "scan_env list \<Rightarrow> tailer_manager \<Rightarrow> tailer_manager" where
  "scannerLoop envs m = fold scanAndUpdate envs m"

definition NewManager ::
  "compiler \<Rightarrow> scan_env \<Rightarrow> manager_config \<Rightarrow> checkpoint_registry option \<Rightarrow> (manager_error, tailer_manager) result" where
  "NewManager compile env cfg reg =
     (if TrimSpace (mc_Pattern cfg) = '''' then Inl ErrEmptyGlob
      else
        case GlobToRegexp compile (mc_Pattern cfg) of
          None \<Rightarrow> Inl ErrCompileGlob
        | Some (re, baseDir) \<Rightarrow>
            Inr (scanAndUpdate env
              \<lparr>tm_cfg = complete_manager cfg, tm_baseDir = baseDir, tm_regex = re, tm_registry = reg, tm_activeTailers = []\<rparr>))"

text \<open>A poll of the tailer of one path, with its lines passed on by \<open>fanIn\<close> under that path.\<close>

definition manager_poll :: "string \<Rightarrow> poll_env \<Rightarrow> tailer_manager \<Rightarrow> (string \<times> string) list \<times> tailer_manager" where
  "manager_poll path env m =
     (case map_of (tm_activeTailers m) path of
        None \<Rightarrow> ([], m)
      | Some t \<Rightarrow>
          (case tail_poll env (t\<lparr>tl_registry := tm_registry m\<rparr>) of
             (out, t') \<Rightarrow>
               (map (\<lambda>line. (path, line)) (to_lines out),
                m\<lparr>tm_activeTailers := AList.update path t' (tm_activeTailers m), tm_registry := tl_registry t'\<rparr>)))"

definition Close_manager :: "gotime \<Rightarrow> tailer_manager \<Rightarrow> tailer_manager" where
  "Close_manager now m =
     m\<lparr>tm_registry := fold (\<lambda>(path, t). close_tailer now t) (tm_activeTailers m) (tm_registry m), tm_activeTailers := []\<rparr>"

section \<open>Scans\<close>

lemma add_path_active:
  "\<exists>t. map_of (tm_activeTailers (add_path path m)) =
     (if Clean path \<in> dom (map_of (tm_activeTailers m)) then map_of (tm_activeTailers m)
      else (map_of (tm_activeTailers m))(Clean path \<mapsto> t))"
  "wf_map (tm_activeTailers m) \<Longrightarrow> wf_map (tm_activeTailers (add_path path m))"
proof -
  obtain t where "New_tailer (tailer_config_for m (Clean path)) (tm_registry m) = Inr t"
    using Clean_nonempty [of path] by (auto simp: New_tailer_def tailer_config_for_def Let_def)
  then show "\<exists>t. map_of (tm_activeTailers (add_path path m)) =
     (if Clean path \<in> dom (map_of (tm_activeTailers m)) then map_of (tm_activeTailers m)
      else (map_of (tm_activeTailers m))(Clean path \<mapsto> t))"
    by (intro exI [of _ t]) (auto simp: add_path_def Let_def update_conv')
  show "wf_map (tm_activeTailers m) \<Longrightarrow> wf_map (tm_activeTailers (add_path path m))"
    by (auto simp: add_path_def Let_def split: sum.splits)
qed

lemma add_paths_active:
  "dom (map_of (tm_activeTailers (fold add_path ps m))) = dom (map_of (tm_activeTailers m)) \<union> Clean ` set ps \<and>
   map_of (tm_activeTailers m) \<subseteq>\<^sub>m map_of (tm_activeTailers (fold add_path ps m))"
proof (induction ps arbitrary: m)
  case (Cons path ps)
  obtain t where t: "map_of (tm_activeTailers (add_path path m)) =
     (if Clean path \<in> dom (map_of (tm_activeTailers m)) then map_of (tm_activeTailers m)
      else (map_of (tm_activeTailers m))(Clean path \<mapsto> t))"
    using add_path_active(1) by blast
  define A where "A = map_of (tm_activeTailers m)"
  have one: "dom (map_of (tm_activeTailers (add_path path m))) = insert (Clean path) (dom A)" "A \<subseteq>\<^sub>m map_of (tm_activeTailers (add_path path m))"
    using t unfolding A_def [symmetric] by (auto simp: map_le_def)
  show ?case using Cons.IH [of "add_path path m"] one map_le_trans [OF one(2)] unfolding A_def [symmetric] by simp
qed simp

lemma wf_add_paths: "wf_map (tm_activeTailers m) \<Longrightarrow> wf_map (tm_activeTailers (fold add_path ps m))"
  by (induction ps arbitrary: m) (simp_all add: add_path_active(2))

lemma scan_maps:
  assumes "dom A' = dom (A |` {p. p \<in> C \<or> E p}) \<union> C" and "A |` {p. p \<in> C \<or> E p} \<subseteq>\<^sub>m A'"
  shows "dom A' = C \<union> {p \<in> dom A. E p} \<and> A |` dom A' \<subseteq>\<^sub>m A'"
proof
  show "dom A' = C \<union> {p \<in> dom A. E p}" using assms(1) by auto
  show "A |` dom A' \<subseteq>\<^sub>m A'"
  proof (unfold map_le_def, rule ballI)
    fix p assume "p \<in> dom (A |` dom A')"
    then have p: "p \<in> dom A" "p \<in> dom A'" by auto
    then have "p \<in> dom (A |` {p. p \<in> C \<or> E p})" using assms(1) by auto
    then show "(A |` dom A') p = A' p" using assms(2) p by (auto simp: map_le_def restrict_map_def split: if_splits)
  qed
qed

lemma map_of_filter_keys: "map_of (filter (\<lambda>(k, v). P k) m) = (map_of m) |` {k. P k}"
  by (induction m) (auto simp: fun_eq_iff restrict_map_def)

lemma remove_gone_active:
  "map_of (tm_activeTailers (remove_gone env found m)) = (map_of (tm_activeTailers m)) |` {p. p \<in> set found \<or> se_exists env p}"
proof -
  have "tm_activeTailers (remove_gone env found m) = filter (\<lambda>(p, t). p \<in> set found \<or> se_exists env p) (tm_activeTailers m)"
    by (auto simp: remove_gone_def Let_def intro!: filter_cong)
  then show ?thesis by (simp add: map_of_filter_keys)
qed

lemma wf_map_filter: "wf_map m \<Longrightarrow> wf_map (filter P m)"
  by (induction m) auto

lemma wf_scan: "wf_map (tm_activeTailers m) \<Longrightarrow> wf_map (tm_activeTailers (scanAndUpdate env m))"
  by (simp add: scanAndUpdate_def Let_def wf_add_paths remove_gone_def wf_map_filter)

text \<open>A manager follows every path at most once, from its construction on, through scans and polls.\<close>

lemma manager_wf:
  "NewManager compile env cfg reg = Inr m \<Longrightarrow> wf_map (tm_activeTailers m)"
  "wf_map (tm_activeTailers m) \<Longrightarrow> wf_map (tm_activeTailers (scannerLoop envs m))"
  "wf_map (tm_activeTailers m) \<Longrightarrow> wf_map (tm_activeTailers (snd (manager_poll path penv m)))"
proof -
  show "NewManager compile env cfg reg = Inr m \<Longrightarrow> wf_map (tm_activeTailers m)"
    by (auto simp: NewManager_def intro!: wf_scan split: if_splits option.splits)
  show "wf_map (tm_activeTailers m) \<Longrightarrow> wf_map (tm_activeTailers (scannerLoop envs m))"
    unfolding scannerLoop_def by (induction envs arbitrary: m) (simp_all add: wf_scan)
  show "wf_map (tm_activeTailers m) \<Longrightarrow> wf_map (tm_activeTailers (snd (manager_poll path penv m)))"
    by (simp add: manager_poll_def split: option.split prod.split)
qed

section \<open>Properties\<close>

text \<open>
  C36. A scan keeps exactly the right files: afterwards the manager follows every file that matches and
  every file it followed that still exists, once each and no other; a tailer that was running keeps
  its position and its unfinished line.
\<close>

theorem scan_tracks_files:
  assumes "wf_map (tm_activeTailers m)"
  shows "wf_map (tm_activeTailers (scanAndUpdate env m)) \<and>
    dom (map_of (tm_activeTailers (scanAndUpdate env m))) =
      Clean ` set (Scan env m) \<union> {p \<in> dom (map_of (tm_activeTailers m)). se_exists env p} \<and>
    (map_of (tm_activeTailers m)) |` dom (map_of (tm_activeTailers (scanAndUpdate env m)))
      \<subseteq>\<^sub>m map_of (tm_activeTailers (scanAndUpdate env m))"
proof -
  let ?m = "remove_gone env (map Clean (Scan env m)) m"
  have "wf_map (tm_activeTailers (scanAndUpdate env m))" by (rule wf_scan [OF assms])
  moreover have "dom (map_of (tm_activeTailers (scanAndUpdate env m))) =
      Clean ` set (Scan env m) \<union> {p \<in> dom (map_of (tm_activeTailers m)). se_exists env p} \<and>
    (map_of (tm_activeTailers m)) |` dom (map_of (tm_activeTailers (scanAndUpdate env m)))
      \<subseteq>\<^sub>m map_of (tm_activeTailers (scanAndUpdate env m))"
    using add_paths_active [of "Scan env m" ?m] unfolding remove_gone_active set_map scanAndUpdate_def Let_def
    by (intro scan_maps) blast+
  ultimately show ?thesis by blast
qed

definition ex_scan :: "string list \<Rightarrow> scan_env" where
  "ex_scan files = \<lparr>se_exists = (\<lambda>p. p = ''d'' \<or> p \<in> set files), se_walk = (\<lambda>_. map (\<lambda>p. (p, True)) files), se_now = zero_time\<rparr>"

definition ex_manager :: tailer_manager where
  "ex_manager = \<lparr>tm_cfg = complete_manager \<lparr>mc_Pattern = ''d/*'', mc_PollInterval = 0, mc_TailerPollInterval = 0, mc_StartPosition = [], mc_MaxLineBytes = 0\<rparr>,
     tm_baseDir = ''d'', tm_regex = re_matches (glob_tokens ''d/*''), tm_registry = None, tm_activeTailers = []\<rparr>"

theorem scan_tracks_files_witness:
  "dom (map_of (tm_activeTailers (scanAndUpdate (ex_scan [''d/b'', ''e'']) (scanAndUpdate (ex_scan [''d/a'', ''d/b'']) ex_manager)))) = {''d/b''}"
proof -
  let ?m = "scanAndUpdate (ex_scan [''d/a'', ''d/b'']) ex_manager"
  have wf: "wf_map (tm_activeTailers ?m)" by code_simp
  have d: "map fst (tm_activeTailers ?m) = [''d/a'', ''d/b'']" and s: "map Clean (Scan (ex_scan [''d/b'', ''e'']) ?m) = [''d/b'']" by code_simp+
  have "dom (map_of (tm_activeTailers ?m)) = {''d/a'', ''d/b''}" using d by (metis dom_map_of_conv_image_fst list.simps(15) set_empty set_map list.set(1))
  moreover have "Clean ` set (Scan (ex_scan [''d/b'', ''e'']) ?m) = {''d/b''}" using s by (metis empty_set list.simps(15) set_map)
  moreover have "\<not> se_exists (ex_scan [''d/b'', ''e'']) ''d/a''" "se_exists (ex_scan [''d/b'', ''e'']) ''d/b''" by code_simp+
  ultimately show ?thesis using scan_tracks_files [OF wf, of "ex_scan [''d/b'', ''e'']"] by auto
qed

end
