(* ===== verification/AgentStart.thy ===== *)
theory AgentStart
  imports Agent Parser Manager Config
begin

text \<open>
  The agent put together, \<open>internal/agent/agent.go\<close>: \<open>New\<close> builds it from its configuration, \<open>Start\<close> starts a tailer or
  a manager of tailers for every source and stops them in the end. In between the tail workers turn
  lines into entries; what happens to the entries is in \<open>Agent\<close>. All tailers share the registry of checkpoints,
  which is passed to the one that is polled. \<open>agent_os\<close> has what the constructors find: libraries, directories
  and faults.
\<close>

section \<open>Construction\<close>

datatype agent_error =
  ErrAgentConfig config_error
| ErrCreateSender string
| ErrCreateSpool spool_error
| ErrCreateRegistry ckpt_error
| ErrCreateParser string parse_error
| ErrStartManager string manager_error
| ErrStartTailer string string

record agent_os =
  ao_sender :: sender_libs
  ao_spoolFaults :: faults
  ao_spoolDir :: spool_dir
  ao_unmarshal :: "string \<Rightarrow> checkpoints option"
  ao_ckptFaults :: ckpt_faults
  ao_files :: file_map
  ao_regexp :: "string \<Rightarrow> regexp option"
  ao_glob :: compiler
  ao_scan :: scan_env

record collector =
  co_cfg :: agent_config
  co_sender :: sender
  co_spool :: "spool option"
  co_checkpoints :: "checkpoint_registry option"
  co_queueCap :: int
  co_tailers :: "(string \<times> tailer \<times> parser) list"
  co_managers :: "(string \<times> tailer_manager \<times> parser) list"

definition sender_settings :: "agent_config \<Rightarrow> sender_config" where
  "sender_settings cfg =
     \<lparr>sc_URL = st_URL (ac_Server cfg), sc_Token = st_Token (ac_Server cfg), sc_Timeout = st_Timeout (ac_Server cfg),
      sc_Compression = st_Compression (ac_Server cfg), sc_Format = st_Format (ac_Server cfg)\<rparr>"

definition checkpoint_file :: "agent_config \<Rightarrow> string" where
  "checkpoint_file cfg = Clean (sl_Directory (ac_Spool cfg) @ ''/checkpoints.json'')"

definition New_agent :: "agent_os \<Rightarrow> agent_config \<Rightarrow> (agent_error, collector) result" where
  "New_agent os cfg0 =
     (case Validate_agent cfg0 of
        (Some err, _) \<Rightarrow> Inl (ErrAgentConfig err)
      | (None, cfg) \<Rightarrow>
          (case New_sender (ao_sender os) (sender_settings cfg) of
             Inl err \<Rightarrow> Inl (ErrCreateSender err)
           | Inr sd \<Rightarrow>
               let a = \<lparr>co_cfg = cfg, co_sender = sd, co_spool = None, co_checkpoints = None,
                        co_queueCap = (if bs_MaxQueueEvents (ac_Batch cfg) \<le> 0 then 5000 else bs_MaxQueueEvents (ac_Batch cfg)),
                        co_tailers = [], co_managers = []\<rparr>
               in if sl_Enabled (ac_Spool cfg) then
                    case New_spool (ao_spoolFaults os) (sl_Directory (ac_Spool cfg)) (sl_MaxSizeMB (ac_Spool cfg)) (ao_spoolDir os) of
                      Inl err \<Rightarrow> Inl (ErrCreateSpool err)
                    | Inr sp \<Rightarrow>
                        (case NewCheckpointRegistry (ao_unmarshal os) (ao_ckptFaults os) (checkpoint_file cfg) (ao_files os) of
                           Inl err \<Rightarrow> Inl (ErrCreateRegistry err)
                         | Inr reg \<Rightarrow> Inr (a\<lparr>co_spool := Some sp, co_checkpoints := Some reg\<rparr>))
                  else Inr a))"

section \<open>Start\<close>

definition is_pattern :: "string \<Rightarrow> bool" where
  "is_pattern path \<longleftrightarrow> list_ex (\<lambda>c. c \<in> set ''*?[]'') path"

definition source_parser :: "agent_os \<Rightarrow> agent_config \<Rightarrow> source_config \<Rightarrow> (parse_error, parser) result" where
  "source_parser os cfg src =
     New_parser (ao_regexp os) (sr_Format src) (sr_Pattern src) (ag_Host (ac_Agent cfg)) (sr_Name src) (sr_Tags src)"

definition start_source :: "agent_os \<Rightarrow> source_config \<Rightarrow> collector \<Rightarrow> agent_error option \<times> collector" where
  "start_source os src a =
     (case source_parser os (co_cfg a) src of
        Inl err \<Rightarrow> (Some (ErrCreateParser (sr_Name src) err), a)
      | Inr p \<Rightarrow>
          if is_pattern (sr_Path src) then
            case NewManager (ao_glob os) (ao_scan os)
                   \<lparr>mc_Pattern = sr_Path src, mc_PollInterval = 1000 * 1000000, mc_TailerPollInterval = 50 * 1000000,
                    mc_StartPosition = sr_StartPosition src, mc_MaxLineBytes = 0\<rparr> (co_checkpoints a) of
              Inl err \<Rightarrow> (Some (ErrStartManager (sr_Name src) err), a)
            | Inr mgr \<Rightarrow> (None, a\<lparr>co_managers := co_managers a @ [(sr_Name src, mgr, p)]\<rparr>)
          else
            case New_tailer \<lparr>tc_Path = sr_Path src, tc_StartPosition = sr_StartPosition src, tc_PollInterval = 0, tc_MaxLineBytes = 0\<rparr>
                   (co_checkpoints a) of
              Inl err \<Rightarrow> (Some (ErrStartTailer (sr_Name src) err), a)
            | Inr t \<Rightarrow> (None, a\<lparr>co_tailers := co_tailers a @ [(sr_Name src, t, p)]\<rparr>))"

fun start_sources :: "agent_os \<Rightarrow> source_config list \<Rightarrow> collector \<Rightarrow> agent_error option \<times> collector" where
  "start_sources os [] a = (None, a)"
| "start_sources os (src # srcs) a =
     (case start_source os src a of
        (Some err, a') \<Rightarrow> (Some err, a')
      | (None, a') \<Rightarrow> start_sources os srcs a')"

text \<open>
  What a tail worker makes of one poll of its tailer: the lines in order, each with the UUID and the clock
  of its moment. \<open>pv\<close> has the libraries of the parsers.
\<close>

definition line_entries ::
  "parse_env \<Rightarrow> (nat \<Rightarrow> string) \<Rightarrow> (nat \<Rightarrow> gotime) \<Rightarrow> string \<Rightarrow> string \<Rightarrow> parser \<Rightarrow> string list \<Rightarrow> log_entry list" where
  "line_entries pv uuid clk host name p lines =
     map (\<lambda>(i, line). tailWorker_entry (Parse pv (uuid i) (clk i) (clk i) p) (uuid i) (clk i) host name line) (enumerate 0 lines)"

definition tailWorker ::
  "parse_env \<Rightarrow> (nat \<Rightarrow> string) \<Rightarrow> (nat \<Rightarrow> gotime) \<Rightarrow> poll_env \<Rightarrow> nat \<Rightarrow> collector \<Rightarrow> log_entry list \<times> collector" where
  "tailWorker pv uuid clk env k a =
     (case co_tailers a ! k of
        (name, t, p) \<Rightarrow>
          (case tail_poll env (t\<lparr>tl_registry := co_checkpoints a\<rparr>) of
             (out, t') \<Rightarrow>
               (line_entries pv uuid clk (ag_Host (ac_Agent (co_cfg a))) name p (to_lines out),
                a\<lparr>co_tailers := (co_tailers a)[k := (name, t', p)], co_checkpoints := tl_registry t'\<rparr>)))"

definition managerWorker ::
  "parse_env \<Rightarrow> (nat \<Rightarrow> string) \<Rightarrow> (nat \<Rightarrow> gotime) \<Rightarrow> string \<Rightarrow> poll_env \<Rightarrow> nat \<Rightarrow> collector \<Rightarrow> log_entry list \<times> collector" where
  "managerWorker pv uuid clk path env k a =
     (case co_managers a ! k of
        (name, mgr, p) \<Rightarrow>
          (case manager_poll path env (mgr\<lparr>tm_registry := co_checkpoints a\<rparr>) of
             (lines, mgr') \<Rightarrow>
               (map (\<lambda>(i, evt). managerWorker_entry (Parse pv (uuid i) (clk i) (clk i) p) (uuid i) (clk i)
                       (ag_Host (ac_Agent (co_cfg a))) name (fst evt) (snd evt)) (enumerate 0 lines),
                a\<lparr>co_managers := (co_managers a)[k := (name, mgr', p)], co_checkpoints := tm_registry mgr'\<rparr>)))"

text \<open>The end of \<open>Start\<close>: tailers and managers are closed, then the registry is saved and the spool closed.\<close>

definition stop_workers :: "gotime \<Rightarrow> collector \<Rightarrow> collector" where
  "stop_workers now a =
     (let reg = fold (\<lambda>(name, t, p). close_tailer now t) (co_tailers a) (co_checkpoints a);
          reg = fold (\<lambda>(name, mgr, p) reg. tm_registry (Close_manager now (mgr\<lparr>tm_registry := reg\<rparr>))) (co_managers a) reg
      in a\<lparr>co_checkpoints := reg\<rparr>)"

definition Stop_agent ::
  "(checkpoints \<Rightarrow> string option) \<Rightarrow> save_call list \<Rightarrow> ckpt_faults \<Rightarrow> string \<Rightarrow> string \<Rightarrow> faults \<Rightarrow> gotime \<Rightarrow> collector \<Rightarrow> file_map \<Rightarrow> collector \<times> file_map" where
  "Stop_agent marshal saves flt tmp part sflt now a files =
     (let a = stop_workers now a;
          (reg, files) =
            (case co_checkpoints a of
               None \<Rightarrow> (None, files)
             | Some reg \<Rightarrow> (case Close_registry marshal saves flt tmp part reg files of (_, reg', files') \<Rightarrow> (Some reg', files')))
      in (a\<lparr>co_checkpoints := reg, co_spool := map_option (Close_spool sflt) (co_spool a)\<rparr>, files))"

section \<open>Facts\<close>

lemma New_agent_ok: "New_agent os cfg = Inr a \<Longrightarrow> agent_ok (co_cfg a)"
  by (auto simp: New_agent_def Let_def split: prod.splits option.splits sum.splits if_splits dest: Validate_agent_ok)

lemma source_format:
  assumes "source_ok src"
  shows "ToLower (TrimSpace (sr_Format src)) = sr_Format src"
proof -
  have "list_all (\<lambda>f. ToLower (TrimSpace f) = f) [''auto'', ''text'', ''json'', ''regexp'']" by code_simp
  then show ?thesis using assms unfolding list_all_iff source_ok_def by blast
qed

text \<open>The sources of a valid configuration start, unless an expression does not compile.\<close>

lemma start_source_cases:
  assumes "source_ok src" and "start_source os src a = (Some err, a')"
  shows "err = ErrCreateParser (sr_Name src) ErrCompile \<or> err = ErrStartManager (sr_Name src) ErrCompileGlob"
proof -
  have f: "ToLower (TrimSpace (sr_Format src)) = sr_Format src" by (rule source_format [OF assms(1)])
  have path: "TrimSpace (sr_Path src) \<noteq> []" using assms(1) by (simp add: source_ok_def)
  then have ne: "sr_Path src \<noteq> []" by auto
  have p: "source_parser os cfg src \<noteq> Inl e" if "e \<noteq> ErrCompile" for cfg e
    using assms(1) that f by (auto simp: source_parser_def New_parser_def source_ok_def NewRegexpParser_def Let_def split: if_splits option.splits)
  show ?thesis
    using assms(2) p ne path
    by (auto simp: start_source_def NewManager_def New_tailer_def Let_def split: sum.splits if_splits option.splits)
qed

lemma New_entry_accepted:
  assumes "TrimSpace host \<noteq> []" and "TrimSpace name \<noteq> []" and "msg \<noteq> []" and "int (length msg) \<le> (if m \<le> 0 then MaxMessageBytes else m)"
  shows "\<exists>e. Validate uuid' now' m (New_entry uuid now host name lvl msg flds) = (None, e) \<and> Message e = msg"
  using assms by (simp add: Validate_def New_entry_def Let_def)

lemma New_entry_at: "(New_entry uuid now host name lvl msg flds)\<lparr>Timestamp := now'\<rparr> = New_entry uuid now' host name lvl msg flds"
  by (simp add: New_entry_def Let_def)

lemma TrimRight_length: "length (TrimRight line cs) \<le> length line"
  by (simp add: TrimRight_def length_dropWhile_le [THEN order_trans])

text \<open>A line that is not read as JSON or by an expression is kept as it is, but for line ends.\<close>

lemma plain_line_entry:
  assumes "source_ok src" and "source_parser os cfg src = Inr p" and "sr_Format src \<noteq> ''regexp''"
    and "sr_Format src = ''text'' \<or> pv_Unmarshal pv (TrimSpace line) = None" and "line \<noteq> []"
  shows "\<exists>lvl msg flds. tailWorker_entry (Parse pv uuid now now p) uuid now (ag_Host (ac_Agent cfg)) (sr_Name src) line =
      New_entry uuid now (ag_Host (ac_Agent cfg)) (sr_Name src) lvl msg flds \<and> msg \<noteq> [] \<and> (msg = line \<or> msg = TrimRight line newlines)"
proof -
  let ?b = "\<lparr>pb_host = ag_Host (ac_Agent cfg), pb_source = sr_Name src, pb_defaultTags = sr_Tags src\<rparr>"
  let ?e = "New_entry uuid now (ag_Host (ac_Agent cfg)) (sr_Name src)"
  have plain: "Parse_text uuid now now ?b line = (if TrimRight line newlines = [] then Inl ErrEmptyLine
      else Inr (?e (detectLevel (TrimRight line newlines)) (TrimRight line newlines) (sr_Tags src)))"
    by (simp add: Parse_text_def Let_def New_entry_at)
  have json: "Parse_json pv uuid now now ?b l = Inl (if TrimSpace l = [] then ErrEmptyLine else ErrJSON)"
    if "pv_Unmarshal pv (TrimSpace l) = None" for l using that by (simp add: Parse_json_def Let_def)
  have idem: "TrimSpace (TrimSpace line) = TrimSpace line" by simp
  have tx: "ToLower (TrimSpace ''text'') = ''text''" by code_simp
  have "p \<in> {TextParser ?b, JSONParser ?b, AutoParser ?b}" "sr_Format src = ''text'' \<Longrightarrow> p = TextParser ?b"
    using assms(1-3) by (auto simp: source_parser_def New_parser_def Let_def source_format tx split: if_splits)
  then consider "p = TextParser ?b" | "p = JSONParser ?b" "pv_Unmarshal pv (TrimSpace line) = None"
    | "p = AutoParser ?b" "pv_Unmarshal pv (TrimSpace line) = None" using assms(4) by (cases "sr_Format src = ''text''") auto
  then have "Parse pv uuid now now p line \<in> {Inl ErrEmptyLine, Inl ErrJSON} \<or>
      TrimRight line newlines \<noteq> [] \<and> Parse pv uuid now now p line = Inr (?e (detectLevel (TrimRight line newlines)) (TrimRight line newlines) (sr_Tags src))"
    by cases (auto simp: plain json Parse_auto_def Let_def idem)
  then have "tailWorker_entry (Parse pv uuid now now p) uuid now (ag_Host (ac_Agent cfg)) (sr_Name src) line =
        ?e (detectLevel (TrimRight line newlines)) (TrimRight line newlines) (sr_Tags src) \<and> TrimRight line newlines \<noteq> [] \<or>
      tailWorker_entry (Parse pv uuid now now p) uuid now (ag_Host (ac_Agent cfg)) (sr_Name src) line = ?e ''INFO'' line []"
    by (auto simp: tailWorker_entry_def)
  then show ?thesis using assms(5) by metis
qed

section \<open>Properties\<close>

text \<open>
  C5. Lines that are not structured are never lost on the way to the server: in an agent that was constructed, every
  line that a source with the format text, or with json or auto when the line is not JSON, reads
  becomes exactly one entry, in order, with the line as its message, and the server accepts each of them.
\<close>

theorem plain_lines_accepted:
  assumes "New_agent os cfg = Inr a" and "src \<in> set (ac_Sources (co_cfg a))" and "source_parser os (co_cfg a) src = Inr p"
    and "sr_Format src \<noteq> ''regexp''"
    and "\<forall>line\<in>set lines. line \<noteq> [] \<and> int (length line) \<le> (if m \<le> 0 then MaxMessageBytes else m) \<and>
      (sr_Format src = ''text'' \<or> pv_Unmarshal pv (TrimSpace line) = None)"
  shows "list_all2 (\<lambda>line e. \<exists>e'. Validate u t m e = (None, e') \<and> (Message e' = line \<or> Message e' = TrimRight line newlines))
    lines (line_entries pv uuid clk (ag_Host (ac_Agent (co_cfg a))) (sr_Name src) p lines)"
proof -
  have ok: "agent_ok (co_cfg a)" by (rule New_agent_ok [OF assms(1)])
  then have host: "TrimSpace (ag_Host (ac_Agent (co_cfg a))) \<noteq> []" and src: "source_ok src"
    using assms(2) by (auto simp: agent_ok_def list_all_iff)
  have "\<exists>e'. Validate u t m (tailWorker_entry (Parse pv (uuid i) (clk i) (clk i) p) (uuid i) (clk i) (ag_Host (ac_Agent (co_cfg a))) (sr_Name src) line) = (None, e') \<and>
      (Message e' = line \<or> Message e' = TrimRight line newlines)" if "line \<in> set lines" for line i
  proof -
    have pre: "line \<noteq> []" "int (length line) \<le> (if m \<le> 0 then MaxMessageBytes else m)" "sr_Format src = ''text'' \<or> pv_Unmarshal pv (TrimSpace line) = None"
      using assms(5) that by auto
    obtain lvl msg flds where e: "tailWorker_entry (Parse pv (uuid i) (clk i) (clk i) p) (uuid i) (clk i) (ag_Host (ac_Agent (co_cfg a))) (sr_Name src) line =
        New_entry (uuid i) (clk i) (ag_Host (ac_Agent (co_cfg a))) (sr_Name src) lvl msg flds" "msg \<noteq> []" "msg = line \<or> msg = TrimRight line newlines"
      using plain_line_entry [OF src assms(3,4) pre(3,1)] by blast
    have "int (length msg) \<le> (if m \<le> 0 then MaxMessageBytes else m)" using e(3) pre(2) TrimRight_length [of line newlines] by auto
    moreover have "TrimSpace (sr_Name src) \<noteq> []" using src by (simp add: source_ok_def)
    ultimately show ?thesis using New_entry_accepted [OF host _ e(2)] e(1,3) by metis
  qed
  then show ?thesis by (auto simp: line_entries_def list_all2_conv_all_nth nth_enumerate_eq)
qed

definition ex_os :: agent_os where
  "ex_os = \<lparr>ao_sender = ex_sl, ao_spoolFaults = (\<lambda>c. False), ao_spoolDir = [], ao_unmarshal = (\<lambda>s. None), ao_ckptFaults = (\<lambda>c. False),
     ao_files = [], ao_regexp = (\<lambda>s. None), ao_glob = ex_compile, ao_scan = ex_scan []\<rparr>"

definition ex_agent_config :: agent_config where
  "ex_agent_config = (DefaultAgentConfig (Some ''web''))\<lparr>ac_Sources := [ex_source]\<rparr>"

theorem plain_lines_accepted_witness:
  "\<exists>a src p. New_agent ex_os ex_agent_config = Inr a \<and> src \<in> set (ac_Sources (co_cfg a)) \<and> source_parser ex_os (co_cfg a) src = Inr p \<and>
     list_all2 (\<lambda>line e. \<exists>e'. Validate ''u'' zero_time 0 e = (None, e') \<and> (Message e' = line \<or> Message e' = TrimRight line newlines))
       [''disk full'', ''{broken''] (line_entries (ex_pv []) (\<lambda>i. ''u'') (\<lambda>i. zero_time) (ag_Host (ac_Agent (co_cfg a))) (sr_Name src) p [''disk full'', ''{broken''])"
proof -
  let ?src = "ex_source\<lparr>sr_Format := ''json'', sr_StartPosition := ''end''\<rparr>" and ?ls = "[''disk full'', ''{broken'']"
  have "case New_agent ex_os ex_agent_config of Inl _ \<Rightarrow> False
      | Inr a \<Rightarrow> ac_Sources (co_cfg a) = [?src] \<and> \<not> isl (source_parser ex_os (co_cfg a) ?src)" by code_simp
  then obtain a where n: "New_agent ex_os ex_agent_config = Inr a" "?src \<in> set (ac_Sources (co_cfg a))" "\<not> isl (source_parser ex_os (co_cfg a) ?src)"
    by (auto split: sum.splits)
  then obtain p where "source_parser ex_os (co_cfg a) ?src = Inr p" by (cases "source_parser ex_os (co_cfg a) ?src") auto
  note a = n(1,2) this
  have "list_all (\<lambda>line. line \<noteq> [] \<and> int (length line) \<le> MaxMessageBytes \<and> pv_Unmarshal (ex_pv []) (TrimSpace line) = None) ?ls" by code_simp
  then have "\<forall>line\<in>set ?ls. line \<noteq> [] \<and> int (length line) \<le> (if (0::int) \<le> 0 then MaxMessageBytes else 0) \<and>
      (sr_Format ?src = ''text'' \<or> pv_Unmarshal (ex_pv []) (TrimSpace line) = None)" unfolding list_all_iff by simp
  from plain_lines_accepted [OF a _ this] a show ?thesis by (intro exI [of _ a] exI [of _ ?src] exI [of _ p]) simp
qed

text \<open>
  A JSON member that names the host and holds only white space is taken over, and the server refuses the entry: the
  line is lost.
\<close>

lemma json_blank_host:
  "\<exists>e. Parse_json (ex_pv [(''host'', JString '' ''), (''msg'', JString ''up'')]) ''u'' zero_time zero_time ex_base ''{}'' = Inr e \<and>
     fst (Validate ''u'' zero_time 0 e) = Some ErrMissingHost"
proof -
  have "case Parse_json (ex_pv [(''host'', JString '' ''), (''msg'', JString ''up'')]) ''u'' zero_time zero_time ex_base ''{}'' of
      Inl _ \<Rightarrow> False | Inr e \<Rightarrow> fst (Validate ''u'' zero_time 0 e) = Some ErrMissingHost" by code_simp
  then show ?thesis by (auto split: sum.splits)
qed

end
