(* ===== verification/AgentRun.thy ===== *)
theory AgentRun
  imports AgentStart
begin

text \<open>
  The running agent as a whole, \<open>Start\<close> in \<open>internal/agent/agent.go\<close> with all its workers: tail workers and manager
  workers read lines, parse them and send the entries on the bounded channel \<open>logCh\<close>; the batch worker takes
  entries from the channel and hands batches to the delivery; the delivery and the drain worker
  are those of \<open>Agent\<close>. Every worker may act at any time (\<open>work_step\<close>), a worker whose send would
  exceed the capacity waits. With the spool disabled a batch is sent directly or lost.
\<close>

section \<open>Workers\<close>

datatype source_id = TailSource nat | ManagerSource nat

text \<open>
  \<open>wk_pending\<close> has, for every source, the entries of the lines that were read and are not yet in the channel, in the
  order of the file.
\<close>

record workers =
  wk_collector :: collector
  wk_pending :: "source_id \<Rightarrow> log_entry list"
  wk_logCh :: "log_entry list"
  wk_batch :: "log_entry list"
  wk_pipe :: agent

text \<open>Without a spool the field \<open>ag_spool\<close> of the pipeline has an empty one that no step looks at.\<close>

definition pipe_spool :: "spool option \<Rightarrow> spool" where
  "pipe_spool sp = (case sp of Some s \<Rightarrow> s | None \<Rightarrow> fresh_spool 0)"

definition start_workers :: "collector \<Rightarrow> workers" where
  "start_workers a =
     \<lparr>wk_collector = a, wk_pending = (\<lambda>_. []), wk_logCh = [], wk_batch = [],
      wk_pipe = \<lparr>ag_spool = pipe_spool (co_spool a), ag_deliver = Idle, ag_drain = Looking\<rparr>\<rparr>"

text \<open>What \<open>New\<close> and the first part of \<open>Start\<close> give: an error, or the workers.\<close>

definition Start_agent :: "agent_os \<Rightarrow> collector \<Rightarrow> (agent_error, workers) result" where
  "Start_agent os a =
     (case start_sources os (ac_Sources (co_cfg a)) a of
        (Some err, _) \<Rightarrow> Inl err
      | (None, a') \<Rightarrow> Inr (start_workers a'))"

definition has_read :: "source_id \<Rightarrow> log_entry list \<Rightarrow> workers \<Rightarrow> workers" where
  "has_read i es w = w\<lparr>wk_pending := (wk_pending w)(i := wk_pending w i @ es)\<rparr>"

definition scan_manager :: "scan_env \<Rightarrow> nat \<Rightarrow> collector \<Rightarrow> collector" where
  "scan_manager env k a =
     (case co_managers a ! k of
        (name, mgr, p) \<Rightarrow>
          let mgr' = scanAndUpdate env (mgr\<lparr>tm_registry := co_checkpoints a\<rparr>)
          in a\<lparr>co_managers := (co_managers a)[k := (name, mgr', p)], co_checkpoints := tm_registry mgr'\<rparr>)"

abbreviation MaxEvents :: "workers \<Rightarrow> int" where
  "MaxEvents w \<equiv> bs_MaxEvents (ac_Batch (co_cfg (wk_collector w)))"

abbreviation wk_step :: "(stored_batch \<Rightarrow> segment option) \<Rightarrow> workers \<Rightarrow> agent_obs \<Rightarrow> agent \<Rightarrow> bool" where
  "wk_step marshal w \<equiv> pipe_step marshal (co_spool (wk_collector w) \<noteq> None) (wk_pipe w)"

datatype work_obs = Read source_id "log_entry list" | Queued source_id log_entry | Inside | Pipe agent_obs

inductive work_step :: "(stored_batch \<Rightarrow> segment option) \<Rightarrow> parse_env \<Rightarrow> workers \<Rightarrow> work_obs \<Rightarrow> workers \<Rightarrow> bool"
  for marshal :: "stored_batch \<Rightarrow> segment option" and pv :: parse_env where
  tail: "k < length (co_tailers (wk_collector w)) \<Longrightarrow> tailWorker pv uuid clk env k (wk_collector w) = (es, a) \<Longrightarrow>
    work_step marshal pv w (Read (TailSource k) es) (has_read (TailSource k) es (w\<lparr>wk_collector := a\<rparr>))"
| manager: "k < length (co_managers (wk_collector w)) \<Longrightarrow> managerWorker pv uuid clk path env k (wk_collector w) = (es, a) \<Longrightarrow>
    work_step marshal pv w (Read (ManagerSource k) es) (has_read (ManagerSource k) es (w\<lparr>wk_collector := a\<rparr>))"
| scan: "k < length (co_managers (wk_collector w)) \<Longrightarrow>
    work_step marshal pv w Inside (w\<lparr>wk_collector := scan_manager senv k (wk_collector w)\<rparr>)"
| queue: "wk_pending w i = e # es \<Longrightarrow> int (length (wk_logCh w)) < co_queueCap (wk_collector w) \<Longrightarrow>
    work_step marshal pv w (Queued i e) (w\<lparr>wk_pending := (wk_pending w)(i := es), wk_logCh := wk_logCh w @ [e]\<rparr>)"
| take: "ag_deliver (wk_pipe w) = Idle \<Longrightarrow> wk_logCh w = e # es \<Longrightarrow> \<not> full (MaxEvents w) (wk_batch w @ [e]) \<Longrightarrow>
    work_step marshal pv w Inside (w\<lparr>wk_logCh := es, wk_batch := wk_batch w @ [e]\<rparr>)"
| take_full: "wk_logCh w = e # es \<Longrightarrow> full (MaxEvents w) (wk_batch w @ [e]) \<Longrightarrow>
    wk_step marshal w (Flushed (wk_batch w @ [e])) p \<Longrightarrow>
    work_step marshal pv w (Pipe (Flushed (wk_batch w @ [e]))) (w\<lparr>wk_logCh := es, wk_batch := [], wk_pipe := p\<rparr>)"
| tick: "wk_step marshal w (Flushed (wk_batch w)) p \<Longrightarrow>
    work_step marshal pv w (Pipe (Flushed (wk_batch w))) (w\<lparr>wk_batch := [], wk_pipe := p\<rparr>)"
| work: "wk_step marshal w x p \<Longrightarrow> \<nexists>b. x = Flushed b \<Longrightarrow> work_step marshal pv w (Pipe x) (w\<lparr>wk_pipe := p\<rparr>)"

text \<open>What a run has read from a source, put into the channel (in all, and from one source), and done in the pipeline.\<close>

fun reads :: "source_id \<Rightarrow> work_obs list \<Rightarrow> log_entry list" where
  "reads i [] = []"
| "reads i (Read j es # xs) = (if j = i then es else []) @ reads i xs"
| "reads i (_ # xs) = reads i xs"

fun queued_by :: "source_id \<Rightarrow> work_obs list \<Rightarrow> log_entry list" where
  "queued_by i [] = []"
| "queued_by i (Queued j e # xs) = (if j = i then [e] else []) @ queued_by i xs"
| "queued_by i (_ # xs) = queued_by i xs"

fun queued :: "work_obs list \<Rightarrow> log_entry list" where
  "queued [] = []"
| "queued (Queued j e # xs) = e # queued xs"
| "queued (_ # xs) = queued xs"

fun pipes :: "work_obs list \<Rightarrow> agent_obs list" where
  "pipes [] = []"
| "pipes (Pipe x # xs) = x # pipes xs"
| "pipes (_ # xs) = pipes xs"

section \<open>Facts\<close>

lemma obs_append:
  "reads i (xs @ ys) = reads i xs @ reads i ys" "queued_by i (xs @ ys) = queued_by i xs @ queued_by i ys"
  "queued (xs @ ys) = queued xs @ queued ys" "pipes (xs @ ys) = pipes xs @ pipes ys"
proof -
  show "reads i (xs @ ys) = reads i xs @ reads i ys" by (induction i xs rule: reads.induct) simp_all
  show "queued_by i (xs @ ys) = queued_by i xs @ queued_by i ys" by (induction i xs rule: queued_by.induct) simp_all
  show "queued (xs @ ys) = queued xs @ queued ys" by (induction xs rule: queued.induct) simp_all
  show "pipes (xs @ ys) = pipes xs @ pipes ys" by (induction xs rule: pipes.induct) simp_all
qed

lemma subseq_concat: "subseq xs ys \<Longrightarrow> subseq (concat xs) (concat ys)"
  by (induction rule: list_emb.induct) (auto intro: list_emb_append2 list_emb_append_mono)

text \<open>Reading and scanning leave the spool alone.\<close>

lemma collector_spool [simp]:
  "tailWorker pv uuid clk env k a = (es, a') \<Longrightarrow> co_spool a' = co_spool a"
  "managerWorker pv uuid clk path env k a = (es, a') \<Longrightarrow> co_spool a' = co_spool a"
  "co_spool (scan_manager senv k a) = co_spool a"
  by (auto simp: tailWorker_def managerWorker_def scan_manager_def Let_def split: prod.splits)

text \<open>The pipeline of a run of the workers is a run of the pipeline.\<close>

lemma work_run_pipe:
  assumes "run (work_step marshal pv) w0 xs w"
  shows "run (pipe_step marshal (co_spool (wk_collector w0) \<noteq> None)) (wk_pipe w0) (pipes xs) (wk_pipe w) \<and>
    co_spool (wk_collector w) = co_spool (wk_collector w0)"
  using assms
proof (induction rule: run.induct)
  case run_init
  show ?case by (simp add: run.run_init)
next
  case (run_step xs s x t)
  from run_step.hyps(2) show ?case
    by cases (use run_step.IH in \<open>auto simp: obs_append has_read_def intro: run.run_step\<close>)
qed

text \<open>Between the files and the pipeline nothing is lost and nothing overtakes.\<close>

definition in_order :: "work_obs list \<Rightarrow> workers \<Rightarrow> bool" where
  "in_order xs w \<longleftrightarrow> concat (flushed (pipes xs)) @ wk_batch w @ wk_logCh w = queued xs \<and>
     (\<forall>i. queued_by i xs @ wk_pending w i = reads i xs)"

lemma flushed_snoc: "flushed (xs @ [x]) = flushed xs @ (case x of Flushed b \<Rightarrow> [b] | _ \<Rightarrow> [])"
  by (rule acked_flushed_snoc(2))

lemma in_order_step:
  assumes "in_order xs w" and "work_step marshal pv w x w'"
  shows "in_order (xs @ [x]) w'"
  using assms(2)
proof cases
  case (work y p)
  then show ?thesis using assms(1) by (cases y) (auto simp: in_order_def obs_append flushed_snoc)
next
  case (queue i e es)
  have "queued_by j xs @ wk_pending w j = reads j xs" for j using assms(1) by (simp add: in_order_def)
  from this [of i] this queue assms(1) show ?thesis by (auto simp: in_order_def obs_append)
next
  case (tail k uuid clk env es a)
  then show ?thesis using assms(1) by (auto simp: in_order_def obs_append has_read_def simp flip: append_assoc)
next
  case (manager k uuid clk path env es a)
  then show ?thesis using assms(1) by (auto simp: in_order_def obs_append has_read_def simp flip: append_assoc)
qed (use assms(1) in \<open>auto simp: in_order_def obs_append flushed_snoc\<close>)

lemma work_run_in_order:
  assumes "run (work_step marshal pv) (start_workers a) xs w"
  shows "in_order xs w"
  using assms
proof (induction rule: run.induct)
  case run_init
  show ?case by (simp add: in_order_def start_workers_def)
next
  case (run_step xs s x t)
  then show ?case by (blast intro: in_order_step)
qed

lemma start_sources_spool: "start_sources os srcs a = (e, a') \<Longrightarrow> co_spool a' = co_spool a"
proof (induction os srcs a rule: start_sources.induct)
  case (2 os src srcs a)
  obtain e1 a1 where 1: "start_source os src a = (e1, a1)" by fastforce
  then have "co_spool a1 = co_spool a" by (auto simp: start_source_def split: sum.splits if_splits)
  with 2 1 show ?case by (auto split: option.splits)
qed simp

lemma New_agent_spool:
  assumes "New_agent os cfg = Inr a" and "sl_Enabled (ac_Spool (co_cfg a))"
  shows "\<exists>sp. co_spool a = Some sp \<and> New_spool (ao_spoolFaults os) (sl_Directory (ac_Spool (co_cfg a))) (sl_MaxSizeMB (ac_Spool (co_cfg a))) (ao_spoolDir os) = Inr sp"
  using assms by (auto simp: New_agent_def Let_def split: prod.splits option.splits sum.splits if_splits)

lemma New_agent_no_spool:
  "New_agent os cfg = Inr a \<Longrightarrow> \<not> sl_Enabled (ac_Spool (co_cfg a)) \<Longrightarrow> co_spool a = None"
  by (auto simp: New_agent_def Let_def split: prod.splits option.splits sum.splits if_splits)

text \<open>The batches that a new agent takes over.\<close>

definition backlog :: "collector \<Rightarrow> spool \<Rightarrow> log_entry list list" where
  "backlog a s = (if sl_Enabled (ac_Spool (co_cfg a)) then queue s else [])"

lemma New_agent_backlog:
  assumes "New_agent os cfg = Inr a" and "recoverable s" and "ao_spoolDir os = s_dir s" and "ao_spoolFaults os = no_faults"
    and fits: "s_currentSize s \<le> limit_of_MB (sl_MaxSizeMB (ac_Spool (co_cfg a)))"
  shows "recoverable (pipe_spool (co_spool a)) \<and> queue (pipe_spool (co_spool a)) = backlog a s"
proof (cases "sl_Enabled (ac_Spool (co_cfg a))")
  case True
  let ?dir = "sl_Directory (ac_Spool (co_cfg a))" and ?mb = "sl_MaxSizeMB (ac_Spool (co_cfg a))"
  obtain sp where sp: "co_spool a = Some sp" "New_spool no_faults ?dir ?mb (s_dir s) = Inr sp"
    using New_agent_spool [OF assms(1) True] assms(3,4) by auto
  then have "TrimSpace ?dir \<noteq> ''''" by (auto simp: New_spool_def)
  then obtain u where u: "New_spool no_faults ?dir ?mb (s_dir s) = Inr (enforceLimitLocked no_faults u)"
    "recoverable u" "queue u = queue s" "s_currentSize u = s_currentSize s" "s_maxSizeBytes u = limit_of_MB ?mb"
    by (rule New_recovers [OF assms(2)])
  moreover have "spool_inv u" using u(2) by (simp add: recoverable_def)
  ultimately have "sp = u" using sp(2) fits by (simp add: enforceLimit_done)
  then show ?thesis using sp(1) u(2,3) True by (simp add: pipe_spool_def backlog_def)
next
  case False
  then show ?thesis using New_agent_no_spool [OF assms(1)] fresh_spool_ok [of 0] by (simp add: pipe_spool_def backlog_def spool_abs_def)
qed

text \<open>What the contract of the pipelines says of a run of the workers.\<close>

lemma work_run_delivers:
  assumes "run (work_step marshal pv) (start_workers a) xs w" and "json_faithful marshal"
    and "recoverable (pipe_spool (co_spool a))" and "queue (pipe_spool (co_spool a)) = q"
  shows "subseq (acked (pipes xs) @ pipeline (wk_pipe w)) (q @ flushed (pipes xs)) \<and>
    (list_all (\<lambda>x. \<not> loses x) (pipes xs) \<longrightarrow> acked (pipes xs) @ pipeline (wk_pipe w) = q @ flushed (pipes xs))"
proof -
  let ?p = "wk_pipe (start_workers a)"
  have p: "agent_inv ?p" "pipeline ?p = q" using assms(3,4) by (simp_all add: start_workers_def agent_inv_def pipeline_def in_hand_def)
  have run: "run (pipe_step marshal (co_spool a \<noteq> None)) ?p (pipes xs) (wk_pipe w)" using work_run_pipe [OF assms(1)] by (simp add: start_workers_def)
  show ?thesis
  proof (cases "co_spool a = None")
    case True
    then have "direct_inv ?p" using fresh_spool_ok(2) [of 0] by (simp add: direct_inv_def start_workers_def pipe_spool_def spool_abs_def)
    from direct.run_inv [OF _ this, of "pipes xs" "wk_pipe w"] run True p(2) show ?thesis by (simp add: pipe_step_def)
  next
    case False
    from agent_run_inv [OF _ assms(2) p(1), of "pipes xs" "wk_pipe w"] run False p(2) show ?thesis by (simp add: pipe_step_def)
  qed
qed

section \<open>Properties\<close>


definition ex_work_config :: agent_config where
  "ex_work_config = (DefaultAgentConfig (Some ''web''))\<lparr>ac_Sources := [ex_source\<lparr>sr_StartPosition := ''beginning''\<rparr>]\<rparr>"

definition ex_log :: poll_env where
  "ex_log = \<lparr>pe_open = Some ((1, 2), 3), pe_stat = Some ((1, 2), 3), pe_content = (\<lambda>k. ''up\<newline>''), pe_short = (\<lambda>i. None), pe_sends = [], pe_now = zero_time\<rparr>"

definition at_start :: "checkpoint_registry option \<Rightarrow> tailer \<Rightarrow> bool" where
  "at_start reg t \<longleftrightarrow> tl_file t = None \<and> tl_isInitial t \<and> tl_lineBuf t = [] \<and> tc_StartPosition (tl_cfg t) = ''beginning'' \<and>
     2 < tc_MaxLineBytes (tl_cfg t) \<and> (case reg of None \<Rightarrow> False | Some r \<Rightarrow> get_position (1, 2) r = None)"

lemma ex_log_polled:
  assumes "at_start reg t"
  shows "to_lines (fst (tail_poll ex_log (t\<lparr>tl_registry := reg\<rparr>))) = [''up'']"
proof -
  obtain r where "reg = Some r" "get_position (1, 2) r = None" using assms by (cases reg) (auto simp: at_start_def)
  with assms [unfolded at_start_def] show ?thesis
    by (simp add: tail_poll_def ex_log_def open_step_def Let_def initial_offset_def follow_step_def recordCheckpoint_def readAvailable.simps
        readChunk_def ReadAt_def chunk_size_def send_line_def trim_cr_def)
qed

lemma ex_work_start:
  "\<exists>a a' name t p. New_agent ex_os ex_work_config = Inr a \<and> sl_Enabled (ac_Spool (co_cfg a)) \<and> 0 \<le> limit_of_MB (sl_MaxSizeMB (ac_Spool (co_cfg a))) \<and>
     Start_agent ex_os a = Inr (start_workers a') \<and> co_spool a' = Some (fresh_spool 1024) \<and> co_tailers a' = [(name, t, p)] \<and> at_start (co_checkpoints a') t \<and>
     1 < bs_MaxEvents (ac_Batch (co_cfg a')) \<and> 0 < co_queueCap a'"
proof -
  have "case New_agent ex_os ex_work_config of Inl _ \<Rightarrow> False
      | Inr a \<Rightarrow> sl_Enabled (ac_Spool (co_cfg a)) \<and> 0 \<le> limit_of_MB (sl_MaxSizeMB (ac_Spool (co_cfg a))) \<and>
          (case start_sources ex_os (ac_Sources (co_cfg a)) a of
             (None, a') \<Rightarrow> co_spool a' = Some (fresh_spool 1024) \<and> 1 < bs_MaxEvents (ac_Batch (co_cfg a')) \<and> 0 < co_queueCap a' \<and>
               length (co_tailers a') = 1 \<and> list_all (\<lambda>(name, t, p). at_start (co_checkpoints a') t) (co_tailers a')
           | _ \<Rightarrow> False)" by code_simp
  then obtain a a' where a: "New_agent ex_os ex_work_config = Inr a" "sl_Enabled (ac_Spool (co_cfg a))" "0 \<le> limit_of_MB (sl_MaxSizeMB (ac_Spool (co_cfg a)))"
      "start_sources ex_os (ac_Sources (co_cfg a)) a = (None, a')" "co_spool a' = Some (fresh_spool 1024)" "1 < bs_MaxEvents (ac_Batch (co_cfg a'))"
      "0 < co_queueCap a'" "length (co_tailers a') = 1" "list_all (\<lambda>(name, t, p). at_start (co_checkpoints a') t) (co_tailers a')"
    by (auto split: sum.splits prod.splits option.splits)
  from a(8) obtain name t p where "co_tailers a' = [(name, t, p)]" by (auto simp: length_Suc_conv)
  with a show ?thesis by (intro exI [of _ a] exI [of _ a'] exI [of _ name] exI [of _ t] exI [of _ p]) (simp add: Start_agent_def)
qed

lemma tailWorker_one:
  assumes "co_tailers a = [(name, t, p)]" and "at_start (co_checkpoints a) t"
  shows "\<exists>e a'. tailWorker pv uuid clk ex_log 0 a = ([e], a') \<and> co_cfg a' = co_cfg a \<and> co_queueCap a' = co_queueCap a"
  using ex_log_polled [OF assms(2)]
  by (cases "tail_poll ex_log (t\<lparr>tl_registry := co_checkpoints a\<rparr>)") (simp add: tailWorker_def assms(1) line_entries_def enumerate_eq_zip)


end
