(* ===== verification/Metrics.thy ===== *)
theory Metrics
  imports Agent
begin

text \<open>
  The metrics, \<open>internal/metrics/metrics.go\<close>: the collectors that agent and server register, and how the workers
  of the agent keep theirs. \<open>MustRegister\<close> of the Prometheus library is the argument \<open>register\<close>, which gives the
  registry or panics (\<open>None\<close>); registered counters and gauges start at 0.
\<close>

section \<open>Collectors\<close>

datatype metric_kind = Counter | CounterVec "string list" | Gauge | Histogram

record metric =
  mt_kind :: metric_kind
  mt_Name :: string
  mt_Help :: string

type_synonym registrar = "metric list \<Rightarrow> metric list option"

text \<open>What the library documents: collectors with different names are all registered.\<close>

definition registers_distinct :: "registrar \<Rightarrow> bool" where
  "registers_distinct register \<longleftrightarrow> (\<forall>ms. distinct (map mt_Name ms) \<longrightarrow> register ms = Some ms)"

record agent_metrics =
  am_EventsReadTotal :: metric
  am_EventsParsedTotal :: metric
  am_ParseErrorsTotal :: metric
  am_EventsSentTotal :: metric
  am_SendErrorsTotal :: metric
  am_BatchesSentTotal :: metric
  am_SpoolBytes :: metric
  am_SpoolEvents :: metric
  am_SourcesActive :: metric

definition agent_collectors :: agent_metrics where
  "agent_collectors =
     \<lparr>am_EventsReadTotal = \<lparr>mt_kind = CounterVec [''source''], mt_Name = ''barnacles_agent_events_read_total'', mt_Help = ''Total number of raw log lines read by the agent.''\<rparr>,
      am_EventsParsedTotal = \<lparr>mt_kind = CounterVec [''source''], mt_Name = ''barnacles_agent_events_parsed_total'', mt_Help = ''Total number of log events successfully parsed by the agent.''\<rparr>,
      am_ParseErrorsTotal = \<lparr>mt_kind = CounterVec [''source''], mt_Name = ''barnacles_agent_parse_errors_total'', mt_Help = ''Total number of log parsing errors encountered.''\<rparr>,
      am_EventsSentTotal = \<lparr>mt_kind = Counter, mt_Name = ''barnacles_agent_events_sent_total'', mt_Help = ''Total number of log events successfully sent to the server.''\<rparr>,
      am_SendErrorsTotal = \<lparr>mt_kind = Counter, mt_Name = ''barnacles_agent_send_errors_total'', mt_Help = ''Total number of HTTP send errors encountered.''\<rparr>,
      am_BatchesSentTotal = \<lparr>mt_kind = Counter, mt_Name = ''barnacles_agent_batches_sent_total'', mt_Help = ''Total number of batches sent to the server.''\<rparr>,
      am_SpoolBytes = \<lparr>mt_kind = Gauge, mt_Name = ''barnacles_agent_spool_bytes'', mt_Help = ''Current size of the on-disk spool in bytes.''\<rparr>,
      am_SpoolEvents = \<lparr>mt_kind = Gauge, mt_Name = ''barnacles_agent_spool_events'', mt_Help = ''Current number of buffered events in the on-disk spool.''\<rparr>,
      am_SourcesActive = \<lparr>mt_kind = Gauge, mt_Name = ''barnacles_agent_sources'', mt_Help = ''Current number of actively watched log sources.''\<rparr>\<rparr>"

definition NewAgentMetrics :: "registrar \<Rightarrow> (metric list \<times> agent_metrics) option" where
  "NewAgentMetrics register =
     (let m = agent_collectors
      in map_option (\<lambda>reg. (reg, m))
           (register [am_EventsReadTotal m, am_EventsParsedTotal m, am_ParseErrorsTotal m, am_EventsSentTotal m, am_SendErrorsTotal m,
              am_BatchesSentTotal m, am_SpoolBytes m, am_SpoolEvents m, am_SourcesActive m]))"

record server_metrics =
  sm_EventsIngestedTotal :: metric
  sm_IngestErrorsTotal :: metric
  sm_EventsStoredTotal :: metric
  sm_WebsocketClients :: metric
  sm_WebsocketDisconnectsTotal :: metric
  sm_EventsBroadcastTotal :: metric
  sm_StorageBytes :: metric
  sm_QueryDuration :: metric
  sm_IngestDuration :: metric

definition server_collectors :: server_metrics where
  "server_collectors =
     \<lparr>sm_EventsIngestedTotal = \<lparr>mt_kind = Counter, mt_Name = ''barnacles_server_events_ingested_total'', mt_Help = ''Total number of events received via HTTP ingest.''\<rparr>,
      sm_IngestErrorsTotal = \<lparr>mt_kind = Counter, mt_Name = ''barnacles_server_ingest_errors_total'', mt_Help = ''Total number of ingest request validation or processing errors.''\<rparr>,
      sm_EventsStoredTotal = \<lparr>mt_kind = Counter, mt_Name = ''barnacles_server_events_stored_total'', mt_Help = ''Total number of events persisted to the server log store.''\<rparr>,
      sm_WebsocketClients = \<lparr>mt_kind = Gauge, mt_Name = ''barnacles_server_websocket_clients'', mt_Help = ''Current number of connected WebSocket clients.''\<rparr>,
      sm_WebsocketDisconnectsTotal = \<lparr>mt_kind = CounterVec [''reason''], mt_Name = ''barnacles_server_websocket_disconnects_total'', mt_Help = ''Total number of WebSocket client disconnects by reason.''\<rparr>,
      sm_EventsBroadcastTotal = \<lparr>mt_kind = Counter, mt_Name = ''barnacles_server_events_broadcast_total'', mt_Help = ''Total number of events broadcast to WebSocket streams.''\<rparr>,
      sm_StorageBytes = \<lparr>mt_kind = Gauge, mt_Name = ''barnacles_server_storage_bytes'', mt_Help = ''Total disk space in bytes consumed by server log storage.''\<rparr>,
      sm_QueryDuration = \<lparr>mt_kind = Histogram, mt_Name = ''barnacles_server_query_duration_seconds'', mt_Help = ''Histogram of log query execution durations.''\<rparr>,
      sm_IngestDuration = \<lparr>mt_kind = Histogram, mt_Name = ''barnacles_server_ingest_duration_seconds'', mt_Help = ''Histogram of HTTP ingest request processing durations.''\<rparr>\<rparr>"

definition NewServerMetrics :: "registrar \<Rightarrow> (metric list \<times> server_metrics) option" where
  "NewServerMetrics register =
     (let m = server_collectors
      in map_option (\<lambda>reg. (reg, m))
           (register [sm_EventsIngestedTotal m, sm_IngestErrorsTotal m, sm_EventsStoredTotal m, sm_WebsocketClients m,
              sm_WebsocketDisconnectsTotal m, sm_EventsBroadcastTotal m, sm_StorageBytes m, sm_QueryDuration m, sm_IngestDuration m]))"

section \<open>The values that the agent keeps\<close>

record agent_values =
  av_EventsRead :: "string \<Rightarrow> nat"
  av_EventsParsed :: "string \<Rightarrow> nat"
  av_ParseErrors :: "string \<Rightarrow> nat"
  av_EventsSent :: nat
  av_SendErrors :: nat
  av_BatchesSent :: nat
  av_SpoolBytes :: int
  av_SpoolEvents :: int

definition Inc :: "string \<Rightarrow> (string \<Rightarrow> nat) \<Rightarrow> string \<Rightarrow> nat" where
  "Inc label c = c(label := c label + 1)"

text \<open>One line in a tail worker or a manager worker.\<close>

definition count_line :: "(string \<Rightarrow> ('e, log_entry) result) \<Rightarrow> string \<Rightarrow> string \<Rightarrow> agent_values \<Rightarrow> agent_values" where
  "count_line parse sourceName line m =
     (let m = m\<lparr>av_EventsRead := Inc sourceName (av_EventsRead m)\<rparr>;
          m = (case parse line of Inl _ \<Rightarrow> m\<lparr>av_ParseErrors := Inc sourceName (av_ParseErrors m)\<rparr> | Inr _ \<Rightarrow> m)
      in m\<lparr>av_EventsParsed := Inc sourceName (av_EventsParsed m)\<rparr>)"

definition set_spool_gauges :: "spool \<Rightarrow> agent_values \<Rightarrow> agent_values" where
  "set_spool_gauges s m = m\<lparr>av_SpoolBytes := fst (Size s), av_SpoolEvents := snd (Size s)\<rparr>"

definition count_sent :: "log_entry list \<Rightarrow> agent_values \<Rightarrow> agent_values" where
  "count_sent batch m = m\<lparr>av_BatchesSent := av_BatchesSent m + 1, av_EventsSent := av_EventsSent m + length batch\<rparr>"

definition count_send_error :: "agent_values \<Rightarrow> agent_values" where
  "count_send_error m = m\<lparr>av_SendErrors := av_SendErrors m + 1\<rparr>"

text \<open>After the push of \<open>deliverBatch\<close>, which left the spool \<open>t\<close>, and after an answer to its \<open>Send\<close>.\<close>

definition deliver_push_values :: "outcome \<Rightarrow> spool \<Rightarrow> agent_values \<Rightarrow> agent_values" where
  "deliver_push_values out t m = (if out = Spooled then set_spool_gauges t m else m)"

definition deliver_answer_values :: "send_error option \<Rightarrow> log_entry list \<Rightarrow> agent_values \<Rightarrow> agent_values" where
  "deliver_answer_values err batch m = (case err of None \<Rightarrow> count_sent batch m | Some _ \<Rightarrow> count_send_error m)"

text \<open>After an answer in the drain worker; \<open>t\<close> is the spool after \<open>Commit\<close> or \<open>Revert\<close>.\<close>

definition drain_answer_values :: "send_error option \<Rightarrow> batch_lease \<Rightarrow> spool \<Rightarrow> agent_values \<Rightarrow> agent_values" where
  "drain_answer_values err l t m =
     (case err of
        None \<Rightarrow> set_spool_gauges t (count_sent (bl_Events l) m)
      | Some _ \<Rightarrow> count_send_error m)"

section \<open>Facts\<close>

text \<open>Neither constructor panics, and each has registered all its collectors.\<close>

lemma metrics_registered:
  assumes "registers_distinct register"
  shows "\<exists>reg reg'. NewAgentMetrics register = Some (reg, agent_collectors) \<and> NewServerMetrics register = Some (reg', server_collectors) \<and>
    length reg = 9 \<and> length reg' = 9 \<and> distinct (map mt_Name (reg @ reg'))"
proof -
  let ?a = "let m = agent_collectors in [am_EventsReadTotal m, am_EventsParsedTotal m, am_ParseErrorsTotal m, am_EventsSentTotal m, am_SendErrorsTotal m,
              am_BatchesSentTotal m, am_SpoolBytes m, am_SpoolEvents m, am_SourcesActive m]"
  let ?s = "let m = server_collectors in [sm_EventsIngestedTotal m, sm_IngestErrorsTotal m, sm_EventsStoredTotal m, sm_WebsocketClients m,
              sm_WebsocketDisconnectsTotal m, sm_EventsBroadcastTotal m, sm_StorageBytes m, sm_QueryDuration m, sm_IngestDuration m]"
  have d: "distinct (map mt_Name (?a @ ?s))" by code_simp
  then have "distinct (map mt_Name ?a)" "distinct (map mt_Name ?s)" unfolding map_append distinct_append by blast+
  then have "register ?a = Some ?a" "register ?s = Some ?s" using assms unfolding registers_distinct_def by blast+
  with d show ?thesis by (intro exI [of _ ?a] exI [of _ ?s]) (simp add: NewAgentMetrics_def NewServerMetrics_def Let_def)
qed

lemma count_lines:
  fixes parse :: "string \<Rightarrow> ('e, log_entry) result" and src lines and m :: agent_values
  defines "m' \<equiv> fold (count_line parse src) lines m"
  shows "av_EventsRead m' src = av_EventsRead m src + length lines" and "av_EventsParsed m' src = av_EventsParsed m src + length lines"
    and "av_ParseErrors m' src = av_ParseErrors m src + length (filter (\<lambda>line. isl (parse line)) lines)"
    and "k \<noteq> src \<Longrightarrow> av_EventsRead m' k = av_EventsRead m k \<and> av_EventsParsed m' k = av_EventsParsed m k \<and> av_ParseErrors m' k = av_ParseErrors m k"
  unfolding m'_def
  by (induction lines arbitrary: m) (auto simp: count_line_def Inc_def Let_def split: sum.splits)

section \<open>Defects\<close>

text \<open>
  The counter of events that were successfully parsed counts the lines that did not parse too: it is always equal
  to the counter of lines read.
\<close>

lemma parsed_counts_failures:
  assumes "av_EventsParsed m src = av_EventsRead m src"
  shows "av_EventsParsed (fold (count_line parse src) lines m) src = av_EventsRead (fold (count_line parse src) lines m) src"
  using assms count_lines(1,2) [of parse src lines m] by simp

text \<open>When a batch is dropped as poison, the gauges keep the bytes and events of the batch that is gone.\<close>

lemma dropped_batch_in_gauges:
  "\<exists>out t. drain_answer no_faults (Some (ErrPermanent [])) ex_lease ex_spool3 = (out, t) \<and> out = Lost \<and>
     av_SpoolEvents (drain_answer_values (Some (ErrPermanent [])) ex_lease t (set_spool_gauges ex_spool3 m)) = 2 \<and> snd (Size t) = 1"
proof -
  have "case drain_answer no_faults (Some (ErrPermanent [])) ex_lease ex_spool3 of (out, t) \<Rightarrow> out = Lost \<and> snd (Size t) = 1" by code_simp
  moreover have "snd (Size ex_spool3) = 2" by code_simp
  ultimately show ?thesis by (auto simp: drain_answer_values_def count_send_error_def set_spool_gauges_def)
qed

end
