(* ===== verification/Commands.thy ===== *)
theory Commands
  imports ServerProps AgentRun Metrics
begin

text \<open>
  The two programs, \<open>cmd/barnacles-server/main.go\<close> and \<open>cmd/barnacles-agent/main.go\<close>: flags, configuration,
  construction, the run until the signal, and the exit code. A panic that nothing recovers from ends a Go program with
  the code 2. What happens until the signal is an argument: for the server the sequence of its events, for the
  agent the state its workers have reached.
\<close>

section \<open>Flags\<close>

record flags =
  fl_config :: "string option"
  fl_version :: bool

definition configPath :: "string \<Rightarrow> flags \<Rightarrow> string" where
  "configPath dflt fl = (case fl_config fl of Some path \<Rightarrow> path | None \<Rightarrow> dflt)"

definition version_line :: "string \<Rightarrow> string" where
  "version_line program = program @ '' version 0.1.0-dev\<newline>''"

section \<open>The server\<close>

record server_os =
  so_yaml :: "string \<Rightarrow> server_config \<Rightarrow> server_config \<times> bool"
  so_getenv :: "string \<Rightarrow> string option"
  so_read :: "string \<Rightarrow> string option"
  so_register :: registrar
  so_storeFaults :: store_faults
  so_stat :: "string \<Rightarrow> bool"
  so_now :: gotime
  so_disk :: disk
  so_listen :: "string option"

record server_exit =
  sx_code :: int
  sx_printed :: string
  sx_answers :: "writer list"
  sx_server :: "server option"

definition server_failed :: server_exit where
  "server_failed = \<lparr>sx_code = 1, sx_printed = '''', sx_answers = [], sx_server = None\<rparr>"

fun error_code :: "server_error option \<Rightarrow> int" where
  "error_code None = 0"
| "error_code (Some (ErrServerPanic p)) = 2"
| "error_code (Some err) = 1"

definition load_server :: "server_os \<Rightarrow> flags \<Rightarrow> config_error option \<times> server_config" where
  "load_server os fl =
     (let path = configPath ''config/server.yaml'' fl
      in LoadServerConfig (so_yaml os) (so_getenv os) path (so_read os path))"

definition server_main :: "server_os \<Rightarrow> flags \<Rightarrow> server_event list \<Rightarrow> server_exit option" where
  "server_main os fl evs =
     (if fl_version fl then Some (server_failed\<lparr>sx_code := 0, sx_printed := version_line ''barnacles-server''\<rparr>)
      else
        case load_server os fl of
          (Some err, _) \<Rightarrow> Some server_failed
        | (None, cfg) \<Rightarrow>
            (case NewServerMetrics (so_register os) of
               None \<Rightarrow> Some (server_failed\<lparr>sx_code := 2\<rparr>)
             | Some serverMetrics \<Rightarrow>
                 (case New_server (so_storeFaults os) (so_stat os) (so_now os) (so_disk os) False cfg of
                    Inl err \<Rightarrow> Some server_failed
                  | Inr sv \<Rightarrow>
                      map_option (\<lambda>(err, ws, sv'). \<lparr>sx_code = error_code err, sx_printed = '''', sx_answers = ws, sx_server = Some sv'\<rparr>)
                        (Start_server (so_listen os) evs sv))))"

section \<open>The agent\<close>

text \<open>Its own small server answers the two probes and the metrics.\<close>

definition agent_routes :: "(health_report \<Rightarrow> string) \<Rightarrow> gotime \<Rightarrow> http_response \<Rightarrow> gotime \<Rightarrow> (string \<times> http_response) list" where
  "agent_routes enc now metrics started =
     (let h = NewHandler_health started :: unit health_handler
      in [(''/healthz'', Healthz enc now h), (''/readyz'', Readyz enc h ()), (''/metrics'', metrics)])"

definition metrics_server :: "agent_config \<Rightarrow> string option" where
  "metrics_server cfg = (if ag_MetricsAddress (ac_Agent cfg) \<noteq> '''' then Some (ag_MetricsAddress (ac_Agent cfg)) else None)"

record agent_setup =
  as_yaml :: "string \<Rightarrow> agent_config \<Rightarrow> agent_config \<times> bool"
  as_getenv :: "string \<Rightarrow> string option"
  as_hostname :: "string option"
  as_read :: "string \<Rightarrow> string option"
  as_register :: registrar
  as_os :: agent_os

datatype agent_exit =
  AgentPrinted string
| AgentFailed
| AgentPanicked
| AgentRan workers

fun agent_code :: "agent_exit \<Rightarrow> int" where
  "agent_code (AgentPrinted s) = 0"
| "agent_code AgentFailed = 1"
| "agent_code AgentPanicked = 2"
| "agent_code (AgentRan w) = 0"

definition load_agent :: "agent_setup \<Rightarrow> flags \<Rightarrow> config_error option \<times> agent_config" where
  "load_agent su fl =
     (let path = configPath ''config/agent.yaml'' fl
      in LoadAgentConfig (as_yaml su) (as_getenv su) (as_hostname su) path (as_read su path))"

definition stopped :: "(collector \<Rightarrow> collector) \<Rightarrow> workers \<Rightarrow> workers" where
  "stopped stop w =
     w\<lparr>wk_collector := stop ((wk_collector w)\<lparr>co_spool := map_option (\<lambda>_. ag_spool (wk_pipe w)) (co_spool (wk_collector w))\<rparr>)\<rparr>"

text \<open>\<open>until_signal\<close> gives the state that the workers have reached when the signal comes, \<open>stop\<close> is \<open>Stop_agent\<close> with its arguments.\<close>

definition agent_main :: "agent_setup \<Rightarrow> flags \<Rightarrow> (workers \<Rightarrow> workers) \<Rightarrow> (collector \<Rightarrow> collector) \<Rightarrow> agent_exit" where
  "agent_main su fl until_signal stop =
     (if fl_version fl then AgentPrinted (version_line ''barnacles-agent'')
      else
        case load_agent su fl of
          (Some err, _) \<Rightarrow> AgentFailed
        | (None, cfg) \<Rightarrow>
            (case NewAgentMetrics (as_register su) of
               None \<Rightarrow> AgentPanicked
             | Some agentMetrics \<Rightarrow>
                 (case New_agent (as_os su) cfg of
                    Inl err \<Rightarrow> AgentFailed
                  | Inr a \<Rightarrow>
                      (case Start_agent (as_os su) a of
                         Inl err \<Rightarrow> AgentFailed
                       | Inr w0 \<Rightarrow> AgentRan (stopped stop (until_signal w0))))))"

section \<open>Runs of the server\<close>

fun request_clients :: "server_event list \<Rightarrow> nat list" where
  "request_clients [] = []"
| "request_clients (Request env r # evs) = re_client env # request_clients evs"
| "request_clients (_ # evs) = request_clients evs"

fun decoders_progress :: "server_event \<Rightarrow> bool" where
  "decoders_progress (Request env r) = pw_progress (lb_pw (re_lib env))"
| "decoders_progress _ = True"

lemma WritePump_chan:
  "ch_closed (snd (WritePump evs c)) = ch_closed c \<and> ch_cap (snd (WritePump evs c)) = ch_cap c \<and> length (ch_buf (snd (WritePump evs c))) \<le> length (ch_buf c)"
  by (induction evs c rule: WritePump.induct) (auto simp: WritePump_drain_def split: list.splits)

lemma client_writes_among:
  assumes "hub_among C (sv_ingest sv)"
  shows "\<exists>sv'. on_hub (client_writes c es) sv = Inr sv' \<and> hub_among C (sv_ingest sv')"
proof -
  obtain hb where hb: "h_hub (sv_ingest sv) = Some hb" "hub_inv hb" "set (hb_clients hb) \<subseteq> C" using assms by (auto simp: hub_among_def)
  have "hub_inv (hb\<lparr>hb_chan := (hb_chan hb)(c := snd (WritePump es (hb_chan hb c)))\<rparr>)"
    using hb(2) WritePump_chan [of es "hb_chan hb c"] by (auto simp: hub_inv_def)
  with hb show ?thesis by (simp add: on_hub_def client_writes_def hub_among_def)
qed

lemma client_gone_among:
  assumes "hub_among C (sv_ingest sv)"
  shows "\<exists>sv'. on_hub (ReadPump c) sv = Inr sv' \<and> hub_among C (sv_ingest sv')"
proof -
  obtain hb where hb: "h_hub (sv_ingest sv) = Some hb" "hub_inv hb" "set (hb_clients hb) \<subseteq> C" using assms by (auto simp: hub_among_def)
  obtain hb' where u: "Unregister c hb = Inr hb'" "hub_inv hb'" using Unregister_ok [OF hb(2), of c] by blast
  then have "set (hb_clients hb') \<subseteq> C" using hb(3) by (auto simp: Unregister_def split: if_splits sum.splits)
  with u hb show ?thesis by (simp add: on_hub_def ReadPump_def hub_among_def)
qed

lemma retention_among: "hub_among C (sv_ingest (retention_step cd hjson ev sv)) = hub_among C (sv_ingest sv)"
  by (simp add: retention_step_def set_store_def split: option.split)

abbreviation answered :: "writer \<Rightarrow> bool" where
  "answered w \<equiv> wr_code w \<noteq> None \<or> wr_hijacked w"

lemma run_server_answers:
  assumes "hub_among C (sv_ingest sv)" and "distinct (request_clients evs)" and "C \<inter> set (request_clients evs) = {}" and "list_all decoders_progress evs"
  shows "\<exists>ws sv'. run_server evs sv = Some (None, ws, sv') \<and> length ws = length (request_clients evs) \<and> list_all answered ws \<and> hub_there (sv_ingest sv')"
  using assms
proof (induction evs sv arbitrary: C rule: run_server.induct)
  case (1 sv)
  then show ?case using hub_among_mono by auto
next
  case (2 env r evs sv)
  obtain w sv1 where h: "server_handler (sc_Auth (sv_cfg sv)) env r (fresh_writer, sv) = Some (None, w, sv1)" "answered w"
      "hub_among (insert (re_client env) C) (sv_ingest sv1)"
    using requests_answered [of C sv env "sc_Auth (sv_cfg sv)" r] "2.prems" by (auto simp: served_ok_def)
  from "2.IH" [OF h(1) refl refl h(3)] "2.prems" obtain ws sv' where
    "run_server evs sv1 = Some (None, ws, sv')" "length ws = length (request_clients evs)" "list_all answered ws" "hub_there (sv_ingest sv')" by auto
  with h show ?case by simp
next
  case (3 cd hjson ev evs sv)
  then show ?case by (simp add: retention_among)
next
  case (4 c es evs sv)
  then show ?case using client_writes_among [of C sv c es] by auto
next
  case (5 c evs sv)
  then show ?case using client_gone_among [of C sv c] by auto
qed

lemma New_server_fails:
  assumes "load_server os fl = (None, cfg)"
  shows "isl (New_server flt stat now d static cfg) = isl (NewFileStore flt (sg_Directory (sc_Storage cfg)) d)"
proof -
  have "Validate_server cfg = (None, cfg)"
    using server_config_valid [OF assms [unfolded load_server_def Let_def]] by blast
  then show ?thesis by (auto simp: New_server_def Let_def split: sum.split)
qed

section \<open>Properties\<close>

text \<open>
  C4. The server process runs to its end: whatever requests, retention ticks and client actions come in whatever
  order until the signal, it ends, and never by a panic. Its exit code is 1 exactly when the
  configuration is refused, the store cannot be opened or the listener fails. With code 0 it has answered
  every request with a status or a WebSocket, has disconnected every client, and has closed hub and store.
\<close>

theorem server_process:
  assumes "distinct (request_clients evs)" and "list_all decoders_progress evs" and "registers_distinct (so_register os)"
  shows "\<exists>x. server_main os fl evs = Some x \<and> sx_code x \<in> {0, 1} \<and>
    (sx_code x = 1 \<longleftrightarrow> \<not> fl_version fl \<and> (fst (load_server os fl) \<noteq> None \<or> so_listen os \<noteq> None \<or>
      isl (NewFileStore (so_storeFaults os) (sg_Directory (sc_Storage (snd (load_server os fl)))) (so_disk os)))) \<and>
    (sx_code x = 0 \<and> \<not> fl_version fl \<longrightarrow> length (sx_answers x) = length (request_clients evs) \<and> list_all answered (sx_answers x) \<and>
      (\<exists>sv hb. sx_server x = Some sv \<and> h_hub (sv_ingest sv) = Some hb \<and> hb_closed hb \<and> hb_clients hb = [] \<and> fs_closed (sv_store sv)))"
proof (cases "fl_version fl \<or> fst (load_server os fl) \<noteq> None")
  case True
  then show ?thesis by (auto simp: server_main_def server_failed_def split: prod.split)
next
  case False
  obtain m where m: "NewServerMetrics (so_register os) = Some m" using metrics_registered [OF assms(3)] by blast
  from False obtain cfg where cfg: "load_server os fl = (None, cfg)" by (cases "load_server os fl") auto
  let ?new = "New_server (so_storeFaults os) (so_stat os) (so_now os) (so_disk os) False cfg"
  note fails = New_server_fails [OF cfg, of "so_storeFaults os" "so_stat os" "so_now os" "so_disk os" False]
  show ?thesis
  proof (cases ?new)
    case (Inl err)
    then show ?thesis using False cfg fails m by (simp add: server_main_def server_failed_def)
  next
    case (Inr sv)
    then have "hub_among {} (sv_ingest sv)" using New_server_ok by blast
    from run_server_answers [OF this assms(1) _ assms(2)] obtain ws sv1 where
      run: "run_server evs sv = Some (None, ws, sv1)" "length ws = length (request_clients evs)" "list_all answered ws" "hub_there (sv_ingest sv1)"
      by blast
    obtain sv2 hb where "shutdown sv1 = Inr sv2" "h_hub (sv_ingest sv2) = Some hb" "hb_closed hb" "hb_clients hb = []" "fs_closed (sv_store sv2)"
      using shutdown_closes [OF run(4)] by blast
    with run Inr False cfg fails m show ?thesis by (simp add: server_main_def Start_server_def split: option.split)
  qed
qed

definition ex_server_os :: server_os where
  "ex_server_os = \<lparr>so_yaml = (\<lambda>s c. (c, False)), so_getenv = (\<lambda>n. None), so_read = (\<lambda>p. Some ''''), so_register = Some, so_storeFaults = (\<lambda>c. False),
     so_stat = (\<lambda>p. False), so_now = zero_time, so_disk = [], so_listen = None\<rparr>"

abbreviation ex_flags :: flags where
  "ex_flags \<equiv> \<lparr>fl_config = None, fl_version = False\<rparr>"

theorem server_process_witness:
  "\<exists>x. server_main ex_server_os ex_flags [Request ex_web_env (ex_get ''t''), ClientGone 0] = Some x \<and> sx_code x = 0 \<and> length (sx_answers x) = 1"
proof -
  let ?evs = "[Request ex_web_env (ex_get ''t''), ClientGone 0]"
  have "pw_progress (lb_pw (re_lib ex_web_env))" by (auto simp: pw_progress_def ex_web_env_def ex_lib_def unary_wire_def Let_def)
  then have "list_all decoders_progress ?evs" by simp
  moreover have "fst (load_server ex_server_os ex_flags) = None \<and> so_listen ex_server_os = None \<and>
      \<not> isl (NewFileStore (so_storeFaults ex_server_os) (sg_Directory (sc_Storage (snd (load_server ex_server_os ex_flags)))) (so_disk ex_server_os))"
    by code_simp
  ultimately show ?thesis using server_process [of ?evs ex_server_os ex_flags] by (auto simp: registers_distinct_def ex_server_os_def)
qed

section \<open>The exit code of the agent\<close>

definition does_not_compile :: "agent_os \<Rightarrow> agent_config \<Rightarrow> source_config \<Rightarrow> bool" where
  "does_not_compile os cfg src \<longleftrightarrow>
     (case source_parser os cfg src of Inl err \<Rightarrow> err = ErrCompile | Inr _ \<Rightarrow> False) \<or>
     is_pattern (sr_Path src) \<and> Option.is_none (GlobToRegexp (ao_glob os) (sr_Path src))"

lemma start_source_fails:
  assumes "source_ok src"
  shows "fst (start_source os src a) \<noteq> None \<longleftrightarrow> does_not_compile os (co_cfg a) src"
proof -
  have path: "TrimSpace (sr_Path src) \<noteq> []" "sr_Path src \<noteq> []" using assms by (auto simp: source_ok_def)
  have p: "source_parser os cfg src = Inl e \<Longrightarrow> e = ErrCompile" for cfg e
    using assms source_format [OF assms]
    by (auto simp: source_parser_def New_parser_def source_ok_def NewRegexpParser_def Let_def split: if_splits option.splits)
  show ?thesis using p path
    by (auto simp: start_source_def does_not_compile_def Option.is_none_def NewManager_def New_tailer_def Let_def split: sum.splits option.splits)
qed

lemma start_source_cfg: "start_source os src a = (e, a') \<Longrightarrow> co_cfg a' = co_cfg a"
  by (auto simp: start_source_def split: sum.splits if_splits)

lemma start_sources_fails:
  assumes "\<forall>src\<in>set srcs. source_ok src"
  shows "fst (start_sources os srcs a) \<noteq> None \<longleftrightarrow> (\<exists>src\<in>set srcs. does_not_compile os (co_cfg a) src)"
  using assms
proof (induction os srcs a rule: start_sources.induct)
  case (2 os src srcs a)
  obtain e a' where s: "start_source os src a = (e, a')" by fastforce
  with 2 start_source_fails [of src os a] start_source_cfg [OF s] show ?case by (cases e) auto
qed simp

text \<open>
  C38. The agent starts whenever it can: after a configuration was loaded and the agent constructed, the process
  fails exactly when the expression of some source, or the pattern of its path, does not compile; there is no other
  reason. Its exit code is 1 exactly in this case and when loading or construction failed.
\<close>

theorem agent_process:
  assumes "registers_distinct (as_register su)"
  shows "agent_code (agent_main su fl until_signal stop) = 1 \<longleftrightarrow> \<not> fl_version fl \<and>
    (case load_agent su fl of
       (Some err, _) \<Rightarrow> True
     | (None, cfg) \<Rightarrow>
         (case New_agent (as_os su) cfg of
            Inl err \<Rightarrow> True
          | Inr a \<Rightarrow> (\<exists>src\<in>set (ac_Sources (co_cfg a)). does_not_compile (as_os su) (co_cfg a) src)))"
proof (cases "load_agent su fl")
  case load: (Pair e cfg)
  obtain m where m: "NewAgentMetrics (as_register su) = Some m" using metrics_registered [OF assms] by blast
  show ?thesis
  proof (cases "New_agent (as_os su) cfg")
    case (Inr a)
    have "\<forall>src\<in>set (ac_Sources (co_cfg a)). source_ok src" using New_agent_ok [OF Inr] by (simp add: agent_ok_def list_all_iff)
    from start_sources_fails [OF this, of "as_os su" a]
    have "isl (Start_agent (as_os su) a) \<longleftrightarrow> (\<exists>src\<in>set (ac_Sources (co_cfg a)). does_not_compile (as_os su) (co_cfg a) src)"
      by (auto simp: Start_agent_def split: prod.splits option.splits)
    with load Inr m show ?thesis
      by (cases e; cases "Start_agent (as_os su) a") (auto simp: agent_main_def Let_def)
  qed (use load m in \<open>auto simp: agent_main_def split: option.split\<close>)
qed

definition ex_setup :: "source_config \<Rightarrow> agent_setup" where
  "ex_setup src = \<lparr>as_yaml = (\<lambda>s c. (c\<lparr>ac_Sources := [src]\<rparr>, False)), as_getenv = (\<lambda>n. None), as_hostname = Some ''web'',
     as_read = (\<lambda>p. Some ''''), as_register = Some, as_os = ex_os\<rparr>"

theorem agent_process_witness:
  "agent_code (agent_main (ex_setup ex_source) ex_flags id id) \<noteq> 1 \<and>
   agent_code (agent_main (ex_setup (ex_source\<lparr>sr_Format := ''regexp'', sr_Pattern := ''(''\<rparr>)) ex_flags id id) = 1"
proof -
  let ?bad = "ex_source\<lparr>sr_Format := ''regexp'', sr_Pattern := ''(''\<rparr>"
  have load: "list_all (\<lambda>src. case load_agent (ex_setup src) ex_flags of (Some _, _) \<Rightarrow> False | (None, cfg) \<Rightarrow>
      (case New_agent ex_os cfg of Inl _ \<Rightarrow> False
       | Inr a \<Rightarrow> list_ex (does_not_compile ex_os (co_cfg a)) (ac_Sources (co_cfg a)) \<longleftrightarrow> src = ?bad)) [ex_source, ?bad]" by code_simp
  have ne: "ex_source \<noteq> ?bad" by (simp add: ex_source_def)
  have r: "registers_distinct (as_register (ex_setup src))" "as_os (ex_setup src) = ex_os" for src by (simp_all add: registers_distinct_def ex_setup_def)
  show ?thesis
    using agent_process [OF r(1), of ex_source ex_flags id id] agent_process [OF r(1), of ?bad ex_flags id id] load ne
    by (auto simp: r list_ex_iff split: prod.splits option.splits sum.splits)
qed

section \<open>Defects\<close>

text \<open>The readiness probe of the agent has no checker: it answers 200 whatever the state of spool, sources and server.\<close>

lemma agent_always_ready:
  "\<exists>resp. map_of (agent_routes enc now metrics started) ''/readyz'' = Some resp \<and> rs_code resp = 200"
  by (simp add: agent_routes_def Let_def Readyz_def NewHandler_health_def json_answer_def)

end
