(* ===== verification/Spec2Isabelle.thy ===== *)
theory Spec2Isabelle
  imports SpoolRuns HashRing RecentBuffer StoreFindings Coordinator TailerRuns FileIdentity Tiered Commands
begin

text \<open>
  \<^bold>\<open>barnacles\<close> collects log lines on hosts (the agent), ships them over HTTP to a server and stores,
  streams and queries them there; servers can form a cluster. This development models the Go code
  under \<open>src/internal\<close> and \<open>src/cmd\<close> and proves what makes it correct, and where it is not, what it does instead.

  \<^bold>\<open>The parts and how they interact.\<close> On a host, tailers follow the files of the configured sources (\<open>tailer\<close>,
  with managers for glob patterns and a registry of checkpoints), parsers turn lines into entries
  (\<open>parser\<close>, \<open>logentry\<close>), the batch worker groups them, and \<open>deliverBatch\<close> sends a batch (\<open>sender\<close>) or puts it into
  the durable \<open>spool\<close>, which a second worker drains under leases. On the server the middleware
  authenticates a request and the routes hand it to a handler (\<open>server\<close>); the ingest handler decodes it
  (\<open>protocol\<close>, OTLP), validates, removes duplicates (\<open>dedup\<close>), appends to the store (\<open>filesystem\<close>, with blocks and
  per-hour indexes) and broadcasts to live clients (\<open>stream\<close>); a worker prunes and compacts the store,
  and partitions can be archived (\<open>tiered\<close>). In a cluster a hash ring assigns keys to nodes, the
  router splits batches, the coordinator merges queries.

  \<^bold>\<open>Theories.\<close>
  \<^item> \<open>Prelude\<close>: Go's integers, strings, times and maps; lemmas on them shared by all. \<open>Config\<close> (\<open>config.go\<close>):
    defaults, validation, expansion of the environment. Shown: what loads is well-formed.
  \<^item> \<open>LogEntry\<close> (\<open>logentry.go\<close>): entry, validation, query normal form, the match predicate.
  \<^item> \<open>Checkpoint\<close> (\<open>checkpoint.go\<close>, locale \<open>positions\<close>, interpretation \<open>cp\<close>), \<open>Tailer\<close> and \<open>TailerRuns\<close> (\<open>tailer.go\<close>): one poll with
    rotation, truncation and partial lines, and runs of polls. Shown: exactly the complete lines, rotation
    and restart without loss at line boundaries, durable checkpoints, and four defects. \<open>FileIdentity\<close>
    (\<open>open_other.go\<close>, \<open>identity_other.go\<close> and those for Windows): what a poll learns when it opens a file.
  \<^item> \<open>Glob\<close> and \<open>Manager\<close> (\<open>manager.go\<close>): the translation of globs, which means matching component by component,
    and the set of tailers, which a scan keeps equal to the matching files.
  \<^item> \<open>Parser\<close> (\<open>internal/parser\<close>, locale \<open>line_parser\<close>, interpretation \<open>lp\<close>): the four line formats. Shown:
    independence of the order of a Go map, and that the automatic parser keeps every line.
  \<^item> \<open>LeaseQueue\<close>: the contract of the agent's buffer, a FIFO with leases (locale \<open>lease_queue\<close>). \<open>Spool\<close> and
    \<open>SpoolRuns\<close> (\<open>spool.go\<close>): every operation with I/O faults, and runs with crashes and restarts;
    interpretation \<open>sq\<close>. Shown: FIFO, no loss, crash recovery, exact accounting, eviction of the
    oldest, the lease protocol.
  \<^item> \<open>Sender\<close> (\<open>sender.go\<close>), \<open>Agent\<close> (\<open>agent.go\<close>): batching, delivery and drain as atomic pieces; \<open>agent_step\<close>
    interleaves the two workers arbitrarily, \<open>direct_step\<close> is the delivery without a spool (locale \<open>batch_pipeline\<close>,
    interpretations \<open>spooled\<close> and \<open>direct\<close>). Shown: strict FIFO of acknowledged batches, complete
    batching, the shape of the retry delay, and that a failed rename stops delivery. \<open>AgentStart\<close>: construction,
    start and stop of the sources, and the way of a line from a tailer to an entry the server accepts.
    \<open>AgentRun\<close>: all workers of the agent together (\<open>work_step\<close>), from the files through channel, batch, spool and
    \<open>Send\<close> to the acknowledgement. Shown: entries leave in the order they were read, after the backlog of
    the predecessor, and only batches given up or evicted are missing.
  \<^item> \<open>Metrics\<close> (\<open>metrics.go\<close>): the collectors, and the values the workers of the agent keep. \<open>Commands\<close> (\<open>src/cmd\<close>): both
    programs from flags to exit code. Shown: when each fails, and that the server answers every request of
    its run, whatever else happens, and closes hub and store in the end.
  \<^item> \<open>Protobuf\<close> (\<open>protobuf.go\<close>), \<open>Otlp\<close> (\<open>otlp.go\<close>): codecs, round trip, termination and completeness.
  \<^item> \<open>Dedup\<close> (\<open>dedup.go\<close>): linked list, index and lazy expiry refine a recency list.
  \<^item> \<open>RecentBuffer\<close> (\<open>recent.go\<close>, locale \<open>recent_log\<close>, interpretation \<open>rb\<close>), \<open>Hub\<close> (\<open>hub.go\<close>, \<open>client.go\<close>): the ring
    buffer, channels with close and panics, broadcast. Shown: the snapshot is the last entries,
    no panic in reachable states, delivery or disconnection, and two races.
  \<^item> \<open>Block\<close> (\<open>block.go\<close>), \<open>Partition\<close> (\<open>index.go\<close>), \<open>FileStore\<close> and \<open>Maintenance\<close> (\<open>filesystem.go\<close>, \<open>retention.go\<close>): the
    store. \<open>StoreProps\<close>, \<open>StoreQuery\<close>, \<open>StoreDurable\<close>, \<open>StoreFindings\<close> hold its invariant \<open>store_ok\<close>, exact
    answers of queries, safety of append and compaction under faults, restart, and the defects
    of pruning. \<open>LogStore\<close> is the contract of a store for its writers (locale \<open>log_store\<close>), which the
    filesystem store provides (interpretation \<open>fs\<close>). \<open>Tiered\<close> (\<open>tiered.go\<close>, locale \<open>object_store\<close>, interpretation \<open>la\<close>): the
    archive; archiving and restoring a partition is lossless.
  \<^item> \<open>Ingest\<close> (\<open>handler.go\<close>): both endpoints. Client of \<open>log_store\<close>: what is acknowledged is stored once; and
    the loss of a batch retried after a storage error. \<open>EndToEnd\<close>: \<open>Send\<close> composed with \<open>ServeHTTP\<close>.
  \<^item> \<open>Health\<close> (\<open>health.go\<close>), \<open>Server\<close> and \<open>ServerProps\<close> (\<open>middleware.go\<close>, \<open>routes.go\<close>, \<open>server.go\<close>): handlers as functions on a
    response writer and the server's state, the middleware as functions on handlers; \<open>run_server\<close> has
    the events of a run. Shown: every request is answered, nothing is revealed or changed without a token, and a batch from the
    agent's sender is found by a query over HTTP.
  \<^item> \<open>HashRing\<close> (\<open>hashring.go\<close>): successor lookup, minimal disruption, replicas, determinism. \<open>Router\<close>
    (\<open>router.go\<close>), another client of \<open>log_store\<close>, and \<open>Coordinator\<close> (\<open>coordinator.go\<close>).

  \<^bold>\<open>Conventions.\<close> State is a record, passed and returned; errors are values of sum or option types.
  An \<open>int\<close> of Go is \<open>int\<close>, with the wrap-around of 64 bits written out where a computation can reach
  it; hashes and level masks are words. A string is the list of its bytes. A Go map is an
  association list in the order of one iteration over it. Third-party code (UUIDs, xxhash, zstd,
  protowire, JSON, YAML, regular expressions) is an argument, with what the code relies on as a named predicate
  (\<open>json_faithful\<close>, \<open>codec_faithful\<close>, \<open>index_faithful\<close>, \<open>pw_faithful\<close>, \<open>pw_progress\<close>,
  \<open>compressors_match\<close>, \<open>ck_faithful\<close>, \<open>compiles_fragment\<close>, \<open>registers_distinct\<close>), each satisfied by a concrete
  instance in a witness. \<open>time.Now\<close> and random values are arguments; I/O faults and cancelled contexts
  are oracle arguments (\<open>faults\<close>, \<open>store_faults\<close>) that may fail any call. An operation under a
  mutex is one step; what happens between critical sections is a separate step. Loops over
  decoded bytes are \<open>partial_function\<close>s in the option monad and proved to return; all other loops
  terminate and are total functions, so there is no fuel.

  \<^bold>\<open>Not modelled.\<close> Logging, the metrics of the server (but for their registration) and the WebSocket connections
  themselves are left out: they only call libraries. Percent-encoded paths, TLS and timeouts of the
  listener are not modelled, nor are deadlines (a call returns or fails at any time); requests are served one
  after the other, with the races between critical sections of the hub as steps of their own. A write
  that fails part-way leaves either no file or a file the code removes, and index lines are written
  whole or not at all.
\<close>

end
